(* ===== verification/Prelude.thy ===== *)
theory Prelude
  imports Main "HOL-Library.Word"
begin

text \<open>
  Shared vocabulary of the development.

  Every routine of the kernel that can abort is a function into \<open>'a run\<close>: \<open>Inr v\<close> is
  a normal return with value \<open>v\<close>, \<open>Inl f\<close> the abnormal end \<open>f\<close>.  \<open>ASSERT\<close> models
  the macro of \<^verbatim>\<open>lib/debug.h\<close> (print a message and \<open>Abort()\<close>); array accesses outside
  an allocated object are the fault \<open>OutOfBounds\<close>, and dereferencing NULL or a freed
  object is \<open>BadPointer\<close>.  \<open>Uninitialised\<close> is the use of a field no constructor has set, and
  \<open>Diverges\<close> the value of a pointer walk that can not end.  \<open>ArithTrap\<close> is the trap of the host
  processor on an integer division whose quotient does not fit, and \<open>BadAlloc\<close> the exception of \<open>new\<close>
  for an array of negative length.

  The second half holds the helpers of \<^verbatim>\<open>lib/utility.h\<close>, bounded loops, the C string
  routines the kernel calls, and the generic lemmas the component theories share.
\<close>

section \<open>Results, assertions and array accesses\<close>

datatype fault = AssertFail | OutOfBounds | BadPointer | Uninitialised | Diverges | ArithTrap | BadAlloc

type_synonym 'a run = "fault + 'a"

definition bind_run :: "'a run \<Rightarrow> ('a \<Rightarrow> 'b run) \<Rightarrow> 'b run" where
  "bind_run m f = (case m of Inl e \<Rightarrow> Inl e | Inr x \<Rightarrow> f x)"

definition ASSERT :: "bool \<Rightarrow> 'a run \<Rightarrow> 'a run" where
  "ASSERT c k = (if c then k else Inl AssertFail)"

definition get_at :: "'a list \<Rightarrow> int \<Rightarrow> 'a run" where
  "get_at xs i = (if 0 \<le> i \<and> i < int (length xs) then Inr (xs ! nat i) else Inl OutOfBounds)"

definition set_at :: "'a list \<Rightarrow> int \<Rightarrow> 'a \<Rightarrow> 'a list run" where
  "set_at xs i v =
     (if 0 \<le> i \<and> i < int (length xs) then Inr (xs[nat i := v]) else Inl OutOfBounds)"

definition deref :: "'a option \<Rightarrow> 'a run" where
  "deref p = (case p of None \<Rightarrow> Inl BadPointer | Some x \<Rightarrow> Inr x)"

section \<open>Bounded loops\<close>

text \<open>
  \<open>for_each body is s\<close> is \<^verbatim>\<open>for (i in is) body\<close> over the state \<open>s\<close>; \<open>count_to n\<close>
  lists the values of \<open>i\<close> in \<^verbatim>\<open>for (int i = 0; i < n; i++)\<close>.
\<close>

fun for_each :: "('i \<Rightarrow> 's \<Rightarrow> 's run) \<Rightarrow> 'i list \<Rightarrow> 's \<Rightarrow> 's run" where
  "for_each body [] s = Inr s"
| "for_each body (i # is) s = bind_run (body i s) (for_each body is)"

definition count_to :: "int \<Rightarrow> int list" where
  "count_to n = map int [0..<nat n]"

section \<open>Arithmetic macros of utility.h\<close>

text \<open>The operands are non-negative at every use, where C's \<open>/\<close> and \<open>%\<close> are \<open>div\<close> and \<open>mod\<close>.\<close>

definition divRoundDown :: "int \<Rightarrow> int \<Rightarrow> int" where
  "divRoundDown n s = n div s"

definition divRoundUp :: "int \<Rightarrow> int \<Rightarrow> int" where
  "divRoundUp n s = n div s + (if n mod s > 0 then 1 else 0)"

section \<open>Collections and automation\<close>

named_theorems run_simps "evaluation of the result type and of the array accesses"
named_theorems inv_defs "the definitions of the components' invariants"

lemma bind_run_Inl [simp]: "bind_run (Inl e) f = Inl e"
  by (simp add: bind_run_def)

lemma bind_run_Inr [simp]: "bind_run (Inr x) f = f x"
  by (simp add: bind_run_def)

lemma bind_run_eq_Inr_iff [run_simps]:
  "bind_run m f = Inr y \<longleftrightarrow> (\<exists>x. m = Inr x \<and> f x = Inr y)"
  by (cases m) auto

lemma bind_run_assoc: "bind_run (bind_run m f) g = bind_run m (\<lambda>x. bind_run (f x) g)"
  by (cases m) auto

lemma ASSERT_True [simp]: "ASSERT True k = k"
  by (simp add: ASSERT_def)

lemma ASSERT_False [simp]: "ASSERT False k = Inl AssertFail"
  by (simp add: ASSERT_def)

lemma ASSERT_eq_Inr_iff [run_simps]: "ASSERT c k = Inr y \<longleftrightarrow> c \<and> k = Inr y"
  by (simp add: ASSERT_def)

lemma ASSERT_cong [cong]: "c = c' \<Longrightarrow> (c' \<Longrightarrow> k = k') \<Longrightarrow> ASSERT c k = ASSERT c' k'"
  by (simp add: ASSERT_def)

lemma get_at_in [simp]: "0 \<le> i \<Longrightarrow> i < int (length xs) \<Longrightarrow> get_at xs i = Inr (xs ! nat i)"
  by (simp add: get_at_def)

lemma set_at_in [simp]:
  "0 \<le> i \<Longrightarrow> i < int (length xs) \<Longrightarrow> set_at xs i v = Inr (xs[nat i := v])"
  by (simp add: set_at_def)

lemma get_at_eq_Inr_iff [run_simps]:
  "get_at xs i = Inr x \<longleftrightarrow> 0 \<le> i \<and> i < int (length xs) \<and> x = xs ! nat i"
  by (auto simp: get_at_def)

lemma set_at_eq_Inr_iff [run_simps]:
  "set_at xs i v = Inr ys \<longleftrightarrow> 0 \<le> i \<and> i < int (length xs) \<and> ys = xs[nat i := v]"
  by (auto simp: set_at_def)

lemma deref_Some [simp]: "deref (Some x) = Inr x"
  by (simp add: deref_def)

lemma deref_None [simp]: "deref None = Inl BadPointer"
  by (simp add: deref_def)

lemma deref_eq_Inr_iff [run_simps]: "deref p = Inr x \<longleftrightarrow> p = Some x"
  by (cases p) auto

lemma for_each_append:
  "for_each body (xs @ ys) s = bind_run (for_each body xs s) (for_each body ys)"
proof (induction xs arbitrary: s)
  case (Cons x xs)
  then show ?case by (cases "body x s") simp_all
qed simp

text \<open>
  The loop rule: an invariant indexed by the elements already visited, which every
  iteration keeps without a fault, holds at the end, and the loop ends without one.
\<close>

lemma for_each_inv:
  assumes "P [] s"
    and "\<And>xs i ys s. is = xs @ i # ys \<Longrightarrow> P xs s \<Longrightarrow> \<exists>s'. body i s = Inr s' \<and> P (xs @ [i]) s'"
  shows "\<exists>s'. for_each body is s = Inr s' \<and> P is s'"
proof -
  have "\<exists>s'. for_each body ys s = Inr s' \<and> P is s'" if "is = xs @ ys" "P xs s" for xs ys s
    using that
  proof (induction ys arbitrary: xs s)
    case Nil
    then show ?case by simp
  next
    case (Cons i ys)
    from assms(2)[OF Cons.prems] obtain s' where s': "body i s = Inr s'" "P (xs @ [i]) s'"
      by blast
    from Cons.IH[of "xs @ [i]" s'] Cons.prems s' show ?case
      by simp
  qed
  from this[of "[]" "is" s] assms(1) show ?thesis by simp
qed

lemma length_count_to [simp]: "length (count_to n) = nat n"
  by (simp add: count_to_def)

lemma set_count_to [simp]: "set (count_to n) = {0..<n}"
  by (auto simp: count_to_def image_iff intro!: bexI[of _ "nat x" for x])

lemma nth_count_to [simp]: "k < nat n \<Longrightarrow> count_to n ! k = int k"
  by (simp add: count_to_def)

lemma distinct_count_to [simp]: "distinct (count_to n)"
  by (simp add: count_to_def distinct_map)

lemma count_to_split:
  assumes "count_to n = xs @ i # ys"
  shows "i = int (length xs)" and "xs = count_to (int (length xs))" and "i < n"
proof -
  have len: "length xs < nat n"
    using arg_cong[OF assms, of length] by simp
  have "count_to n ! length xs = i"
    by (simp add: assms)
  with len show "i = int (length xs)" and "i < n" by auto
  have "take (length xs) (count_to n) = xs"
    by (simp add: assms)
  then show "xs = count_to (int (length xs))"
    using len by (auto simp: count_to_def take_map)
qed

lemma divRoundUp_bounds:
  assumes "0 < s"
  shows "n \<le> s * divRoundUp n s" and "s * divRoundUp n s < n + s"
proof -
  have eq: "s * (n div s) + n mod s = n" by simp
  have m: "0 \<le> n mod s" "n mod s < s" using assms by auto
  have "s * divRoundUp n s = s * (n div s) + s \<and> n mod s > 0 \<or>
        s * divRoundUp n s = s * (n div s) \<and> n mod s = 0"
    using m by (simp add: divRoundUp_def distrib_left)
  with eq m assms show "n \<le> s * divRoundUp n s" and "s * divRoundUp n s < n + s"
    by linarith+
qed

lemma divRoundUp_index:
  assumes "0 < s" "0 \<le> i" "i < n"
  shows "i div s < divRoundUp n s"
proof -
  have "i < s * divRoundUp n s"
    using divRoundUp_bounds(1)[OF assms(1), of n] assms(3) by linarith
  moreover have "s * (i div s) + i mod s = i" and "0 \<le> i mod s"
    using assms(1) by simp_all
  ultimately have "s * (i div s) < s * divRoundUp n s" by linarith
  with assms(1) show ?thesis by simp
qed

end
