(* ===== verification/BitmapLib.thy ===== *)
theory BitmapLib
  imports Prelude
begin

text \<open>
  The bit map of \<^verbatim>\<open>lib/bitmap.h\<close> and \<^verbatim>\<open>lib/bitmap.cc\<close>: an array of 32-bit words, one bit
  per item, which the kernel uses to hand out physical pages, process slots, semaphore slots
  and disk sectors.  The operations are modelled on the words, with every ASSERT and every
  array access; \<open>bit_used\<close> is the abstract view (which items are taken), and the lemmas
  show that each operation implements its meaning on that view.

  The locale \<open>slot_allocator\<close> is the interface the clients rely on; it is interpreted here on
  the word-level operations.
\<close>

unbundle bit_operations_syntax

section \<open>The data structure and its operations\<close>

definition BitsInWord :: int where
  "BitsInWord = 32"

record Bitmap =
  numBits :: int
  numWords :: int
  bmap :: "32 word list"

definition Bitmap_Test :: "Bitmap \<Rightarrow> int \<Rightarrow> bool run" where
  "Bitmap_Test b which =
     ASSERT (which \<ge> 0 \<and> which < numBits b)
      (bind_run (get_at (bmap b) (which div BitsInWord))
        (\<lambda>w. Inr (w AND push_bit (nat (which mod BitsInWord)) 1 \<noteq> 0)))"

definition Bitmap_Mark :: "Bitmap \<Rightarrow> int \<Rightarrow> Bitmap run" where
  "Bitmap_Mark b which =
     ASSERT (which \<ge> 0 \<and> which < numBits b)
      (bind_run (get_at (bmap b) (which div BitsInWord)) (\<lambda>w.
       bind_run (set_at (bmap b) (which div BitsInWord)
                  (w OR push_bit (nat (which mod BitsInWord)) 1)) (\<lambda>ws.
       let b' = b\<lparr>bmap := ws\<rparr> in
       bind_run (Bitmap_Test b' which) (\<lambda>t. ASSERT t (Inr b')))))"

definition Bitmap_Clear :: "Bitmap \<Rightarrow> int \<Rightarrow> Bitmap run" where
  "Bitmap_Clear b which =
     ASSERT (which \<ge> 0 \<and> which < numBits b)
      (bind_run (get_at (bmap b) (which div BitsInWord)) (\<lambda>w.
       bind_run (set_at (bmap b) (which div BitsInWord)
                  (w AND NOT (push_bit (nat (which mod BitsInWord)) 1))) (\<lambda>ws.
       let b' = b\<lparr>bmap := ws\<rparr> in
       bind_run (Bitmap_Test b' which) (\<lambda>t. ASSERT (\<not> t) (Inr b')))))"

text \<open>The constructor: the words are zeroed, and then every bit is cleared by \<open>Clear\<close>.\<close>

definition Bitmap_new :: "int \<Rightarrow> Bitmap run" where
  "Bitmap_new numItems =
     ASSERT (numItems > 0)
      (let nw = divRoundUp numItems BitsInWord in
       for_each (\<lambda>i b. Bitmap_Clear b i) (count_to numItems)
         \<lparr>numBits = numItems, numWords = nw, bmap = replicate (nat nw) 0\<rparr>)"

fun find_clear :: "Bitmap \<Rightarrow> int list \<Rightarrow> (int \<times> Bitmap) run" where
  "find_clear b [] = Inr (-1, b)"
| "find_clear b (i # is) =
     bind_run (Bitmap_Test b i) (\<lambda>t.
       if \<not> t then bind_run (Bitmap_Mark b i) (\<lambda>b'. Inr (i, b'))
       else find_clear b is)"

definition Bitmap_FindAndSet :: "Bitmap \<Rightarrow> (int \<times> Bitmap) run" where
  "Bitmap_FindAndSet b = find_clear b (count_to (numBits b))"

definition Bitmap_NumClear :: "Bitmap \<Rightarrow> int run" where
  "Bitmap_NumClear b =
     for_each (\<lambda>i count. bind_run (Bitmap_Test b i)
                            (\<lambda>t. Inr (if \<not> t then count + 1 else count)))
       (count_to (numBits b)) 0"

definition Bitmap_SelfTest :: "Bitmap \<Rightarrow> Bitmap run" where
  "Bitmap_SelfTest b =
     ASSERT (numBits b \<ge> BitsInWord)
      (bind_run (Bitmap_NumClear b) (\<lambda>n. ASSERT (n = numBits b)
      (bind_run (Bitmap_FindAndSet b) (\<lambda>(i, b). ASSERT (i = 0)
      (bind_run (Bitmap_Mark b 31) (\<lambda>b.
       bind_run (Bitmap_Test b 0) (\<lambda>t0. bind_run (Bitmap_Test b 31) (\<lambda>t31. ASSERT (t0 \<and> t31)
      (bind_run (Bitmap_FindAndSet b) (\<lambda>(i, b). ASSERT (i = 1)
      (bind_run (Bitmap_Clear b 0) (\<lambda>b.
       bind_run (Bitmap_Clear b 1) (\<lambda>b.
       bind_run (Bitmap_Clear b 31) (\<lambda>b.
       bind_run (for_each (\<lambda>i b. Bitmap_Mark b i) (count_to (numBits b)) b) (\<lambda>b.
       bind_run (Bitmap_FindAndSet b) (\<lambda>(i, b). ASSERT (i = -1)
      (for_each (\<lambda>i b. Bitmap_Clear b i) (count_to (numBits b)) b)))))))))))))))))"

section \<open>Representation invariant and abstract view\<close>

definition bitmap_inv :: "Bitmap \<Rightarrow> bool" where
  [inv_defs]: "bitmap_inv b \<longleftrightarrow>
     numBits b > 0 \<and> numWords b = divRoundUp (numBits b) BitsInWord \<and>
     int (length (bmap b)) = numWords b"

definition bit_used :: "Bitmap \<Rightarrow> int \<Rightarrow> bool" where
  "bit_used b i \<longleftrightarrow> 0 \<le> i \<and> i < numBits b \<and>
     bit (bmap b ! nat (i div BitsInWord)) (nat (i mod BitsInWord))"

definition free_bits :: "Bitmap \<Rightarrow> int set" where
  "free_bits b = {i. 0 \<le> i \<and> i < numBits b \<and> \<not> bit_used b i}"

lemma finite_free_bits [simp]: "finite (free_bits b)"
  by (rule finite_subset[of _ "{0..<numBits b}"]) (auto simp: free_bits_def)

lemma bitmap_word_index:
  assumes "bitmap_inv b" "0 \<le> i" "i < numBits b"
  shows "0 \<le> i div BitsInWord" and "i div BitsInWord < int (length (bmap b))"
  using assms divRoundUp_index[of BitsInWord i "numBits b"]
  by (auto simp: bitmap_inv_def BitsInWord_def pos_imp_zdiv_nonneg_iff)

lemma bit_index_eq_iff:
  assumes "0 \<le> i" "0 \<le> j"
  shows "nat (i div BitsInWord) = nat (j div BitsInWord) \<and>
         nat (i mod BitsInWord) = nat (j mod BitsInWord) \<longleftrightarrow> i = j"
proof -
  have "i div 32 = j div 32 \<and> i mod 32 = j mod 32 \<longrightarrow> i = j"
    by presburger
  then show ?thesis
    using assms by (auto simp: BitsInWord_def eq_nat_nat_iff pos_imp_zdiv_nonneg_iff)
qed

lemma bit_offset_bound: "nat (i mod BitsInWord) < 32"
  by (simp add: BitsInWord_def nat_less_iff)

lemma Bitmap_Test_ok:
  assumes "bitmap_inv b" "0 \<le> i" "i < numBits b"
  shows "Bitmap_Test b i = Inr (bit_used b i)"
  using bitmap_word_index[OF assms] assms
  by (simp add: Bitmap_Test_def bit_used_def bit_iff_and_push_bit_not_eq_0)

lemma bit_used_update:
  assumes b: "bitmap_inv b" and i: "0 \<le> i" "i < numBits b"
    and w: "\<And>n. n < 32 \<Longrightarrow> bit (w :: 32 word) n \<longleftrightarrow>
              (if n = nat (i mod BitsInWord) then v
               else bit (bmap b ! nat (i div BitsInWord)) n)"
  shows "bit_used (b\<lparr>bmap := (bmap b)[nat (i div BitsInWord) := w]\<rparr>) = (bit_used b)(i := v)"
proof
  fix j
  show "bit_used (b\<lparr>bmap := (bmap b)[nat (i div BitsInWord) := w]\<rparr>) j = ((bit_used b)(i := v)) j"
  proof (cases "0 \<le> j \<and> j < numBits b")
    case True
    have len: "nat (i div BitsInWord) < length (bmap b)"
      using bitmap_word_index[OF b i] by linarith
    show ?thesis
    proof (cases "nat (j div BitsInWord) = nat (i div BitsInWord)")
      case same: True
      have "nat (j mod BitsInWord) = nat (i mod BitsInWord) \<longleftrightarrow> j = i"
        using bit_index_eq_iff[of j i] same True i by blast
      then show ?thesis
        using True i same len w[OF bit_offset_bound[of j]] by (auto simp: bit_used_def)
    next
      case False
      then show ?thesis
        using True len by (auto simp: bit_used_def)
    qed
  next
    case False
    then show ?thesis using i by (auto simp: bit_used_def)
  qed
qed

lemma Bitmap_Mark_ok:
  assumes b: "bitmap_inv b" and i: "0 \<le> i" "i < numBits b"
  shows "\<exists>b'. Bitmap_Mark b i = Inr b' \<and> bitmap_inv b' \<and> numBits b' = numBits b \<and>
              bit_used b' = (bit_used b)(i := True)"
proof -
  let ?w = "(bmap b ! nat (i div BitsInWord)) OR push_bit (nat (i mod BitsInWord)) 1"
  let ?b = "b\<lparr>bmap := (bmap b)[nat (i div BitsInWord) := ?w]\<rparr>"
  note idx = bitmap_word_index[OF b i]
  have inv: "bitmap_inv ?b" using b by (simp add: bitmap_inv_def)
  have used: "bit_used ?b = (bit_used b)(i := True)"
    by (rule bit_used_update[OF b i])
       (auto simp: bit_or_iff bit_exp_iff bit_offset_bound)
  have "Bitmap_Test ?b i = Inr True"
    using Bitmap_Test_ok[OF inv, of i] i used by simp
  then have "Bitmap_Mark b i = Inr ?b"
    using i idx by (simp add: Bitmap_Mark_def Let_def)
  with inv used show ?thesis by simp
qed

lemma Bitmap_Clear_ok:
  assumes b: "bitmap_inv b" and i: "0 \<le> i" "i < numBits b"
  shows "\<exists>b'. Bitmap_Clear b i = Inr b' \<and> bitmap_inv b' \<and> numBits b' = numBits b \<and>
              bit_used b' = (bit_used b)(i := False)"
proof -
  let ?w = "(bmap b ! nat (i div BitsInWord)) AND NOT (push_bit (nat (i mod BitsInWord)) 1)"
  let ?b = "b\<lparr>bmap := (bmap b)[nat (i div BitsInWord) := ?w]\<rparr>"
  note idx = bitmap_word_index[OF b i]
  have inv: "bitmap_inv ?b" using b by (simp add: bitmap_inv_def)
  have used: "bit_used ?b = (bit_used b)(i := False)"
    by (rule bit_used_update[OF b i])
       (auto simp: bit_and_iff bit_not_iff bit_exp_iff bit_offset_bound)
  have "Bitmap_Test ?b i = Inr False"
    using Bitmap_Test_ok[OF inv, of i] i used by simp
  then have "Bitmap_Clear b i = Inr ?b"
    using i idx by (simp add: Bitmap_Clear_def Let_def)
  with inv used show ?thesis by simp
qed

text \<open>Loops that mark or clear every bit of a range.\<close>

lemma Bitmap_Clear_loop:
  assumes "bitmap_inv b" "n \<le> numBits b"
  shows "\<exists>b'. for_each (\<lambda>i b. Bitmap_Clear b i) (count_to n) b = Inr b' \<and> bitmap_inv b' \<and>
              numBits b' = numBits b \<and> bit_used b' = (\<lambda>j. bit_used b j \<and> j \<notin> {0..<n})"
proof -
  let ?P = "\<lambda>xs b'. bitmap_inv b' \<and> numBits b' = numBits b \<and>
              bit_used b' = (\<lambda>j. bit_used b j \<and> j \<notin> set xs)"
  have "\<exists>b'. for_each (\<lambda>i b. Bitmap_Clear b i) (count_to n) b = Inr b' \<and> ?P (count_to n) b'"
  proof (rule for_each_inv)
    show "?P [] b" using assms by simp
    fix xs i ys b'
    assume split: "count_to n = xs @ i # ys" and P: "?P xs b'"
    have "0 \<le> i" "i < numBits b'"
      using count_to_split[OF split] assms P by auto
    with Bitmap_Clear_ok[of b' i] P obtain b'' where
      "Bitmap_Clear b' i = Inr b''" "bitmap_inv b''" "numBits b'' = numBits b'"
      "bit_used b'' = (bit_used b')(i := False)" by blast
    with P show "\<exists>s'. Bitmap_Clear b' i = Inr s' \<and> ?P (xs @ [i]) s'"
      by (auto simp: fun_eq_iff)
  qed
  then show ?thesis by simp
qed

lemma Bitmap_Mark_loop:
  assumes "bitmap_inv b" "n \<le> numBits b"
  shows "\<exists>b'. for_each (\<lambda>i b. Bitmap_Mark b i) (count_to n) b = Inr b' \<and> bitmap_inv b' \<and>
              numBits b' = numBits b \<and> bit_used b' = (\<lambda>j. bit_used b j \<or> j \<in> {0..<n})"
proof -
  let ?P = "\<lambda>xs b'. bitmap_inv b' \<and> numBits b' = numBits b \<and>
              bit_used b' = (\<lambda>j. bit_used b j \<or> j \<in> set xs)"
  have "\<exists>b'. for_each (\<lambda>i b. Bitmap_Mark b i) (count_to n) b = Inr b' \<and> ?P (count_to n) b'"
  proof (rule for_each_inv)
    show "?P [] b" using assms by simp
    fix xs i ys b'
    assume split: "count_to n = xs @ i # ys" and P: "?P xs b'"
    have "0 \<le> i" "i < numBits b'"
      using count_to_split[OF split] assms P by auto
    with Bitmap_Mark_ok[of b' i] P obtain b'' where
      "Bitmap_Mark b' i = Inr b''" "bitmap_inv b''" "numBits b'' = numBits b'"
      "bit_used b'' = (bit_used b')(i := True)" by blast
    with P show "\<exists>s'. Bitmap_Mark b' i = Inr s' \<and> ?P (xs @ [i]) s'"
      by (auto simp: fun_eq_iff)
  qed
  then show ?thesis by simp
qed

lemma Bitmap_new_ok:
  assumes "numItems > 0"
  shows "\<exists>b. Bitmap_new numItems = Inr b \<and> bitmap_inv b \<and> numBits b = numItems \<and>
             bit_used b = (\<lambda>_. False)"
proof -
  let ?nw = "divRoundUp numItems BitsInWord"
  let ?b = "\<lparr>numBits = numItems, numWords = ?nw, bmap = replicate (nat ?nw) 0\<rparr>"
  have "0 < ?nw"
    using divRoundUp_index[of BitsInWord 0 numItems] assms by (simp add: BitsInWord_def)
  then have inv: "bitmap_inv ?b" using assms by (simp add: bitmap_inv_def)
  have "\<not> bit_used ?b i" for i
  proof
    assume used: "bit_used ?b i"
    then have "nat (i div BitsInWord) < nat ?nw"
      using bitmap_word_index[OF inv, of i] \<open>0 < ?nw\<close> by (simp add: bit_used_def)
    with used show False by (simp add: bit_used_def)
  qed
  then have "bit_used ?b = (\<lambda>_. False)" by (simp add: fun_eq_iff)
  with Bitmap_Clear_loop[OF inv, of numItems] assms show ?thesis
    by (auto simp: Bitmap_new_def Let_def)
qed

lemma find_clear_ok:
  assumes "bitmap_inv b" "set is \<subseteq> {0..<numBits b}"
  shows "(\<forall>i\<in>set is. bit_used b i) \<and> find_clear b is = Inr (-1, b) \<or>
         (\<exists>xs i ys b'. is = xs @ i # ys \<and> (\<forall>j\<in>set xs. bit_used b j) \<and> \<not> bit_used b i \<and>
            find_clear b is = Inr (i, b') \<and> bitmap_inv b' \<and> numBits b' = numBits b \<and>
            bit_used b' = (bit_used b)(i := True))"
  using assms(2)
proof (induction "is")
  case (Cons i "is")
  then have i: "0 \<le> i" "i < numBits b" by auto
  note test = Bitmap_Test_ok[OF assms(1) i]
  show ?case
  proof (cases "bit_used b i")
    case True
    then have step: "find_clear b (i # is) = find_clear b is" using test by simp
    from Cons.prems have "set is \<subseteq> {0..<numBits b}" by simp
    from Cons.IH[OF this] show ?thesis
    proof (elim disjE exE conjE)
      fix xs j ys b'
      assume "is = xs @ j # ys" "\<forall>j\<in>set xs. bit_used b j" "\<not> bit_used b j"
        "find_clear b is = Inr (j, b')" "bitmap_inv b'" "numBits b' = numBits b"
        "bit_used b' = (bit_used b)(j := True)"
      with True step show ?thesis
        by (intro disjI2 exI[of _ "i # xs"] exI[of _ j] exI[of _ ys] exI[of _ b']) simp
    qed (use True step in simp)
  next
    case False
    from Bitmap_Mark_ok[OF assms(1) i] obtain b' where
      "Bitmap_Mark b i = Inr b'" "bitmap_inv b'" "numBits b' = numBits b"
      "bit_used b' = (bit_used b)(i := True)" by blast
    with False test show ?thesis
      by (intro disjI2 exI[of _ "[]"] exI[of _ i] exI[of _ "is"] exI[of _ b']) simp
  qed
qed simp

text \<open>
  \<open>FindAndSet\<close>: the lowest clear bit, which is then set; \<open>-1\<close> and no change if there is none.
\<close>

lemma Bitmap_FindAndSet_cases:
  assumes "bitmap_inv b"
  obtains (full) "free_bits b = {}" "Bitmap_FindAndSet b = Inr (-1, b)"
  | (found) i b' where "i \<in> free_bits b" "\<forall>j. 0 \<le> j \<and> j < i \<longrightarrow> bit_used b j"
      "Bitmap_FindAndSet b = Inr (i, b')" "bitmap_inv b'" "numBits b' = numBits b"
      "bit_used b' = (bit_used b)(i := True)"
proof -
  have "set (count_to (numBits b)) \<subseteq> {0..<numBits b}" by simp
  from find_clear_ok[OF assms this] show thesis
  proof (elim disjE conjE exE)
    assume "\<forall>i\<in>set (count_to (numBits b)). bit_used b i"
      and "find_clear b (count_to (numBits b)) = Inr (-1, b)"
    then show thesis
      by (intro full) (auto simp: free_bits_def Bitmap_FindAndSet_def)
  next
    fix xs i ys b'
    assume split: "count_to (numBits b) = xs @ i # ys" and xs: "\<forall>j\<in>set xs. bit_used b j"
      and rest: "\<not> bit_used b i" "find_clear b (count_to (numBits b)) = Inr (i, b')"
        "bitmap_inv b'" "numBits b' = numBits b" "bit_used b' = (bit_used b)(i := True)"
    note idx = count_to_split[OF split]
    have "set xs = {0..<i}"
      using idx(1) arg_cong[OF idx(2), of set] by simp
    with xs rest idx show thesis
      by (intro found[of i b']) (auto simp: free_bits_def Bitmap_FindAndSet_def)
  qed
qed

lemma Bitmap_NumClear_ok:
  assumes "bitmap_inv b"
  shows "Bitmap_NumClear b = Inr (int (card (free_bits b)))"
proof -
  let ?body = "\<lambda>i count. bind_run (Bitmap_Test b i) (\<lambda>t. Inr (if \<not> t then count + 1 else count))"
  let ?P = "\<lambda>xs count. count = int (card {i \<in> set xs. \<not> bit_used b i})"
  have "\<exists>c. for_each ?body (count_to (numBits b)) 0 = Inr c \<and> ?P (count_to (numBits b)) c"
  proof (rule for_each_inv)
    show "?P [] 0" by simp
    fix xs i ys c
    assume split: "count_to (numBits b) = xs @ i # ys" and P: "?P xs c"
    note idx = count_to_split[OF split]
    have "i \<notin> set xs"
      using distinct_count_to[of "numBits b"] split by simp
    then have "{j \<in> set (xs @ [i]). \<not> bit_used b j} =
               (if bit_used b i then {j \<in> set xs. \<not> bit_used b j}
                else insert i {j \<in> set xs. \<not> bit_used b j})" by auto
    with \<open>i \<notin> set xs\<close> P Bitmap_Test_ok[OF assms, of i] idx
    show "\<exists>s'. ?body i c = Inr s' \<and> ?P (xs @ [i]) s'" by simp
  qed
  moreover have "{i \<in> set (count_to (numBits b)). \<not> bit_used b i} = free_bits b"
    by (auto simp: free_bits_def)
  ultimately show ?thesis by (simp add: Bitmap_NumClear_def)
qed

section \<open>The allocator interface\<close>

text \<open>
  What the clients (page frames, process and semaphore slots, disk sectors) rely on.  \<open>used\<close> is
  the abstract view, \<open>alloc\<close> returns the lowest free slot, or \<open>-1\<close> and an unchanged state.
  \<open>alloc_many\<close> is the allocation loop of \<^verbatim>\<open>AddrSpace::Load\<close> and
  \<^verbatim>\<open>FileHeader::Allocate\<close>.
\<close>

primrec alloc_many :: "('s \<Rightarrow> (int \<times> 's) run) \<Rightarrow> nat \<Rightarrow> 's \<Rightarrow> (int list \<times> 's) run" where
  "alloc_many al 0 s = Inr ([], s)"
| "alloc_many al (Suc n) s =
     bind_run (al s) (\<lambda>(i, s'). bind_run (alloc_many al n s') (\<lambda>(is, s''). Inr (i # is, s'')))"

locale slot_allocator =
  fixes inv :: "'s \<Rightarrow> bool"
    and size :: "'s \<Rightarrow> int"
    and used :: "'s \<Rightarrow> int \<Rightarrow> bool"
    and alloc :: "'s \<Rightarrow> (int \<times> 's) run"
    and release :: "'s \<Rightarrow> int \<Rightarrow> 's run"
    and test :: "'s \<Rightarrow> int \<Rightarrow> bool run"
  assumes used_range: "used s i \<Longrightarrow> 0 \<le> i \<and> i < size s"
    and alloc_full: "inv s \<Longrightarrow> (\<forall>i. 0 \<le> i \<and> i < size s \<longrightarrow> used s i) \<Longrightarrow> alloc s = Inr (-1, s)"
    and alloc_lowest: "inv s \<Longrightarrow> 0 \<le> i \<Longrightarrow> i < size s \<Longrightarrow> \<not> used s i \<Longrightarrow>
          (\<forall>j. 0 \<le> j \<and> j < i \<longrightarrow> used s j) \<Longrightarrow>
          \<exists>s'. alloc s = Inr (i, s') \<and> inv s' \<and> size s' = size s \<and> used s' = (used s)(i := True)"
    and release_ok: "inv s \<Longrightarrow> 0 \<le> i \<Longrightarrow> i < size s \<Longrightarrow>
          \<exists>s'. release s i = Inr s' \<and> inv s' \<and> size s' = size s \<and> used s' = (used s)(i := False)"
    and test_ok: "inv s \<Longrightarrow> 0 \<le> i \<Longrightarrow> i < size s \<Longrightarrow> test s i = Inr (used s i)"
    and test_range: "\<not> (0 \<le> i \<and> i < size s) \<Longrightarrow> test s i = Inl AssertFail"
begin

definition unused :: "'s \<Rightarrow> int set" where
  "unused s = {i. 0 \<le> i \<and> i < size s \<and> \<not> used s i}"

lemma finite_unused: "finite (unused s)"
  by (rule finite_subset[of _ "{0..<size s}"]) (auto simp: unused_def)

lemma alloc_unused:
  assumes "inv s" "unused s \<noteq> {}"
  shows "\<exists>i s'. alloc s = Inr (i, s') \<and> i \<in> unused s \<and> (\<forall>j\<in>unused s. i \<le> j) \<and> inv s' \<and>
           size s' = size s \<and> used s' = (used s)(i := True)"
proof -
  let ?i = "Min (unused s)"
  have i: "?i \<in> unused s" and least: "\<forall>j\<in>unused s. ?i \<le> j"
    using assms(2) finite_unused by auto
  have "used s j" if "0 \<le> j" "j < ?i" for j
    using that least i by (force simp: unused_def)
  moreover have "0 \<le> ?i" "?i < size s" "\<not> used s ?i" using i by (auto simp: unused_def)
  ultimately have "\<exists>s'. alloc s = Inr (?i, s') \<and> inv s' \<and> size s' = size s \<and>
      used s' = (used s)(?i := True)"
    by (intro alloc_lowest[OF assms(1)]) auto
  with i least show ?thesis by (intro exI[of _ ?i]) simp
qed

lemma alloc_none: "inv s \<Longrightarrow> unused s = {} \<Longrightarrow> alloc s = Inr (-1, s)"
  by (rule alloc_full) (auto simp: unused_def)

lemma alloc_many_ok:
  assumes "inv s" "n \<le> card (unused s)"
  shows "\<exists>is s'. alloc_many alloc n s = Inr (is, s') \<and> length is = n \<and> distinct is \<and>
           set is \<subseteq> unused s \<and> inv s' \<and> size s' = size s \<and>
           used s' = (\<lambda>j. used s j \<or> j \<in> set is)"
  using assms
proof (induction n arbitrary: s)
  case (Suc n)
  then have "unused s \<noteq> {}" by auto
  with alloc_unused[OF Suc.prems(1)] obtain i s' where
    a: "alloc s = Inr (i, s')" and i: "i \<in> unused s" and s': "inv s'" "size s' = size s"
      "used s' = (used s)(i := True)" by blast
  have un: "unused s' = unused s - {i}"
    using s'(2,3) by (auto simp: unused_def)
  then have "n \<le> card (unused s')"
    using i Suc.prems(2) finite_unused by (simp add: card_Diff_singleton)
  from Suc.IH[OF s'(1) this] obtain "is" s'' where
    r: "alloc_many alloc n s' = Inr (is, s'')" "length is = n" "distinct is"
      "set is \<subseteq> unused s'" "inv s''" "size s'' = size s'"
      "used s'' = (\<lambda>j. used s' j \<or> j \<in> set is)" by blast
  have "alloc_many alloc (Suc n) s = Inr (i # is, s'')" using a r(1) by simp
  moreover have "distinct (i # is)" "set (i # is) \<subseteq> unused s"
    using r(3,4) un i by auto
  moreover have "used s'' = (\<lambda>j. used s j \<or> j \<in> set (i # is))"
    using r(7) s'(3) by (auto simp: fun_eq_iff)
  ultimately show ?case
    using r s' by (intro exI[of _ "i # is"] exI[of _ s'']) simp
qed simp

text \<open>A slot that was handed out is not handed out again before it is released.\<close>

lemma alloc_not_used: "inv s \<Longrightarrow> alloc s = Inr (i, s') \<Longrightarrow> i \<noteq> -1 \<Longrightarrow> \<not> used s i"
  using alloc_unused[of s] alloc_none[of s] by (cases "unused s = {}") (auto simp: unused_def)

end

interpretation bm: slot_allocator bitmap_inv numBits bit_used Bitmap_FindAndSet Bitmap_Clear
  Bitmap_Test
proof
  fix s i
  show "bit_used s i \<Longrightarrow> 0 \<le> i \<and> i < numBits s" by (simp add: bit_used_def)
  assume s: "bitmap_inv s"
  show "Bitmap_FindAndSet s = Inr (-1, s)" if "\<forall>i. 0 \<le> i \<and> i < numBits s \<longrightarrow> bit_used s i"
    using s that by (cases rule: Bitmap_FindAndSet_cases) (auto simp: free_bits_def)
  assume i: "0 \<le> i" "i < numBits s"
  show "Bitmap_Test s i = Inr (bit_used s i)" by (rule Bitmap_Test_ok[OF s i])
  show "\<exists>s'. Bitmap_Clear s i = Inr s' \<and> bitmap_inv s' \<and> numBits s' = numBits s \<and>
          bit_used s' = (bit_used s)(i := False)" by (rule Bitmap_Clear_ok[OF s i])
  assume nu: "\<not> bit_used s i" and low: "\<forall>j. 0 \<le> j \<and> j < i \<longrightarrow> bit_used s j"
  from s show "\<exists>s'. Bitmap_FindAndSet s = Inr (i, s') \<and> bitmap_inv s' \<and> numBits s' = numBits s \<and>
          bit_used s' = (bit_used s)(i := True)"
  proof (cases rule: Bitmap_FindAndSet_cases)
    case full
    with nu i show ?thesis by (auto simp: free_bits_def)
  next
    case (found k b')
    then have "k = i"
      using nu low i by (metis (no_types, lifting) free_bits_def linorder_neqE mem_Collect_eq)
    with found show ?thesis by auto
  qed
next
  fix s :: Bitmap and i :: int
  assume "\<not> (0 \<le> i \<and> i < numBits s)"
  then show "Bitmap_Test s i = Inl AssertFail" by (auto simp: Bitmap_Test_def ASSERT_def)
qed

lemma bm_unused [simp]: "bm.unused b = free_bits b"
  by (simp add: bm.unused_def free_bits_def)

section \<open>Properties\<close>

lemma Bitmap_SelfTest_ok:
  assumes b: "bitmap_inv b" and big: "numBits b \<ge> BitsInWord" and empty: "bit_used b = (\<lambda>_. False)"
  shows "\<exists>b'. Bitmap_SelfTest b = Inr b' \<and> bitmap_inv b' \<and> numBits b' = numBits b \<and>
              bit_used b' = (\<lambda>_. False)"
proof -
  let ?n = "numBits b"
  have n: "32 \<le> ?n" using big by (simp add: BitsInWord_def)
  have nc: "Bitmap_NumClear b = Inr ?n"
    using Bitmap_NumClear_ok[OF b] empty n
    by (simp add: free_bits_def flip: atLeastLessThan_iff)
  obtain b1 where b1: "Bitmap_FindAndSet b = Inr (0, b1)" "bitmap_inv b1" "numBits b1 = ?n"
      "bit_used b1 = (\<lambda>_. False)(0 := True)"
    using bm.alloc_lowest[OF b, of 0] n empty by auto
  obtain b2 where b2: "Bitmap_Mark b1 31 = Inr b2" "bitmap_inv b2" "numBits b2 = ?n"
      "bit_used b2 = (\<lambda>_. False)(0 := True, 31 := True)"
    using Bitmap_Mark_ok[OF b1(2), of 31] b1 n by auto
  have t: "Bitmap_Test b2 0 = Inr True" "Bitmap_Test b2 31 = Inr True"
    using bm.test_ok[OF b2(2)] b2 n by auto
  have "\<forall>j. 0 \<le> j \<and> j < 1 \<longrightarrow> bit_used b2 j"
    using b2(4) by auto
  then obtain b3 where b3: "Bitmap_FindAndSet b2 = Inr (1, b3)" "bitmap_inv b3" "numBits b3 = ?n"
      "bit_used b3 = (\<lambda>_. False)(0 := True, 31 := True, 1 := True)"
    using bm.alloc_lowest[OF b2(2), of 1] b2 n by auto
  obtain b4 where b4: "Bitmap_Clear b3 0 = Inr b4" "bitmap_inv b4" "numBits b4 = ?n"
    using bm.release_ok[OF b3(2), of 0] b3 n by auto
  obtain b5 where b5: "Bitmap_Clear b4 1 = Inr b5" "bitmap_inv b5" "numBits b5 = ?n"
    using bm.release_ok[OF b4(2), of 1] b4 n by auto
  obtain b6 where b6: "Bitmap_Clear b5 31 = Inr b6" "bitmap_inv b6" "numBits b6 = ?n"
    using bm.release_ok[OF b5(2), of 31] b5 n by auto
  obtain b7 where b7: "for_each (\<lambda>i b. Bitmap_Mark b i) (count_to ?n) b6 = Inr b7" "bitmap_inv b7"
      "numBits b7 = ?n" "bit_used b7 = (\<lambda>j. bit_used b6 j \<or> j \<in> {0..<?n})"
    using Bitmap_Mark_loop[OF b6(2), of ?n] b6 by auto
  have full: "Bitmap_FindAndSet b7 = Inr (-1, b7)"
    by (rule bm.alloc_full[OF b7(2)]) (simp add: b7)
  obtain b8 where b8: "for_each (\<lambda>i b. Bitmap_Clear b i) (count_to ?n) b7 = Inr b8" "bitmap_inv b8"
      "numBits b8 = ?n" "bit_used b8 = (\<lambda>j. bit_used b7 j \<and> j \<notin> {0..<?n})"
    using Bitmap_Clear_loop[OF b7(2), of ?n] b7 by auto
  have "Bitmap_SelfTest b = Inr b8"
    by (simp add: Bitmap_SelfTest_def big nc b1 b2 t b3 b4 b5 b6 b7(1,3) full b8(1))
  moreover have "bit_used b8 = (\<lambda>_. False)"
    using bm.used_range[of b8] b8(3,4) by (auto simp: fun_eq_iff)
  ultimately show ?thesis using b8 by simp
qed

text \<open>
  C23: \<open>FindAndSet\<close> never aborts on a well-formed bitmap; it returns the lowest clear bit and sets
  exactly that bit, or returns \<open>-1\<close> and leaves the bitmap unchanged when every bit is set.
\<close>

theorem FindAndSet_lowest_free:
  assumes "bitmap_inv b"
  shows "\<exists>i b'. Bitmap_FindAndSet b = Inr (i, b') \<and> bitmap_inv b' \<and> numBits b' = numBits b \<and>
           (if free_bits b = {} then i = -1 \<and> b' = b
            else i = Min (free_bits b) \<and> bit_used b' = (bit_used b)(i := True))"
proof (cases "free_bits b = {}")
  case True
  with bm.alloc_none[OF assms] assms show ?thesis by simp
next
  case False
  with bm.alloc_unused[OF assms] obtain i b' where
    "Bitmap_FindAndSet b = Inr (i, b')" "i \<in> free_bits b" "\<forall>j\<in>free_bits b. i \<le> j" "bitmap_inv b'"
    "numBits b' = numBits b" "bit_used b' = (bit_used b)(i := True)" by auto
  with False show ?thesis
    by (intro exI[of _ i] exI[of _ b']) (auto intro!: Min_eqI[symmetric])
qed

lemma FindAndSet_lowest_free_witness:
  "let b = \<lparr>numBits = 3, numWords = 1, bmap = [5]\<rparr> in
   \<exists>i b'. Bitmap_FindAndSet b = Inr (i, b') \<and> bitmap_inv b' \<and> numBits b' = numBits b \<and>
           (if free_bits b = {} then i = -1 \<and> b' = b
            else i = Min (free_bits b) \<and> bit_used b' = (bit_used b)(i := True))"
proof -
  have "bitmap_inv \<lparr>numBits = 3, numWords = 1, bmap = [5]\<rparr>"
    by (simp add: bitmap_inv_def divRoundUp_def BitsInWord_def)
  from FindAndSet_lowest_free[OF this] show ?thesis by (simp only: Let_def)
qed

text \<open>
  C27: the word-level \<open>Test\<close>, \<open>Mark\<close> and \<open>Clear\<close> implement membership, insertion and deletion
  on the set of used items for indices in range, none of their assertions fails there, and all
  three abort on every index out of range; \<open>NumClear\<close> counts the free items.
\<close>

theorem Bitmap_implements_set:
  assumes "bitmap_inv b"
  shows "(if 0 \<le> i \<and> i < numBits b then
            Bitmap_Test b i = Inr (bit_used b i) \<and>
            (\<exists>b'. Bitmap_Mark b i = Inr b' \<and> bitmap_inv b' \<and> bit_used b' = (bit_used b)(i := True)) \<and>
            (\<exists>b'. Bitmap_Clear b i = Inr b' \<and> bitmap_inv b' \<and> bit_used b' = (bit_used b)(i := False))
          else Bitmap_Test b i = Inl AssertFail \<and> Bitmap_Mark b i = Inl AssertFail \<and>
            Bitmap_Clear b i = Inl AssertFail) \<and>
         Bitmap_NumClear b = Inr (int (card (free_bits b)))"
proof (cases "0 \<le> i \<and> i < numBits b")
  case True
  with bm.test_ok[OF assms, of i] Bitmap_Mark_ok[OF assms, of i] bm.release_ok[OF assms, of i]
    Bitmap_NumClear_ok[OF assms] show ?thesis by auto
next
  case False
  with Bitmap_NumClear_ok[OF assms] show ?thesis
    by (auto simp: bm.test_range Bitmap_Mark_def Bitmap_Clear_def ASSERT_def)
qed

lemma Bitmap_implements_set_witness:
  "let b = \<lparr>numBits = 33, numWords = 2, bmap = [0, 1]\<rparr> in
     Bitmap_Test b 32 = Inr (bit_used b 32) \<and> Bitmap_Test b 33 = Inl AssertFail \<and>
     Bitmap_NumClear b = Inr (int (card (free_bits b)))"
proof -
  have "bitmap_inv \<lparr>numBits = 33, numWords = 2, bmap = [0, 1]\<rparr>"
    by (simp add: bitmap_inv_def divRoundUp_def BitsInWord_def)
  from Bitmap_implements_set[OF this, of 32] Bitmap_implements_set[OF this, of 33]
  show ?thesis by (simp add: Let_def)
qed

text \<open>
  The module's own \<open>SelfTest\<close> passes on every newly constructed bitmap of at least one word:
  none of its assertions fails, and it leaves the bitmap empty.
\<close>

theorem SelfTest_passes_on_new:
  assumes "numItems \<ge> BitsInWord"
  shows "\<exists>b b'. Bitmap_new numItems = Inr b \<and> Bitmap_SelfTest b = Inr b' \<and>
                free_bits b' = {0..<numItems}"
proof -
  have "numItems > 0" using assms by (simp add: BitsInWord_def)
  from Bitmap_new_ok[OF this] obtain b where
    b: "Bitmap_new numItems = Inr b" "bitmap_inv b" "numBits b = numItems" "bit_used b = (\<lambda>_. False)"
    by blast
  with Bitmap_SelfTest_ok[of b] assms obtain b' where
    "Bitmap_SelfTest b = Inr b'" "numBits b' = numItems" "bit_used b' = (\<lambda>_. False)" by auto
  with b(1) show ?thesis by (intro exI[of _ b] exI[of _ b']) (auto simp: free_bits_def)
qed

lemma SelfTest_passes_on_new_witness:
  "\<exists>b b'. Bitmap_new 256 = Inr b \<and> Bitmap_SelfTest b = Inr b' \<and> free_bits b' = {0..<256}"
  using SelfTest_passes_on_new[of 256] by (simp add: BitsInWord_def)

end
