(* ===== verification/ListLib.thy ===== *)
theory ListLib
  imports Prelude
begin

text \<open>
  The singly linked lists of \<^verbatim>\<open>lib/list.h\<close> and \<^verbatim>\<open>lib/list.cc\<close> on an explicit heap of list
  elements.  \<open>new\<close> takes the next unused address, \<open>delete\<close> empties the cell, so that a use after
  \<open>delete\<close> is the fault \<open>BadPointer\<close>.  The pointer walks carry a fuel of one more than the number
  of addresses ever allocated: a walk that follows more cells than that has met a cell twice and
  never ends, and \<open>walk_fuel_enough\<close> shows that every walk over a well-formed list stays below it.

  \<open>list_rep h l xs\<close> says that the list object \<open>l\<close> holds the items \<open>xs\<close> in the heap \<open>h\<close>; the
  refinement lemmas show that every operation implements the abstract operation on \<open>xs\<close>.
\<close>

section \<open>List elements and the heap\<close>

record 'a ListElement =
  item :: 'a
  key :: "int option"
  nxt :: "nat option"

record 'a heap =
  cells :: "nat \<Rightarrow> 'a ListElement option"
  brk :: nat

record List =
  first :: "nat option"
  last_elem :: "nat option"
  numInList :: int

definition new_element :: "'a heap \<Rightarrow> 'a \<Rightarrow> int option \<Rightarrow> nat \<times> 'a heap" where
  "new_element h itm k =
     (brk h, h\<lparr>cells := (cells h)(brk h \<mapsto> \<lparr>item = itm, key = k, nxt = None\<rparr>),
               brk := Suc (brk h)\<rparr>)"

definition load :: "'a heap \<Rightarrow> nat option \<Rightarrow> 'a ListElement run" where
  "load h p = bind_run (deref p) (\<lambda>a. deref (cells h a))"

definition set_next :: "'a heap \<Rightarrow> nat option \<Rightarrow> nat option \<Rightarrow> 'a heap run" where
  "set_next h p q =
     bind_run (deref p) (\<lambda>a. bind_run (deref (cells h a)) (\<lambda>e.
       Inr (h\<lparr>cells := (cells h)(a \<mapsto> e\<lparr>nxt := q\<rparr>)\<rparr>)))"

definition delete_element :: "'a heap \<Rightarrow> nat option \<Rightarrow> 'a heap run" where
  "delete_element h p =
     bind_run (deref p) (\<lambda>a. bind_run (deref (cells h a)) (\<lambda>e.
       Inr (h\<lparr>cells := (cells h)(a := None)\<rparr>)))"

section \<open>List\<close>

definition List_new :: List where
  "List_new = \<lparr>first = None, last_elem = None, numInList = 0\<rparr>"

definition List_IsEmpty :: "List \<Rightarrow> bool" where
  "List_IsEmpty l \<longleftrightarrow> numInList l = 0"

definition List_Front :: "'a heap \<Rightarrow> List \<Rightarrow> 'a run" where
  "List_Front h l = bind_run (load h (first l)) (\<lambda>e. Inr (item e))"

fun find_item :: "nat \<Rightarrow> 'a heap \<Rightarrow> nat option \<Rightarrow> 'a \<Rightarrow> bool run" where
  "find_item 0 h ptr itm = Inl Diverges"
| "find_item (Suc n) h ptr itm =
     (if ptr = None then Inr False
      else bind_run (load h ptr) (\<lambda>e.
        if itm = item e then Inr True else find_item n h (nxt e) itm))"

definition List_IsInList :: "'a heap \<Rightarrow> List \<Rightarrow> 'a \<Rightarrow> bool run" where
  "List_IsInList h l itm = find_item (Suc (brk h)) h (first l) itm"

definition List_Append :: "'a heap \<Rightarrow> List \<Rightarrow> 'a \<Rightarrow> ('a heap \<times> List) run" where
  "List_Append h l itm =
     (let (element, h) = new_element h itm None in
      bind_run (List_IsInList h l itm) (\<lambda>found. ASSERT (\<not> found)
       (bind_run
         (if List_IsEmpty l
          then Inr (h, l\<lparr>first := Some element, last_elem := Some element\<rparr>)
          else bind_run (set_next h (last_elem l) (Some element)) (\<lambda>h.
                 Inr (h, l\<lparr>last_elem := Some element\<rparr>)))
         (\<lambda>(h, l). let l = l\<lparr>numInList := numInList l + 1\<rparr> in
            bind_run (List_IsInList h l itm) (\<lambda>found. ASSERT found (Inr (h, l)))))))"

definition List_Prepend :: "'a heap \<Rightarrow> List \<Rightarrow> 'a \<Rightarrow> ('a heap \<times> List) run" where
  "List_Prepend h l itm =
     (let (element, h) = new_element h itm None in
      bind_run (List_IsInList h l itm) (\<lambda>found. ASSERT (\<not> found)
       (bind_run
         (if List_IsEmpty l
          then Inr (h, l\<lparr>first := Some element, last_elem := Some element\<rparr>)
          else bind_run (set_next h (Some element) (first l)) (\<lambda>h.
                 Inr (h, l\<lparr>first := Some element\<rparr>)))
         (\<lambda>(h, l). let l = l\<lparr>numInList := numInList l + 1\<rparr> in
            bind_run (List_IsInList h l itm) (\<lambda>found. ASSERT found (Inr (h, l)))))))"

definition List_RemoveFront :: "'a heap \<Rightarrow> List \<Rightarrow> ('a \<times> 'a heap \<times> List) run" where
  "List_RemoveFront h l =
     ASSERT (\<not> List_IsEmpty l)
      (bind_run (load h (first l)) (\<lambda>element.
       let l' = (if first l = last_elem l then l\<lparr>first := None, last_elem := None\<rparr>
                 else l\<lparr>first := nxt element\<rparr>);
           l' = l'\<lparr>numInList := numInList l' - 1\<rparr> in
       bind_run (delete_element h (first l)) (\<lambda>h'.
       Inr (item element, h', l'))))"

fun remove_walk :: "nat \<Rightarrow> 'a heap \<Rightarrow> List \<Rightarrow> nat option \<Rightarrow> nat option \<Rightarrow> 'a \<Rightarrow> ('a heap \<times> List) run" where
  "remove_walk 0 h l prev ptr itm = Inl Diverges"
| "remove_walk (Suc n) h l prev ptr itm =
     ASSERT (ptr \<noteq> None)
      (bind_run (load h ptr) (\<lambda>e.
        if itm = item e then
          bind_run (set_next h prev (nxt e)) (\<lambda>h.
          bind_run (load h prev) (\<lambda>p.
          let l' = (if nxt p = None then l\<lparr>last_elem := prev\<rparr> else l) in
          bind_run (delete_element h ptr) (\<lambda>h.
          Inr (h, l'\<lparr>numInList := numInList l' - 1\<rparr>))))
        else remove_walk n h l ptr (nxt e) itm))"

definition List_Remove :: "'a heap \<Rightarrow> List \<Rightarrow> 'a \<Rightarrow> ('a heap \<times> List) run" where
  "List_Remove h l itm =
     bind_run (List_IsInList h l itm) (\<lambda>found. ASSERT found
      (bind_run (load h (first l)) (\<lambda>e.
       bind_run
         (if itm = item e
          then bind_run (List_RemoveFront h l) (\<lambda>(removed, h, l).
                 ASSERT (itm = removed) (Inr (h, l)))
          else remove_walk (Suc (brk h)) h l (first l) (nxt e) itm)
         (\<lambda>(h, l). bind_run (List_IsInList h l itm) (\<lambda>found. ASSERT (\<not> found) (Inr (h, l)))))))"

fun apply_walk :: "nat \<Rightarrow> 'a heap \<Rightarrow> nat option \<Rightarrow> ('a \<Rightarrow> 's \<Rightarrow> 's run) \<Rightarrow> 's \<Rightarrow> 's run" where
  "apply_walk 0 h ptr func s = Inl Diverges"
| "apply_walk (Suc n) h ptr func s =
     (if ptr = None then Inr s
      else bind_run (load h ptr) (\<lambda>e. bind_run (func (item e) s) (apply_walk n h (nxt e) func)))"

definition List_Apply :: "'a heap \<Rightarrow> List \<Rightarrow> ('a \<Rightarrow> 's \<Rightarrow> 's run) \<Rightarrow> 's \<Rightarrow> 's run" where
  "List_Apply h l func s = apply_walk (Suc (brk h)) h (first l) func s"

text \<open>
  \<open>SanityCheck\<close> walks from \<open>first\<close> to \<open>last\<close>; its own bound on \<open>numFound\<close> ends the walk, so the
  recursion is on the number of elements the assertion still allows.
\<close>

fun sanity_walk :: "nat \<Rightarrow> 'a heap \<Rightarrow> List \<Rightarrow> nat option \<Rightarrow> int \<Rightarrow> int run" where
  "sanity_walk n h l ptr numFound =
     (if ptr = last_elem l then Inr numFound
      else (case n of 0 \<Rightarrow> ASSERT (numFound + 1 \<le> numInList l) (Inl Diverges)
            | Suc m \<Rightarrow> ASSERT (numFound + 1 \<le> numInList l)
                (bind_run (load h ptr) (\<lambda>e. sanity_walk m h l (nxt e) (numFound + 1)))))"

definition List_SanityCheck :: "'a heap \<Rightarrow> List \<Rightarrow> unit run" where
  "List_SanityCheck h l =
     (if first l = None then ASSERT (numInList l = 0 \<and> last_elem l = None) (Inr ())
      else if first l = last_elem l then
        ASSERT (numInList l = 1) (bind_run (load h (last_elem l)) (\<lambda>e. ASSERT (nxt e = None) (Inr ())))
      else bind_run (sanity_walk (nat (numInList l)) h l (first l) 1) (\<lambda>numFound.
        ASSERT (numFound = numInList l)
         (bind_run (load h (last_elem l)) (\<lambda>e. ASSERT (nxt e = None) (Inr ())))))"

text \<open>\<open>ListIterator\<close> is the pointer to the current element.\<close>

definition ListIterator_new :: "List \<Rightarrow> nat option" where
  "ListIterator_new l = first l"

definition ListIterator_IsDone :: "nat option \<Rightarrow> bool" where
  "ListIterator_IsDone current \<longleftrightarrow> current = None"

definition ListIterator_Item :: "'a heap \<Rightarrow> nat option \<Rightarrow> 'a run" where
  "ListIterator_Item h current =
     ASSERT (\<not> ListIterator_IsDone current) (bind_run (load h current) (\<lambda>e. Inr (item e)))"

definition ListIterator_Next :: "'a heap \<Rightarrow> nat option \<Rightarrow> nat option run" where
  "ListIterator_Next h current = bind_run (load h current) (\<lambda>e. Inr (nxt e))"

definition List_SelfTest :: "'a heap \<Rightarrow> List \<Rightarrow> 'a list \<Rightarrow> ('a heap \<times> List) run" where
  "List_SelfTest h l p =
     bind_run (List_SanityCheck h l) (\<lambda>_.
     ASSERT (List_IsEmpty l \<and> first l = None)
     (ASSERT (ListIterator_IsDone (ListIterator_new l))
     (bind_run (for_each (\<lambda>x (h, l). bind_run (List_Append h l x) (\<lambda>(h, l).
                  bind_run (List_IsInList h l x) (\<lambda>found.
                  ASSERT found (ASSERT (\<not> List_IsEmpty l) (Inr (h, l)))))) p (h, l)) (\<lambda>(h, l).
      bind_run (List_SanityCheck h l) (\<lambda>_.
      bind_run (for_each (\<lambda>x (h, l). bind_run (List_Remove h l x) (\<lambda>(h, l).
                  bind_run (List_IsInList h l x) (\<lambda>found. ASSERT (\<not> found) (Inr (h, l))))) p (h, l)) (\<lambda>(h, l).
      ASSERT (List_IsEmpty l)
       (bind_run (List_SanityCheck h l) (\<lambda>_. Inr (h, l)))))))))"

section \<open>SortedList and SortedInsert\<close>

fun insert_walk :: "nat \<Rightarrow> ('a \<Rightarrow> 'a \<Rightarrow> int) \<Rightarrow> 'a heap \<Rightarrow> List \<Rightarrow> nat option \<Rightarrow> nat \<Rightarrow> 'a \<Rightarrow>
    ('a heap \<times> List) run" where
  "insert_walk 0 compare h l ptr element itm = Inl Diverges"
| "insert_walk (Suc n) compare h l ptr element itm =
     bind_run (load h ptr) (\<lambda>e.
       if nxt e = None then
         bind_run (set_next h (last_elem l) (Some element)) (\<lambda>h.
         let l = l\<lparr>last_elem := Some element, numInList := numInList l + 1\<rparr> in
         bind_run (List_IsInList h l itm) (\<lambda>found. ASSERT found (Inr (h, l))))
       else bind_run (load h (nxt e)) (\<lambda>e'.
         if compare itm (item e') < 0 then
           bind_run (set_next h (Some element) (nxt e)) (\<lambda>h.
           bind_run (set_next h ptr (Some element)) (\<lambda>h.
           Inr (h, l\<lparr>numInList := numInList l + 1\<rparr>)))
         else insert_walk n compare h l (nxt e) element itm))"

definition SortedList_Insert :: "('a \<Rightarrow> 'a \<Rightarrow> int) \<Rightarrow> 'a heap \<Rightarrow> List \<Rightarrow> 'a \<Rightarrow> ('a heap \<times> List) run" where
  "SortedList_Insert compare h l itm =
     (let (element, h) = new_element h itm None;
          finish = (\<lambda>(h, l). let l = l\<lparr>numInList := numInList l + 1\<rparr> in
             bind_run (List_IsInList h l itm) (\<lambda>found. ASSERT found (Inr (h, l)))) in
      bind_run (List_IsInList h l itm) (\<lambda>found. ASSERT (\<not> found)
       (if List_IsEmpty l
        then finish (h, l\<lparr>first := Some element, last_elem := Some element\<rparr>)
        else bind_run (load h (first l)) (\<lambda>f.
          if compare itm (item f) < 0 then
            bind_run (set_next h (Some element) (first l)) (\<lambda>h.
            finish (h, l\<lparr>first := Some element\<rparr>))
          else insert_walk (Suc (brk h)) compare h l (first l) element itm))))"

fun sorted_check_walk :: "nat \<Rightarrow> ('a \<Rightarrow> 'a \<Rightarrow> int) \<Rightarrow> 'a heap \<Rightarrow> nat option \<Rightarrow> nat option \<Rightarrow> unit run" where
  "sorted_check_walk 0 compare h prev ptr = Inl Diverges"
| "sorted_check_walk (Suc n) compare h prev ptr =
     (if ptr = None then Inr ()
      else bind_run (load h prev) (\<lambda>p. bind_run (load h ptr) (\<lambda>e.
        ASSERT (compare (item p) (item e) \<le> 0) (sorted_check_walk n compare h ptr (nxt e)))))"

definition SortedList_SanityCheck :: "('a \<Rightarrow> 'a \<Rightarrow> int) \<Rightarrow> 'a heap \<Rightarrow> List \<Rightarrow> unit run" where
  "SortedList_SanityCheck compare h l =
     bind_run (List_SanityCheck h l) (\<lambda>_.
       if first l \<noteq> last_elem l
       then bind_run (load h (first l)) (\<lambda>e. sorted_check_walk (Suc (brk h)) compare h (first l) (nxt e))
       else Inr ())"

text \<open>
  \<open>Append\<close> is virtual and private in \<open>SortedList\<close>, where it is \<open>Insert\<close>: inside
  \<open>List<T>::SelfTest\<close> the calls \<open>Append(p[i])\<close> of a sorted list run \<open>Insert\<close>, and \<open>SanityCheck\<close>
  is the sorted one.
\<close>

definition SortedList_BaseSelfTest :: "('a \<Rightarrow> 'a \<Rightarrow> int) \<Rightarrow> 'a heap \<Rightarrow> List \<Rightarrow> 'a list \<Rightarrow> ('a heap \<times> List) run" where
  "SortedList_BaseSelfTest compare h l p =
     bind_run (SortedList_SanityCheck compare h l) (\<lambda>_.
     ASSERT (List_IsEmpty l \<and> first l = None)
     (ASSERT (ListIterator_IsDone (ListIterator_new l))
     (bind_run (for_each (\<lambda>x (h, l). bind_run (SortedList_Insert compare h l x) (\<lambda>(h, l).
                  bind_run (List_IsInList h l x) (\<lambda>found.
                  ASSERT found (ASSERT (\<not> List_IsEmpty l) (Inr (h, l)))))) p (h, l)) (\<lambda>(h, l).
      bind_run (SortedList_SanityCheck compare h l) (\<lambda>_.
      bind_run (for_each (\<lambda>x (h, l). bind_run (List_Remove h l x) (\<lambda>(h, l).
                  bind_run (List_IsInList h l x) (\<lambda>found. ASSERT (\<not> found) (Inr (h, l))))) p (h, l)) (\<lambda>(h, l).
      ASSERT (List_IsEmpty l)
       (bind_run (SortedList_SanityCheck compare h l) (\<lambda>_. Inr (h, l)))))))))"

definition SortedList_SelfTest :: "('a \<Rightarrow> 'a \<Rightarrow> int) \<Rightarrow> 'a heap \<Rightarrow> List \<Rightarrow> 'a list \<Rightarrow> ('a heap \<times> List) run" where
  "SortedList_SelfTest compare h l p =
     bind_run (SortedList_BaseSelfTest compare h l p) (\<lambda>(h, l).
     bind_run (for_each (\<lambda>x (h, l). bind_run (SortedList_Insert compare h l x) (\<lambda>(h, l).
                 bind_run (List_IsInList h l x) (\<lambda>found. ASSERT found (Inr (h, l))))) p (h, l)) (\<lambda>(h, l).
     bind_run (SortedList_SanityCheck compare h l) (\<lambda>_.
     bind_run (for_each (\<lambda>_ (q, h, l). bind_run (List_RemoveFront h l) (\<lambda>(y, h, l).
                 bind_run (List_IsInList h l y) (\<lambda>found. ASSERT (\<not> found) (Inr (q @ [y], h, l))))) p ([], h, l)) (\<lambda>(q, h, l).
     ASSERT (List_IsEmpty l)
      (bind_run (for_each (\<lambda>i _. ASSERT (compare (q ! nat i) (q ! nat (i + 1)) \<le> 0) (Inr ()))
                  (count_to (int (length p) - 1)) ()) (\<lambda>_.
       bind_run (SortedList_SanityCheck compare h l) (\<lambda>_. Inr (h, l))))))))"

fun sorted_insert_walk :: "nat \<Rightarrow> 'a heap \<Rightarrow> List \<Rightarrow> nat option \<Rightarrow> nat \<Rightarrow> int \<Rightarrow>
    ('a heap \<times> List) run" where
  "sorted_insert_walk 0 h l ptr element sortKey = Inl Diverges"
| "sorted_insert_walk (Suc n) h l ptr element sortKey =
     bind_run (load h ptr) (\<lambda>e.
       if nxt e = None then
         bind_run (set_next h (last_elem l) (Some element)) (\<lambda>h.
         Inr (h, l\<lparr>last_elem := Some element\<rparr>))
       else bind_run (load h (nxt e)) (\<lambda>e'.
         case key e' of None \<Rightarrow> Inl Uninitialised
         | Some k \<Rightarrow>
             if sortKey < k then
               bind_run (set_next h (Some element) (nxt e)) (\<lambda>h.
               bind_run (set_next h ptr (Some element)) (\<lambda>h. Inr (h, l)))
             else sorted_insert_walk n h l (nxt e) element sortKey))"

definition List_SortedInsert :: "'a heap \<Rightarrow> List \<Rightarrow> 'a \<Rightarrow> int \<Rightarrow> ('a heap \<times> List) run" where
  "List_SortedInsert h l itm sortKey =
     (let (element, h) = new_element h itm (Some sortKey) in
      if List_IsEmpty l
      then Inr (h, l\<lparr>first := Some element, last_elem := Some element\<rparr>)
      else bind_run (load h (first l)) (\<lambda>f.
        case key f of None \<Rightarrow> Inl Uninitialised
        | Some k \<Rightarrow>
            if sortKey < k then
              bind_run (set_next h (Some element) (first l)) (\<lambda>h.
              Inr (h, l\<lparr>first := Some element\<rparr>))
            else sorted_insert_walk (Suc (brk h)) h l (first l) element sortKey))"

section \<open>Representation\<close>

declare sanity_walk.simps [simp del]

fun lseg :: "(nat \<Rightarrow> 'a ListElement option) \<Rightarrow> nat option \<Rightarrow> nat list \<Rightarrow> nat option \<Rightarrow> bool" where
  "lseg c p [] q \<longleftrightarrow> p = q"
| "lseg c p (a # as) q \<longleftrightarrow> p = Some a \<and> (\<exists>e. c a = Some e \<and> lseg c (nxt e) as q)"

definition items :: "(nat \<Rightarrow> 'a ListElement option) \<Rightarrow> nat list \<Rightarrow> 'a list" where
  "items c as = map (\<lambda>a. item (the (c a))) as"

definition heap_ok :: "'a heap \<Rightarrow> bool" where
  [inv_defs]: "heap_ok h \<longleftrightarrow> (\<forall>a. brk h \<le> a \<longrightarrow> cells h a = None)"

definition list_at :: "'a heap \<Rightarrow> List \<Rightarrow> nat list \<Rightarrow> 'a list \<Rightarrow> bool" where
  [inv_defs]: "list_at h l as xs \<longleftrightarrow>
     heap_ok h \<and> lseg (cells h) (first l) as None \<and> distinct as \<and>
     last_elem l = (if as = [] then None else Some (last as)) \<and>
     numInList l = int (length as) \<and> xs = items (cells h) as"

definition list_rep :: "'a heap \<Rightarrow> List \<Rightarrow> 'a list \<Rightarrow> bool" where
  "list_rep h l xs \<longleftrightarrow> (\<exists>as. list_at h l as xs)"

lemma load_Some [simp]: "load h (Some a) = deref (cells h a)"
  by (simp add: load_def)

lemma load_None [simp]: "load h None = Inl BadPointer"
  by (simp add: load_def)

lemma set_next_Some [simp]:
  "cells h a = Some e \<Longrightarrow> set_next h (Some a) q = Inr (h\<lparr>cells := (cells h)(a \<mapsto> e\<lparr>nxt := q\<rparr>)\<rparr>)"
  by (simp add: set_next_def)

lemma delete_element_Some [simp]:
  "cells h a = Some e \<Longrightarrow> delete_element h (Some a) = Inr (h\<lparr>cells := (cells h)(a := None)\<rparr>)"
  by (simp add: delete_element_def)

lemma items_Nil [simp]: "items c [] = []"
  and items_Cons [simp]: "items c (a # as) = item (the (c a)) # items c as"
  and items_append [simp]: "items c (as @ bs) = items c as @ items c bs"
  and length_items [simp]: "length (items c as) = length as"
  by (simp_all add: items_def)

lemma items_eq_Nil [simp]: "items c as = [] \<longleftrightarrow> as = []"
  by (simp add: items_def)

lemma Nil_eq_items: "[] = items c as \<longleftrightarrow> as = []"
  by (simp add: items_def)

lemma items_upd [simp]: "a \<notin> set as \<Longrightarrow> items (c(a := e)) as = items c as"
  by (auto simp: items_def)

lemma lseg_append [simp]:
  "lseg c p (as @ bs) q \<longleftrightarrow> (\<exists>r. lseg c p as r \<and> lseg c r bs q)"
  by (induction as arbitrary: p) auto

lemma lseg_upd [simp]: "a \<notin> set as \<Longrightarrow> lseg (c(a := e)) p as q \<longleftrightarrow> lseg c p as q"
  by (induction as arbitrary: p) auto

lemma lseg_cells: "lseg c p as q \<Longrightarrow> a \<in> set as \<Longrightarrow> \<exists>e. c a = Some e"
  by (induction as arbitrary: p) auto

lemma lseg_None [simp]: "lseg c None as None \<longleftrightarrow> as = []"
  by (cases as) auto

lemma lseg_brk: "heap_ok h \<Longrightarrow> lseg (cells h) p as q \<Longrightarrow> a \<in> set as \<Longrightarrow> a < brk h"
  by (metis heap_ok_def lseg_cells not_less option.distinct(1))

lemma brk_fresh: "heap_ok h \<Longrightarrow> lseg (cells h) p as q \<Longrightarrow> brk h \<notin> set as"
  using lseg_brk[of h p as q "brk h"] by auto

text \<open>A well-formed list has at most as many elements as addresses were ever allocated.\<close>

lemma walk_fuel_enough:
  assumes "heap_ok h" "lseg (cells h) p as q" "distinct as"
  shows "length as \<le> brk h"
proof -
  have "set as \<subseteq> {..<brk h}" using lseg_brk[OF assms(1,2)] by auto
  then have "card (set as) \<le> brk h" using card_mono[of "{..<brk h}" "set as"] by simp
  with assms(3) show ?thesis by (simp add: distinct_card)
qed

lemma find_item_ok:
  "lseg (cells h) p as None \<Longrightarrow> length as < n \<Longrightarrow> find_item n h p x = Inr (x \<in> set (items (cells h) as))"
proof (induction as arbitrary: p n)
  case Nil
  then show ?case by (cases n) auto
next
  case (Cons a as)
  then show ?case by (cases n) auto
qed

lemma List_IsInList_at: "list_at h l as xs \<Longrightarrow> List_IsInList h l x = Inr (x \<in> set xs)"
  unfolding List_IsInList_def list_at_def
  using find_item_ok[of h "first l" as "Suc (brk h)" x] walk_fuel_enough[of h "first l" as None]
  by (simp del: find_item.simps add: le_imp_less_Suc)

lemma List_IsEmpty_at: "list_at h l as xs \<Longrightarrow> List_IsEmpty l \<longleftrightarrow> xs = []"
  by (auto simp: list_at_def List_IsEmpty_def items_def)

text \<open>The cell that \<open>new\<close> returns is not part of any list, and allocating it changes none.\<close>

lemma list_at_new_element:
  assumes "list_at h l as xs" and new: "new_element h x k = (a, h')"
  shows "list_at h' l as xs" and "a \<notin> set as" and "cells h' a = Some \<lparr>item = x, key = k, nxt = None\<rparr>"
proof -
  note d = assms(1)[unfolded list_at_def]
  have fresh: "brk h \<notin> set as" using d brk_fresh by blast
  show "list_at h' l as xs" using d fresh new
    by (auto simp: list_at_def new_element_def heap_ok_def)
  show "a \<notin> set as" "cells h' a = Some \<lparr>item = x, key = k, nxt = None\<rparr>"
    using fresh new by (auto simp: new_element_def)
qed

section \<open>Each operation implements its abstract counterpart\<close>

text \<open>
  \<open>same_outside as h h'\<close>: the cells of \<open>h\<close> that are not elements \<open>as\<close> of this list are unchanged,
  so that every other list in the heap keeps its contents.
\<close>

definition same_outside :: "nat list \<Rightarrow> 'a heap \<Rightarrow> 'a heap \<Rightarrow> bool" where
  "same_outside as h h' \<longleftrightarrow>
     brk h \<le> brk h' \<and> (\<forall>a. a < brk h \<longrightarrow> a \<notin> set as \<longrightarrow> cells h' a = cells h a)"

lemma list_at_other:
  assumes "list_at h l bs ys" "same_outside as h h'" "set as \<inter> set bs = {}" "heap_ok h'"
  shows "list_at h' l bs ys"
proof -
  have eq: "cells h' a = cells h a" if "a \<in> set bs" for a
    using that assms lseg_brk[of h "first l" bs None a]
    by (auto simp: list_at_def same_outside_def)
  have "lseg (cells h') p cs None \<longleftrightarrow> lseg (cells h) p cs None" if "set cs \<subseteq> set bs" for p cs
    using that by (induction cs arbitrary: p) (auto simp: eq)
  moreover have "items (cells h') bs = items (cells h) bs"
    by (simp add: items_def eq)
  ultimately show ?thesis using assms(1,4) by (simp add: list_at_def)
qed

lemma List_Append_at:
  assumes "list_at h l as xs" "x \<notin> set xs"
  shows "\<exists>h' l'. List_Append h l x = Inr (h', l') \<and> list_at h' l' (as @ [brk h]) (xs @ [x]) \<and>
                 same_outside as h h'"
proof -
  obtain a h1 where new: "new_element h x None = (a, h1)" by fastforce
  note n = list_at_new_element[OF assms(1) new]
  note d = n(1)[unfolded list_at_def]
  have a: "a = brk h" "brk h1 = Suc (brk h)" "\<And>b. b \<noteq> a \<Longrightarrow> cells h1 b = cells h b"
    using new by (auto simp: new_element_def)
  have out: "List_IsInList h1 l x = Inr False" using List_IsInList_at[OF n(1)] assms(2) by simp
  show ?thesis
  proof (cases "as = []")
    case True
    let ?l = "l\<lparr>first := Some a, last_elem := Some a, numInList := 1\<rparr>"
    have at: "list_at h1 ?l [a] [x]" using True d n(3) by (auto simp: list_at_def)
    then have "List_IsInList h1 ?l x = Inr True" by (simp add: List_IsInList_at)
    then have "List_Append h l x = Inr (h1, ?l)"
      using True new d out List_IsEmpty_at[OF n(1)] by (auto simp: List_Append_def)
    with at True d a show ?thesis by (auto simp: same_outside_def)
  next
    case False
    then obtain bs b where as: "as = bs @ [b]" by (metis append_butlast_last_id)
    from d as obtain e where e: "cells h1 b = Some e" "lseg (cells h1) (first l) bs (Some b)"
      "nxt e = None" "b \<notin> set bs" by auto
    have ab: "a \<noteq> b" "a \<notin> set bs" using n(2) as by auto
    let ?h = "h1\<lparr>cells := (cells h1)(b \<mapsto> e\<lparr>nxt := Some a\<rparr>)\<rparr>"
    let ?l = "l\<lparr>last_elem := Some a, numInList := numInList l + 1\<rparr>"
    have "heap_ok ?h" using d e(1) by (auto simp: heap_ok_def)
    then have at: "list_at ?h ?l (as @ [a]) (xs @ [x])"
      using d e ab n(2,3) as by (auto simp: list_at_def)
    then have "List_IsInList ?h ?l x = Inr True" by (simp add: List_IsInList_at)
    then have "List_Append h l x = Inr (?h, ?l)"
      using False as new d e(1) out List_IsEmpty_at[OF n(1)] by (auto simp: List_Append_def)
    with at as a show ?thesis by (auto simp: same_outside_def)
  qed
qed

lemma List_Append_dup:
  assumes "list_at h l as xs" "x \<in> set xs"
  shows "List_Append h l x = Inl AssertFail"
proof -
  obtain a h1 where new: "new_element h x None = (a, h1)" by fastforce
  from List_IsInList_at[OF list_at_new_element(1)[OF assms(1) new]] assms(2) new show ?thesis
    by (simp add: List_Append_def)
qed

lemma List_Prepend_at:
  assumes "list_at h l as xs" "x \<notin> set xs"
  shows "\<exists>h' l'. List_Prepend h l x = Inr (h', l') \<and> list_at h' l' (brk h # as) (x # xs) \<and>
                 same_outside as h h'"
proof -
  obtain a h1 where new: "new_element h x None = (a, h1)" by fastforce
  note n = list_at_new_element[OF assms(1) new]
  note d = n(1)[unfolded list_at_def]
  have a: "a = brk h" "brk h1 = Suc (brk h)" "\<And>b. b \<noteq> a \<Longrightarrow> cells h1 b = cells h b"
    using new by (auto simp: new_element_def)
  have out: "List_IsInList h1 l x = Inr False" using List_IsInList_at[OF n(1)] assms(2) by simp
  show ?thesis
  proof (cases "as = []")
    case True
    let ?l = "l\<lparr>first := Some a, last_elem := Some a, numInList := 1\<rparr>"
    have at: "list_at h1 ?l [a] [x]" using True d n(3) by (auto simp: list_at_def)
    then have "List_IsInList h1 ?l x = Inr True" by (simp add: List_IsInList_at)
    then have "List_Prepend h l x = Inr (h1, ?l)"
      using True new d out List_IsEmpty_at[OF n(1)] by (auto simp: List_Prepend_def)
    with at True d a show ?thesis by (auto simp: same_outside_def)
  next
    case False
    let ?h = "h1\<lparr>cells := (cells h1)(a \<mapsto> \<lparr>item = x, key = None, nxt = first l\<rparr>)\<rparr>"
    let ?l = "l\<lparr>first := Some a, numInList := numInList l + 1\<rparr>"
    have "heap_ok ?h" using d n(3) by (auto simp: heap_ok_def)
    then have at: "list_at ?h ?l (a # as) (x # xs)"
      using d n(2,3) False by (auto simp: list_at_def)
    then have "List_IsInList ?h ?l x = Inr True" by (simp add: List_IsInList_at)
    then have "List_Prepend h l x = Inr (?h, ?l)"
      using False new d n(3) out List_IsEmpty_at[OF n(1)] by (auto simp: List_Prepend_def)
    with at a show ?thesis by (auto simp: same_outside_def)
  qed
qed

lemma List_RemoveFront_at:
  assumes "list_at h l as xs" "xs \<noteq> []"
  shows "\<exists>h' l'. List_RemoveFront h l = Inr (hd xs, h', l') \<and> list_at h' l' (tl as) (tl xs) \<and>
                 same_outside as h h'"
proof -
  note d = assms(1)[unfolded list_at_def]
  from assms(2) d obtain a bs where as: "as = a # bs" by (cases as) auto
  from d as obtain e where e: "cells h a = Some e" "lseg (cells h) (nxt e) bs None" "a \<notin> set bs"
    "first l = Some a" by auto
  let ?h = "h\<lparr>cells := (cells h)(a := None)\<rparr>"
  have single: "first l = last_elem l \<longleftrightarrow> bs = []" using d as e by (auto split: if_splits)
  let ?l = "(if bs = [] then l\<lparr>first := None, last_elem := None\<rparr> else l\<lparr>first := nxt e\<rparr>)
              \<lparr>numInList := numInList l - 1\<rparr>"
  have "List_RemoveFront h l = Inr (hd xs, ?h, ?l)"
    using d as e single assms(2) List_IsEmpty_at[OF assms(1)]
    by (auto simp: List_RemoveFront_def Let_def)
  moreover have "heap_ok ?h" using d by (auto simp: heap_ok_def)
  then have "list_at ?h ?l (tl as) (tl xs)" using d as e by (auto simp: list_at_def)
  moreover have "same_outside as h ?h" by (auto simp: same_outside_def as)
  ultimately show ?thesis by blast
qed

lemma List_RemoveFront_empty: "list_at h l as [] \<Longrightarrow> List_RemoveFront h l = Inl AssertFail"
  using List_IsEmpty_at[of h l as "[]"] by (simp add: List_RemoveFront_def)

lemma List_Front_at: "list_at h l as xs \<Longrightarrow> xs \<noteq> [] \<Longrightarrow> List_Front h l = Inr (hd xs)"
  by (cases as) (auto simp: list_at_def List_Front_def)

text \<open>
  \<open>Remove\<close>: the walk keeps \<open>prev\<close> one element behind \<open>ptr\<close>; here \<open>p\<close> is the element of \<open>prev\<close>
  and \<open>qs\<close> are the elements from \<open>ptr\<close> on.
\<close>

lemma remove_walk_at:
  assumes "list_at h l (ps @ p # qs) xs" "lseg (cells h) ptr qs None" "length qs < n"
    and "x \<in> set (items (cells h) qs)"
  shows "\<exists>h' l' as'. remove_walk n h l (Some p) ptr x = Inr (h', l') \<and>
           list_at h' l' as' (items (cells h) (ps @ [p]) @ remove1 x (items (cells h) qs)) \<and>
           set as' \<subseteq> set (ps @ p # qs) \<and> same_outside (ps @ p # qs) h h'"
  using assms
proof (induction qs arbitrary: ps p ptr n)
  case (Cons q qs)
  note d = Cons.prems(1)[unfolded list_at_def]
  from Cons.prems(2) obtain e where e: "ptr = Some q" "cells h q = Some e"
    "lseg (cells h) (nxt e) qs None" by auto
  from d obtain pe where pe: "cells h p = Some pe" "lseg (cells h) (first l) ps (Some p)"
    "nxt pe = Some q" by auto
  have dist: "p \<noteq> q" "p \<notin> set qs" "q \<notin> set qs" "p \<notin> set ps" "q \<notin> set ps"
    "distinct ps" "distinct qs" "set ps \<inter> set qs = {}" using d by auto
  obtain m where n: "n = Suc m" "length qs < m" using Cons.prems(3) by (cases n) auto
  show ?case
  proof (cases "x = item e")
    case True
    let ?h1 = "h\<lparr>cells := (cells h)(p \<mapsto> pe\<lparr>nxt := nxt e\<rparr>)\<rparr>"
    let ?h2 = "h\<lparr>cells := (cells h)(p \<mapsto> pe\<lparr>nxt := nxt e\<rparr>, q := None)\<rparr>"
    let ?l = "(if nxt e = None then l\<lparr>last_elem := Some p\<rparr> else l)\<lparr>numInList := numInList l - 1\<rparr>"
    have run: "remove_walk n h l (Some p) ptr x = Inr (?h2, ?l)"
      using n e pe True dist by (auto simp: Let_def)
    have "nxt e = None \<longleftrightarrow> qs = []" using e(3) by (cases qs) auto
    moreover have "heap_ok ?h2" using d pe(1) by (auto simp: heap_ok_def)
    ultimately have "list_at ?h2 ?l (ps @ p # qs)
        (items (cells h) (ps @ [p]) @ remove1 x (items (cells h) (q # qs)))"
      using d e pe dist True by (auto simp: list_at_def)
    then show ?thesis using run
      by (intro exI[of _ ?h2] exI[of _ ?l] exI[of _ "ps @ p # qs"]) (auto simp: same_outside_def)
  next
    case False
    have "remove_walk n h l (Some p) ptr x = remove_walk m h l (Some q) (nxt e) x"
      using n e False by simp
    moreover have "list_at h l ((ps @ [p]) @ q # qs) xs" using Cons.prems(1) by simp
    moreover have "x \<in> set (items (cells h) qs)" using Cons.prems(4) False e by simp
    ultimately show ?thesis
      using Cons.IH[of "ps @ [p]" q "nxt e" m] e n(2) False by simp
  qed
qed simp

lemma List_Remove_at:
  assumes at: "list_at h l as xs" and x: "x \<in> set xs" and dist: "distinct xs"
  shows "\<exists>h' l' as'. List_Remove h l x = Inr (h', l') \<and> list_at h' l' as' (remove1 x xs) \<and>
           set as' \<subseteq> set as \<and> same_outside as h h'"
proof -
  note d = at[unfolded list_at_def]
  from x d obtain a bs where as: "as = a # bs" by (cases as) auto
  from d as obtain e where e: "cells h a = Some e" "lseg (cells h) (nxt e) bs None"
    "first l = Some a" by auto
  have inl: "List_IsInList h l x = Inr True" using List_IsInList_at[OF at] x by simp
  have xs: "xs = item e # items (cells h) bs" using d as e by simp
  have gone: "x \<notin> set (remove1 x xs)" using dist by simp
  let ?body = "(if x = item e
      then bind_run (List_RemoveFront h l) (\<lambda>(removed, h, l). ASSERT (x = removed) (Inr (h, l)))
      else remove_walk (Suc (brk h)) h l (first l) (nxt e) x)"
  have "\<exists>h' l' as'. ?body = Inr (h', l') \<and> list_at h' l' as' (remove1 x xs) \<and>
           set as' \<subseteq> set as \<and> same_outside as h h'"
  proof (cases "x = item e")
    case True
    with List_RemoveFront_at[OF at] x xs obtain h' l' where
      "List_RemoveFront h l = Inr (x, h', l')" "list_at h' l' (tl as) (tl xs)" "same_outside as h h'"
      by auto
    with True xs as show ?thesis
      by (intro exI[of _ h'] exI[of _ l'] exI[of _ "tl as"]) auto
  next
    case False
    have "length bs < Suc (brk h)" using walk_fuel_enough[of h "first l" as None] d as by simp
    moreover have "x \<in> set (items (cells h) bs)" using False x xs by simp
    ultimately show ?thesis
      using remove_walk_at[of h l "[]" a bs xs "nxt e" "Suc (brk h)" x] at as e xs False
      by (simp del: remove_walk.simps)
  qed
  then obtain h' l' as' where r: "?body = Inr (h', l')" "list_at h' l' as' (remove1 x xs)"
    "set as' \<subseteq> set as" "same_outside as h h'" by blast
  have "List_Remove h l x = Inr (h', l')"
    using inl e r(1) List_IsInList_at[OF r(2)] gone
    by (simp add: List_Remove_def del: remove_walk.simps)
  with r show ?thesis by blast
qed

lemma List_Remove_missing: "list_at h l as xs \<Longrightarrow> x \<notin> set xs \<Longrightarrow> List_Remove h l x = Inl AssertFail"
  by (simp add: List_Remove_def List_IsInList_at)

text \<open>\<open>Apply\<close> visits the items in list order.\<close>

lemma apply_walk_ok:
  "lseg (cells h) p as None \<Longrightarrow> length as < n \<Longrightarrow>
     apply_walk n h p f s = for_each f (items (cells h) as) s"
proof (induction as arbitrary: p n s)
  case Nil
  then show ?case by (cases n) auto
next
  case (Cons a as)
  then obtain m e where n: "n = Suc m" "cells h a = Some e" "p = Some a" "lseg (cells h) (nxt e) as None"
    by (cases n) auto
  with Cons show ?case by (cases "f (item e) s") auto
qed

lemma List_Apply_at: "list_at h l as xs \<Longrightarrow> List_Apply h l f s = for_each f xs s"
  unfolding List_Apply_def list_at_def
  using apply_walk_ok[of h "first l" as "Suc (brk h)" f s] walk_fuel_enough[of h "first l" as None]
  by (simp del: apply_walk.simps add: le_imp_less_Suc)

text \<open>\<open>SanityCheck\<close> accepts every well-formed list.\<close>

lemma sanity_walk_at:
  assumes "list_at h l (ps @ qs) xs" "qs \<noteq> []" "lseg (cells h) ptr qs None" "length qs \<le> n"
  shows "sanity_walk n h l ptr (int (length ps) + 1) = Inr (numInList l)"
  using assms
proof (induction qs arbitrary: ps ptr n)
  case (Cons q qs)
  then have num: "numInList l = int (length ps + length (q # qs))"
    and last: "last_elem l = Some (last (q # qs))" and dist: "q \<notin> set qs"
    by (auto simp: list_at_def)
  show ?case
  proof (cases "qs = []")
    case True
    with Cons.prems(3) num last show ?thesis by (simp add: sanity_walk.simps)
  next
    case False
    from Cons.prems obtain m e where n: "n = Suc m" "cells h q = Some e" "ptr = Some q"
      "lseg (cells h) (nxt e) qs None" "length qs \<le> m" by (cases n) auto
    have "ptr \<noteq> last_elem l" using False last dist n(3) by auto
    then have "sanity_walk n h l ptr (int (length ps) + 1) =
          sanity_walk m h l (nxt e) (int (length (ps @ [q])) + 1)"
      using n num False by (subst sanity_walk.simps) (cases qs, auto)
    with Cons.IH[of "ps @ [q]" "nxt e" m] Cons.prems(1) False n show ?thesis by simp
  qed
qed simp

lemma lseg_last: "lseg c p as q \<Longrightarrow> as \<noteq> [] \<Longrightarrow> \<exists>e. c (last as) = Some e \<and> nxt e = q"
  by (induction as arbitrary: p) auto

lemma List_SanityCheck_at:
  assumes "list_at h l as xs"
  shows "List_SanityCheck h l = Inr ()"
proof (cases as)
  case Nil
  with assms show ?thesis by (simp add: list_at_def List_SanityCheck_def)
next
  case (Cons a bs)
  have d: "lseg (cells h) (first l) as None" "distinct as" "last_elem l = Some (last as)"
    "numInList l = int (length as)" "first l = Some a"
    using assms Cons by (auto simp: list_at_def)
  obtain e where e: "cells h (last as) = Some e" "nxt e = None"
    using lseg_last[OF d(1)] Cons by auto
  have w: "sanity_walk (nat (numInList l)) h l (first l) 1 = Inr (numInList l)"
    using sanity_walk_at[of h l "[]" as xs "first l" "nat (numInList l)"] assms d(1,4) Cons by simp
  have one: "numInList l = 1" if "a = last as"
  proof -
    have "bs = []" using that d(2) Cons last_in_set[of bs] by (auto split: if_splits)
    with d(4) Cons show ?thesis by simp
  qed
  show ?thesis
    using w one e d(3,5) by (cases "a = last as") (simp_all add: List_SanityCheck_def)
qed

text \<open>
  \<open>SortedList::Insert\<close> puts the item before the first element that is bigger, after every element
  that is smaller or equal.
\<close>

fun sorted_ins :: "('a \<Rightarrow> 'a \<Rightarrow> int) \<Rightarrow> 'a \<Rightarrow> 'a list \<Rightarrow> 'a list" where
  "sorted_ins cmp x [] = [x]"
| "sorted_ins cmp x (y # ys) = (if cmp x y < 0 then x # y # ys else y # sorted_ins cmp x ys)"

lemma set_sorted_ins [simp]: "set (sorted_ins cmp x ys) = insert x (set ys)"
  by (induction ys) auto

lemma length_sorted_ins [simp]: "length (sorted_ins cmp x ys) = Suc (length ys)"
  by (induction ys) auto

lemma list_at_splice:
  assumes at: "list_at h l (ps @ p # qs) xs" and a: "a \<notin> set (ps @ p # qs)" "a < brk h"
    and ce: "cells h p = Some e"
    and h': "h' = h\<lparr>cells := (cells h)(a \<mapsto> \<lparr>item = x, key = k, nxt = nxt e\<rparr>, p \<mapsto> e\<lparr>nxt := Some a\<rparr>)\<rparr>"
    and l': "first l' = first l" "last_elem l' = (if qs = [] then Some a else last_elem l)"
      "numInList l' = numInList l + 1"
  shows "list_at h' l' (ps @ p # a # qs) (items (cells h) (ps @ [p]) @ x # items (cells h) qs)"
proof -
  from at have d: "lseg (cells h) (first l) ps (Some p)" "lseg (cells h) (nxt e) qs None"
    "p \<notin> set ps" "p \<notin> set qs" "distinct ps" "distinct qs" "set ps \<inter> set qs = {}"
    "numInList l = int (length ps + Suc (length qs))" "heap_ok h"
    "last_elem l = Some (if qs = [] then p else last qs)"
    using ce by (auto simp: list_at_def)
  have "heap_ok h'" using d(9) ce a(2) by (auto simp: heap_ok_def h')
  then show ?thesis using d ce a l' by (auto simp: list_at_def h')
qed

lemma insert_walk_at:
  assumes "list_at h l (ps @ p # qs) xs" "a \<notin> set (ps @ p # qs)"
    "cells h a = Some \<lparr>item = x, key = k, nxt = None\<rparr>" "a < brk h" "length qs < n"
  shows "\<exists>h' l' as'. insert_walk n cmp h l (Some p) a x = Inr (h', l') \<and>
     list_at h' l' as' (items (cells h) (ps @ [p]) @ sorted_ins cmp x (items (cells h) qs)) \<and>
     set as' = insert a (set (ps @ p # qs)) \<and> same_outside (a # ps @ p # qs) h h'"
  using assms
proof (induction qs arbitrary: ps p n)
  case Nil
  then obtain m e where n: "n = Suc m" and e: "cells h p = Some e" "nxt e = None" "last_elem l = Some p"
    by (cases n) (auto simp: list_at_def)
  let ?h = "h\<lparr>cells := (cells h)(p \<mapsto> e\<lparr>nxt := Some a\<rparr>)\<rparr>"
  let ?l = "l\<lparr>last_elem := Some a, numInList := numInList l + 1\<rparr>"
  have "?h = h\<lparr>cells := (cells h)(a \<mapsto> \<lparr>item = x, key = k, nxt = nxt e\<rparr>, p \<mapsto> e\<lparr>nxt := Some a\<rparr>)\<rparr>"
    using Nil.prems(2,3) e(2) by (simp add: map_upd_triv)
  then have at: "list_at ?h ?l (ps @ [p, a]) (items (cells h) (ps @ [p]) @ [x])"
    using list_at_splice[OF Nil.prems(1,2,4) e(1), of ?h x k ?l] by simp
  then have "List_IsInList ?h ?l x = Inr True" by (simp add: List_IsInList_at)
  with n e have "insert_walk n cmp h l (Some p) a x = Inr (?h, ?l)" by simp
  with at show ?case by (intro exI[of _ ?h] exI[of _ ?l] exI[of _ "ps @ [p, a]"])
    (auto simp: same_outside_def)
next
  case (Cons q qs)
  then obtain m e f where n: "n = Suc m" and e: "cells h p = Some e" "nxt e = Some q" "cells h q = Some f"
    by (cases n) (auto simp: list_at_def)
  show ?case
  proof (cases "cmp x (item f) < 0")
    case True
    let ?h = "h\<lparr>cells := (cells h)(a \<mapsto> \<lparr>item = x, key = k, nxt = nxt e\<rparr>, p \<mapsto> e\<lparr>nxt := Some a\<rparr>)\<rparr>"
    let ?l = "l\<lparr>numInList := numInList l + 1\<rparr>"
    have "insert_walk n cmp h l (Some p) a x = Inr (?h, ?l)"
      using n e True Cons.prems(2,3) by auto
    moreover have "list_at ?h ?l (ps @ p # a # q # qs) (items (cells h) (ps @ [p]) @ x # items (cells h) (q # qs))"
      using list_at_splice[OF Cons.prems(1,2,4) e(1), of ?h x k ?l] by simp
    ultimately show ?thesis using True e(3)
      by (intro exI[of _ ?h] exI[of _ ?l] exI[of _ "ps @ p # a # q # qs"]) (auto simp: same_outside_def)
  next
    case False
    have "insert_walk n cmp h l (Some p) a x = insert_walk m cmp h l (Some q) a x"
      using n e False by simp
    with Cons.IH[of "ps @ [p]" q m] Cons.prems n False e(3) show ?thesis by simp
  qed
qed

lemma SortedList_Insert_at:
  assumes "list_at h l as xs" "x \<notin> set xs"
  shows "\<exists>h' l' as'. SortedList_Insert cmp h l x = Inr (h', l') \<and> list_at h' l' as' (sorted_ins cmp x xs) \<and>
                 set as' = insert (brk h) (set as) \<and> same_outside as h h'"
proof -
  obtain a h1 where new: "new_element h x None = (a, h1)" by fastforce
  note n = list_at_new_element[OF assms(1) new]
  note d = n(1)[unfolded list_at_def]
  have a: "a = brk h" "brk h1 = Suc (brk h)" "\<And>b. b \<noteq> a \<Longrightarrow> cells h1 b = cells h b"
    using new by (auto simp: new_element_def)
  have out: "List_IsInList h1 l x = Inr False" using List_IsInList_at[OF n(1)] assms(2) by simp
  note emp = List_IsEmpty_at[OF n(1)]
  show ?thesis
  proof (cases as)
    case Nil
    let ?l = "l\<lparr>first := Some a, last_elem := Some a, numInList := 1\<rparr>"
    have at: "list_at h1 ?l [a] [x]" using Nil d n(3) by (auto simp: list_at_def)
    then have "List_IsInList h1 ?l x = Inr True" by (simp add: List_IsInList_at)
    then have "SortedList_Insert cmp h l x = Inr (h1, ?l)"
      using Nil new d out emp by (auto simp: SortedList_Insert_def)
    with at Nil d a show ?thesis
      by (intro exI[of _ h1] exI[of _ ?l] exI[of _ "[a]"]) (auto simp: same_outside_def)
  next
    case (Cons b bs)
    with d obtain e where e: "first l = Some b" "cells h1 b = Some e" "xs = item e # items (cells h1) bs"
      by auto
    show ?thesis
    proof (cases "cmp x (item e) < 0")
      case True
      let ?h = "h1\<lparr>cells := (cells h1)(a \<mapsto> \<lparr>item = x, key = None, nxt = first l\<rparr>)\<rparr>"
      let ?l = "l\<lparr>first := Some a, numInList := numInList l + 1\<rparr>"
      have "heap_ok ?h" using d n(3) by (auto simp: heap_ok_def)
      then have at: "list_at ?h ?l (a # as) (x # xs)"
        using d n(2,3) Cons by (auto simp: list_at_def)
      then have "List_IsInList ?h ?l x = Inr True" by (simp add: List_IsInList_at)
      then have "SortedList_Insert cmp h l x = Inr (?h, ?l)"
        using Cons new e True n(3) out emp by (auto simp: SortedList_Insert_def)
      with at a True e show ?thesis
        by (intro exI[of _ ?h] exI[of _ ?l] exI[of _ "a # as"]) (auto simp: same_outside_def)
    next
      case False
      have "length bs < Suc (brk h1)"
        using walk_fuel_enough[of h1 "first l" as None] d Cons by auto
      from insert_walk_at[of h1 l "[]" b bs xs a x None _ cmp, OF _ _ _ _ this] n Cons a(1,2)
      obtain h' l' as' where w: "insert_walk (Suc (brk h1)) cmp h1 l (Some b) a x = Inr (h', l')"
        "list_at h' l' as' (item e # sorted_ins cmp x (items (cells h1) bs))"
        "set as' = insert a (set as)" "same_outside (a # as) h1 h'" using e(2) by auto
      have "SortedList_Insert cmp h l x = Inr (h', l')"
        using new e False out emp w(1) by (simp add: SortedList_Insert_def)
      with w False e(3) a show ?thesis
        by (intro exI[of _ h'] exI[of _ l'] exI[of _ as']) (auto simp: same_outside_def)
    qed
  qed
qed

section \<open>The self tests pass\<close>

lemma list_at_rep: "list_at h l as xs \<Longrightarrow> list_rep h l xs"
  by (auto simp: list_rep_def)

lemma list_rep_ops:
  assumes "list_rep h l xs"
  shows "List_IsInList h l x = Inr (x \<in> set xs)" and "List_IsEmpty l \<longleftrightarrow> xs = []"
    and "List_SanityCheck h l = Inr ()" and "numInList l = int (length xs)"
    and "x \<notin> set xs \<Longrightarrow> \<exists>h' l'. List_Append h l x = Inr (h', l') \<and> list_rep h' l' (xs @ [x])"
    and "x \<in> set xs \<Longrightarrow> List_Append h l x = Inl AssertFail"
    and "x \<notin> set xs \<Longrightarrow> \<exists>h' l'. List_Prepend h l x = Inr (h', l') \<and> list_rep h' l' (x # xs)"
    and "xs \<noteq> [] \<Longrightarrow> \<exists>h' l'. List_RemoveFront h l = Inr (hd xs, h', l') \<and> list_rep h' l' (tl xs)"
    and "xs = [] \<Longrightarrow> List_RemoveFront h l = Inl AssertFail"
    and "x \<notin> set xs \<Longrightarrow> \<exists>h' l'. SortedList_Insert cmp h l x = Inr (h', l') \<and> list_rep h' l' (sorted_ins cmp x xs)"
proof -
  from assms obtain as where at: "list_at h l as xs" by (auto simp: list_rep_def)
  show "List_IsInList h l x = Inr (x \<in> set xs)" "List_IsEmpty l \<longleftrightarrow> xs = []"
    "List_SanityCheck h l = Inr ()"
    using at by (simp_all add: List_IsInList_at List_IsEmpty_at List_SanityCheck_at)
  show "numInList l = int (length xs)" using at by (simp add: list_at_def)
  show "\<exists>h' l'. List_Append h l x = Inr (h', l') \<and> list_rep h' l' (xs @ [x])" if "x \<notin> set xs"
    using List_Append_at[OF at that] list_at_rep by blast
  show "List_Append h l x = Inl AssertFail" if "x \<in> set xs"
    using List_Append_dup[OF at that] .
  show "\<exists>h' l'. List_Prepend h l x = Inr (h', l') \<and> list_rep h' l' (x # xs)" if "x \<notin> set xs"
    using List_Prepend_at[OF at that] list_at_rep by blast
  show "\<exists>h' l'. List_RemoveFront h l = Inr (hd xs, h', l') \<and> list_rep h' l' (tl xs)" if "xs \<noteq> []"
    using List_RemoveFront_at[OF at that] list_at_rep by blast
  show "List_RemoveFront h l = Inl AssertFail" if "xs = []"
    using that List_IsEmpty_at[OF at] by (simp add: List_RemoveFront_def)
  show "\<exists>h' l'. SortedList_Insert cmp h l x = Inr (h', l') \<and> list_rep h' l' (sorted_ins cmp x xs)"
    if "x \<notin> set xs"
    using SortedList_Insert_at[OF at that] list_at_rep by blast
qed

lemma list_rep_Remove:
  assumes "list_rep h l xs" "distinct xs"
  shows "x \<in> set xs \<Longrightarrow> \<exists>h' l'. List_Remove h l x = Inr (h', l') \<and> list_rep h' l' (remove1 x xs)"
    and "x \<notin> set xs \<Longrightarrow> List_Remove h l x = Inl AssertFail"
proof -
  from assms(1) obtain as where at: "list_at h l as xs" by (auto simp: list_rep_def)
  show "\<exists>h' l'. List_Remove h l x = Inr (h', l') \<and> list_rep h' l' (remove1 x xs)" if "x \<in> set xs"
    using List_Remove_at[OF at that assms(2)] list_at_rep by blast
  show "List_Remove h l x = Inl AssertFail" if "x \<notin> set xs"
    using List_Remove_missing[OF at that] .
qed

lemma list_rep_new: "heap_ok h \<Longrightarrow> list_rep h List_new []"
  by (auto simp: list_rep_def list_at_def List_new_def intro!: exI[of _ "[]"])

lemma list_rep_first: "list_rep h l [] \<Longrightarrow> first l = None \<and> last_elem l = None"
  by (auto simp: list_rep_def list_at_def Nil_eq_items)

text \<open>The two loops of the self tests: put every entry in, take every entry out.\<close>

lemma selftest_fill:
  assumes "list_rep h l []" "distinct p"
    and ins: "\<And>h l x xs. list_rep h l xs \<Longrightarrow> x \<notin> set xs \<Longrightarrow> set xs \<subseteq> set p \<Longrightarrow> Q xs \<Longrightarrow> x \<in> set p \<Longrightarrow>
       \<exists>h' l' ys. body x (h, l) = Inr (h', l') \<and> list_rep h' l' ys \<and> Q ys \<and> set ys = insert x (set xs) \<and> distinct ys"
    and "Q []"
  shows "\<exists>h' l' ys. for_each body p (h, l) = Inr (h', l') \<and> list_rep h' l' ys \<and> Q ys \<and> set ys = set p \<and> distinct ys"
proof -
  let ?P = "\<lambda>seen (h, l). \<exists>ys. list_rep h l ys \<and> Q ys \<and> set ys = set seen \<and> distinct ys"
  have "\<exists>s. for_each body p (h, l) = Inr s \<and> ?P p s"
  proof (rule for_each_inv[where P = ?P])
    show "?P [] (h, l)" using assms(1,4) by auto
  next
    fix seen x rest s
    assume p: "p = seen @ x # rest" and P: "?P seen s"
    obtain h l where s: "s = (h, l)" by fastforce
    with P obtain ys where ys: "list_rep h l ys" "Q ys" "set ys = set seen" by auto
    from p assms(2) ys have "x \<notin> set ys" "set ys \<subseteq> set p" "x \<in> set p" by auto
    from ins[OF ys(1) this(1,2) ys(2) this(3)] ys s
    show "\<exists>s'. body x s = Inr s' \<and> ?P (seen @ [x]) s'" by auto
  qed
  then show ?thesis by auto
qed

lemma selftest_drain:
  assumes "list_rep h l ys" "set ys = set p" "distinct ys" "distinct p"
  shows "\<exists>h' l'. for_each (\<lambda>x (h, l). bind_run (List_Remove h l x) (\<lambda>(h, l).
            bind_run (List_IsInList h l x) (\<lambda>found. ASSERT (\<not> found) (Inr (h, l))))) p (h, l) = Inr (h', l') \<and>
          list_rep h' l' []"
proof -
  let ?P = "\<lambda>seen (h, l). \<exists>ys. list_rep h l ys \<and> set ys = set p - set seen \<and> distinct ys"
  let ?body = "\<lambda>x (h, l). bind_run (List_Remove h l x) (\<lambda>(h, l).
            bind_run (List_IsInList h l x) (\<lambda>found. ASSERT (\<not> found) (Inr (h, l))))"
  have "\<exists>s. for_each ?body p (h, l) = Inr s \<and> ?P p s"
  proof (rule for_each_inv[where P = ?P])
    show "?P [] (h, l)" using assms by auto
  next
    fix seen x rest s
    assume p: "p = seen @ x # rest" and P: "?P seen s"
    obtain h l where s: "s = (h, l)" by fastforce
    with P obtain ys where ys: "list_rep h l ys" "set ys = set p - set seen" "distinct ys" by auto
    have "x \<in> set ys" using p assms(4) ys(2) by auto
    from list_rep_Remove(1)[OF ys(1,3) this] obtain h' l' where
      r: "List_Remove h l x = Inr (h', l')" "list_rep h' l' (remove1 x ys)" by auto
    have "?body x (h, l) = Inr (h', l')"
      using r list_rep_ops(1)[OF r(2)] ys(3) by simp
    moreover have "set (remove1 x ys) = set p - set (seen @ [x])"
      using set_remove1_eq[OF ys(3)] ys(2) by auto
    then have "?P (seen @ [x]) (h', l')"
      using r(2) ys(3) distinct_remove1[OF ys(3)] by blast
    ultimately show "\<exists>s'. ?body x s = Inr s' \<and> ?P (seen @ [x]) s'"
      unfolding s by blast
  qed
  then show ?thesis by auto
qed

text \<open>
  A list built on any well-formed heap passes \<open>List::SelfTest\<close> on every vector of distinct
  entries: no assertion fails, no dangling pointer is followed, and the list is empty at the end.
\<close>

theorem List_SelfTest_passes:
  assumes "heap_ok h" "distinct p"
  shows "\<exists>h' l'. List_SelfTest h List_new p = Inr (h', l') \<and> list_rep h' l' []"
proof -
  note new = list_rep_new[OF assms(1)]
  let ?fill = "\<lambda>x (h, l). bind_run (List_Append h l x) (\<lambda>(h, l). bind_run (List_IsInList h l x)
      (\<lambda>found. ASSERT found (ASSERT (\<not> List_IsEmpty l) (Inr (h, l)))))"
  have "\<exists>h' l' ys. for_each ?fill p (h, List_new) = Inr (h', l') \<and> list_rep h' l' ys \<and> distinct ys \<and>
      set ys = set p \<and> distinct ys"
  proof (rule selftest_fill[OF new assms(2)])
    fix h l x xs
    assume a: "list_rep h l xs" "x \<notin> set xs" "distinct xs"
    from list_rep_ops(5)[OF a(1,2)] obtain h' l' where
      r: "List_Append h l x = Inr (h', l')" "list_rep h' l' (xs @ [x])" by auto
    with list_rep_ops(1,2)[OF r(2)] a(2,3)
    show "\<exists>h' l' ys. ?fill x (h, l) = Inr (h', l') \<and> list_rep h' l' ys \<and> distinct ys \<and>
        set ys = insert x (set xs) \<and> distinct ys"
      by (intro exI[of _ h'] exI[of _ l'] exI[of _ "xs @ [x]"]) simp
  qed simp
  then obtain h1 l1 ys where f: "for_each ?fill p (h, List_new) = Inr (h1, l1)" "list_rep h1 l1 ys"
    "set ys = set p" "distinct ys" by blast
  from selftest_drain[OF f(2-4) assms(2)] obtain h2 l2 where
    g: "for_each (\<lambda>x (h, l). bind_run (List_Remove h l x) (\<lambda>(h, l).
            bind_run (List_IsInList h l x) (\<lambda>found. ASSERT (\<not> found) (Inr (h, l))))) p (h1, l1) = Inr (h2, l2)"
    "list_rep h2 l2 []" by auto
  show ?thesis
    using f(1) g list_rep_ops(2,3)[OF new] list_rep_ops(3)[OF f(2)] list_rep_ops(2,3)[OF g(2)]
    by (simp add: List_SelfTest_def List_new_def ListIterator_new_def ListIterator_IsDone_def)
qed

definition empty_heap :: "'a heap" where
  "empty_heap = \<lparr>cells = (\<lambda>_. None), brk = 0\<rparr>"

lemma heap_ok_empty [simp]: "heap_ok empty_heap"
  by (simp add: heap_ok_def empty_heap_def)

section \<open>The lists as values\<close>

text \<open>
  The components above this one keep their lists as the sequence of items: these are the
  operations of \<open>List\<close> and \<open>SortedList\<close> on that sequence, with the same failing assertions.
  \<open>List_refines_values\<close> is the simulation between the two levels.
\<close>

definition Append :: "'a list \<Rightarrow> 'a \<Rightarrow> 'a list run" where
  "Append xs x = ASSERT (x \<notin> set xs) (Inr (xs @ [x]))"

definition Prepend :: "'a list \<Rightarrow> 'a \<Rightarrow> 'a list run" where
  "Prepend xs x = ASSERT (x \<notin> set xs) (Inr (x # xs))"

definition RemoveFront :: "'a list \<Rightarrow> ('a \<times> 'a list) run" where
  "RemoveFront xs = ASSERT (xs \<noteq> []) (Inr (hd xs, tl xs))"

definition Remove :: "'a list \<Rightarrow> 'a \<Rightarrow> 'a list run" where
  "Remove xs x = ASSERT (x \<in> set xs) (Inr (remove1 x xs))"

definition Insert :: "('a \<Rightarrow> 'a \<Rightarrow> int) \<Rightarrow> 'a list \<Rightarrow> 'a \<Rightarrow> 'a list run" where
  "Insert cmp xs x = ASSERT (x \<notin> set xs) (Inr (sorted_ins cmp x xs))"

definition Front :: "'a list \<Rightarrow> 'a run" where
  "Front xs = (if xs = [] then Inl BadPointer else Inr (hd xs))"

text \<open>\<open>sim R m n\<close>: both computations fail with the same fault, or both return and the results are related.\<close>

definition sim :: "('a \<Rightarrow> 'b \<Rightarrow> bool) \<Rightarrow> 'a run \<Rightarrow> 'b run \<Rightarrow> bool" where
  "sim R m n \<longleftrightarrow> (case n of Inl e \<Rightarrow> m = Inl e | Inr y \<Rightarrow> (\<exists>x. m = Inr x \<and> R x y))"

definition list_obj :: "'a heap \<times> List \<Rightarrow> 'a list \<Rightarrow> bool" where
  "list_obj = (\<lambda>(h, l) xs. list_rep h l xs \<and> distinct xs)"

lemma distinct_sorted_ins [simp]: "distinct (sorted_ins cmp x xs) \<longleftrightarrow> x \<notin> set xs \<and> distinct xs"
  by (induction xs) auto

lemma Insert_dup: "list_rep h l xs \<Longrightarrow> x \<in> set xs \<Longrightarrow> SortedList_Insert cmp h l x = Inl AssertFail"
  and Prepend_dup: "list_rep h l xs \<Longrightarrow> x \<in> set xs \<Longrightarrow> List_Prepend h l x = Inl AssertFail"
proof -
  assume a: "list_rep h l xs" "x \<in> set xs"
  then obtain as where at: "list_at h l as xs" by (auto simp: list_rep_def)
  obtain b h1 where new: "new_element h x None = (b, h1)" by fastforce
  from List_IsInList_at[OF list_at_new_element(1)[OF at new]] a(2) new
  show "SortedList_Insert cmp h l x = Inl AssertFail" "List_Prepend h l x = Inl AssertFail"
    by (simp_all add: SortedList_Insert_def List_Prepend_def)
qed

lemma list_rep_Front: "list_rep h l xs \<Longrightarrow> List_Front h l = Front xs"
  by (auto simp: list_rep_def Front_def List_Front_at) (auto simp: list_at_def List_Front_def Nil_eq_items)

text \<open>
  C26: the linked lists implement the sequences.  \<open>Append\<close>, \<open>Prepend\<close>, \<open>RemoveFront\<close>, \<open>Remove\<close> and
  the sorted \<open>Insert\<close> on a well-formed list object fail exactly where the operation on the
  sequence fails, with the same failing assertion, and otherwise leave a well-formed list object
  that holds the resulting sequence; \<open>IsInList\<close>, \<open>IsEmpty\<close>, \<open>NumInList\<close>, \<open>Front\<close> and
  \<open>SanityCheck\<close> answer for the sequence.
\<close>

theorem List_refines_values:
  assumes "list_obj (h, l) xs"
  shows "sim list_obj (List_Append h l x) (Append xs x) \<and>
     sim list_obj (List_Prepend h l x) (Prepend xs x) \<and>
     sim (rel_prod (=) list_obj) (List_RemoveFront h l) (RemoveFront xs) \<and>
     sim list_obj (List_Remove h l x) (Remove xs x) \<and>
     sim list_obj (SortedList_Insert cmp h l x) (Insert cmp xs x) \<and>
     List_IsInList h l x = Inr (x \<in> set xs) \<and> (List_IsEmpty l \<longleftrightarrow> xs = []) \<and>
     numInList l = int (length xs) \<and> List_Front h l = Front xs \<and> List_SanityCheck h l = Inr ()"
proof -
  have r: "list_rep h l xs" and d: "distinct xs" using assms by (auto simp: list_obj_def)
  note ops = list_rep_ops[OF r]
  have "sim list_obj (List_Append h l x) (Append xs x)"
    using ops(5,6)[of x] d by (cases "x \<in> set xs") (auto simp: sim_def Append_def list_obj_def)
  moreover have "sim list_obj (List_Prepend h l x) (Prepend xs x)"
    using ops(7)[of x] Prepend_dup[OF r, of x] d
    by (cases "x \<in> set xs") (auto simp: sim_def Prepend_def list_obj_def)
  moreover have "sim (rel_prod (=) list_obj) (List_RemoveFront h l) (RemoveFront xs)"
    using ops(8,9) d by (cases "xs = []") (auto simp: sim_def RemoveFront_def list_obj_def distinct_tl)
  moreover have "sim list_obj (List_Remove h l x) (Remove xs x)"
    using list_rep_Remove[OF r d, of x] d
    by (cases "x \<in> set xs") (auto simp: sim_def Remove_def list_obj_def)
  moreover have "sim list_obj (SortedList_Insert cmp h l x) (Insert cmp xs x)"
    using ops(10)[of x cmp] Insert_dup[OF r, of x cmp] d
    by (cases "x \<in> set xs") (auto simp: sim_def Insert_def list_obj_def)
  ultimately show ?thesis using ops(1-4) list_rep_Front[OF r] by simp
qed

lemma list_obj_new: "heap_ok h \<Longrightarrow> list_obj (h, List_new) []"
  by (simp add: list_obj_def list_rep_new)

theorem List_refines_values_witness:
  "sim list_obj (List_Append empty_heap List_new (5 :: int)) (Inr [5])"
  using List_refines_values[OF list_obj_new[OF heap_ok_empty], of "5 :: int" "\<lambda>_ _. 0"]
  by (simp add: Append_def)

subsection \<open>First in, first out\<close>

text \<open>
  The contract the ready list, the semaphore queues and the device queues rely on, and the client
  lemma: what goes in comes out in the same order.
\<close>

locale item_queue =
  fixes rep :: "'q \<Rightarrow> 'a list \<Rightarrow> bool"
    and put :: "'q \<Rightarrow> 'a \<Rightarrow> 'q run"
    and take_first :: "'q \<Rightarrow> ('a \<times> 'q) run"
  assumes put_ok: "rep q xs \<Longrightarrow> x \<notin> set xs \<Longrightarrow> \<exists>q'. put q x = Inr q' \<and> rep q' (xs @ [x])"
    and put_dup: "rep q xs \<Longrightarrow> x \<in> set xs \<Longrightarrow> put q x = Inl AssertFail"
    and take_ok: "rep q (x # xs) \<Longrightarrow> \<exists>q'. take_first q = Inr (x, q') \<and> rep q' xs"
    and take_empty: "rep q [] \<Longrightarrow> take_first q = Inl AssertFail"
begin

lemma put_all:
  "rep q xs \<Longrightarrow> distinct (xs @ ys) \<Longrightarrow>
     \<exists>q'. for_each (\<lambda>x q. put q x) ys q = Inr q' \<and> rep q' (xs @ ys)"
proof (induction ys arbitrary: q xs)
  case (Cons y ys)
  then obtain q1 where q1: "put q y = Inr q1" "rep q1 (xs @ [y])" using put_ok[of q xs y] by auto
  with Cons.IH[OF q1(2)] Cons.prems(2) show ?case by simp
qed simp

lemma take_all:
  "rep q (ys @ zs) \<Longrightarrow>
     \<exists>q'. for_each (\<lambda>_ (out, q). bind_run (take_first q) (\<lambda>(x, q). Inr (out @ [x], q))) ys (out, q) =
            Inr (out @ ys, q') \<and> rep q' zs"
proof (induction ys arbitrary: q out)
  case (Cons y ys)
  then obtain q1 where q1: "take_first q = Inr (y, q1)" "rep q1 (ys @ zs)" using take_ok[of q y "ys @ zs"] by auto
  with Cons.IH[OF q1(2), of "out @ [y]"] show ?case by simp
qed simp

lemma fifo:
  assumes "rep q []" "distinct ys"
  shows "\<exists>q1 q2. for_each (\<lambda>x q. put q x) ys q = Inr q1 \<and>
           for_each (\<lambda>_ (out, q). bind_run (take_first q) (\<lambda>(x, q). Inr (out @ [x], q))) ys ([], q1) =
             Inr (ys, q2) \<and> rep q2 []"
proof -
  from put_all[OF assms(1), of ys] assms(2) obtain q1 where
    q1: "for_each (\<lambda>x q. put q x) ys q = Inr q1" "rep q1 ys" by auto
  with take_all[of q1 ys "[]" "[]"] show ?thesis by auto
qed

end

interpretation heap_queue: item_queue list_obj "\<lambda>(h, l) x. List_Append h l x" "\<lambda>(h, l). List_RemoveFront h l"
proof unfold_locales
  fix q :: "'a heap \<times> List" and xs x
  obtain h l where q: "q = (h, l)" by fastforce
  show "x \<notin> set xs \<Longrightarrow> \<exists>q'. (case q of (h, l) \<Rightarrow> \<lambda>x. List_Append h l x) x = Inr q' \<and> list_obj q' (xs @ [x])"
    if "list_obj q xs"
    using that list_rep_ops(5)[of h l xs x] by (auto simp: q list_obj_def)
  show "x \<in> set xs \<Longrightarrow> (case q of (h, l) \<Rightarrow> \<lambda>x. List_Append h l x) x = Inl AssertFail"
    if "list_obj q xs"
    using that list_rep_ops(6)[of h l xs x] by (auto simp: q list_obj_def)
  show "\<exists>q'. (case q of (h, l) \<Rightarrow> List_RemoveFront h l) = Inr (x, q') \<and> list_obj q' xs"
    if "list_obj q (x # xs)"
    using that list_rep_ops(8)[of h l "x # xs"] by (auto simp: q list_obj_def)
  show "(case q of (h, l) \<Rightarrow> List_RemoveFront h l) = Inl AssertFail" if "list_obj q []"
    using that list_rep_ops(9)[of h l "[]"] by (auto simp: q list_obj_def)
qed

interpretation value_queue: item_queue "\<lambda>q xs. q = xs" Append RemoveFront
  by unfold_locales (auto simp: Append_def RemoveFront_def)

text \<open>
  A list is a queue.  Appending any distinct items to an empty list and then calling
  \<open>RemoveFront\<close> as often returns the items in the order they were appended, without a failing
  assertion, and leaves the list empty.
\<close>

theorem List_fifo:
  assumes "heap_ok h" "distinct ys"
  shows "\<exists>q1 q2. for_each (\<lambda>x (h, l). List_Append h l x) ys (h, List_new) = Inr q1 \<and>
     for_each (\<lambda>_ (out, q). bind_run (case q of (h, l) \<Rightarrow> List_RemoveFront h l) (\<lambda>(x, q). Inr (out @ [x], q))) ys ([], q1) =
       Inr (ys, q2) \<and> list_obj q2 []"
proof -
  have eq: "(\<lambda>x (h, l). List_Append h l x) = (\<lambda>x q. (case q of (h, l) \<Rightarrow> \<lambda>x. List_Append h l x) x)"
    by (auto simp: fun_eq_iff)
  show ?thesis unfolding eq by (rule heap_queue.fifo[OF list_obj_new[OF assms(1)] assms(2)])
qed

subsection \<open>Sorted lists\<close>

text \<open>
  The contract of the \<open>compare\<close> function of a sorted list: a total preorder.  Under it the list
  stays sorted, and items that compare equal keep their order of insertion.
\<close>

locale comparison =
  fixes cmp :: "'a \<Rightarrow> 'a \<Rightarrow> int"
  assumes cmp_total: "\<not> cmp x y < 0 \<Longrightarrow> cmp y x \<le> 0"
    and cmp_trans: "cmp x y \<le> 0 \<Longrightarrow> cmp y z \<le> 0 \<Longrightarrow> cmp x z \<le> 0"
begin

abbreviation ordered :: "'a list \<Rightarrow> bool" where
  "ordered \<equiv> sorted_wrt (\<lambda>x y. cmp x y \<le> 0)"

lemma ordered_sorted_ins: "ordered xs \<Longrightarrow> ordered (sorted_ins cmp x xs)"
proof (induction xs)
  case (Cons y ys)
  then show ?case
    by (cases "cmp x y < 0") (auto dest: cmp_total intro: cmp_trans[of x y])
qed simp

lemma ordered_hd_least: "ordered xs \<Longrightarrow> y \<in> set (tl xs) \<Longrightarrow> cmp (hd xs) y \<le> 0"
  by (cases xs) auto

end

lemma sorted_check_walk_ok:
  "lseg (cells h) p as None \<Longrightarrow> cells h b = Some e \<Longrightarrow> length as < n \<Longrightarrow>
     sorted_wrt (\<lambda>x y. cmp x y \<le> 0) (item e # items (cells h) as) \<Longrightarrow>
     sorted_check_walk n cmp h (Some b) p = Inr ()"
proof (induction as arbitrary: p n b e)
  case Nil
  then show ?case by (cases n) auto
next
  case (Cons a as)
  then obtain m f where n: "n = Suc m" "cells h a = Some f" "p = Some a" "lseg (cells h) (nxt f) as None"
    by (cases n) auto
  with Cons.IH[OF n(4) n(2), of m] Cons.prems show ?case by simp
qed

lemma SortedList_SanityCheck_rep:
  assumes "list_rep h l xs" "sorted_wrt (\<lambda>x y. cmp x y \<le> 0) xs"
  shows "SortedList_SanityCheck cmp h l = Inr ()"
proof -
  from assms(1) obtain as where at: "list_at h l as xs" by (auto simp: list_rep_def)
  show ?thesis
  proof (cases as)
    case Nil
    with at have "first l = last_elem l" by (auto simp: list_at_def)
    then show ?thesis using list_rep_ops(3)[OF assms(1)] by (simp add: SortedList_SanityCheck_def)
  next
    case (Cons a bs)
    with at obtain e where e: "first l = Some a" "cells h a = Some e" "lseg (cells h) (nxt e) bs None"
      "xs = item e # items (cells h) bs" by (auto simp: list_at_def)
    have "length bs < Suc (brk h)"
      using walk_fuel_enough[of h "first l" as None] at Cons by (auto simp: list_at_def)
    from sorted_check_walk_ok[OF e(3,2) this, of cmp] assms(2) e list_rep_ops(3)[OF assms(1)]
    show ?thesis by (simp add: SortedList_SanityCheck_def)
  qed
qed

lemma distinct_adjacent_le:
  assumes "sorted_wrt (\<lambda>x y. cmp x y \<le> (0::int)) q" "length q = n"
  shows "for_each (\<lambda>i _. ASSERT (cmp (q ! nat i) (q ! nat (i + 1)) \<le> 0) (Inr ())) (count_to (int n - 1)) () = Inr ()"
proof -
  let ?b = "\<lambda>i (_::unit). ASSERT (cmp (q ! nat i) (q ! nat (i + 1)) \<le> 0) (Inr ())"
  have "\<exists>s'. for_each ?b (count_to (int n - 1)) () = Inr s' \<and> True"
  proof (rule for_each_inv)
    fix xs i ys and s :: unit
    assume "count_to (int n - 1) = xs @ i # ys"
    from count_to_split[OF this] have i: "0 \<le> i" "nat (i + 1) < length q" using assms(2) by auto
    have "cmp (q ! nat i) (q ! nat (i + 1)) \<le> 0"
      using sorted_wrt_nth_less[OF assms(1), of "nat i" "nat (i + 1)"] i by auto
    then show "\<exists>s'. ?b i s = Inr s' \<and> True" by simp
  qed simp
  then show ?thesis by auto
qed

lemma selftest_pop:
  assumes "list_rep h l ys" "distinct ys" "length p = length ys"
  shows "\<exists>h' l'. for_each (\<lambda>_ (q, h, l). bind_run (List_RemoveFront h l) (\<lambda>(y, h, l).
       bind_run (List_IsInList h l y) (\<lambda>found. ASSERT (\<not> found) (Inr (q @ [y], h, l))))) p (q, h, l) =
     Inr (q @ ys, h', l') \<and> list_rep h' l' []"
  using assms
proof (induction ys arbitrary: p q h l)
  case (Cons y ys)
  then obtain x p' where p: "p = x # p'" "length p' = length ys" by (cases p) auto
  from list_rep_ops(8)[OF Cons.prems(1)] obtain h1 l1 where
    r: "List_RemoveFront h l = Inr (y, h1, l1)" "list_rep h1 l1 ys" by auto
  with list_rep_ops(1)[OF r(2), of y] Cons.prems(2) p(1) Cons.IH[OF r(2) _ p(2), of "q @ [y]"]
  show ?case by simp
qed auto

context comparison
begin

lemma selftest_sorted_fill:
  assumes "list_rep h l []" "distinct p"
  shows "\<exists>h' l' ys. for_each (\<lambda>x (h, l). bind_run (SortedList_Insert cmp h l x) (\<lambda>(h, l).
       bind_run (List_IsInList h l x) (\<lambda>found. ASSERT found (if chk then ASSERT (\<not> List_IsEmpty l) (Inr (h, l)) else Inr (h, l)))))
       p (h, l) = Inr (h', l') \<and> list_rep h' l' ys \<and> ordered ys \<and> set ys = set p \<and> distinct ys"
    (is "\<exists>h' l' ys. for_each ?fill p (h, l) = Inr (h', l') \<and> ?post h' l' ys")
proof -
  let ?Q = "\<lambda>xs. ordered xs \<and> distinct xs"
  have "\<exists>h' l' ys. for_each ?fill p (h, l) = Inr (h', l') \<and> list_rep h' l' ys \<and> ?Q ys \<and>
      set ys = set p \<and> distinct ys"
  proof (rule selftest_fill[OF assms(1,2), where Q = ?Q])
    fix h l x xs
    assume a: "list_rep h l xs" "x \<notin> set xs" "?Q xs"
    from list_rep_ops(10)[OF a(1,2), of cmp] obtain h' l' where
      r: "SortedList_Insert cmp h l x = Inr (h', l')" "list_rep h' l' (sorted_ins cmp x xs)" by auto
    have "sorted_ins cmp x xs \<noteq> []" using length_sorted_ins[of cmp x xs] by fastforce
    with list_rep_ops(1,2)[OF r(2)] r a(2,3) ordered_sorted_ins[of xs x]
    show "\<exists>h' l' ys. ?fill x (h, l) = Inr (h', l') \<and> list_rep h' l' ys \<and> ?Q ys \<and>
        set ys = insert x (set xs) \<and> distinct ys"
      by (intro exI[of _ h'] exI[of _ l'] exI[of _ "sorted_ins cmp x xs"]) simp
  qed simp
  then show ?thesis by blast
qed

lemma base_selftest:
  assumes "list_rep h l []" "distinct p"
  shows "\<exists>h' l'. SortedList_BaseSelfTest cmp h l p = Inr (h', l') \<and> list_rep h' l' []"
proof -
  from selftest_sorted_fill[OF assms, where chk = True] obtain h1 l1 ys where
    f: "for_each (\<lambda>x (h, l). bind_run (SortedList_Insert cmp h l x) (\<lambda>(h, l).
       bind_run (List_IsInList h l x) (\<lambda>found. ASSERT found (ASSERT (\<not> List_IsEmpty l) (Inr (h, l))))))
       p (h, l) = Inr (h1, l1)" "list_rep h1 l1 ys" "ordered ys" "set ys = set p" "distinct ys" by auto
  from selftest_drain[OF f(2,4,5) assms(2)] obtain h2 l2 where
    g: "for_each (\<lambda>x (h, l). bind_run (List_Remove h l x) (\<lambda>(h, l).
            bind_run (List_IsInList h l x) (\<lambda>found. ASSERT (\<not> found) (Inr (h, l))))) p (h1, l1) = Inr (h2, l2)"
    "list_rep h2 l2 []" by auto
  show ?thesis
    using f(1) g SortedList_SanityCheck_rep[OF assms(1), of cmp] SortedList_SanityCheck_rep[OF f(2,3)]
      SortedList_SanityCheck_rep[OF g(2), of cmp] list_rep_ops(2)[OF assms(1)] list_rep_ops(2)[OF g(2)]
      list_rep_first[OF assms(1)]
    by (simp add: SortedList_BaseSelfTest_def ListIterator_new_def ListIterator_IsDone_def)
qed

lemma sorted_selftest:
  assumes "list_rep h l []" "distinct p"
  shows "\<exists>h' l'. SortedList_SelfTest cmp h l p = Inr (h', l') \<and> list_rep h' l' []"
proof -
  from base_selftest[OF assms] obtain h0 l0 where
    b: "SortedList_BaseSelfTest cmp h l p = Inr (h0, l0)" "list_rep h0 l0 []" by auto
  from selftest_sorted_fill[OF b(2) assms(2), where chk = False] obtain h1 l1 ys where
    f: "for_each (\<lambda>x (h, l). bind_run (SortedList_Insert cmp h l x) (\<lambda>(h, l).
       bind_run (List_IsInList h l x) (\<lambda>found. ASSERT found (Inr (h, l))))) p (h0, l0) = Inr (h1, l1)"
    "list_rep h1 l1 ys" "ordered ys" "set ys = set p" "distinct ys" by auto
  have len: "length p = length ys"
    using f(4,5) assms(2) distinct_card[of p] distinct_card[of ys] by simp
  from selftest_pop[OF f(2,5) len, of "[]"] obtain h2 l2 where
    g: "for_each (\<lambda>_ (q, h, l). bind_run (List_RemoveFront h l) (\<lambda>(y, h, l).
       bind_run (List_IsInList h l y) (\<lambda>found. ASSERT (\<not> found) (Inr (q @ [y], h, l))))) p ([], h1, l1) =
       Inr (ys, h2, l2)" "list_rep h2 l2 []" by auto
  show ?thesis
    using b(1) f(1) g SortedList_SanityCheck_rep[OF f(2,3)] SortedList_SanityCheck_rep[OF g(2), of cmp]
      list_rep_ops(2)[OF g(2)] distinct_adjacent_le[OF f(3) len[symmetric]]
    by (simp add: SortedList_SelfTest_def)
qed

end

text \<open>The comparison function of the self test in \<^verbatim>\<open>lib/libtest.cc\<close>.\<close>

definition IntCompare :: "int \<Rightarrow> int \<Rightarrow> int" where
  "IntCompare x y = (if x < y then - 1 else if x = y then 0 else 1)"

interpretation int_cmp: comparison IntCompare
  by unfold_locales (auto simp: IntCompare_def split: if_splits)

text \<open>
  A sorted list with the comparison of the library test passes \<open>SortedList::SelfTest\<close> on every
  vector of distinct entries: the entries come out in increasing order and no assertion fails.
\<close>

theorem SortedList_SelfTest_passes:
  assumes "heap_ok h" "distinct p"
  shows "\<exists>h' l'. SortedList_SelfTest IntCompare h List_new p = Inr (h', l') \<and> list_rep h' l' []"
  by (rule int_cmp.sorted_selftest[OF list_rep_new[OF assms(1)] assms(2)])

text \<open>
  The defect of \<open>SortedInsert\<close>.  It never increments \<open>numInList\<close>, so that the list still claims to
  be empty, the next \<open>SortedInsert\<close> overwrites \<open>first\<close> and \<open>last\<close>, and the first item is lost.
\<close>

theorem SortedInsert_loses_items:
  "\<exists>h1 l1 h2 l2. List_SortedInsert empty_heap List_new x k = Inr (h1, l1) \<and> List_IsEmpty l1 \<and>
     List_IsInList h1 l1 x = Inr True \<and> List_SanityCheck h1 l1 = Inl AssertFail \<and>
     List_SortedInsert h1 l1 y k' = Inr (h2, l2) \<and> List_IsInList h2 l2 x = Inr (x = y)"
  by (simp add: List_SortedInsert_def new_element_def empty_heap_def List_new_def List_IsEmpty_def
      List_IsInList_def List_SanityCheck_def)

end
