(* ===== verification/HashLib.thy ===== *)
theory HashLib
  imports ListLib
begin

text \<open>
  The self-expanding hash table of \<^verbatim>\<open>lib/hash.h\<close> and \<^verbatim>\<open>lib/hash.cc\<close>.  The buckets are the lists of
  \<open>ListLib\<close> at the level of sequences; \<open>getKey\<close> and \<open>hash\<close>, the two function pointers of the class,
  are arguments of the operations.  \<open>hash\<close> returns a 32-bit unsigned value.

  \<open>table_lookup\<close> reads the table as a finite map.  \<open>HashTable_implements_map\<close> shows that \<open>Find\<close>,
  \<open>Insert\<close> (with \<open>ReHash\<close>) and \<open>Remove\<close> implement lookup, update and deletion in that map.
\<close>

section \<open>The table\<close>

record 'a HashTable =
  buckets :: "'a list list"
  numBuckets :: int
  numItems :: int

definition InitialBuckets :: int where "InitialBuckets = 4"
definition ResizeRatio :: int where "ResizeRatio = 3"
definition IncreaseSizeBy :: int where "IncreaseSizeBy = 4"

definition InitBuckets :: "'a HashTable \<Rightarrow> int \<Rightarrow> 'a HashTable" where
  "InitBuckets t sz = t\<lparr>numBuckets := sz, buckets := replicate (nat sz) []\<rparr>"

definition HashTable_new :: "'a HashTable" where
  "HashTable_new = InitBuckets \<lparr>buckets = [], numBuckets = 0, numItems = 0\<rparr> InitialBuckets"

definition HashValue :: "('k \<Rightarrow> 32 word) \<Rightarrow> 'a HashTable \<Rightarrow> 'k \<Rightarrow> int run" where
  "HashValue hash t k =
     (let result = uint (hash k) mod numBuckets t in
      ASSERT (result \<ge> 0 \<and> result < numBuckets t) (Inr result))"

definition FindInBucket :: "('a \<Rightarrow> 'k) \<Rightarrow> 'a HashTable \<Rightarrow> int \<Rightarrow> 'k \<Rightarrow> 'a option run" where
  "FindInBucket getKey t bucket k =
     bind_run (get_at (buckets t) bucket) (\<lambda>b. Inr (find (\<lambda>x. k = getKey x) b))"

definition Find :: "('a \<Rightarrow> 'k) \<Rightarrow> ('k \<Rightarrow> 32 word) \<Rightarrow> 'a HashTable \<Rightarrow> 'k \<Rightarrow> 'a option run" where
  "Find getKey hash t k =
     bind_run (HashValue hash t k) (\<lambda>bucket. FindInBucket getKey t bucket k)"

definition IsInTable :: "('a \<Rightarrow> 'k) \<Rightarrow> ('k \<Rightarrow> 32 word) \<Rightarrow> 'a HashTable \<Rightarrow> 'k \<Rightarrow> bool run" where
  "IsInTable getKey hash t k = bind_run (Find getKey hash t k) (\<lambda>r. Inr (r \<noteq> None))"

definition HashTable_IsEmpty :: "'a HashTable \<Rightarrow> bool" where
  "HashTable_IsEmpty t \<longleftrightarrow> numItems t = 0"

text \<open>The destructor asserts that the table is empty and frees the bucket array.\<close>

definition HashTable_delete :: "'a HashTable \<Rightarrow> 'a HashTable run" where
  "HashTable_delete t = ASSERT (HashTable_IsEmpty t) (Inr (t\<lparr>buckets := []\<rparr>))"

text \<open>\<open>buckets[HashValue(getKey(item))]->Append(item)\<close>\<close>

definition AppendToBucket :: "('a \<Rightarrow> 'k) \<Rightarrow> ('k \<Rightarrow> 32 word) \<Rightarrow> 'a HashTable \<Rightarrow> 'a \<Rightarrow> 'a HashTable run" where
  "AppendToBucket getKey hash t x =
     bind_run (HashValue hash t (getKey x)) (\<lambda>i.
     bind_run (get_at (buckets t) i) (\<lambda>b.
     bind_run (Append b x) (\<lambda>b'.
     bind_run (set_at (buckets t) i b') (\<lambda>bs. Inr (t\<lparr>buckets := bs\<rparr>)))))"

text \<open>
  \<open>SanityCheck\<close>: the check of each bucket's links is \<open>List_SanityCheck\<close> of \<open>ListLib\<close>, which holds of
  every list object; here are the count and the placement of the items.
\<close>

definition HashTable_SanityCheck :: "('a \<Rightarrow> 'k) \<Rightarrow> ('k \<Rightarrow> 32 word) \<Rightarrow> 'a HashTable \<Rightarrow> unit run" where
  "HashTable_SanityCheck getKey hash t =
     bind_run (for_each (\<lambda>i numFound.
         bind_run (get_at (buckets t) i) (\<lambda>b.
         bind_run (for_each (\<lambda>x _. bind_run (HashValue hash t (getKey x)) (\<lambda>v. ASSERT (i = v) (Inr ()))) b ()) (\<lambda>_.
         Inr (numFound + int (length b))))) (count_to (numBuckets t)) 0)
       (\<lambda>numFound. ASSERT (numItems t = numFound) (Inr ()))"

text \<open>The inner \<open>while\<close> of \<open>ReHash\<close> empties one old bucket from the front.\<close>

fun MoveBucket :: "('a \<Rightarrow> 'k) \<Rightarrow> ('k \<Rightarrow> 32 word) \<Rightarrow> 'a list \<Rightarrow> 'a HashTable \<Rightarrow> 'a HashTable run" where
  "MoveBucket getKey hash [] t = Inr t"
| "MoveBucket getKey hash (x # old) t =
     bind_run (AppendToBucket getKey hash t x) (MoveBucket getKey hash old)"

definition ReHash :: "('a \<Rightarrow> 'k) \<Rightarrow> ('k \<Rightarrow> 32 word) \<Rightarrow> 'a HashTable \<Rightarrow> 'a HashTable run" where
  "ReHash getKey hash t =
     (let oldTable = buckets t; oldSize = numBuckets t in
      bind_run (HashTable_SanityCheck getKey hash t) (\<lambda>_.
      bind_run (for_each (\<lambda>i t. bind_run (get_at oldTable i) (\<lambda>b. MoveBucket getKey hash b t))
                  (count_to oldSize) (InitBuckets t (numBuckets t * IncreaseSizeBy))) (\<lambda>t.
      bind_run (HashTable_SanityCheck getKey hash t) (\<lambda>_. Inr t))))"

definition HashTable_Insert :: "('a \<Rightarrow> 'k) \<Rightarrow> ('k \<Rightarrow> 32 word) \<Rightarrow> 'a HashTable \<Rightarrow> 'a \<Rightarrow> 'a HashTable run" where
  "HashTable_Insert getKey hash t x =
     (let k = getKey x in
      bind_run (IsInTable getKey hash t k) (\<lambda>found. ASSERT (\<not> found)
      (bind_run (if numItems t div numBuckets t \<ge> ResizeRatio then ReHash getKey hash t else Inr t) (\<lambda>t.
       bind_run (AppendToBucket getKey hash t x) (\<lambda>t.
       let t = t\<lparr>numItems := numItems t + 1\<rparr> in
       bind_run (IsInTable getKey hash t k) (\<lambda>found. ASSERT found (Inr t)))))))"

definition HashTable_Remove :: "('a \<Rightarrow> 'k) \<Rightarrow> ('k \<Rightarrow> 32 word) \<Rightarrow> 'a HashTable \<Rightarrow> 'k \<Rightarrow> ('a \<times> 'a HashTable) run" where
  "HashTable_Remove getKey hash t k =
     bind_run (HashValue hash t k) (\<lambda>bucket.
     bind_run (FindInBucket getKey t bucket k) (\<lambda>found.
     case found of None \<Rightarrow> Inl AssertFail
     | Some x \<Rightarrow>
         bind_run (get_at (buckets t) bucket) (\<lambda>b.
         bind_run (Remove b x) (\<lambda>b'.
         bind_run (set_at (buckets t) bucket b') (\<lambda>bs.
         let t = t\<lparr>buckets := bs, numItems := numItems t - 1\<rparr> in
         bind_run (IsInTable getKey hash t k) (\<lambda>found. ASSERT (\<not> found) (Inr (x, t))))))))"

definition HashTable_Apply :: "'a HashTable \<Rightarrow> ('a \<Rightarrow> 's \<Rightarrow> 's run) \<Rightarrow> 's \<Rightarrow> 's run" where
  "HashTable_Apply t func s =
     for_each (\<lambda>i s. bind_run (get_at (buckets t) i) (\<lambda>b. for_each func b s)) (count_to (numBuckets t)) s"

text \<open>
  \<open>FindNextFullBucket\<close> and the iterator, whose position in a bucket is the rest of the bucket from
  the current item on.
\<close>

function FindNextFullBucket :: "'a HashTable \<Rightarrow> int \<Rightarrow> int run" where
  "FindNextFullBucket t bucket =
     (if bucket < numBuckets t
      then bind_run (get_at (buckets t) bucket) (\<lambda>b. if b \<noteq> [] then Inr bucket else FindNextFullBucket t (bucket + 1))
      else Inr bucket)"
  by pat_completeness auto
termination
  by (relation "measure (\<lambda>(t, bucket). nat (numBuckets t - bucket))") auto

declare FindNextFullBucket.simps [simp del]

record 'a HashIterator =
  bucket :: int
  bucketIter :: "'a list option"

definition iterator_at :: "'a HashTable \<Rightarrow> int \<Rightarrow> 'a HashIterator run" where
  "iterator_at t b =
     (if b < numBuckets t
      then bind_run (get_at (buckets t) b) (\<lambda>xs. Inr \<lparr>bucket = b, bucketIter = Some xs\<rparr>)
      else Inr \<lparr>bucket = b, bucketIter = None\<rparr>)"

definition HashIterator_new :: "'a HashTable \<Rightarrow> 'a HashIterator run" where
  "HashIterator_new t = bind_run (FindNextFullBucket t 0) (iterator_at t)"

definition HashIterator_IsDone :: "'a HashTable \<Rightarrow> 'a HashIterator \<Rightarrow> bool" where
  "HashIterator_IsDone t it \<longleftrightarrow> bucket it = numBuckets t"

definition HashIterator_Item :: "'a HashTable \<Rightarrow> 'a HashIterator \<Rightarrow> 'a run" where
  "HashIterator_Item t it =
     ASSERT (\<not> HashIterator_IsDone t it)
      (bind_run (deref (bucketIter it)) (\<lambda>rest. ASSERT (rest \<noteq> []) (Inr (hd rest))))"

definition HashIterator_Next :: "'a HashTable \<Rightarrow> 'a HashIterator \<Rightarrow> 'a HashIterator run" where
  "HashIterator_Next t it =
     bind_run (deref (bucketIter it)) (\<lambda>rest.
       if rest = [] then Inl BadPointer
       else if tl rest = []
            then bind_run (FindNextFullBucket t (bucket it + 1)) (iterator_at t)
            else Inr (it\<lparr>bucketIter := Some (tl rest)\<rparr>))"

definition HashTable_SelfTest :: "('a \<Rightarrow> 'k) \<Rightarrow> ('k \<Rightarrow> 32 word) \<Rightarrow> 'a HashTable \<Rightarrow> 'a list \<Rightarrow> 'a HashTable run" where
  "HashTable_SelfTest getKey hash t p =
     bind_run (HashIterator_new t) (\<lambda>it.
     bind_run (HashTable_SanityCheck getKey hash t) (\<lambda>_.
     ASSERT (HashTable_IsEmpty t)
     (ASSERT (HashIterator_IsDone t it)
     (bind_run (for_each (\<lambda>x t. bind_run (HashTable_Insert getKey hash t x) (\<lambda>t.
          bind_run (IsInTable getKey hash t (getKey x)) (\<lambda>found.
          ASSERT found (ASSERT (\<not> HashTable_IsEmpty t) (Inr t))))) p t) (\<lambda>t.
      bind_run (for_each (\<lambda>x t. bind_run (HashTable_Remove getKey hash t (getKey x)) (\<lambda>(y, t).
          ASSERT (y = x) (Inr t))) p t) (\<lambda>t.
      ASSERT (HashTable_IsEmpty t) (bind_run (HashTable_SanityCheck getKey hash t) (\<lambda>_. Inr t))))))))"

section \<open>The table as a map\<close>

definition table_inv :: "('a \<Rightarrow> 'k) \<Rightarrow> ('k \<Rightarrow> 32 word) \<Rightarrow> 'a HashTable \<Rightarrow> bool" where
  [inv_defs]: "table_inv getKey hash t \<longleftrightarrow>
     0 < numBuckets t \<and> int (length (buckets t)) = numBuckets t \<and>
     (\<forall>i < length (buckets t). distinct (map getKey (buckets t ! i)) \<and>
        (\<forall>x \<in> set (buckets t ! i). uint (hash (getKey x)) mod numBuckets t = int i))"

definition table_count :: "'a HashTable \<Rightarrow> bool" where
  "table_count t \<longleftrightarrow> numItems t = int (length (concat (buckets t)))"

definition table_lookup :: "('a \<Rightarrow> 'k) \<Rightarrow> ('k \<Rightarrow> 32 word) \<Rightarrow> 'a HashTable \<Rightarrow> 'k \<rightharpoonup> 'a" where
  "table_lookup getKey hash t k =
     find (\<lambda>x. k = getKey x) (buckets t ! nat (uint (hash k) mod numBuckets t))"

text \<open>The bucket of a key exists, and reading it is the lookup.\<close>

lemma HashValue_ok:
  assumes "table_inv getKey hash t"
  shows "HashValue hash t k = Inr (uint (hash k) mod numBuckets t)"
    and "nat (uint (hash k) mod numBuckets t) < length (buckets t)"
    and "0 \<le> uint (hash k) mod numBuckets t" "uint (hash k) mod numBuckets t < int (length (buckets t))"
proof -
  have pos: "0 < numBuckets t" "int (length (buckets t)) = numBuckets t"
    using assms by (simp_all add: table_inv_def)
  then have "0 \<le> uint (hash k) mod numBuckets t" "uint (hash k) mod numBuckets t < numBuckets t" by simp_all
  with pos show "HashValue hash t k = Inr (uint (hash k) mod numBuckets t)"
    "nat (uint (hash k) mod numBuckets t) < length (buckets t)"
    "0 \<le> uint (hash k) mod numBuckets t" "uint (hash k) mod numBuckets t < int (length (buckets t))"
    by (simp_all add: HashValue_def nat_less_iff)
qed

lemma Find_ok: "table_inv getKey hash t \<Longrightarrow> Find getKey hash t k = Inr (table_lookup getKey hash t k)"
  using HashValue_ok[of getKey hash t k] by (simp add: Find_def FindInBucket_def table_lookup_def)

lemma IsInTable_ok:
  "table_inv getKey hash t \<Longrightarrow> IsInTable getKey hash t k = Inr (k \<in> dom (table_lookup getKey hash t))"
  by (auto simp: IsInTable_def Find_ok)

lemma find_key_append:
  "find (\<lambda>x. k = g x) (xs @ [y]) = (case find (\<lambda>x. k = g x) xs of None \<Rightarrow> if k = g y then Some y else None | Some z \<Rightarrow> Some z)"
  by (induction xs) auto

lemma find_None_map: "find (\<lambda>x. k = g x) xs = None \<longleftrightarrow> k \<notin> g ` set xs"
  by (auto simp: find_None_iff)

lemma find_Some_in: "find P xs = Some x \<Longrightarrow> x \<in> set xs \<and> P x"
  by (induction xs) (auto split: if_splits)

lemma find_distinct:
  "distinct (map g xs) \<Longrightarrow> x \<in> set xs \<Longrightarrow> find (\<lambda>y. g x = g y) xs = Some x"
  by (induction xs) (auto simp: image_iff)

lemma length_concat_update:
  "i < length bs \<Longrightarrow> length (concat (bs[i := b])) + length (bs ! i) = length (concat bs) + length b"
  by (induction bs arbitrary: i) (auto split: nat.splits)

lemma AppendToBucket_ok:
  assumes inv: "table_inv getKey hash t" and new: "getKey x \<notin> dom (table_lookup getKey hash t)"
  shows "\<exists>t'. AppendToBucket getKey hash t x = Inr t' \<and> table_inv getKey hash t' \<and>
     numItems t' = numItems t \<and> numBuckets t' = numBuckets t \<and>
     length (concat (buckets t')) = Suc (length (concat (buckets t))) \<and>
     table_lookup getKey hash t' = (table_lookup getKey hash t)(getKey x \<mapsto> x)"
proof -
  obtain i where nb: "uint (hash (getKey x)) mod numBuckets t = int i" and i: "i < length (buckets t)"
    using HashValue_ok[OF inv, of "getKey x"] by (metis int_nat_eq nat_0_le)
  let ?b = "buckets t ! i"
  let ?t = "t\<lparr>buckets := (buckets t)[i := ?b @ [x]]\<rparr>"
  have b: "distinct (map getKey ?b)" "\<And>y. y \<in> set ?b \<Longrightarrow> uint (hash (getKey y)) mod numBuckets t = int i"
    using inv i by (simp_all add: table_inv_def)
  have fresh: "getKey x \<notin> getKey ` set ?b"
    using new by (auto simp: table_lookup_def domIff find_None_map nb)
  then have "x \<notin> set ?b" by blast
  then have app: "AppendToBucket getKey hash t x = Inr ?t"
    using i HashValue_ok(1)[OF inv, of "getKey x"] by (simp add: AppendToBucket_def Append_def nb)
  have "distinct (map getKey (buckets ?t ! j)) \<and>
        (\<forall>y \<in> set (buckets ?t ! j). uint (hash (getKey y)) mod numBuckets t = int j)"
    if "j < length (buckets t)" for j
  proof (cases "j = i")
    case True
    then show ?thesis using i fresh b nb by auto
  next
    case False
    then show ?thesis using inv that by (simp add: table_inv_def)
  qed
  then have inv': "table_inv getKey hash ?t"
    using inv by (simp add: table_inv_def)
  have len: "length (concat (buckets ?t)) = Suc (length (concat (buckets t)))"
    using length_concat_update[OF i, of "?b @ [x]"] by simp
  have "table_lookup getKey hash ?t k = ((table_lookup getKey hash t)(getKey x \<mapsto> x)) k" for k
  proof (cases "nat (uint (hash k) mod numBuckets t) = i")
    case True
    then show ?thesis
      using new i by (auto simp: table_lookup_def find_key_append domIff nb split: option.splits)
  next
    case False
    then show ?thesis using nb by (auto simp: table_lookup_def)
  qed
  with app inv' len show ?thesis by (intro exI[of _ ?t]) (auto simp: fun_eq_iff)
qed

lemma MoveBucket_ok:
  assumes "table_inv getKey hash t" "distinct (map getKey old)"
    "\<And>x. x \<in> set old \<Longrightarrow> getKey x \<notin> dom (table_lookup getKey hash t)"
  shows "\<exists>t'. MoveBucket getKey hash old t = Inr t' \<and> table_inv getKey hash t' \<and>
     numItems t' = numItems t \<and> numBuckets t' = numBuckets t \<and>
     length (concat (buckets t')) = length old + length (concat (buckets t)) \<and>
     (\<forall>k. table_lookup getKey hash t' k =
        (case find (\<lambda>x. k = getKey x) old of None \<Rightarrow> table_lookup getKey hash t k | Some x \<Rightarrow> Some x))"
  using assms
proof (induction old arbitrary: t)
  case (Cons x old)
  then have "getKey x \<notin> dom (table_lookup getKey hash t)" by auto
  from AppendToBucket_ok[OF Cons.prems(1) this] obtain t1 where
    t1: "AppendToBucket getKey hash t x = Inr t1" "table_inv getKey hash t1"
      "numItems t1 = numItems t" "numBuckets t1 = numBuckets t"
      "length (concat (buckets t1)) = Suc (length (concat (buckets t)))"
      "table_lookup getKey hash t1 = (table_lookup getKey hash t)(getKey x \<mapsto> x)" by blast
  have "getKey y \<notin> dom (table_lookup getKey hash t1)" if "y \<in> set old" for y
  proof -
    from that Cons.prems(2) have "getKey y \<noteq> getKey x" by (auto simp: image_iff)
    with that Cons.prems(3)[of y] show ?thesis by (simp add: t1(6) domIff)
  qed
  with Cons.IH[OF t1(2)] Cons.prems(2) obtain t2 where
    t2: "MoveBucket getKey hash old t1 = Inr t2" "table_inv getKey hash t2"
      "numItems t2 = numItems t1" "numBuckets t2 = numBuckets t1"
      "length (concat (buckets t2)) = length old + length (concat (buckets t1))"
      "\<And>k. table_lookup getKey hash t2 k =
        (case find (\<lambda>x. k = getKey x) old of None \<Rightarrow> table_lookup getKey hash t1 k | Some x \<Rightarrow> Some x)"
    by auto
  have no: "find (\<lambda>y. getKey x = getKey y) old = None"
    using Cons.prems(2) by (simp add: find_None_map)
  have "table_lookup getKey hash t2 k = (case find (\<lambda>y. k = getKey y) (x # old) of
      None \<Rightarrow> table_lookup getKey hash t k | Some x \<Rightarrow> Some x)" for k
  proof (cases "k = getKey x")
    case True
    show ?thesis unfolding t2(6) t1(6) True by (simp add: no)
  next
    case False
    then show ?thesis by (simp add: t2(6) t1(6) split: option.splits)
  qed
  with t1 t2 show ?case by (intro exI[of _ t2]) auto
qed simp

lemma SanityCheck_ok:
  assumes inv: "table_inv getKey hash t" and cnt: "table_count t"
  shows "HashTable_SanityCheck getKey hash t = Inr ()"
proof -
  let ?inner = "\<lambda>i b. for_each (\<lambda>x _. bind_run (HashValue hash t (getKey x)) (\<lambda>v. ASSERT (i = v) (Inr ()))) b ()"
  have inner: "?inner i b = Inr ()" if "\<forall>x \<in> set b. uint (hash (getKey x)) mod numBuckets t = i" for i b
    using that by (induction b) (auto simp: HashValue_ok[OF inv])
  let ?body = "\<lambda>i numFound. bind_run (get_at (buckets t) i) (\<lambda>b. bind_run (?inner i b)
      (\<lambda>_. Inr (numFound + int (length b))))"
  let ?P = "\<lambda>seen numFound. numFound = int (length (concat (take (length seen) (buckets t))))"
  have "\<exists>n. for_each ?body (count_to (numBuckets t)) 0 = Inr n \<and> ?P (count_to (numBuckets t)) n"
  proof (rule for_each_inv[where P = ?P])
    fix seen i rest n
    assume sp: "count_to (numBuckets t) = seen @ i # rest" and n: "?P seen n"
    note i = count_to_split(1,3)[OF sp]
    have lt: "length seen < length (buckets t)" using i inv by (simp add: table_inv_def)
    then have "?inner i (buckets t ! length seen) = Inr ()"
      using inner inv i(1) by (auto simp: table_inv_def)
    with lt i(1) n show "\<exists>n'. ?body i n = Inr n' \<and> ?P (seen @ [i]) n'"
      by (simp add: take_Suc_conv_app_nth)
  qed simp
  moreover have "nat (numBuckets t) = length (buckets t)" using inv by (auto simp: table_inv_def)
  ultimately show ?thesis using cnt by (simp add: HashTable_SanityCheck_def table_count_def)
qed

lemma InitBuckets_inv:
  "0 < n \<Longrightarrow> table_inv getKey hash (InitBuckets t n) \<and> table_lookup getKey hash (InitBuckets t n) = Map.empty \<and>
     concat (buckets (InitBuckets t n)) = []"
  by (auto simp: table_inv_def InitBuckets_def table_lookup_def fun_eq_iff nat_less_iff)

lemma ReHash_ok:
  assumes inv: "table_inv getKey hash t" and cnt: "table_count t"
  shows "\<exists>t'. ReHash getKey hash t = Inr t' \<and> table_inv getKey hash t' \<and> table_count t' \<and>
     numItems t' = numItems t \<and> numBuckets t' = 4 * numBuckets t \<and>
     table_lookup getKey hash t' = table_lookup getKey hash t"
proof -
  let ?t0 = "InitBuckets t (numBuckets t * IncreaseSizeBy)"
  let ?body = "\<lambda>i u. bind_run (get_at (buckets t) i) (\<lambda>b. MoveBucket getKey hash b u)"
  let ?slot = "\<lambda>k. uint (hash k) mod numBuckets t"
  let ?P = "\<lambda>seen u. table_inv getKey hash u \<and> numItems u = numItems t \<and> numBuckets u = 4 * numBuckets t \<and>
     length (concat (buckets u)) = length (concat (take (length seen) (buckets t))) \<and>
     (\<forall>k. table_lookup getKey hash u k =
            (if ?slot k < int (length seen) then table_lookup getKey hash t k else None))"
  have pos: "0 < numBuckets t" and len: "int (length (buckets t)) = numBuckets t"
    using inv by (auto simp: table_inv_def)
  have "\<exists>u. for_each ?body (count_to (numBuckets t)) ?t0 = Inr u \<and> ?P (count_to (numBuckets t)) u"
  proof (rule for_each_inv[where P = ?P])
    have "0 < numBuckets t * IncreaseSizeBy" using pos by (simp add: IncreaseSizeBy_def)
    moreover have "\<not> ?slot k < 0" for k using pos by (simp add: not_less)
    ultimately show "?P [] ?t0"
      using InitBuckets_inv[of "numBuckets t * IncreaseSizeBy" getKey hash t]
      by (auto simp: InitBuckets_def IncreaseSizeBy_def)
  next
    fix seen i rest u
    assume sp: "count_to (numBuckets t) = seen @ i # rest" and P: "?P seen u"
    note i = count_to_split(1,3)[OF sp]
    let ?b = "buckets t ! length seen"
    have lt: "length seen < length (buckets t)" using i len by simp
    have b: "distinct (map getKey ?b)" "\<And>x. x \<in> set ?b \<Longrightarrow> ?slot (getKey x) = int (length seen)"
      using inv lt by (auto simp: table_inv_def)
    then have "getKey x \<notin> dom (table_lookup getKey hash u)" if "x \<in> set ?b" for x
      using P that by (simp add: domIff)
    with MoveBucket_ok[of getKey hash u ?b] b(1) P obtain u' where
      u': "MoveBucket getKey hash ?b u = Inr u'" "table_inv getKey hash u'" "numItems u' = numItems u"
        "numBuckets u' = numBuckets u"
        "length (concat (buckets u')) = length ?b + length (concat (buckets u))"
        "\<And>k. table_lookup getKey hash u' k = (case find (\<lambda>x. k = getKey x) ?b of
            None \<Rightarrow> table_lookup getKey hash u k | Some x \<Rightarrow> Some x)" by blast
    have "table_lookup getKey hash u' k =
        (if ?slot k < int (length (seen @ [i])) then table_lookup getKey hash t k else None)" for k
    proof (cases "?slot k = int (length seen)")
      case True
      then have "table_lookup getKey hash t k = find (\<lambda>x. k = getKey x) ?b"
        by (simp add: table_lookup_def)
      with True P show ?thesis by (auto simp: u'(6) split: option.splits)
    next
      case False
      then have "find (\<lambda>x. k = getKey x) ?b = None" using b(2) by (auto simp: find_None_map)
      with False P show ?thesis by (auto simp: u'(6))
    qed
    with u' P lt i(1) show "\<exists>u'. ?body i u = Inr u' \<and> ?P (seen @ [i]) u'"
      by (simp add: take_Suc_conv_app_nth)
  qed
  then obtain u where u: "for_each ?body (count_to (numBuckets t)) ?t0 = Inr u" "table_inv getKey hash u"
    "numItems u = numItems t" "numBuckets u = 4 * numBuckets t" "length (concat (buckets u)) = length (concat (buckets t))"
    "table_lookup getKey hash u = table_lookup getKey hash t"
    using pos len[symmetric] by (auto simp: fun_eq_iff)
  then have "table_count u" using cnt by (simp add: table_count_def)
  with u SanityCheck_ok[OF inv cnt] SanityCheck_ok[OF u(2)] show ?thesis
    by (auto simp: ReHash_def)
qed

lemma Insert_ok:
  assumes inv: "table_inv getKey hash t" and cnt: "table_count t"
    and new: "getKey x \<notin> dom (table_lookup getKey hash t)"
  shows "\<exists>t'. HashTable_Insert getKey hash t x = Inr t' \<and> table_inv getKey hash t' \<and> table_count t' \<and>
     table_lookup getKey hash t' = (table_lookup getKey hash t)(getKey x \<mapsto> x)"
proof -
  have "\<exists>u. (if numItems t div numBuckets t \<ge> ResizeRatio then ReHash getKey hash t else Inr t) = Inr u \<and>
      table_inv getKey hash u \<and> table_count u \<and> table_lookup getKey hash u = table_lookup getKey hash t"
    using ReHash_ok[OF inv cnt] inv cnt by auto
  then obtain u where u: "(if numItems t div numBuckets t \<ge> ResizeRatio then ReHash getKey hash t else Inr t) = Inr u"
    "table_inv getKey hash u" "table_count u" "table_lookup getKey hash u = table_lookup getKey hash t" by blast
  from AppendToBucket_ok[OF u(2), of x] new u(4) obtain v where
    v: "AppendToBucket getKey hash u x = Inr v" "table_inv getKey hash v" "numItems v = numItems u"
      "length (concat (buckets v)) = Suc (length (concat (buckets u)))"
      "table_lookup getKey hash v = (table_lookup getKey hash t)(getKey x \<mapsto> x)" by auto
  let ?w = "v\<lparr>numItems := numItems v + 1\<rparr>"
  have w: "table_inv getKey hash ?w" "table_count ?w" "table_lookup getKey hash ?w = table_lookup getKey hash v"
    using v u(3) by (auto simp: table_inv_def table_count_def table_lookup_def fun_eq_iff)
  then have "HashTable_Insert getKey hash t x = Inr ?w"
    using IsInTable_ok[OF inv, of "getKey x"] IsInTable_ok[OF w(1), of "getKey x"] new u(1) v
    by (simp add: HashTable_Insert_def)
  with w v(5) show ?thesis by auto
qed

lemma find_remove1_other:
  "distinct (map g xs) \<Longrightarrow> x \<in> set xs \<Longrightarrow>
     find (\<lambda>y. k = g y) (remove1 x xs) = (if k = g x then None else find (\<lambda>y. k = g y) xs)"
  by (induction xs) (auto simp: find_None_map image_iff)

lemma distinct_map_remove1: "distinct (map g xs) \<Longrightarrow> distinct (map g (remove1 x xs))"
  by (induction xs) (auto dest: notin_set_remove1 simp: image_iff intro: in_set_remove1 split: if_splits)

lemma Remove_ok:
  assumes inv: "table_inv getKey hash t" and cnt: "table_count t"
    and found: "table_lookup getKey hash t k = Some x"
  shows "\<exists>t'. HashTable_Remove getKey hash t k = Inr (x, t') \<and> table_inv getKey hash t' \<and> table_count t' \<and>
     table_lookup getKey hash t' = (table_lookup getKey hash t)(k := None)"
proof -
  obtain i where nb: "uint (hash k) mod numBuckets t = int i" and i: "i < length (buckets t)"
    using HashValue_ok[OF inv, of k] by (metis int_nat_eq nat_0_le)
  let ?b = "buckets t ! i"
  have fb: "find (\<lambda>x. k = getKey x) ?b = Some x" using found by (simp add: table_lookup_def nb)
  then have x: "x \<in> set ?b" "k = getKey x" using find_Some_in[of _ ?b x] by auto
  have b: "distinct (map getKey ?b)" "\<And>y. y \<in> set ?b \<Longrightarrow> uint (hash (getKey y)) mod numBuckets t = int i"
    using inv i by (simp_all add: table_inv_def)
  let ?t = "t\<lparr>buckets := (buckets t)[i := remove1 x ?b], numItems := numItems t - 1\<rparr>"
  have "distinct (map getKey (buckets ?t ! j)) \<and>
        (\<forall>y \<in> set (buckets ?t ! j). uint (hash (getKey y)) mod numBuckets t = int j)"
    if "j < length (buckets t)" for j
  proof (cases "j = i")
    case True
    then show ?thesis using i b(2) distinct_map_remove1[OF b(1)] by (auto dest: notin_set_remove1)
  next
    case False
    then show ?thesis using inv that by (simp add: table_inv_def)
  qed
  then have inv': "table_inv getKey hash ?t" using inv by (simp add: table_inv_def)
  have "Suc (length (remove1 x ?b)) = length ?b"
    using x(1) length_pos_if_in_set[OF x(1)] by (simp add: length_remove1)
  with length_concat_update[OF i, of "remove1 x ?b"]
  have "Suc (length (concat (buckets ?t))) = length (concat (buckets t))" by simp
  then have cnt': "table_count ?t" using cnt by (simp add: table_count_def)
  have lk: "table_lookup getKey hash ?t = (table_lookup getKey hash t)(k := None)"
  proof
    fix k'
    show "table_lookup getKey hash ?t k' = ((table_lookup getKey hash t)(k := None)) k'"
      using i nb x find_remove1_other[OF b(1) x(1), of k']
      by (cases "nat (uint (hash k') mod numBuckets t) = i") (auto simp: table_lookup_def)
  qed
  have "HashTable_Remove getKey hash t k = Inr (x, ?t)"
    using HashValue_ok(1)[OF inv, of k] IsInTable_ok[OF inv', of k] nb i fb x(1)
    by (simp add: HashTable_Remove_def FindInBucket_def Remove_def lk)
  with inv' cnt' lk show ?thesis by blast
qed

text \<open>The contract of a keyed table, and what a client can rely on.\<close>

locale keyed_table =
  fixes ok :: "'t \<Rightarrow> bool"
    and lookup :: "'t \<Rightarrow> 'k \<rightharpoonup> 'a"
    and ins :: "'t \<Rightarrow> 'a \<Rightarrow> 't run"
    and del :: "'t \<Rightarrow> 'k \<Rightarrow> ('a \<times> 't) run"
    and keyOf :: "'a \<Rightarrow> 'k"
  assumes ins_ok: "ok t \<Longrightarrow> keyOf x \<notin> dom (lookup t) \<Longrightarrow>
      \<exists>t'. ins t x = Inr t' \<and> ok t' \<and> lookup t' = (lookup t)(keyOf x \<mapsto> x)"
    and ins_dup: "ok t \<Longrightarrow> keyOf x \<in> dom (lookup t) \<Longrightarrow> ins t x = Inl AssertFail"
    and del_ok: "ok t \<Longrightarrow> lookup t k = Some x \<Longrightarrow> \<exists>t'. del t k = Inr (x, t') \<and> ok t' \<and> lookup t' = (lookup t)(k := None)"
    and del_missing: "ok t \<Longrightarrow> lookup t k = None \<Longrightarrow> del t k = Inl AssertFail"
begin

lemma ins_all:
  assumes chk: "\<And>x t. ok t \<Longrightarrow> lookup t (keyOf x) = Some x \<Longrightarrow> chk x t = Inr t"
  shows "ok t \<Longrightarrow> distinct (map keyOf xs) \<Longrightarrow> keyOf ` set xs \<inter> dom (lookup t) = {} \<Longrightarrow>
     \<exists>t'. for_each (\<lambda>x t. bind_run (ins t x) (chk x)) xs t = Inr t' \<and> ok t' \<and>
       (\<forall>x \<in> set xs. lookup t' (keyOf x) = Some x) \<and> dom (lookup t') = keyOf ` set xs \<union> dom (lookup t) \<and>
       (\<forall>k. k \<notin> keyOf ` set xs \<longrightarrow> lookup t' k = lookup t k)"
proof (induction xs arbitrary: t)
  case (Cons x xs)
  then obtain t1 where t1: "ins t x = Inr t1" "ok t1" "lookup t1 = (lookup t)(keyOf x \<mapsto> x)"
    using ins_ok[of t x] by auto
  have c: "chk x t1 = Inr t1" using chk t1 by simp
  have "keyOf ` set xs \<inter> dom (lookup t1) = {}" using Cons.prems(2,3) t1(3) by (auto simp: image_iff)
  from Cons.IH[OF t1(2) _ this] Cons.prems(2) obtain t2 where
    t2: "for_each (\<lambda>x t. bind_run (ins t x) (chk x)) xs t1 = Inr t2" "ok t2"
      "\<forall>x \<in> set xs. lookup t2 (keyOf x) = Some x" "dom (lookup t2) = keyOf ` set xs \<union> dom (lookup t1)"
      "\<forall>k. k \<notin> keyOf ` set xs \<longrightarrow> lookup t2 k = lookup t1 k" by auto
  have "lookup t2 (keyOf x) = Some x" using t2(5) t1(3) Cons.prems(2) by (auto simp: image_iff)
  with t1 t2 c show ?case by (intro exI[of _ t2]) auto
qed simp

lemma del_all:
  "ok t \<Longrightarrow> distinct (map keyOf xs) \<Longrightarrow> (\<forall>x \<in> set xs. lookup t (keyOf x) = Some x) \<Longrightarrow>
     \<exists>t'. for_each (\<lambda>x t. bind_run (del t (keyOf x)) (\<lambda>(y, t). ASSERT (y = x) (Inr t))) xs t = Inr t' \<and> ok t' \<and>
       dom (lookup t') = dom (lookup t) - keyOf ` set xs"
proof (induction xs arbitrary: t)
  case (Cons x xs)
  then obtain t1 where t1: "del t (keyOf x) = Inr (x, t1)" "ok t1" "lookup t1 = (lookup t)(keyOf x := None)"
    using del_ok[of t "keyOf x" x] by auto
  have "\<forall>y \<in> set xs. lookup t1 (keyOf y) = Some y"
    using Cons.prems(2,3) t1(3) by (auto simp: image_iff)
  from Cons.IH[OF t1(2) _ this] Cons.prems(2) obtain t2 where
    "for_each (\<lambda>x t. bind_run (del t (keyOf x)) (\<lambda>(y, t). ASSERT (y = x) (Inr t))) xs t1 = Inr t2" "ok t2"
    "dom (lookup t2) = dom (lookup t1) - keyOf ` set xs" by auto
  with t1 show ?case by (intro exI[of _ t2]) auto
qed simp

end

definition table_ok :: "('a \<Rightarrow> 'k) \<Rightarrow> ('k \<Rightarrow> 32 word) \<Rightarrow> 'a HashTable \<Rightarrow> bool" where
  [inv_defs]: "table_ok getKey hash t \<longleftrightarrow> table_inv getKey hash t \<and> table_count t"

interpretation hash_table: keyed_table "table_ok getKey hash" "table_lookup getKey hash"
    "HashTable_Insert getKey hash" "HashTable_Remove getKey hash" getKey for getKey hash
proof unfold_locales
  fix t :: "'a HashTable" and x k
  show "\<exists>t'. HashTable_Insert getKey hash t x = Inr t' \<and> table_ok getKey hash t' \<and>
      table_lookup getKey hash t' = (table_lookup getKey hash t)(getKey x \<mapsto> x)"
    if "table_ok getKey hash t" "getKey x \<notin> dom (table_lookup getKey hash t)"
    using that Insert_ok[of getKey hash t x] by (auto simp: table_ok_def)
  show "HashTable_Insert getKey hash t x = Inl AssertFail"
    if "table_ok getKey hash t" "getKey x \<in> dom (table_lookup getKey hash t)"
    using that IsInTable_ok[of getKey hash t "getKey x"] by (simp add: table_ok_def HashTable_Insert_def)
  show "\<exists>t'. HashTable_Remove getKey hash t k = Inr (x, t') \<and> table_ok getKey hash t' \<and>
      table_lookup getKey hash t' = (table_lookup getKey hash t)(k := None)"
    if "table_ok getKey hash t" "table_lookup getKey hash t k = Some x"
    using that Remove_ok[of getKey hash t k x] by (auto simp: table_ok_def)
  show "HashTable_Remove getKey hash t k = Inl AssertFail"
    if "table_ok getKey hash t" "table_lookup getKey hash t k = None"
    using that HashValue_ok[of getKey hash t k]
    by (simp add: table_ok_def HashTable_Remove_def FindInBucket_def table_lookup_def)
qed

text \<open>
  C25: a hash table implements a finite map from keys to items, for every hash function.  The new
  table is the empty map; on a well-formed table \<open>Find\<close> is lookup; \<open>Insert\<close>, through any rehash,
  returns a well-formed table with exactly the new entry added, and aborts when the key is present;
  \<open>Remove\<close> returns the entry and deletes exactly it, and aborts when the key is absent.
\<close>

theorem HashTable_implements_map:
  assumes "table_ok getKey hash t"
  shows "Find getKey hash t k = Inr (table_lookup getKey hash t k) \<and>
     (if getKey x \<in> dom (table_lookup getKey hash t)
      then HashTable_Insert getKey hash t x = Inl AssertFail
      else \<exists>t'. HashTable_Insert getKey hash t x = Inr t' \<and> table_ok getKey hash t' \<and>
             table_lookup getKey hash t' = (table_lookup getKey hash t)(getKey x \<mapsto> x)) \<and>
     (case table_lookup getKey hash t k of
        None \<Rightarrow> HashTable_Remove getKey hash t k = Inl AssertFail
      | Some y \<Rightarrow> \<exists>t'. HashTable_Remove getKey hash t k = Inr (y, t') \<and> table_ok getKey hash t' \<and>
             table_lookup getKey hash t' = (table_lookup getKey hash t)(k := None)) \<and>
     table_ok getKey hash HashTable_new \<and> table_lookup getKey hash HashTable_new = Map.empty"
proof -
  have "table_ok getKey hash HashTable_new" "table_lookup getKey hash HashTable_new = Map.empty"
    using InitBuckets_inv[of InitialBuckets getKey hash "\<lparr>buckets = [], numBuckets = 0, numItems = 0\<rparr>"]
    by (auto simp: table_ok_def HashTable_new_def InitialBuckets_def table_count_def InitBuckets_def)
  then show ?thesis
    using hash_table.ins_ok[OF assms, of x] hash_table.ins_dup[OF assms, of x]
      hash_table.del_ok[OF assms, of k] hash_table.del_missing[OF assms, of k]
      Find_ok[of getKey hash t k] assms
    by (auto simp: table_ok_def split: option.splits)
qed

theorem HashTable_implements_map_witness:
  "Find id (word_of_int :: int \<Rightarrow> 32 word) (HashTable_new\<lparr>buckets := [[0], [1], [], [3]], numItems := 3\<rparr>) 3 = Inr (Some 3)"
proof -
  have "table_ok id (word_of_int :: int \<Rightarrow> 32 word) (HashTable_new\<lparr>buckets := [[0], [1], [], [3]], numItems := 3\<rparr>)"
    by (auto simp: table_ok_def table_inv_def table_count_def HashTable_new_def InitBuckets_def InitialBuckets_def
        less_Suc_eq uint_word_of_int)
  from HashTable_implements_map[OF this, of 3 0] show ?thesis
    by (simp add: table_lookup_def HashTable_new_def InitBuckets_def InitialBuckets_def uint_word_of_int)
qed

section \<open>The iterator and the self test\<close>

text \<open>What an iterator still has to visit: the rest of its bucket and all later buckets.\<close>

definition iterator_rest :: "'a HashTable \<Rightarrow> 'a HashIterator \<Rightarrow> 'a list" where
  "iterator_rest t it =
     (case bucketIter it of None \<Rightarrow> [] | Some rest \<Rightarrow> rest @ concat (drop (Suc (nat (bucket it))) (buckets t)))"

definition iterator_ok :: "'a HashTable \<Rightarrow> 'a HashIterator \<Rightarrow> bool" where
  "iterator_ok t it \<longleftrightarrow> 0 \<le> bucket it \<and> bucket it \<le> numBuckets t \<and>
     (case bucketIter it of None \<Rightarrow> bucket it = numBuckets t
      | Some rest \<Rightarrow> rest \<noteq> [] \<and> bucket it < numBuckets t)"

lemma next_full_bucket:
  assumes "int (length (buckets t)) = numBuckets t" "0 \<le> b" "b \<le> numBuckets t"
  shows "\<exists>it. bind_run (FindNextFullBucket t b) (iterator_at t) = Inr it \<and> iterator_ok t it \<and>
     iterator_rest t it = concat (drop (nat b) (buckets t))"
  using assms
proof (induction "nat (numBuckets t - b)" arbitrary: b)
  case 0
  then show ?case
    by (auto simp: FindNextFullBucket.simps[of t b] iterator_at_def iterator_ok_def iterator_rest_def)
next
  case (Suc n)
  then have b: "b < numBuckets t" "nat b < length (buckets t)" by auto
  then have split: "drop (nat b) (buckets t) = buckets t ! nat b # drop (Suc (nat b)) (buckets t)"
    by (simp add: Cons_nth_drop_Suc)
  have get: "get_at (buckets t) b = Inr (buckets t ! nat b)" using Suc.prems b by simp
  show ?case
  proof (cases "buckets t ! nat b = []")
    case True
    then have "FindNextFullBucket t b = FindNextFullBucket t (b + 1)"
      using b get by (subst FindNextFullBucket.simps) simp
    with Suc.hyps(1)[of "b + 1"] Suc.prems Suc.hyps(2) b True split show ?thesis
      by (auto simp: nat_add_distrib)
  next
    case False
    then have "FindNextFullBucket t b = Inr b" using b get by (subst FindNextFullBucket.simps) simp
    with False b get split Suc.prems show ?thesis
      by (auto simp: iterator_at_def iterator_ok_def iterator_rest_def)
  qed
qed

text \<open>
  An iterator visits every item of the table exactly once.  A new iterator has all items ahead,
  in bucket order; it is done exactly when nothing is left; otherwise \<open>Item\<close> is the next item and
  \<open>Next\<close> moves past exactly it, never aborting.
\<close>

theorem HashIterator_visits_all:
  assumes "table_ok getKey hash t"
  shows "(\<exists>it. HashIterator_new t = Inr it \<and> iterator_ok t it \<and> iterator_rest t it = concat (buckets t)) \<and>
     (\<forall>it. iterator_ok t it \<longrightarrow> HashIterator_IsDone t it = (iterator_rest t it = [])) \<and>
     (\<forall>it x xs. iterator_ok t it \<longrightarrow> iterator_rest t it = x # xs \<longrightarrow>
        HashIterator_Item t it = Inr x \<and>
        (\<exists>it'. HashIterator_Next t it = Inr it' \<and> iterator_ok t it' \<and> iterator_rest t it' = xs))"
proof (intro conjI allI impI)
  have len: "int (length (buckets t)) = numBuckets t" "0 < numBuckets t"
    using assms by (auto simp: table_ok_def table_inv_def)
  show "\<exists>it. HashIterator_new t = Inr it \<and> iterator_ok t it \<and> iterator_rest t it = concat (buckets t)"
    using next_full_bucket[OF len(1), of 0] len(2) by (simp add: HashIterator_new_def)
  show "HashIterator_IsDone t it = (iterator_rest t it = [])" if "iterator_ok t it" for it
    using that by (auto simp: HashIterator_IsDone_def iterator_ok_def iterator_rest_def split: option.splits)
  fix it x xs
  assume ok: "iterator_ok t it" and rest: "iterator_rest t it = x # xs"
  then obtain r where r: "bucketIter it = Some (x # r)" "0 \<le> bucket it" "bucket it < numBuckets t"
    "xs = r @ concat (drop (Suc (nat (bucket it))) (buckets t))"
    by (auto simp: iterator_ok_def iterator_rest_def neq_Nil_conv split: option.splits)
  show "HashIterator_Item t it = Inr x"
    using r by (simp add: HashIterator_Item_def HashIterator_IsDone_def)
  show "\<exists>it'. HashIterator_Next t it = Inr it' \<and> iterator_ok t it' \<and> iterator_rest t it' = xs"
  proof (cases "r = []")
    case True
    with next_full_bucket[OF len(1), of "bucket it + 1"] r show ?thesis
      by (simp add: HashIterator_Next_def nat_add_distrib)
  next
    case False
    then show ?thesis
      using r by (simp add: HashIterator_Next_def iterator_ok_def iterator_rest_def)
  qed
qed

lemma table_ok_new: "table_ok getKey hash HashTable_new"
  and table_lookup_new: "table_lookup getKey hash HashTable_new = Map.empty"
  using InitBuckets_inv[of InitialBuckets getKey hash "\<lparr>buckets = [], numBuckets = 0, numItems = 0\<rparr>"]
  by (auto simp: table_ok_def HashTable_new_def InitialBuckets_def table_count_def InitBuckets_def)

lemma table_empty: "table_ok getKey hash t \<Longrightarrow> HashTable_IsEmpty t \<longleftrightarrow> table_lookup getKey hash t = Map.empty"
proof
  assume ok: "table_ok getKey hash t"
  then have cnt: "numItems t = int (length (concat (buckets t)))" and inv: "table_inv getKey hash t"
    by (auto simp: table_ok_def table_count_def)
  show "table_lookup getKey hash t = Map.empty" if "HashTable_IsEmpty t"
  proof
    fix k
    from that cnt have "concat (buckets t) = []" by (simp add: HashTable_IsEmpty_def)
    then have "buckets t ! nat (uint (hash k) mod numBuckets t) = []"
      using HashValue_ok(2)[OF inv, of k] by (metis concat_eq_Nil_conv nth_mem)
    then show "table_lookup getKey hash t k = None" by (simp add: table_lookup_def)
  qed
  show "HashTable_IsEmpty t" if e: "table_lookup getKey hash t = Map.empty"
  proof (rule ccontr)
    assume "\<not> HashTable_IsEmpty t"
    with cnt have "concat (buckets t) \<noteq> []" by (simp add: HashTable_IsEmpty_def)
    then obtain b x where "b \<in> set (buckets t)" "x \<in> set b"
      by (metis concat_eq_Nil_conv length_pos_if_in_set list.set_intros(1) neq_Nil_conv)
    then obtain i where i: "i < length (buckets t)" "x \<in> set (buckets t ! i)" by (auto simp: in_set_conv_nth)
    then have "uint (hash (getKey x)) mod numBuckets t = int i" using inv by (auto simp: table_inv_def)
    then have "find (\<lambda>y. getKey x = getKey y) (buckets t ! i) = None"
      using fun_cong[OF e, of "getKey x"] by (simp add: table_lookup_def)
    with i(2) show False by (auto simp: find_None_map)
  qed
qed

text \<open>
  A new hash table passes \<open>HashTable::SelfTest\<close> on every vector of items with distinct keys, for
  every hash function: no assertion fails, through all rehashes, and the table ends up empty.
\<close>

theorem HashTable_SelfTest_passes:
  fixes getKey :: "'a \<Rightarrow> 'k"
  assumes "distinct (map getKey p)"
  shows "\<exists>t'. HashTable_SelfTest getKey hash HashTable_new p = Inr t' \<and> table_lookup getKey hash t' = Map.empty"
proof -
  note new = table_ok_new[of getKey hash]
  let ?chk = "\<lambda>x t. bind_run (IsInTable getKey hash t (getKey x)) (\<lambda>found.
      ASSERT found (ASSERT (\<not> HashTable_IsEmpty t) (Inr t)))"
  have "?chk x t = Inr t" if "table_ok getKey hash t" "table_lookup getKey hash t (getKey x) = Some x" for x t
  proof -
    have "table_lookup getKey hash t \<noteq> Map.empty" using that(2) by auto
    then show ?thesis
      using that IsInTable_ok[of getKey hash t "getKey x"] table_empty[OF that(1)]
      by (simp add: table_ok_def domIff)
  qed
  from hash_table.ins_all[where chk = ?chk, OF this new assms] obtain t1 where
    t1: "for_each (\<lambda>x t. bind_run (HashTable_Insert getKey hash t x) (?chk x)) p HashTable_new = Inr t1"
      "table_ok getKey hash t1" "\<forall>x \<in> set p. table_lookup getKey hash t1 (getKey x) = Some x"
      "dom (table_lookup getKey hash t1) = getKey ` set p"
    by (auto simp: table_lookup_new)
  from hash_table.del_all[OF t1(2) assms t1(3)] obtain t2 where
    t2: "for_each (\<lambda>x t. bind_run (HashTable_Remove getKey hash t (getKey x)) (\<lambda>(y, t). ASSERT (y = x) (Inr t))) p t1 = Inr t2"
      "table_ok getKey hash t2" "dom (table_lookup getKey hash t2) = {}"
    using t1(4) by auto
  then have e2: "table_lookup getKey hash t2 = Map.empty" by (simp add: dom_eq_empty_conv)
  have e: "HashTable_IsEmpty (HashTable_new :: 'a HashTable)" "HashTable_IsEmpty t2"
    using table_empty[OF new] table_empty[OF t2(2)] e2 table_lookup_new[of getKey hash] by simp_all
  from next_full_bucket[of "HashTable_new :: 'a HashTable" 0] new obtain it where
    it: "HashIterator_new (HashTable_new :: 'a HashTable) = Inr it" "iterator_ok HashTable_new it"
      "iterator_rest HashTable_new it = []"
    by (auto simp: HashIterator_new_def table_ok_def table_inv_def HashTable_new_def InitBuckets_def)
  then have "HashIterator_IsDone HashTable_new it"
    by (auto simp: HashIterator_IsDone_def iterator_ok_def iterator_rest_def split: option.splits)
  with it(1) e t1(1) t2(1) new t2(2) SanityCheck_ok[of getKey hash] e2 show ?thesis
    by (auto simp: HashTable_SelfTest_def table_ok_def)
qed

end
