(* ===== verification/MachineMem.thy ===== *)
theory MachineMem
  imports Prelude
begin

text \<open>
  The simulated machine: registers, physical memory and address translation
  (\<^verbatim>\<open>machine/machine.h\<close>, \<^verbatim>\<open>machine/machine.cc\<close>, \<^verbatim>\<open>machine/translate.h\<close>, \<^verbatim>\<open>machine/translate.cc\<close>).

  Registers hold 32-bit words; \<^verbatim>\<open>int\<close> and \<^verbatim>\<open>unsigned int\<close> are the same bits, read with \<open>sint\<close> or
  \<open>uint\<close>.  Physical memory is a function from addresses to bytes that is only read and written below
  \<open>MemorySize\<close>.  The host is little-endian, as the build flags say, so \<open>WordToHost\<close> and its
  companions are the identity.

  An exception does not call the kernel here: \<open>RaiseException\<close> is the part of the routine before the
  call of \<open>ExceptionHandler\<close>, and the caller gets the exception as a value.  Every caller inside the
  simulator returns at once after the handler, so nothing of the simulator runs behind it.
\<close>

unbundle bit_operations_syntax

section \<open>Machine state\<close>

datatype ExceptionType = NoException | SyscallException | PageFaultException | ReadOnlyException
  | BusErrorException | AddressErrorException | OverflowException | IllegalInstrException

definition PageSize :: int where "PageSize = 128"
definition NumPhysPages :: int where "NumPhysPages = 128"
definition MemorySize :: int where "MemorySize = NumPhysPages * PageSize"
definition TLBSize :: int where "TLBSize = 4"

definition StackReg :: nat where "StackReg = 29"
definition RetAddrReg :: nat where "RetAddrReg = 31"
definition NumGPRegs :: nat where "NumGPRegs = 32"
definition HiReg :: nat where "HiReg = 32"
definition LoReg :: nat where "LoReg = 33"
definition PCReg :: nat where "PCReg = 34"
definition NextPCReg :: nat where "NextPCReg = 35"
definition PrevPCReg :: nat where "PrevPCReg = 36"
definition LoadReg :: nat where "LoadReg = 37"
definition LoadValueReg :: nat where "LoadValueReg = 38"
definition BadVAddrReg :: nat where "BadVAddrReg = 39"
definition NumTotalRegs :: nat where "NumTotalRegs = 40"

lemmas reg_defs = StackReg_def RetAddrReg_def NumGPRegs_def HiReg_def LoReg_def PCReg_def NextPCReg_def
  PrevPCReg_def LoadReg_def LoadValueReg_def BadVAddrReg_def NumTotalRegs_def

lemmas size_defs = PageSize_def NumPhysPages_def MemorySize_def TLBSize_def

record TranslationEntry =
  virtualPage :: "32 word"
  physicalPage :: "32 word"
  valid :: bool
  readOnly :: bool
  useBit :: bool
  dirty :: bool

record Machine =
  registers :: "nat \<Rightarrow> 32 word"
  mainMemory :: "nat \<Rightarrow> 8 word"
  tlb :: "TranslationEntry list option"
  pageTable :: "TranslationEntry list option"
  pageTableSize :: "32 word"
  singleStep :: bool

text \<open>The constructor with a linear page table; \<open>pageTableSize\<close> is not set by it.\<close>

definition Machine_new :: "bool \<Rightarrow> 32 word \<Rightarrow> Machine" where
  "Machine_new dbg unset =
     \<lparr>registers = (\<lambda>_. 0), mainMemory = (\<lambda>_. 0), tlb = None, pageTable = None, pageTableSize = unset,
      singleStep = dbg\<rparr>"

definition ReadRegister :: "Machine \<Rightarrow> int \<Rightarrow> 32 word run" where
  "ReadRegister m num = ASSERT (num \<ge> 0 \<and> num < int NumTotalRegs) (Inr (registers m (nat num)))"

definition WriteRegister :: "Machine \<Rightarrow> int \<Rightarrow> 32 word \<Rightarrow> Machine run" where
  "WriteRegister m num v =
     ASSERT (num \<ge> 0 \<and> num < int NumTotalRegs) (Inr (m\<lparr>registers := (registers m)(nat num := v)\<rparr>))"

text \<open>
  \<open>DelayedLoad\<close> indexes the register array by the content of \<open>LoadReg\<close>, a signed value.
\<close>

definition DelayedLoad :: "Machine \<Rightarrow> 32 word \<Rightarrow> 32 word \<Rightarrow> Machine run" where
  "DelayedLoad m nextReg nextValue =
     (let target = sint (registers m LoadReg) in
      if 0 \<le> target \<and> target < int NumTotalRegs then
        let r = (registers m)(nat target := registers m LoadValueReg) in
        Inr (m\<lparr>registers := r(LoadReg := nextReg, LoadValueReg := nextValue, 0 := 0)\<rparr>)
      else Inl OutOfBounds)"

definition RaiseException :: "Machine \<Rightarrow> ExceptionType \<Rightarrow> 32 word \<Rightarrow> Machine run" where
  "RaiseException m which badVAddr =
     DelayedLoad (m\<lparr>registers := (registers m)(BadVAddrReg := badVAddr)\<rparr>) 0 0"

section \<open>Address translation\<close>

text \<open>The search of the TLB, over the remaining loop indices.\<close>

fun tlb_search :: "TranslationEntry list \<Rightarrow> 32 word \<Rightarrow> int list \<Rightarrow> (int \<times> TranslationEntry) option run" where
  "tlb_search t vpn [] = Inr None"
| "tlb_search t vpn (i # is) =
     bind_run (get_at t i) (\<lambda>e.
       if valid e \<and> virtualPage e = vpn then Inr (Some (i, e)) else tlb_search t vpn is)"

text \<open>
  The part of \<open>Translate\<close> behind the lookup: \<open>put\<close> stores the entry back with its use and dirty bits.
\<close>

definition translate_entry ::
  "Machine \<Rightarrow> TranslationEntry \<Rightarrow> (TranslationEntry \<Rightarrow> Machine run) \<Rightarrow> 32 word \<Rightarrow> int \<Rightarrow> bool \<Rightarrow>
     (ExceptionType \<times> int \<times> Machine) run" where
  "translate_entry m entry put offset sz writing =
     (if readOnly entry \<and> writing then Inr (ReadOnlyException, 0, m)
      else let pageFrame = physicalPage entry in
        if uint pageFrame \<ge> NumPhysPages then Inr (BusErrorException, 0, m)
        else bind_run (put (entry\<lparr>useBit := True, dirty := dirty entry \<or> writing\<rparr>)) (\<lambda>m'.
          let physAddr = sint (pageFrame * word_of_int PageSize + offset) in
          ASSERT (physAddr \<ge> 0 \<and> physAddr + sz \<le> MemorySize) (Inr (NoException, physAddr, m'))))"

definition Translate ::
  "Machine \<Rightarrow> 32 word \<Rightarrow> int \<Rightarrow> bool \<Rightarrow> (ExceptionType \<times> int \<times> Machine) run" where
  "Translate m virtAddr sz writing =
     (if sz = 4 \<and> virtAddr AND 3 \<noteq> 0 \<or> sz = 2 \<and> virtAddr AND 1 \<noteq> 0
      then Inr (AddressErrorException, 0, m)
      else ASSERT (tlb m = None \<or> pageTable m = None)
       (ASSERT (tlb m \<noteq> None \<or> pageTable m \<noteq> None)
        (let vpn = virtAddr div word_of_int PageSize; offset = virtAddr mod word_of_int PageSize in
         case tlb m of
           None \<Rightarrow>
             if vpn \<ge> pageTableSize m then Inr (AddressErrorException, 0, m)
             else bind_run (deref (pageTable m)) (\<lambda>pt. bind_run (get_at pt (uint vpn)) (\<lambda>entry.
               if \<not> valid entry then Inr (PageFaultException, 0, m)
               else translate_entry m entry
                 (\<lambda>e. bind_run (set_at pt (uint vpn) e) (\<lambda>pt'. Inr (m\<lparr>pageTable := Some pt'\<rparr>)))
                 offset sz writing))
         | Some t \<Rightarrow>
             bind_run (tlb_search t vpn (count_to TLBSize)) (\<lambda>hit.
               case hit of None \<Rightarrow> Inr (PageFaultException, 0, m)
               | Some (i, entry) \<Rightarrow> translate_entry m entry
                   (\<lambda>e. bind_run (set_at t i e) (\<lambda>t'. Inr (m\<lparr>tlb := Some t'\<rparr>)))
                   offset sz writing))))"

section \<open>Memory accesses\<close>

definition WordToHost :: "32 word \<Rightarrow> 32 word" where "WordToHost w = w"
definition ShortToHost :: "16 word \<Rightarrow> 16 word" where "ShortToHost w = w"
definition WordToMachine :: "32 word \<Rightarrow> 32 word" where "WordToMachine w = WordToHost w"
definition ShortToMachine :: "16 word \<Rightarrow> 16 word" where "ShortToMachine w = ShortToHost w"

text \<open>Little-endian loads and stores of the host at a physical address.\<close>

definition load16 :: "(nat \<Rightarrow> 8 word) \<Rightarrow> nat \<Rightarrow> 16 word" where
  "load16 mem a = ucast (mem a) OR push_bit 8 (ucast (mem (a + 1)))"

definition load32 :: "(nat \<Rightarrow> 8 word) \<Rightarrow> nat \<Rightarrow> 32 word" where
  "load32 mem a = ucast (mem a) OR push_bit 8 (ucast (mem (a + 1))) OR
     push_bit 16 (ucast (mem (a + 2))) OR push_bit 24 (ucast (mem (a + 3)))"

definition store16 :: "(nat \<Rightarrow> 8 word) \<Rightarrow> nat \<Rightarrow> 16 word \<Rightarrow> nat \<Rightarrow> 8 word" where
  "store16 mem a v = mem(a := ucast v, a + 1 := ucast (drop_bit 8 v))"

definition store32 :: "(nat \<Rightarrow> 8 word) \<Rightarrow> nat \<Rightarrow> 32 word \<Rightarrow> nat \<Rightarrow> 8 word" where
  "store32 mem a v = mem(a := ucast v, a + 1 := ucast (drop_bit 8 v),
     a + 2 := ucast (drop_bit 16 v), a + 3 := ucast (drop_bit 24 v))"

text \<open>
  \<open>ReadMem\<close> and \<open>WriteMem\<close> return the exception that was raised, \<open>NoException\<close> standing for the result
  TRUE; the value of a failed read is not used.
\<close>

definition ReadMem :: "Machine \<Rightarrow> 32 word \<Rightarrow> int \<Rightarrow> (ExceptionType \<times> 32 word \<times> Machine) run" where
  "ReadMem m addr sz =
     bind_run (Translate m addr sz False) (\<lambda>(exception, physicalAddress, m).
       if exception \<noteq> NoException
       then bind_run (RaiseException m exception addr) (\<lambda>m. Inr (exception, 0, m))
       else let pa = nat physicalAddress in
         if sz = 1 then Inr (NoException, scast (mainMemory m pa), m)
         else if sz = 2 then Inr (NoException, ucast (ShortToHost (load16 (mainMemory m) pa)), m)
         else if sz = 4 then Inr (NoException, WordToHost (load32 (mainMemory m) pa), m)
         else Inl AssertFail)"

definition WriteMem :: "Machine \<Rightarrow> 32 word \<Rightarrow> int \<Rightarrow> 32 word \<Rightarrow> (ExceptionType \<times> Machine) run" where
  "WriteMem m addr sz v =
     bind_run (Translate m addr sz True) (\<lambda>(exception, physicalAddress, m).
       if exception \<noteq> NoException
       then bind_run (RaiseException m exception addr) (\<lambda>m. Inr (exception, m))
       else let pa = nat physicalAddress; mem = mainMemory m in
         if sz = 1 then Inr (NoException, m\<lparr>mainMemory := mem(pa := ucast (v AND 0xff))\<rparr>)
         else if sz = 2 then
           Inr (NoException, m\<lparr>mainMemory := store16 mem pa (ShortToMachine (ucast (v AND 0xffff)))\<rparr>)
         else if sz = 4 then Inr (NoException, m\<lparr>mainMemory := store32 mem pa (WordToMachine v)\<rparr>)
         else Inl AssertFail)"

section \<open>Byte order round trips\<close>

lemma load16_store16 [simp]: "load16 (store16 mem a v) a = v"
  by (rule bit_word_eqI) (auto simp: load16_def store16_def bit_simps)

lemma load32_store32 [simp]: "load32 (store32 mem a v) a = v"
proof (rule bit_word_eqI)
  fix n
  assume "n < LENGTH(32)"
  then show "bit (load32 (store32 mem a v) a) n = bit v n"
    by (cases "n < 24"; cases "n < 16") (auto simp: load32_def store32_def bit_simps)
qed

section \<open>Arithmetic of pages\<close>

lemma and3_eq: "(v :: 32 word) AND 3 = 0 \<longleftrightarrow> uint v mod 4 = 0"
proof -
  have "v AND 3 = take_bit 2 v" by (simp add: take_bit_eq_mask mask_eq_exp_minus_1)
  moreover have "uint (take_bit 2 v) = uint v mod 4"
    by (simp only: unsigned_take_bit_eq) (simp add: take_bit_eq_mod)
  ultimately show ?thesis by (metis uint_0_iff)
qed

lemma and1_eq: "(v :: 32 word) AND 1 = 0 \<longleftrightarrow> uint v mod 2 = 0"
proof -
  have "v AND 1 = take_bit 1 v" by (simp add: take_bit_eq_mask mask_eq_exp_minus_1)
  moreover have "uint (take_bit 1 v) = uint v mod 2"
    by (simp only: unsigned_take_bit_eq) (simp add: take_bit_eq_mod)
  ultimately show ?thesis by (metis uint_0_iff)
qed

lemma uint_div_page: "uint ((v :: 32 word) div word_of_int PageSize) = uint v div 128"
  and uint_mod_page: "uint ((v :: 32 word) mod word_of_int PageSize) = uint v mod 128"
  by (simp_all add: PageSize_def uint_div_distrib uint_mod_distrib)

text \<open>A naturally aligned access does not cross the end of its page.\<close>

definition aligned :: "32 word \<Rightarrow> int \<Rightarrow> bool" where
  "aligned v sz \<longleftrightarrow> uint v mod sz = 0"

lemma aligned_in_page:
  assumes "aligned v sz" "sz \<in> {1, 2, 4}"
  shows "uint v mod 128 + sz \<le> 128"
proof -
  have "uint v mod 128 < 128" "0 \<le> uint v mod 128" by simp_all
  moreover have "(uint v mod 128) mod sz = uint v mod sz"
    using assms(2) by (auto simp: mod_mod_cancel)
  ultimately show ?thesis using assms unfolding aligned_def by auto
qed

lemma small_signed: "0 \<le> x \<Longrightarrow> x < 2147483648 \<Longrightarrow> signed_take_bit 31 x = (x :: int)"
  by (intro signed_take_bit_int_eq_self) simp_all

lemma frame_address:
  assumes "uint pf < NumPhysPages"
  shows "sint (pf * word_of_int PageSize + (v :: 32 word) mod word_of_int PageSize) = uint pf * 128 + uint v mod 128"
proof -
  have "0 \<le> uint v mod 128" "uint v mod 128 < 128" by simp_all
  then have b: "0 \<le> uint pf * 128 + uint v mod 128" "uint pf * 128 + uint v mod 128 < 16384"
    using assms by (auto simp: NumPhysPages_def)
  have "pf * word_of_int PageSize + v mod word_of_int PageSize = word_of_int (uint pf * 128 + uint v mod 128)"
    by (simp add: PageSize_def uint_mod_page[symmetric, unfolded PageSize_def])
  then show ?thesis using b small_signed[OF b(1)] by (simp only: signed_of_int) simp
qed

section \<open>Translation through a page table\<close>

definition paged :: "Machine \<Rightarrow> TranslationEntry list \<Rightarrow> bool" where
  [inv_defs]: "paged m pt \<longleftrightarrow> tlb m = None \<and> pageTable m = Some pt \<and> uint (pageTableSize m) = int (length pt)"

text \<open>What the hardware promises: which access is granted, and at which physical address.\<close>

definition vm_translate :: "TranslationEntry list \<Rightarrow> 32 word \<Rightarrow> int \<Rightarrow> bool \<Rightarrow> ExceptionType + int" where
  "vm_translate pt v sz writing =
     (let vpn = nat (uint v div 128) in
      if \<not> aligned v sz then Inl AddressErrorException
      else if vpn \<ge> length pt then Inl AddressErrorException
      else if \<not> valid (pt ! vpn) then Inl PageFaultException
      else if readOnly (pt ! vpn) \<and> writing then Inl ReadOnlyException
      else if uint (physicalPage (pt ! vpn)) \<ge> NumPhysPages then Inl BusErrorException
      else Inr (uint (physicalPage (pt ! vpn)) * 128 + uint v mod 128))"

definition touch :: "bool \<Rightarrow> TranslationEntry \<Rightarrow> TranslationEntry" where
  "touch writing e = e\<lparr>useBit := True, dirty := dirty e \<or> writing\<rparr>"

definition touch_page :: "bool \<Rightarrow> 32 word \<Rightarrow> TranslationEntry list \<Rightarrow> TranslationEntry list" where
  "touch_page writing v pt = pt[nat (uint v div 128) := touch writing (pt ! nat (uint v div 128))]"

lemma misaligned_iff:
  "sz \<in> {1, 2, 4} \<Longrightarrow> (sz = 4 \<and> v AND 3 \<noteq> 0 \<or> sz = 2 \<and> v AND 1 \<noteq> 0) \<longleftrightarrow> \<not> aligned v sz"
  by (auto simp: aligned_def and3_eq and1_eq)

lemma vm_translate_range:
  assumes "vm_translate pt v sz writing = Inr pa" "sz \<in> {1, 2, 4}"
  shows "0 \<le> pa" "pa + sz \<le> MemorySize" "pa div 128 = uint (physicalPage (pt ! nat (uint v div 128)))"
    "(pa + sz - 1) div 128 = pa div 128" "nat (uint v div 128) < length pt" "valid (pt ! nat (uint v div 128))"
    "aligned v sz" "pa mod 128 = uint v mod 128"
proof -
  let ?e = "pt ! nat (uint v div 128)"
  have pa: "pa = uint (physicalPage ?e) * 128 + uint v mod 128" "aligned v sz"
    "uint (physicalPage ?e) < 128"
    using assms(1) by (auto simp: vm_translate_def Let_def NumPhysPages_def split: if_splits)
  have off: "uint v mod 128 + sz \<le> 128" using aligned_in_page[OF pa(2) assms(2)] .
  have "0 \<le> uint v mod 128" by simp
  with pa off show "0 \<le> pa" "pa + sz \<le> MemorySize" by (auto simp: size_defs)
  have "0 \<le> uint v mod 128 + sz - 1" "uint v mod 128 + sz - 1 < 128"
    using off assms(2) \<open>0 \<le> uint v mod 128\<close> by auto
  then have "(uint (physicalPage ?e) * 128 + (uint v mod 128 + sz - 1)) div 128 = uint (physicalPage ?e)"
    by simp
  moreover show d: "pa div 128 = uint (physicalPage ?e)" unfolding pa(1) by simp
  ultimately show "(pa + sz - 1) div 128 = pa div 128" unfolding d by (simp add: pa(1) algebra_simps)
  show "nat (uint v div 128) < length pt" "valid ?e" "aligned v sz" "pa mod 128 = uint v mod 128"
    using assms(1) pa by (auto simp: vm_translate_def Let_def split: if_splits)
qed

lemma Translate_paged:
  assumes "paged m pt" "sz \<in> {1, 2, 4}"
  shows "Translate m v sz writing = (case vm_translate pt v sz writing of
     Inl ex \<Rightarrow> Inr (ex, 0, m)
   | Inr pa \<Rightarrow> Inr (NoException, pa, m\<lparr>pageTable := Some (touch_page writing v pt)\<rparr>))"
proof (cases "aligned v sz \<and> nat (uint v div 128) < length pt")
  case False
  have "v div word_of_int PageSize \<ge> pageTableSize m \<longleftrightarrow> \<not> nat (uint v div 128) < length pt"
    using assms(1) div_int_pos_iff[of "uint v" 128] by (auto simp: word_le_def uint_div_page paged_def nat_less_iff)
  with False assms misaligned_iff[OF assms(2), of v] show ?thesis
    by (auto simp: Translate_def vm_translate_def paged_def Let_def)
next
  case True
  let ?n = "nat (uint v div 128)"
  let ?e = "pt ! ?n"
  have vpn: "\<not> v div word_of_int PageSize \<ge> pageTableSize m"
    using True assms(1) by (auto simp: word_le_def uint_div_page paged_def)
  have idx: "0 \<le> uint v div 128" "uint v div 128 < int (length pt)"
    using True div_int_pos_iff[of "uint v" 128] by (auto simp: nat_less_iff)
  have off: "uint v mod 128 + sz \<le> 128" "0 \<le> uint v mod 128"
    using aligned_in_page[of v sz] True assms(2) by auto
  have "translate_entry m ?e (\<lambda>e. bind_run (set_at pt (uint v div 128) e) (\<lambda>pt'. Inr (m\<lparr>pageTable := Some pt'\<rparr>)))
      (v mod word_of_int PageSize) sz writing =
    (if readOnly ?e \<and> writing then Inr (ReadOnlyException, 0, m)
     else if uint (physicalPage ?e) \<ge> NumPhysPages then Inr (BusErrorException, 0, m)
     else Inr (NoException, uint (physicalPage ?e) * 128 + uint v mod 128,
            m\<lparr>pageTable := Some (touch_page writing v pt)\<rparr>))"
    using idx off frame_address[of "physicalPage ?e" v]
    by (auto simp: translate_entry_def touch_page_def touch_def Let_def size_defs not_le)
  with True vpn idx assms misaligned_iff[OF assms(2), of v] show ?thesis
    by (simp add: Translate_def vm_translate_def paged_def uint_div_page Let_def)
qed

section \<open>Reads and writes through a page table\<close>

definition read_bytes :: "(nat \<Rightarrow> 8 word) \<Rightarrow> nat \<Rightarrow> int \<Rightarrow> 32 word" where
  "read_bytes mem a sz =
     (if sz = 1 then scast (mem a) else if sz = 2 then ucast (load16 mem a) else load32 mem a)"

definition write_bytes :: "(nat \<Rightarrow> 8 word) \<Rightarrow> nat \<Rightarrow> int \<Rightarrow> 32 word \<Rightarrow> nat \<Rightarrow> 8 word" where
  "write_bytes mem a sz v =
     (if sz = 1 then mem(a := ucast v) else if sz = 2 then store16 mem a (ucast v) else store32 mem a v)"

lemma ucast_and_mask [simp]: "ucast ((v :: 32 word) AND 0xff) = (ucast v :: 8 word)"
  "ucast ((v :: 32 word) AND 0xffff) = (ucast v :: 16 word)"
proof -
  have "v AND 0xff = take_bit 8 v" "v AND 0xffff = take_bit 16 v"
    by (simp_all add: take_bit_eq_mask mask_eq_exp_minus_1)
  then show "ucast (v AND 0xff) = (ucast v :: 8 word)" "ucast (v AND 0xffff) = (ucast v :: 16 word)"
    by (auto intro!: bit_word_eqI simp: bit_simps)
qed

lemma ReadMem_paged:
  assumes "paged m pt" "sz \<in> {1, 2, 4}"
  shows "ReadMem m v sz = (case vm_translate pt v sz False of
     Inl ex \<Rightarrow> if ex = NoException
        then Inr (NoException, read_bytes (mainMemory m) 0 sz, m)
        else bind_run (RaiseException m ex v) (\<lambda>m. Inr (ex, 0, m))
   | Inr pa \<Rightarrow> Inr (NoException, read_bytes (mainMemory m) (nat pa) sz,
                  m\<lparr>pageTable := Some (touch_page False v pt)\<rparr>))"
  using assms(2)
  by (auto simp: ReadMem_def Translate_paged[OF assms] read_bytes_def Let_def ShortToHost_def WordToHost_def
      split: sum.split)

lemma WriteMem_paged:
  assumes "paged m pt" "sz \<in> {1, 2, 4}"
  shows "WriteMem m v sz x = (case vm_translate pt v sz True of
     Inl ex \<Rightarrow> if ex = NoException
        then Inr (NoException, m\<lparr>mainMemory := write_bytes (mainMemory m) 0 sz x\<rparr>)
        else bind_run (RaiseException m ex v) (\<lambda>m. Inr (ex, m))
   | Inr pa \<Rightarrow> Inr (NoException, m\<lparr>pageTable := Some (touch_page True v pt),
                  mainMemory := write_bytes (mainMemory m) (nat pa) sz x\<rparr>))"
  using assms(2)
  by (auto simp: WriteMem_def Translate_paged[OF assms] write_bytes_def Let_def ShortToMachine_def
      WordToMachine_def ShortToHost_def WordToHost_def split: sum.split)

lemma vm_translate_not_NoException: "vm_translate pt v sz w \<noteq> Inl NoException"
  by (auto simp: vm_translate_def Let_def)

lemma touch_page_same [simp]:
  "length (touch_page w v pt) = length pt"
  "valid (touch_page w v pt ! n) = valid (pt ! n)"
  "readOnly (touch_page w v pt ! n) = readOnly (pt ! n)"
  "physicalPage (touch_page w v pt ! n) = physicalPage (pt ! n)"
  by (cases "nat (uint v div 128) = n"; cases "n < length pt"; simp add: touch_page_def touch_def list_update_beyond)+

lemma vm_translate_touch [simp]: "vm_translate (touch_page w' v' pt) v sz w = vm_translate pt v sz w"
  by (simp add: vm_translate_def Let_def)

lemma paged_touch: "paged m pt \<Longrightarrow> paged (m\<lparr>pageTable := Some (touch_page w v pt), mainMemory := mem\<rparr>) (touch_page w v pt)"
  by (simp add: paged_def)

lemma write_bytes_other:
  assumes "b < a \<or> int a + sz \<le> int b" "sz \<in> {1, 2, 4}"
  shows "write_bytes mem a sz x b = mem b"
  using assms by (auto simp: write_bytes_def store16_def store32_def)

lemma read_bytes_cong:
  assumes "\<And>b. a \<le> b \<Longrightarrow> int b < int a + sz \<Longrightarrow> mem b = mem' b" "sz \<in> {1, 2, 4}"
  shows "read_bytes mem a sz = read_bytes mem' a sz"
  using assms by (auto simp: read_bytes_def load16_def load32_def)

lemma read_write_bytes:
  "sz \<in> {1, 2, 4} \<Longrightarrow> read_bytes (write_bytes mem a sz x) a sz =
     (if sz = 1 then scast (ucast x :: 8 word) else if sz = 2 then x AND 0xffff else x)"
proof -
  have "ucast (ucast x :: 16 word) = (x AND 0xffff :: 32 word)"
  proof -
    have "x AND 0xffff = take_bit 16 x" by (simp add: take_bit_eq_mask mask_eq_exp_minus_1)
    then show ?thesis by (auto intro!: bit_word_eqI simp: bit_simps)
  qed
  then show "sz \<in> {1, 2, 4} \<Longrightarrow> ?thesis" by (auto simp: read_bytes_def write_bytes_def)
qed

text \<open>A machine with one valid page, used to instantiate the theorems.\<close>

definition one_page :: "int \<Rightarrow> TranslationEntry list" where
  "one_page frame = [\<lparr>virtualPage = 0, physicalPage = word_of_int frame, valid = True, readOnly = False,
                      useBit = False, dirty = False\<rparr>]"

definition one_page_machine :: "int \<Rightarrow> Machine" where
  "one_page_machine frame = (Machine_new False 1)\<lparr>pageTable := Some (one_page frame)\<rparr>"

lemma paged_one_page: "paged (one_page_machine f) (one_page f)"
  by (simp add: paged_def one_page_machine_def one_page_def Machine_new_def)

text \<open>
  What a user program stores it loads back.  After a successful store of 1, 2 or 4 bytes through
  the page table, a load of the same width at the same virtual address succeeds and gives the stored
  value: all 32 bits, the low 16 bits zero-extended, or the low 8 bits sign-extended.
\<close>

theorem WriteMem_ReadMem:
  assumes "paged m pt" "sz \<in> {1, 2, 4}" "WriteMem m v sz x = Inr (NoException, m')"
  shows "\<exists>m''. ReadMem m' v sz =
     Inr (NoException, if sz = 1 then scast (ucast x :: 8 word) else if sz = 2 then x AND 0xffff else x, m'') \<and>
     mainMemory m'' = mainMemory m'"
proof (cases "vm_translate pt v sz True")
  case (Inl ex)
  with assms(3) vm_translate_not_NoException[of pt v sz True] show ?thesis
    by (auto simp: WriteMem_paged[OF assms(1,2)] run_simps)
next
  case (Inr pa)
  have rd: "vm_translate pt v sz False = Inr pa"
    using Inr by (auto simp: vm_translate_def Let_def split: if_splits)
  have m': "m' = m\<lparr>pageTable := Some (touch_page True v pt), mainMemory := write_bytes (mainMemory m) (nat pa) sz x\<rparr>"
    using assms(3) Inr by (simp add: WriteMem_paged[OF assms(1,2)])
  have "paged m' (touch_page True v pt)" unfolding m' by (rule paged_touch[OF assms(1)])
  from ReadMem_paged[OF this assms(2), of v] rd read_write_bytes[OF assms(2)] show ?thesis
    by (simp add: m')
qed

lemma RaiseException_memory: "RaiseException m ex v = Inr m' \<Longrightarrow> mainMemory m' = mainMemory m"
  by (auto simp: RaiseException_def DelayedLoad_def Let_def split: if_splits)

text \<open>The frames that a page table makes accessible.\<close>

definition frames :: "TranslationEntry list \<Rightarrow> int set" where
  "frames pt = {uint (physicalPage e) | e. e \<in> set pt \<and> valid e}"

lemma vm_translate_frame:
  assumes "vm_translate pt v sz w = Inr pa" "sz \<in> {1, 2, 4}" "pa \<le> b" "b < pa + sz"
  shows "b div 128 \<in> frames pt"
proof -
  note r = vm_translate_range[OF assms(1,2)]
  have "b div 128 = pa div 128"
    using assms(3,4) r(4) zdiv_mono1[of pa b 128] zdiv_mono1[of b "pa + sz - 1" 128] by simp
  then show ?thesis using r(3,5,6) by (auto simp: frames_def intro!: exI[of _ "pt ! nat (uint v div 128)"])
qed

text \<open>
  C21: address spaces are isolated.  If two page tables have no frame in common, a store through the
  first, whether it succeeds or traps, does not change the outcome of any load through the second:
  neither the exception nor the value read.
\<close>

theorem WriteMem_isolated:
  assumes "paged m pt" "sz \<in> {1, 2, 4}" "WriteMem m v sz x = Inr (ex, m')"
    and "paged m2 pt2" "mainMemory m2 = mainMemory m" "sz2 \<in> {1, 2, 4}" "frames pt \<inter> frames pt2 = {}"
  shows "ReadMem (m2\<lparr>mainMemory := mainMemory m'\<rparr>) v2 sz2 =
     bind_run (ReadMem m2 v2 sz2) (\<lambda>(e, val, m3). Inr (e, val, m3\<lparr>mainMemory := mainMemory m'\<rparr>))"
proof (cases "vm_translate pt v sz True")
  case (Inl e)
  then have "mainMemory m' = mainMemory m2"
    using assms(3,5) vm_translate_not_NoException[of pt v sz True] RaiseException_memory[of m e v]
    by (auto simp: WriteMem_paged[OF assms(1,2)] run_simps)
  moreover have "mainMemory m3 = mainMemory m2" if "ReadMem m2 v2 sz2 = Inr (e, val, m3)" for e val m3
    using that RaiseException_memory[of m2]
    by (auto simp: ReadMem_paged[OF assms(4,6)] run_simps split: sum.splits if_splits)
  ultimately show ?thesis by (cases "ReadMem m2 v2 sz2") (auto simp: Machine.surjective)
next
  case (Inr pa)
  have mem: "mainMemory m' = write_bytes (mainMemory m2) (nat pa) sz x"
    using assms(3,5) Inr by (auto simp: WriteMem_paged[OF assms(1,2)])
  have p2: "paged (m2\<lparr>mainMemory := mainMemory m'\<rparr>) pt2" using assms(4) by (simp add: paged_def)
  show ?thesis
  proof (cases "vm_translate pt2 v2 sz2 False")
    case (Inl e)
    have "RaiseException (m2\<lparr>mainMemory := mainMemory m'\<rparr>) e v2 =
        bind_run (RaiseException m2 e v2) (\<lambda>m3. Inr (m3\<lparr>mainMemory := mainMemory m'\<rparr>))"
      by (auto simp: RaiseException_def DelayedLoad_def Let_def)
    with Inl vm_translate_not_NoException[of pt2 v2 sz2 False] show ?thesis
      by (auto simp: ReadMem_paged[OF assms(4,6)] ReadMem_paged[OF p2 assms(6)] bind_run_assoc)
  next
    case inr2: (Inr pb)
    have "mainMemory m' b = mainMemory m2 b" if "nat pb \<le> b" "int b < int (nat pb) + sz2" for b
    proof -
      have "int b div 128 \<in> frames pt2"
        using vm_translate_frame[OF inr2 assms(6), of "int b"] vm_translate_range(1)[OF inr2 assms(6)] that by auto
      then have "int b div 128 \<notin> frames pt" using assms(7) by auto
      then have "\<not> (pa \<le> int b \<and> int b < pa + sz)" using vm_translate_frame[OF Inr assms(2)] by auto
      then show ?thesis
        unfolding mem using vm_translate_range(1)[OF Inr assms(2)] by (intro write_bytes_other[OF _ assms(2)]) auto
    qed
    then have "read_bytes (mainMemory m') (nat pb) sz2 = read_bytes (mainMemory m2) (nat pb) sz2"
      by (rule read_bytes_cong[OF _ assms(6)])
    with inr2 show ?thesis by (simp add: ReadMem_paged[OF assms(4,6)] ReadMem_paged[OF p2 assms(6)])
  qed
qed

theorem WriteMem_isolated_witness:
  "\<exists>m'. WriteMem (one_page_machine 5) 8 4 0x01020304 = Inr (NoException, m') \<and>
     ReadMem ((one_page_machine 6)\<lparr>mainMemory := mainMemory m'\<rparr>) 8 4 =
       bind_run (ReadMem (one_page_machine 6) 8 4) (\<lambda>(e, val, m3). Inr (e, val, m3\<lparr>mainMemory := mainMemory m'\<rparr>))"
proof -
  have "vm_translate (one_page 5) 8 4 True = Inr 648"
    by (simp add: vm_translate_def one_page_def aligned_def NumPhysPages_def)
  then obtain m' where m': "WriteMem (one_page_machine 5) 8 4 0x01020304 = Inr (NoException, m')"
    by (simp add: WriteMem_paged[OF paged_one_page])
  have mem: "mainMemory (one_page_machine 6) = mainMemory (one_page_machine 5)"
    by (simp add: one_page_machine_def Machine_new_def)
  have "frames (one_page 5) \<inter> frames (one_page 6) = {}"
    by (auto simp: frames_def one_page_def)
  from WriteMem_isolated[OF paged_one_page _ m' paged_one_page mem _ this, of 4 8] m' show ?thesis by simp
qed

text \<open>
  C22: \<open>Translate\<close> with a linear page table.  For every access of 1, 2 or 4 bytes no assertion fails;
  the access is refused exactly as the page table says, with the exception of the first failing check
  and no effect; otherwise the physical address is the frame's base plus the page offset, the whole
  access lies in physical memory and inside that frame, and only the use and dirty bits of the entry
  have changed.
\<close>

theorem Translate_correct:
  assumes "paged m pt" "sz \<in> {1, 2, 4}"
  shows "case vm_translate pt v sz writing of
       Inl ex \<Rightarrow> Translate m v sz writing = Inr (ex, 0, m) \<and> ex \<noteq> NoException
     | Inr pa \<Rightarrow> Translate m v sz writing =
           Inr (NoException, pa, m\<lparr>pageTable := Some (touch_page writing v pt)\<rparr>) \<and>
         0 \<le> pa \<and> pa + sz \<le> MemorySize \<and> pa div PageSize \<in> frames pt \<and>
         (pa + sz - 1) div PageSize = pa div PageSize \<and> pa mod PageSize = uint v mod PageSize"
proof (cases "vm_translate pt v sz writing")
  case (Inl ex)
  then show ?thesis
    using Translate_paged[OF assms, of v writing] vm_translate_not_NoException[of pt v sz writing] by auto
next
  case (Inr pa)
  note r = vm_translate_range[OF Inr assms(2)]
  have "pa div 128 \<in> frames pt" using vm_translate_frame[OF Inr assms(2), of pa] assms(2) by auto
  with Inr r Translate_paged[OF assms, of v writing] show ?thesis by (simp add: PageSize_def)
qed

theorem Translate_correct_witness:
  "Translate (one_page_machine 5) 10 1 True =
     Inr (NoException, 650, (one_page_machine 5)\<lparr>pageTable := Some (touch_page True 10 (one_page 5))\<rparr>)"
  using Translate_correct[OF paged_one_page[of 5], of 1 10 True]
  by (simp add: vm_translate_def one_page_def aligned_def NumPhysPages_def)

section \<open>The TLB\<close>

text \<open>A TLB that caches entries of the page table \<open>pt\<close>.\<close>

definition tlb_caches :: "TranslationEntry list \<Rightarrow> TranslationEntry list \<Rightarrow> bool" where
  "tlb_caches t pt \<longleftrightarrow> int (length t) = TLBSize \<and>
     (\<forall>e \<in> set t. valid e \<longrightarrow> nat (uint (virtualPage e)) < length pt \<and>
        (let p = pt ! nat (uint (virtualPage e)) in
         valid p \<and> physicalPage p = physicalPage e \<and> readOnly p = readOnly e))"

lemma tlb_search_ok:
  assumes "set is \<subseteq> {0..<int (length t)}"
  shows "(\<exists>i e. tlb_search t vpn is = Inr (Some (i, e)) \<and> i \<in> set is \<and> e = t ! nat i \<and> valid e \<and> virtualPage e = vpn) \<or>
     tlb_search t vpn is = Inr None \<and> (\<forall>i \<in> set is. \<not> (valid (t ! nat i) \<and> virtualPage (t ! nat i) = vpn))"
  using assms by (induction "is") auto

text \<open>
  With a TLB whose valid entries agree with a page table, \<open>Translate\<close> never aborts and never
  disagrees with that page table: a granted access gets the page table's physical address, a refused
  one the page table's exception or, on a miss, a page fault, and a miss happens only if no valid
  entry for the page is cached.
\<close>

theorem TLB_agrees_with_page_table:
  assumes "tlb m = Some t" "pageTable m = None" "tlb_caches t pt" "sz \<in> {1, 2, 4}"
  shows "\<exists>ex pa m'. Translate m v sz writing = Inr (ex, pa, m') \<and>
     (if ex = NoException then vm_translate pt v sz writing = Inr pa
      else vm_translate pt v sz writing = Inl ex \<or>
           ex = PageFaultException \<and> (\<forall>e \<in> set t. valid e \<longrightarrow> uint (virtualPage e) \<noteq> uint v div 128))"
proof (cases "aligned v sz")
  case False
  then show ?thesis
    using misaligned_iff[OF assms(4), of v] by (auto simp: Translate_def vm_translate_def Let_def)
next
  case True
  let ?vpn = "v div word_of_int PageSize"
  have len: "length t = 4" using assms(3) by (simp add: tlb_caches_def TLBSize_def)
  have idx: "set (count_to TLBSize) \<subseteq> {0..<int (length t)}" using len by (simp add: TLBSize_def)
  note srch = tlb_search_ok[OF idx, of ?vpn]
  show ?thesis
  proof (cases "tlb_search t ?vpn (count_to TLBSize) = Inr None")
    case miss: True
    then have "\<forall>i \<in> set (count_to TLBSize). \<not> (valid (t ! nat i) \<and> virtualPage (t ! nat i) = ?vpn)"
      using srch by auto
    then have "\<not> (valid (t ! n) \<and> virtualPage (t ! n) = ?vpn)" if "n < 4" for n
      using that by (auto simp: TLBSize_def dest!: bspec[of _ _ "int n"])
    then have "\<forall>e \<in> set t. valid e \<longrightarrow> uint (virtualPage e) \<noteq> uint v div 128"
      using len by (auto simp: in_set_conv_nth uint_div_page[symmetric] word_uint_eq_iff)
    with miss True misaligned_iff[OF assms(4), of v] assms(1,2) show ?thesis
      by (auto simp: Translate_def Let_def)
  next
    case False
    then obtain i e where hit: "tlb_search t ?vpn (count_to TLBSize) = Inr (Some (i, e))"
      "0 \<le> i" "i < int (length t)" "e = t ! nat i" "valid e" "virtualPage e = ?vpn"
      using srch idx by auto
    then have "e \<in> set t" by auto
    moreover have "unat (virtualPage e) = nat (uint v div 128)"
      by (simp add: hit(6) uint_div_page[symmetric])
    ultimately have p: "nat (uint v div 128) < length pt" "valid (pt ! nat (uint v div 128))"
      "physicalPage (pt ! nat (uint v div 128)) = physicalPage e" "readOnly (pt ! nat (uint v div 128)) = readOnly e"
      using assms(3) hit(5) by (auto simp: tlb_caches_def Let_def)
    have off: "uint v mod 128 + sz \<le> 128" "0 \<le> uint v mod 128"
      using aligned_in_page[OF True assms(4)] by auto
    have "Translate m v sz writing = translate_entry m e
        (\<lambda>e. bind_run (set_at t i e) (\<lambda>t'. Inr (m\<lparr>tlb := Some t'\<rparr>))) (v mod word_of_int PageSize) sz writing"
      using True misaligned_iff[OF assms(4), of v] assms(1,2) hit(1) by (auto simp: Translate_def Let_def)
    then show ?thesis
      using p hit(2,3) True off frame_address[of "physicalPage e" v]
      by (auto simp: translate_entry_def vm_translate_def Let_def size_defs not_le)
  qed
qed

end
