(* ===== verification/Mips.thy ===== *)
theory Mips
  imports MachineMem "HOL-Library.Signed_Division"
begin

text \<open>
  The processor of the simulated machine (\<^verbatim>\<open>machine/mipssim.h\<close>, \<^verbatim>\<open>machine/mipssim.cc\<close>): decoding,
  the execution of one instruction and the multiplication routine.

  The big \<open>switch\<close> of \<open>OneInstruction\<close> is one definition per group of cases; a group returns \<open>None\<close>
  for an opcode that is not among its cases, and \<open>execute\<close> tries the groups in the order of the
  source, with the failing assertion of \<open>default\<close> at the end.  The build defines \<open>SIM_FIX\<close>, so the
  aligned variants of the unaligned accesses are the code modelled.  Signed additions, subtractions
  and left shifts wrap, as compiled.  A signed division whose quotient overflows traps in the host.
\<close>

unbundle bit_operations_syntax

section \<open>Instructions\<close>

datatype (plugins only: size) opcode = OP_ADD | OP_ADDI | OP_ADDIU | OP_ADDU | OP_AND | OP_ANDI | OP_BEQ | OP_BGEZ | OP_BGEZAL
  | OP_BGTZ | OP_BLEZ | OP_BLTZ | OP_BLTZAL | OP_BNE | OP_DIV | OP_DIVU | OP_J | OP_JAL | OP_JALR | OP_JR
  | OP_LB | OP_LBU | OP_LH | OP_LHU | OP_LUI | OP_LW | OP_LWL | OP_LWR | OP_MFHI | OP_MFLO | OP_MTHI
  | OP_MTLO | OP_MULT | OP_MULTU | OP_NOR | OP_OR | OP_ORI | OP_RFE | OP_SB | OP_SH | OP_SLL | OP_SLLV
  | OP_SLT | OP_SLTI | OP_SLTIU | OP_SLTU | OP_SRA | OP_SRAV | OP_SRL | OP_SRLV | OP_SUB | OP_SUBU
  | OP_SW | OP_SWL | OP_SWR | OP_XOR | OP_XORI | OP_SYSCALL | OP_UNIMP | OP_RES | SPECIAL | BCOND

datatype opformat = IFMT | JFMT | RFMT

record Instruction =
  ivalue :: "32 word"
  opCode :: opcode
  rs :: nat
  rt :: nat
  rd :: nat
  extra :: "32 word"

definition IndexToAddr :: "32 word \<Rightarrow> 32 word" where
  "IndexToAddr x = push_bit 2 x"

definition SIGN_BIT :: "32 word" where
  "SIGN_BIT = 0x80000000"

definition opTable :: "(opcode \<times> opformat) list" where
  "opTable =
    [(SPECIAL, RFMT), (BCOND, IFMT), (OP_J, JFMT), (OP_JAL, JFMT),
     (OP_BEQ, IFMT), (OP_BNE, IFMT), (OP_BLEZ, IFMT), (OP_BGTZ, IFMT),
     (OP_ADDI, IFMT), (OP_ADDIU, IFMT), (OP_SLTI, IFMT), (OP_SLTIU, IFMT),
     (OP_ANDI, IFMT), (OP_ORI, IFMT), (OP_XORI, IFMT), (OP_LUI, IFMT),
     (OP_UNIMP, IFMT), (OP_UNIMP, IFMT), (OP_UNIMP, IFMT), (OP_UNIMP, IFMT),
     (OP_RES, IFMT), (OP_RES, IFMT), (OP_RES, IFMT), (OP_RES, IFMT),
     (OP_RES, IFMT), (OP_RES, IFMT), (OP_RES, IFMT), (OP_RES, IFMT),
     (OP_RES, IFMT), (OP_RES, IFMT), (OP_RES, IFMT), (OP_RES, IFMT),
     (OP_LB, IFMT), (OP_LH, IFMT), (OP_LWL, IFMT), (OP_LW, IFMT),
     (OP_LBU, IFMT), (OP_LHU, IFMT), (OP_LWR, IFMT), (OP_RES, IFMT),
     (OP_SB, IFMT), (OP_SH, IFMT), (OP_SWL, IFMT), (OP_SW, IFMT),
     (OP_RES, IFMT), (OP_RES, IFMT), (OP_SWR, IFMT), (OP_RES, IFMT),
     (OP_UNIMP, IFMT), (OP_UNIMP, IFMT), (OP_UNIMP, IFMT), (OP_UNIMP, IFMT),
     (OP_RES, IFMT), (OP_RES, IFMT), (OP_RES, IFMT), (OP_RES, IFMT),
     (OP_UNIMP, IFMT), (OP_UNIMP, IFMT), (OP_UNIMP, IFMT), (OP_UNIMP, IFMT),
     (OP_RES, IFMT), (OP_RES, IFMT), (OP_RES, IFMT), (OP_RES, IFMT)]"

definition specialTable :: "opcode list" where
  "specialTable =
    [OP_SLL, OP_RES, OP_SRL, OP_SRA, OP_SLLV, OP_RES, OP_SRLV, OP_SRAV,
     OP_JR, OP_JALR, OP_RES, OP_RES, OP_SYSCALL, OP_UNIMP, OP_RES, OP_RES,
     OP_MFHI, OP_MTHI, OP_MFLO, OP_MTLO, OP_RES, OP_RES, OP_RES, OP_RES,
     OP_MULT, OP_MULTU, OP_DIV, OP_DIVU, OP_RES, OP_RES, OP_RES, OP_RES,
     OP_ADD, OP_ADDU, OP_SUB, OP_SUBU, OP_AND, OP_OR, OP_XOR, OP_NOR,
     OP_RES, OP_RES, OP_SLT, OP_SLTU, OP_RES, OP_RES, OP_RES, OP_RES,
     OP_RES, OP_RES, OP_RES, OP_RES, OP_RES, OP_RES, OP_RES, OP_RES,
     OP_RES, OP_RES, OP_RES, OP_RES, OP_RES, OP_RES, OP_RES, OP_RES]"

definition Decode :: "32 word \<Rightarrow> Instruction run" where
  "Decode v =
     bind_run (get_at opTable (uint (drop_bit 26 v AND 0x3f))) (\<lambda>(op, format).
     let extra = (if format = IFMT then
                    (let e = v AND 0xffff in if e AND 0x8000 \<noteq> 0 then e OR 0xffff0000 else e)
                  else if format = RFMT then drop_bit 6 v AND 0x1f
                  else v AND 0x3ffffff);
         build = (\<lambda>op. \<lparr>ivalue = v, opCode = op, rs = unat (drop_bit 21 v AND 0x1f),
                        rt = unat (drop_bit 16 v AND 0x1f), rd = unat (drop_bit 11 v AND 0x1f),
                        extra = extra\<rparr>) in
     if op = SPECIAL then bind_run (get_at specialTable (uint (v AND 0x3f))) (\<lambda>op. Inr (build op))
     else if op = BCOND then
       let i = v AND 0x1f0000 in
       Inr (build (if i = 0 then OP_BLTZ
                   else if i = 0x10000 then OP_BGEZ
                   else if i = 0x100000 then OP_BLTZAL
                   else if i = 0x110000 then OP_BGEZAL
                   else OP_UNIMP))
     else Inr (build op))"

section \<open>Multiplication\<close>

text \<open>
  The loop of \<open>Mult\<close>, with \<open>n\<close> iterations left; \<open>a\<close> is signed, so its shift is arithmetic.
\<close>

fun mult_loop :: "nat \<Rightarrow> 32 word \<Rightarrow> 32 word \<Rightarrow> 32 word \<Rightarrow> 32 word \<Rightarrow> 32 word \<Rightarrow> 32 word \<times> 32 word" where
  "mult_loop 0 a bLo bHi lo hi = (hi, lo)"
| "mult_loop (Suc n) a bLo bHi lo hi =
     (let odd = a AND 1 \<noteq> 0;
          lo' = (if odd then lo + bLo else lo);
          hi' = (if odd then (if lo' < bLo then hi + 1 else hi) + bHi else hi) in
      if odd \<and> a AND 0xfffffffe = 0 then (hi', lo')
      else mult_loop n (signed_drop_bit 1 a) (push_bit 1 bLo)
             (if bLo AND 0x80000000 \<noteq> 0 then push_bit 1 bHi OR 1 else push_bit 1 bHi) lo' hi')"

definition Mult :: "32 word \<Rightarrow> 32 word \<Rightarrow> bool \<Rightarrow> 32 word \<times> 32 word" where
  "Mult a b signedArith =
     (if a = 0 \<or> b = 0 then (0, 0)
      else
        let negA = signedArith \<and> sint a < 0; negB = signedArith \<and> sint b < 0;
            a' = (if negA then - a else a); b' = (if negB then - b else b);
            (hi, lo) = mult_loop 32 a' b' 0 0 0 in
        if negA \<noteq> negB then
          let hi' = NOT hi; lo' = NOT lo + 1 in (if lo' = 0 then hi' + 1 else hi', lo')
        else (hi, lo))"

section \<open>Execution\<close>

text \<open>
  How a case of the switch ends: \<open>Break\<close> with the machine, \<open>pcAfter\<close>, \<open>nextLoadReg\<close> and
  \<open>nextLoadValue\<close>, or \<open>Return\<close> after an exception was raised.
\<close>

datatype outcome = Break Machine "32 word" nat "32 word" | Return ExceptionType Machine

definition reg :: "Machine \<Rightarrow> nat \<Rightarrow> 32 word" where
  "reg m i = registers m i"

definition set_reg :: "Machine \<Rightarrow> nat \<Rightarrow> 32 word \<Rightarrow> Machine" where
  "set_reg m i v = m\<lparr>registers := (registers m)(i := v)\<rparr>"

definition raise :: "Machine \<Rightarrow> ExceptionType \<Rightarrow> 32 word \<Rightarrow> outcome run" where
  "raise m which bad = bind_run (RaiseException m which bad) (\<lambda>m. Inr (Return which m))"

text \<open>A read or write that continues with \<open>k\<close> when it succeeds and returns when it trapped.\<close>

definition reading :: "Machine \<Rightarrow> 32 word \<Rightarrow> int \<Rightarrow> (32 word \<Rightarrow> Machine \<Rightarrow> outcome run) \<Rightarrow> outcome run" where
  "reading m addr sz k =
     bind_run (ReadMem m addr sz) (\<lambda>(ex, v, m). if ex = NoException then k v m else Inr (Return ex m))"

definition writing :: "Machine \<Rightarrow> 32 word \<Rightarrow> int \<Rightarrow> 32 word \<Rightarrow> (Machine \<Rightarrow> outcome run) \<Rightarrow> outcome run" where
  "writing m addr sz v k =
     bind_run (WriteMem m addr sz v) (\<lambda>(ex, m). if ex = NoException then k m else Inr (Return ex m))"

type_synonym exec = "Machine \<Rightarrow> Instruction \<Rightarrow> 32 word \<Rightarrow> outcome run option"

definition exec_add :: exec where
  "exec_add m i pc =
     (case opCode i of
        OP_ADD \<Rightarrow> Some (let sum = reg m (rs i) + reg m (rt i) in
          if (reg m (rs i) XOR reg m (rt i)) AND SIGN_BIT = 0 \<and> (reg m (rs i) XOR sum) AND SIGN_BIT \<noteq> 0
          then raise m OverflowException 0
          else Inr (Break (set_reg m (rd i) sum) pc 0 0))
      | OP_ADDI \<Rightarrow> Some (let sum = reg m (rs i) + extra i in
          if (reg m (rs i) XOR extra i) AND SIGN_BIT = 0 \<and> (extra i XOR sum) AND SIGN_BIT \<noteq> 0
          then raise m OverflowException 0
          else Inr (Break (set_reg m (rt i) sum) pc 0 0))
      | OP_ADDIU \<Rightarrow> Some (Inr (Break (set_reg m (rt i) (reg m (rs i) + extra i)) pc 0 0))
      | OP_ADDU \<Rightarrow> Some (Inr (Break (set_reg m (rd i) (reg m (rs i) + reg m (rt i))) pc 0 0))
      | OP_AND \<Rightarrow> Some (Inr (Break (set_reg m (rd i) (reg m (rs i) AND reg m (rt i))) pc 0 0))
      | OP_ANDI \<Rightarrow> Some (Inr (Break (set_reg m (rt i) (reg m (rs i) AND (extra i AND 0xffff))) pc 0 0))
      | _ \<Rightarrow> None)"

text \<open>The branches; the cases that link fall through to the test of the plain branch.\<close>

definition branch_if :: "Machine \<Rightarrow> Instruction \<Rightarrow> 32 word \<Rightarrow> bool \<Rightarrow> outcome run" where
  "branch_if m i pc c =
     Inr (Break m (if c then reg m NextPCReg + IndexToAddr (extra i) else pc) 0 0)"

definition exec_branch :: exec where
  "exec_branch m i pc =
     (let link = set_reg m RetAddrReg (reg m NextPCReg + 4) in
      case opCode i of
        OP_BEQ \<Rightarrow> Some (branch_if m i pc (reg m (rs i) = reg m (rt i)))
      | OP_BGEZAL \<Rightarrow> Some (branch_if link i pc (reg link (rs i) AND SIGN_BIT = 0))
      | OP_BGEZ \<Rightarrow> Some (branch_if m i pc (reg m (rs i) AND SIGN_BIT = 0))
      | OP_BGTZ \<Rightarrow> Some (branch_if m i pc (sint (reg m (rs i)) > 0))
      | OP_BLEZ \<Rightarrow> Some (branch_if m i pc (sint (reg m (rs i)) \<le> 0))
      | OP_BLTZAL \<Rightarrow> Some (branch_if link i pc (reg link (rs i) AND SIGN_BIT \<noteq> 0))
      | OP_BLTZ \<Rightarrow> Some (branch_if m i pc (reg m (rs i) AND SIGN_BIT \<noteq> 0))
      | OP_BNE \<Rightarrow> Some (branch_if m i pc (reg m (rs i) \<noteq> reg m (rt i)))
      | _ \<Rightarrow> None)"

definition exec_div :: exec where
  "exec_div m i pc =
     (case opCode i of
        OP_DIV \<Rightarrow> Some (
          let a = reg m (rs i); b = reg m (rt i) in
          if b = 0 then Inr (Break (set_reg (set_reg m LoReg 0) HiReg 0) pc 0 0)
          else if a = SIGN_BIT \<and> b = - 1 then Inl ArithTrap
          else Inr (Break (set_reg (set_reg m LoReg (word_of_int (sint a sdiv sint b)))
                             HiReg (word_of_int (sint a smod sint b))) pc 0 0))
      | OP_DIVU \<Rightarrow> Some (
          let a = reg m (rs i); b = reg m (rt i) in
          if b = 0 then Inr (Break (set_reg (set_reg m LoReg 0) HiReg 0) pc 0 0)
          else Inr (Break (set_reg (set_reg m LoReg (a div b)) HiReg (a mod b)) pc 0 0))
      | _ \<Rightarrow> None)"

definition exec_jump :: exec where
  "exec_jump m i pc =
     (let target = (pc AND 0xf0000000) OR IndexToAddr (extra i) in
      case opCode i of
        OP_JAL \<Rightarrow> Some (Inr (Break (set_reg m RetAddrReg (reg m NextPCReg + 4)) target 0 0))
      | OP_J \<Rightarrow> Some (Inr (Break m target 0 0))
      | OP_JALR \<Rightarrow> Some (let m = set_reg m (rd i) (reg m NextPCReg + 4) in
                          Inr (Break m (reg m (rs i)) 0 0))
      | OP_JR \<Rightarrow> Some (Inr (Break m (reg m (rs i)) 0 0))
      | _ \<Rightarrow> None)"

definition exec_load :: exec where
  "exec_load m i pc =
     (let tmp = reg m (rs i) + extra i;
          byte = reading m tmp 1 (\<lambda>v m. Inr (Break m pc (rt i)
            (if v AND 0x80 \<noteq> 0 \<and> opCode i = OP_LB then v OR 0xffffff00 else v AND 0xff)));
          half = (if tmp AND 1 \<noteq> 0 then raise m AddressErrorException tmp
            else reading m tmp 2 (\<lambda>v m. Inr (Break m pc (rt i)
              (if v AND 0x8000 \<noteq> 0 \<and> opCode i = OP_LH then v OR 0xffff0000 else v AND 0xffff)))) in
      case opCode i of
        OP_LB \<Rightarrow> Some byte
      | OP_LBU \<Rightarrow> Some byte
      | OP_LH \<Rightarrow> Some half
      | OP_LHU \<Rightarrow> Some half
      | OP_LUI \<Rightarrow> Some (Inr (Break (set_reg m (rt i) (push_bit 16 (extra i))) pc 0 0))
      | OP_LW \<Rightarrow> Some (if tmp AND 3 \<noteq> 0 then raise m AddressErrorException tmp
          else reading m tmp 4 (\<lambda>v m. Inr (Break m pc (rt i) v)))
      | _ \<Rightarrow> None)"

text \<open>
  \<open>pending_value m r\<close> is the value an unaligned load merges into: the value of the delayed load
  still in flight for the register, or the register.
\<close>

definition pending_value :: "Machine \<Rightarrow> nat \<Rightarrow> 32 word" where
  "pending_value m r = (if reg m LoadReg = word_of_nat r then reg m LoadValueReg else reg m r)"

definition lwl_merge :: "int \<Rightarrow> 32 word \<Rightarrow> 32 word \<Rightarrow> 32 word" where
  "lwl_merge byte old v =
     (if 3 - byte = 0 then v
      else if 3 - byte = 1 then (old AND 0xff) OR push_bit 8 v
      else if 3 - byte = 2 then (old AND 0xffff) OR push_bit 16 v
      else if 3 - byte = 3 then (old AND 0xffffff) OR push_bit 24 v
      else old)"

definition exec_lwl :: exec where
  "exec_lwl m i pc =
     (case opCode i of
        OP_LWL \<Rightarrow> Some (let tmp = reg m (rs i) + extra i; byte = tmp AND 3 in
          reading m (tmp - byte) 4 (\<lambda>v m.
            Inr (Break m pc (rt i) (lwl_merge (uint byte) (pending_value m (rt i)) v))))
      | _ \<Rightarrow> None)"

definition lwr_merge :: "int \<Rightarrow> 32 word \<Rightarrow> 32 word \<Rightarrow> 32 word" where
  "lwr_merge byte old v =
     (if 3 - byte = 0 then (old AND 0xffffff00) OR (signed_drop_bit 24 v AND 0xff)
      else if 3 - byte = 1 then (old AND 0xffff0000) OR (signed_drop_bit 16 v AND 0xffff)
      else if 3 - byte = 2 then (old AND 0xff000000) OR (signed_drop_bit 8 v AND 0xffffff)
      else if 3 - byte = 3 then v
      else old)"

definition exec_lwr :: exec where
  "exec_lwr m i pc =
     (case opCode i of
        OP_LWR \<Rightarrow> Some (let tmp = reg m (rs i) + extra i; byte = tmp AND 3 in
          reading m (tmp - byte) 4 (\<lambda>v m.
            Inr (Break m pc (rt i) (lwr_merge (uint byte) (pending_value m (rt i)) v))))
      | _ \<Rightarrow> None)"

definition exec_hilo :: exec where
  "exec_hilo m i pc =
     (let mult = (\<lambda>s. let (hi, lo) = Mult (reg m (rs i)) (reg m (rt i)) s in
                      Inr (Break (set_reg (set_reg m HiReg hi) LoReg lo) pc 0 0)) in
      case opCode i of
        OP_MFHI \<Rightarrow> Some (Inr (Break (set_reg m (rd i) (reg m HiReg)) pc 0 0))
      | OP_MFLO \<Rightarrow> Some (Inr (Break (set_reg m (rd i) (reg m LoReg)) pc 0 0))
      | OP_MTHI \<Rightarrow> Some (Inr (Break (set_reg m HiReg (reg m (rs i))) pc 0 0))
      | OP_MTLO \<Rightarrow> Some (Inr (Break (set_reg m LoReg (reg m (rs i))) pc 0 0))
      | OP_MULT \<Rightarrow> Some (mult True)
      | OP_MULTU \<Rightarrow> Some (mult False)
      | OP_NOR \<Rightarrow> Some (Inr (Break (set_reg m (rd i) (NOT (reg m (rs i) OR reg m (rt i)))) pc 0 0))
      | OP_OR \<Rightarrow> Some (Inr (Break (set_reg m (rd i) (reg m (rs i) OR reg m (rt i))) pc 0 0))
      | OP_ORI \<Rightarrow> Some (Inr (Break (set_reg m (rt i) (reg m (rs i) OR (extra i AND 0xffff))) pc 0 0))
      | _ \<Rightarrow> None)"

definition exec_store :: exec where
  "exec_store m i pc =
     (let addr = reg m (rs i) + extra i; put = (\<lambda>sz. writing m addr sz (reg m (rt i)) (\<lambda>m. Inr (Break m pc 0 0))) in
      case opCode i of
        OP_SB \<Rightarrow> Some (put 1)
      | OP_SH \<Rightarrow> Some (put 2)
      | OP_SW \<Rightarrow> Some (put 4)
      | _ \<Rightarrow> None)"

text \<open>In \<open>OP_SRL\<close> and \<open>OP_SRLV\<close> the shifted variable \<open>tmp\<close> is a signed \<open>int\<close>.\<close>

definition exec_shift :: exec where
  "exec_shift m i pc =
     (let amount = unat (reg m (rs i) AND 0x1f); shamt = unat (extra i); v = reg m (rt i);
          put = (\<lambda>v. Some (Inr (Break (set_reg m (rd i) v) pc 0 0))) in
      case opCode i of
        OP_SLL \<Rightarrow> put (push_bit shamt v)
      | OP_SLLV \<Rightarrow> put (push_bit amount v)
      | OP_SRA \<Rightarrow> put (signed_drop_bit shamt v)
      | OP_SRAV \<Rightarrow> put (signed_drop_bit amount v)
      | OP_SRL \<Rightarrow> (let tmp = signed_drop_bit shamt v in put tmp)
      | OP_SRLV \<Rightarrow> (let tmp = signed_drop_bit amount v in put tmp)
      | _ \<Rightarrow> None)"

definition exec_compare :: exec where
  "exec_compare m i pc =
     (let put = (\<lambda>r c. Some (Inr (Break (set_reg m r (if c then 1 else 0)) pc 0 0))) in
      case opCode i of
        OP_SLT \<Rightarrow> put (rd i) (sint (reg m (rs i)) < sint (reg m (rt i)))
      | OP_SLTI \<Rightarrow> put (rt i) (sint (reg m (rs i)) < sint (extra i))
      | OP_SLTIU \<Rightarrow> put (rt i) (reg m (rs i) < extra i)
      | OP_SLTU \<Rightarrow> put (rd i) (reg m (rs i) < reg m (rt i))
      | _ \<Rightarrow> None)"

definition exec_sub :: exec where
  "exec_sub m i pc =
     (case opCode i of
        OP_SUB \<Rightarrow> Some (let diff = reg m (rs i) - reg m (rt i) in
          if (reg m (rs i) XOR reg m (rt i)) AND SIGN_BIT \<noteq> 0 \<and> (reg m (rs i) XOR diff) AND SIGN_BIT \<noteq> 0
          then raise m OverflowException 0
          else Inr (Break (set_reg m (rd i) diff) pc 0 0))
      | OP_SUBU \<Rightarrow> Some (Inr (Break (set_reg m (rd i) (reg m (rs i) - reg m (rt i))) pc 0 0))
      | _ \<Rightarrow> None)"

definition swl_merge :: "int \<Rightarrow> 32 word \<Rightarrow> 32 word \<Rightarrow> 32 word" where
  "swl_merge byte mem v =
     (if 3 - byte = 0 then v
      else if 3 - byte = 1 then (mem AND 0xff000000) OR (signed_drop_bit 8 v AND 0xffffff)
      else if 3 - byte = 2 then (mem AND 0xffff0000) OR (signed_drop_bit 16 v AND 0xffff)
      else if 3 - byte = 3 then (mem AND 0xffffff00) OR (signed_drop_bit 24 v AND 0xff)
      else mem)"

definition exec_swl :: exec where
  "exec_swl m i pc =
     (case opCode i of
        OP_SWL \<Rightarrow> Some (let tmp = reg m (rs i) + extra i; byte = tmp AND 3 in
          reading m (tmp - byte) 4 (\<lambda>v m.
            writing m (tmp - byte) 4 (swl_merge (uint byte) v (reg m (rt i))) (\<lambda>m. Inr (Break m pc 0 0))))
      | _ \<Rightarrow> None)"

definition swr_merge :: "int \<Rightarrow> 32 word \<Rightarrow> 32 word \<Rightarrow> 32 word" where
  "swr_merge byte mem v =
     (if 3 - byte = 0 then (mem AND 0xffffff) OR push_bit 24 v
      else if 3 - byte = 1 then (mem AND 0xffff) OR push_bit 16 v
      else if 3 - byte = 2 then (mem AND 0xff) OR push_bit 8 v
      else if 3 - byte = 3 then v
      else mem)"

definition exec_swr :: exec where
  "exec_swr m i pc =
     (case opCode i of
        OP_SWR \<Rightarrow> Some (let tmp = reg m (rs i) + extra i; byte = tmp AND 3 in
          reading m (tmp - byte) 4 (\<lambda>v m.
            writing m (tmp - byte) 4 (swr_merge (uint byte) v (reg m (rt i))) (\<lambda>m. Inr (Break m pc 0 0))))
      | _ \<Rightarrow> None)"

definition exec_system :: exec where
  "exec_system m i pc =
     (case opCode i of
        OP_SYSCALL \<Rightarrow> Some (raise m SyscallException 0)
      | OP_XOR \<Rightarrow> Some (Inr (Break (set_reg m (rd i) (reg m (rs i) XOR reg m (rt i))) pc 0 0))
      | OP_XORI \<Rightarrow> Some (Inr (Break (set_reg m (rt i) (reg m (rs i) XOR (extra i AND 0xffff))) pc 0 0))
      | OP_RES \<Rightarrow> Some (raise m IllegalInstrException 0)
      | OP_UNIMP \<Rightarrow> Some (raise m IllegalInstrException 0)
      | _ \<Rightarrow> None)"

fun first_case :: "exec list \<Rightarrow> Machine \<Rightarrow> Instruction \<Rightarrow> 32 word \<Rightarrow> outcome run" where
  "first_case [] m i pc = Inl AssertFail"
| "first_case (e # es) m i pc = (case e m i pc of Some r \<Rightarrow> r | None \<Rightarrow> first_case es m i pc)"

definition execute :: "Machine \<Rightarrow> Instruction \<Rightarrow> 32 word \<Rightarrow> outcome run" where
  "execute = first_case [exec_add, exec_branch, exec_div, exec_jump, exec_load, exec_lwl, exec_lwr,
     exec_hilo, exec_store, exec_shift, exec_compare, exec_sub, exec_swl, exec_swr, exec_system]"

text \<open>
  \<open>OneInstruction\<close> returns \<open>NoException\<close> when the instruction completed, or the exception with the
  machine state that the kernel's handler sees.
\<close>

definition OneInstruction :: "Machine \<Rightarrow> (ExceptionType \<times> Machine) run" where
  "OneInstruction m =
     bind_run (ReadMem m (reg m PCReg) 4) (\<lambda>(ex, raw, m).
     if ex \<noteq> NoException then Inr (ex, m)
     else bind_run (Decode raw) (\<lambda>instr.
       bind_run (execute m instr (reg m NextPCReg + 4)) (\<lambda>r.
       case r of Return ex m \<Rightarrow> Inr (ex, m)
       | Break m pcAfter nextLoadReg nextLoadValue \<Rightarrow>
           bind_run (DelayedLoad m (word_of_nat nextLoadReg) nextLoadValue) (\<lambda>m.
           let m = set_reg m PrevPCReg (reg m PCReg);
               m = set_reg m PCReg (reg m NextPCReg);
               m = set_reg m NextPCReg pcAfter in
           Inr (NoException, m)))))"

section \<open>Multiplication is the 64-bit product\<close>

text \<open>The double word of the routine as an element of the ring of 64-bit words.\<close>

definition dword :: "32 word \<Rightarrow> 32 word \<Rightarrow> 64 word" where
  "dword hi lo = of_int (uint hi * 2 ^ 32 + uint lo)"

lemma hi_wraps: "(of_int (x mod 2 ^ 32 * 2 ^ 32) :: 64 word) = of_int (x * 2 ^ 32)"
proof -
  obtain q r where qr: "q = x div 2 ^ 32" "r = x mod 2 ^ 32" by blast
  then have "x = r + 2 ^ 32 * q" by simp
  then have "x * 2 ^ 32 = r * 2 ^ 32 + 2 ^ 64 * q" by simp
  then have "x * 2 ^ 32 = x mod 2 ^ 32 * 2 ^ 32 + 2 ^ 64 * (x div 2 ^ 32)" unfolding qr .
  then have "(of_int (x * 2 ^ 32) :: 64 word) = of_int (x mod 2 ^ 32 * 2 ^ 32) + of_int (2 ^ 64) * of_int (x div 2 ^ 32)"
    by (metis of_int_add of_int_mult)
  moreover have "(of_int (2 ^ 64) :: 64 word) = 0" by simp
  ultimately show ?thesis by (simp only: mult_zero_left add_0_right)
qed

lemma dword_add:
  assumes "lo' = lo + bLo" "hi' = (if lo' < bLo then hi + 1 else hi) + bHi"
  shows "dword hi' lo' = dword hi lo + dword bHi bLo"
proof -
  define c :: int where "c = (if lo' < bLo then 1 else 0)"
  have ul: "uint lo' = (uint lo + uint bLo) mod 2 ^ 32" using assms(1) by (simp add: uint_word_ariths)
  have b: "0 \<le> uint lo" "uint lo < 2 ^ 32" "0 \<le> uint bLo" "uint bLo < 2 ^ 32" using uint_lt2p[of lo] uint_lt2p[of bLo] by simp_all
  have low: "uint lo' + c * 2 ^ 32 = uint lo + uint bLo"
  proof (cases "uint lo + uint bLo < 2 ^ 32")
    case True
    then have "uint lo' = uint lo + uint bLo" using ul b by simp
    then show ?thesis using b by (simp add: c_def word_less_def)
  next
    case False
    then have "uint lo' = uint lo + uint bLo - 2 ^ 32" using ul b by (simp add: mod_add_if_z)
    then show ?thesis using b by (simp add: c_def word_less_def)
  qed
  have hi: "uint hi' = (uint hi + c + uint bHi) mod 2 ^ 32"
    unfolding assms(2) c_def by (simp add: uint_word_ariths mod_simps)
  have "dword hi' lo' = of_int ((uint hi + c + uint bHi) mod 2 ^ 32 * 2 ^ 32) + of_int (uint lo')"
    by (simp add: dword_def hi del: of_int_mult)
  also have "\<dots> = of_int ((uint hi + c + uint bHi) * 2 ^ 32) + of_int (uint lo')"
    by (simp only: hi_wraps)
  also have "\<dots> = of_int (uint hi * 2 ^ 32 + uint bHi * 2 ^ 32 + (uint lo' + c * 2 ^ 32))"
    by (simp add: algebra_simps)
  also have "\<dots> = dword hi lo + dword bHi bLo"
    unfolding low dword_def by (simp add: algebra_simps)
  finally show ?thesis .
qed

lemma top_bit: "(w :: 32 word) AND 0x80000000 \<noteq> 0 \<longleftrightarrow> 2 ^ 31 \<le> uint w"
proof -
  have "w AND 0x80000000 \<noteq> 0 \<longleftrightarrow> bit w 31"
    by (simp add: and_exp_eq_0_iff_not_bit[of w 31, simplified])
  also have "bit w 31 \<longleftrightarrow> bit (uint w) 31" by (simp add: bit_uint_iff)
  also have "\<dots> \<longleftrightarrow> 2 ^ 31 \<le> uint w"
  proof -
    have "uint w div 2 ^ 31 < 2" "0 \<le> uint w div 2 ^ 31" using uint_lt2p[of w] by (auto simp: div_int_pos_iff)
    then have "odd (uint w div 2 ^ 31) \<longleftrightarrow> uint w div 2 ^ 31 = 1" by (auto elim!: oddE)
    then show ?thesis using uint_lt2p[of w] by (simp add: bit_iff_odd) linarith
  qed
  finally show ?thesis .
qed

lemma dword_shift:
  assumes "bLo' = push_bit 1 bLo" "bHi' = (if bLo AND 0x80000000 \<noteq> 0 then push_bit 1 bHi OR 1 else push_bit 1 bHi)"
  shows "dword bHi' bLo' = 2 * dword bHi bLo"
proof -
  have or1: "push_bit 1 bHi OR 1 = 2 * bHi + 1"
  proof -
    have "even (2 * bHi)" by (rule dvd_triv_left)
    then have "2 * bHi OR 1 = 2 * bHi + 1" by (metis or_one_eq of_bool_eq(2))
    moreover have "push_bit 1 bHi = 2 * bHi" by (simp add: push_bit_eq_mult)
    ultimately show ?thesis by metis
  qed
  have lo': "bLo' = bLo + bLo" using assms(1) by (simp only: push_bit_eq_mult power_one_right mult_2_right)
  have "bLo' < bLo \<longleftrightarrow> 2 ^ 31 \<le> uint bLo"
  proof -
    have u: "uint bLo' = (uint bLo + uint bLo) mod 2 ^ 32" using lo' by (simp add: uint_word_ariths)
    have b: "0 \<le> uint bLo" "uint bLo < 2 ^ 32" using uint_lt2p[of bLo] by simp_all
    show ?thesis
    proof (cases "uint bLo + uint bLo < 2 ^ 32")
      case True
      then show ?thesis using u b by (simp add: word_less_def)
    next
      case False
      have "uint bLo' = (uint bLo + uint bLo - 2 ^ 32) mod 2 ^ 32"
        unfolding u by (rule minus_mod_self2[symmetric])
      also have "\<dots> = uint bLo + uint bLo - 2 ^ 32" using False b by (intro mod_pos_pos_trivial) linarith+
      finally show ?thesis using False b by (simp add: word_less_def)
    qed
  qed
  then have "bHi' = (if bLo' < bLo then bHi + 1 else bHi) + bHi"
    using assms(2) or1 by (simp add: top_bit)
  from dword_add[OF lo' this] show ?thesis by simp
qed

lemma sint_half: "sint (signed_drop_bit 1 (a :: 32 word)) = sint a div 2"
  by (simp add: sint_signed_drop_bit_eq drop_bit_eq_div)

lemma and1_odd: "(a :: 32 word) AND 1 \<noteq> 0 \<longleftrightarrow> odd (sint a)"
proof -
  have "a AND 1 \<noteq> 0 \<longleftrightarrow> bit a 0" by (simp add: and_exp_eq_0_iff_not_bit[of a 0, simplified])
  also have "\<dots> \<longleftrightarrow> bit (sint a) 0" by (simp only: bit_sint_iff) simp
  finally show ?thesis by (simp add: bit_0)
qed

lemma mod_pow_Suc: "(x :: int) mod 2 ^ Suc n = x mod 2 + 2 * (x div 2 mod 2 ^ n)"
  by (simp add: zmod_zmult2_eq)

lemma only_bit0: "(a :: 32 word) AND 1 \<noteq> 0 \<Longrightarrow> a AND 0xfffffffe = 0 \<Longrightarrow> a = 1"
proof -
  assume a: "a AND 1 \<noteq> 0" "a AND 0xfffffffe = 0"
  have "(0xfffffffe :: 32 word) = NOT 1" by simp
  then have "a = (a AND 1) OR (a AND 0xfffffffe)" by (simp only: bit.conj_disj_distrib[symmetric] bit.disj_cancel_right bit.conj_one_right)
  moreover have "a AND 1 = 1" using a(1) by (auto simp: and_one_eq split: if_splits)
  ultimately show "a = 1" using a(2) by simp
qed

lemma mult_loop_dword:
  "mult_loop n a bLo bHi lo hi = (hi', lo') \<Longrightarrow>
     dword hi' lo' = dword hi lo + of_int (sint a mod 2 ^ n) * dword bHi bLo"
proof (induction n arbitrary: a bLo bHi lo hi)
  case 0
  then show ?case by simp
next
  case (Suc n)
  define b where "b = (a AND 1 \<noteq> 0)"
  define lo1 where "lo1 = (if b then lo + bLo else lo)"
  define hi1 where "hi1 = (if b then (if lo1 < bLo then hi + 1 else hi) + bHi else hi)"
  have add: "dword hi1 lo1 = dword hi lo + of_int (sint a mod 2) * dword bHi bLo"
    using dword_add[of lo1 lo bLo hi1 hi bHi] and1_odd[of a]
    by (auto simp: b_def lo1_def hi1_def odd_iff_mod_2_eq_one even_iff_mod_2_eq_zero)
  show ?case
  proof (cases "b \<and> a AND 0xfffffffe = 0")
    case True
    then have "a = 1" using only_bit0 by (simp add: b_def)
    then have "sint a mod 2 ^ Suc n = 1" "sint a mod 2 = 1" unfolding mod_pow_Suc by simp_all
    moreover have "(hi', lo') = (hi1, lo1)"
      using Suc.prems True by (simp add: Let_def b_def lo1_def hi1_def split: if_splits)
    ultimately show ?thesis using add by simp
  next
    case False
    define bLo1 where "bLo1 = push_bit 1 bLo"
    define bHi1 where "bHi1 = (if bLo AND 0x80000000 \<noteq> 0 then push_bit 1 bHi OR 1 else push_bit 1 bHi)"
    have "mult_loop n (signed_drop_bit 1 a) bLo1 bHi1 lo1 hi1 = (hi', lo')"
      using Suc.prems False by (auto simp: Let_def b_def lo1_def hi1_def bLo1_def bHi1_def)
    from Suc.IH[OF this] dword_shift[OF bLo1_def bHi1_def] add
    show ?thesis unfolding mod_pow_Suc sint_half by (simp add: algebra_simps)
  qed
qed

lemma dword_eq: "uint (dword hi lo) = uint hi * 2 ^ 32 + uint lo"
proof -
  have "0 \<le> uint hi" "uint hi < 2 ^ 32" "0 \<le> uint lo" "uint lo < 2 ^ 32"
    using uint_lt2p[of hi] uint_lt2p[of lo] by simp_all
  then have "0 \<le> uint hi * 2 ^ 32 + uint lo" "uint hi * 2 ^ 32 + uint lo < 2 ^ 64" by simp_all
  then show ?thesis by (simp only: dword_def uint_word_of_int) simp
qed

lemma dword_neg:
  assumes "lo' = NOT lo + 1" "hi' = (if lo' = 0 then NOT hi + 1 else NOT hi)"
  shows "dword hi' lo' = - dword hi lo"
proof -
  have nl: "NOT lo = - lo - 1" and nh: "NOT hi = - hi - 1" by (simp_all add: not_eq_complement)
  have lo': "lo' = - lo" using assms(1) nl by simp
  have "dword hi lo + dword hi' lo' = 0"
  proof -
    have h: "0 = (if 0 < lo' then hi + 1 else hi) + hi'"
      using assms(2) by (auto simp: nh word_neq_0_conv)
    have l: "(0 :: 32 word) = lo + lo'" using lo' by simp
    have c: "(0 :: 32 word) < lo' \<longleftrightarrow> 0 < lo'" ..
    from dword_add[OF l, of 0 hi hi'] h have "dword 0 0 = dword hi lo + dword hi' lo'" by simp
    then show ?thesis by (simp add: dword_def)
  qed
  then show ?thesis by (simp add: eq_neg_iff_add_eq_0 add.commute)
qed

lemma mult_loop_32:
  assumes "mult_loop 32 a b 0 0 0 = (hi, lo)"
  shows "dword hi lo = of_int (uint a) * of_int (uint b)"
proof -
  have "sint a mod 2 ^ 32 = uint a" by (simp add: uint_sint take_bit_eq_mod)
  with mult_loop_dword[OF assms] show ?thesis by (simp add: dword_def)
qed

lemma uint_abs:
  assumes "a' = (if sint a < 0 then - a else (a :: 32 word))"
  shows "uint a' = \<bar>sint a\<bar>"
proof -
  have "- (2 ^ 31) \<le> sint a" "sint a < 2 ^ 31" using sint_range_size[of a] by (simp_all add: word_size)
  then have "\<bar>sint a\<bar> mod 2 ^ 32 = \<bar>sint a\<bar>" by (auto simp: abs_if)
  moreover have "a' = of_int \<bar>sint a\<bar>" using assms by (auto simp: abs_if)
  ultimately show ?thesis by (simp add: uint_word_of_int)
qed

text \<open>
  C28: the shift-and-add loop of \<open>Mult\<close> computes the exact 64-bit product of its two 32-bit operands,
  for signed and for unsigned multiplication, on all inputs.
\<close>

theorem Mult_is_64_bit_product:
  "(case Mult a b s of (hi, lo) \<Rightarrow> uint hi * 2 ^ 32 + uint lo) =
     (if s then sint a * sint b else uint a * uint b) mod 2 ^ 64"
proof -
  obtain hi lo where m: "Mult a b s = (hi, lo)" by fastforce
  have d: "dword hi lo = of_int (if s then sint a * sint b else uint a * uint b)"
  proof (cases "a = 0 \<or> b = 0")
    case True
    then show ?thesis using m by (auto simp: Mult_def dword_def)
  next
    case False
    define nA nB where n: "nA = (s \<and> sint a < 0)" "nB = (s \<and> sint b < 0)"
    define a' b' where ab: "a' = (if nA then - a else a)" "b' = (if nB then - b else b)"
    obtain h l where hl: "mult_loop 32 a' b' 0 0 0 = (h, l)" by fastforce
    have eq: "Mult a b s = (if nA \<noteq> nB then (if NOT l + 1 = 0 then NOT h + 1 else NOT h, NOT l + 1) else (h, l))"
      using False unfolding Mult_def Let_def n[symmetric] ab[symmetric] hl by simp
    have r: "dword hi lo = (if nA \<noteq> nB then - dword h l else dword h l)"
      using m eq dword_neg[of lo l hi h] by (auto split: if_splits)
    show ?thesis
    proof (cases s)
      case True
      then have "uint a' = \<bar>sint a\<bar>" "uint b' = \<bar>sint b\<bar>" using uint_abs[of a' a] uint_abs[of b' b] n ab by simp_all
      with mult_loop_32[OF hl] r True n show ?thesis by (auto simp: abs_if)
    next
      case False
      with mult_loop_32[OF hl] r n ab show ?thesis by simp
    qed
  qed
  have "uint hi * 2 ^ 32 + uint lo = uint (dword hi lo)" by (simp add: dword_eq)
  also have "\<dots> = (if s then sint a * sint b else uint a * uint b) mod 2 ^ 64"
    unfolding d by (simp only: uint_word_of_int) simp
  finally show ?thesis using m by simp
qed

section \<open>Decoding\<close>

lemma and_mask_less: "uint (x AND 0x3f :: 32 word) < 64" "unat (x AND 0x1f :: 32 word) < 32"
proof -
  have "x AND 0x3f = take_bit 6 x" "x AND 0x1f = take_bit 5 x"
    by (simp_all add: take_bit_eq_mask mask_eq_exp_minus_1)
  moreover have "uint (take_bit 6 x) < 64" by (simp only: unsigned_take_bit_eq) (simp add: take_bit_eq_mod)
  moreover have "unat (take_bit 5 x) < 32" by (simp only: unsigned_take_bit_eq) (simp add: take_bit_eq_mod)
  ultimately show "uint (x AND 0x3f) < 64" "unat (x AND 0x1f) < 32" by metis+
qed

lemma opTable_entries: "length opTable = 64" "OP_RFE \<notin> fst ` set opTable"
  by (simp_all add: opTable_def)

lemma specialTable_entries: "length specialTable = 64" "set specialTable \<inter> {OP_RFE, SPECIAL, BCOND} = {}"
  by (simp_all add: specialTable_def)

lemma Decode_ok:
  "\<exists>i. Decode v = Inr i \<and> rs i < 32 \<and> rt i < 32 \<and> rd i < 32 \<and> opCode i \<notin> {OP_RFE, SPECIAL, BCOND}"
proof -
  let ?k = "uint (drop_bit 26 v AND 0x3f)"
  have k: "0 \<le> ?k" "?k < int (length opTable)" using and_mask_less(1)[of "drop_bit 26 v"] opTable_entries(1) by auto
  obtain op fm where e: "opTable ! nat ?k = (op, fm)" by fastforce
  have "(op, fm) \<in> set opTable" using k e by (metis nat_less_iff nth_mem)
  then have op: "op \<noteq> OP_RFE" using opTable_entries(2) by force
  let ?s = "uint (v AND 0x3f)"
  have s: "0 \<le> ?s" "?s < int (length specialTable)" using and_mask_less(1)[of v] specialTable_entries(1) by auto
  then have "specialTable ! nat ?s \<in> set specialTable" by (metis nat_less_iff nth_mem)
  then have sp: "specialTable ! nat ?s \<notin> {OP_RFE, SPECIAL, BCOND}" using specialTable_entries(2) by blast
  have get: "get_at opTable ?k = Inr (op, fm)" "get_at specialTable ?s = Inr (specialTable ! nat ?s)"
    using k s e by simp_all
  show ?thesis
    unfolding Decode_def get using op sp and_mask_less(2) by (auto simp: Let_def get)
qed

section \<open>Every instruction keeps the machine consistent and inside its own memory\<close>

text \<open>The access rights a page table gives; the use and dirty bits do not count.\<close>

definition perms :: "TranslationEntry list \<Rightarrow> (bool \<times> bool \<times> 32 word) list" where
  "perms pt = map (\<lambda>e. (valid e, readOnly e, physicalPage e)) pt"

definition writable :: "TranslationEntry list \<Rightarrow> int set" where
  "writable pt = {uint (physicalPage e) | e. e \<in> set pt \<and> valid e \<and> \<not> readOnly e}"

text \<open>
  From machine \<open>m\<close> with page table \<open>pt\<close> to \<open>m'\<close>: the access rights are the same, only bytes in frames
  that are mapped writable have changed, and the target of the pending load is a general register.
\<close>

definition confined :: "TranslationEntry list \<Rightarrow> Machine \<Rightarrow> Machine \<Rightarrow> bool" where
  "confined pt m m' \<longleftrightarrow>
     (\<exists>pt'. paged m' pt' \<and> perms pt' = perms pt) \<and>
     (\<forall>a. mainMemory m' a \<noteq> mainMemory m a \<longrightarrow> int a div PageSize \<in> writable pt) \<and>
     uint (registers m' LoadReg) < 32"

definition good :: "TranslationEntry list \<Rightarrow> Machine \<Rightarrow> outcome run \<Rightarrow> bool" where
  "good pt m0 r \<longleftrightarrow> (case r of Inl e \<Rightarrow> False
     | Inr (Break m pc l v) \<Rightarrow> confined pt m0 m \<and> l < 32
     | Inr (Return ex m) \<Rightarrow> ex \<noteq> NoException \<and> confined pt m0 m \<and> registers m 0 = 0)"

lemma perms_touch [simp]: "perms (touch_page w v pt) = perms pt"
  by (auto simp: perms_def intro!: nth_equalityI)

lemma writable_perms: "writable pt = {uint p | p. (True, False, p) \<in> set (perms pt)}"
  by (force simp: writable_def perms_def)

lemma confined_set_reg: "confined pt m0 m \<Longrightarrow> r \<noteq> LoadReg \<Longrightarrow> confined pt m0 (set_reg m r v)"
  by (auto simp: confined_def set_reg_def paged_def)

lemma sint_small: "uint (w :: 32 word) < 32 \<Longrightarrow> sint w = uint w"
  by (simp add: sint_uint small_signed)

lemma confined_DelayedLoad:
  assumes "confined pt m0 m" "uint r < 32"
  shows "\<exists>m'. DelayedLoad m r v = Inr m' \<and> confined pt m0 m' \<and> registers m' 0 = 0 \<and>
     mainMemory m' = mainMemory m \<and> pageTable m' = pageTable m"
proof -
  have t: "sint (registers m LoadReg) = uint (registers m LoadReg)" "uint (registers m LoadReg) < 32"
    using assms(1) sint_small by (auto simp: confined_def)
  let ?m = "m\<lparr>registers := (registers m)(nat (uint (registers m LoadReg)) := registers m LoadValueReg,
      LoadReg := r, LoadValueReg := v, 0 := 0)\<rparr>"
  have "DelayedLoad m r v = Inr ?m" using t by (simp add: DelayedLoad_def NumTotalRegs_def Let_def)
  moreover have "confined pt m0 ?m" using assms by (auto simp: confined_def paged_def reg_defs)
  ultimately show ?thesis by simp
qed

lemma confined_RaiseException:
  assumes "confined pt m0 m"
  shows "\<exists>m'. RaiseException m ex b = Inr m' \<and> confined pt m0 m' \<and> registers m' 0 = 0"
proof -
  have "confined pt m0 (m\<lparr>registers := (registers m)(BadVAddrReg := b)\<rparr>)"
    using confined_set_reg[OF assms, of BadVAddrReg b] by (simp add: set_reg_def reg_defs)
  from confined_DelayedLoad[OF this, of 0 0] show ?thesis by (auto simp: RaiseException_def)
qed

lemma good_raise: "confined pt m0 m \<Longrightarrow> ex \<noteq> NoException \<Longrightarrow> good pt m0 (raise m ex b)"
  using confined_RaiseException[of pt m0 m ex b] by (auto simp: raise_def good_def)

lemma good_Break: "confined pt m0 m \<Longrightarrow> l < 32 \<Longrightarrow> good pt m0 (Inr (Break m pc l v))"
  by (simp add: good_def)

lemma confined_touch:
  "confined pt m0 m \<Longrightarrow> paged m pt' \<Longrightarrow> perms pt' = perms pt \<Longrightarrow>
     confined pt m0 (m\<lparr>pageTable := Some (touch_page w v pt')\<rparr>)"
  by (auto simp: confined_def paged_def)

lemma confined_ReadMem:
  assumes "confined pt m0 m" "sz \<in> {1, 2, 4}"
  shows "\<exists>ex v m'. ReadMem m a sz = Inr (ex, v, m') \<and> confined pt m0 m' \<and> (ex \<noteq> NoException \<longrightarrow> registers m' 0 = 0)"
proof -
  obtain pt' where p: "paged m pt'" "perms pt' = perms pt" using assms(1) by (auto simp: confined_def)
  show ?thesis
  proof (cases "vm_translate pt' a sz False")
    case (Inl ex)
    with vm_translate_not_NoException[of pt' a sz False] confined_RaiseException[OF assms(1), of ex a]
    show ?thesis by (auto simp: ReadMem_paged[OF p(1) assms(2)])
  next
    case (Inr pa)
    then show ?thesis using confined_touch[OF assms(1) p] by (simp add: ReadMem_paged[OF p(1) assms(2)])
  qed
qed

lemma vm_translate_writable:
  assumes "vm_translate pt v sz True = Inr pa" "sz \<in> {1, 2, 4}" "pa \<le> b" "b < pa + sz"
  shows "b div 128 \<in> writable pt"
proof -
  note r = vm_translate_range[OF assms(1,2)]
  have "b div 128 = pa div 128"
    using assms(3,4) r(4) zdiv_mono1[of pa b 128] zdiv_mono1[of b "pa + sz - 1" 128] by simp
  moreover have "\<not> readOnly (pt ! nat (uint v div 128))"
    using assms(1) by (auto simp: vm_translate_def Let_def split: if_splits)
  ultimately show ?thesis using r(3,5,6) by (auto simp: writable_def intro!: exI[of _ "pt ! nat (uint v div 128)"])
qed

lemma confined_WriteMem:
  assumes "confined pt m0 m" "sz \<in> {1, 2, 4}"
  shows "\<exists>ex m'. WriteMem m a sz x = Inr (ex, m') \<and> confined pt m0 m' \<and> (ex \<noteq> NoException \<longrightarrow> registers m' 0 = 0)"
proof -
  obtain pt' where p: "paged m pt'" "perms pt' = perms pt" using assms(1) by (auto simp: confined_def)
  show ?thesis
  proof (cases "vm_translate pt' a sz True")
    case (Inl ex)
    with vm_translate_not_NoException[of pt' a sz True] confined_RaiseException[OF assms(1), of ex a]
    show ?thesis by (auto simp: WriteMem_paged[OF p(1) assms(2)])
  next
    case (Inr pa)
    let ?m = "m\<lparr>pageTable := Some (touch_page True a pt'), mainMemory := write_bytes (mainMemory m) (nat pa) sz x\<rparr>"
    have "int b div PageSize \<in> writable pt" if "mainMemory ?m b \<noteq> mainMemory m b" for b
    proof -
      from that have "\<not> (b < nat pa \<or> int (nat pa) + sz \<le> int b)"
        using write_bytes_other[OF _ assms(2)] by auto
      then have "pa \<le> int b" "int b < pa + sz" using vm_translate_range(1)[OF Inr assms(2)] by auto
      from vm_translate_writable[OF Inr assms(2) this] p(2) show ?thesis
        by (simp add: writable_perms PageSize_def)
    qed
    then have "mainMemory ?m b \<noteq> mainMemory m0 b \<longrightarrow> int b div PageSize \<in> writable pt" for b
      using assms(1) unfolding confined_def by metis
    then have "confined pt m0 ?m"
      using assms(1) p by (auto simp: confined_def paged_def)
    then show ?thesis using Inr by (simp add: WriteMem_paged[OF p(1) assms(2)])
  qed
qed

lemma good_reading:
  assumes "confined pt m0 m" "sz \<in> {1, 2, 4}" "\<And>v m'. confined pt m0 m' \<Longrightarrow> good pt m0 (k v m')"
  shows "good pt m0 (reading m a sz k)"
  using confined_ReadMem[OF assms(1,2), of a] assms(3) by (auto simp: reading_def good_def)

lemma good_writing:
  assumes "confined pt m0 m" "sz \<in> {1, 2, 4}" "\<And>m'. confined pt m0 m' \<Longrightarrow> good pt m0 (k m')"
  shows "good pt m0 (writing m a sz v k)"
  using confined_WriteMem[OF assms(1,2), of a v] assms(3) by (auto simp: writing_def good_def)

lemmas good_rules = good_reading good_writing good_raise good_Break confined_set_reg

text \<open>One lemma per group of the switch.\<close>

definition regs5 :: "Instruction \<Rightarrow> bool" where
  "regs5 i \<longleftrightarrow> rs i < 32 \<and> rt i < 32 \<and> rd i < 32"

lemma regs5_not_LoadReg [simp]: "regs5 i \<Longrightarrow> rs i \<noteq> LoadReg" "regs5 i \<Longrightarrow> rt i \<noteq> LoadReg" "regs5 i \<Longrightarrow> rd i \<noteq> LoadReg"
  "regs5 i \<Longrightarrow> rt i < 32"
  by (auto simp: regs5_def LoadReg_def)

lemma fixed_not_LoadReg [simp]: "RetAddrReg \<noteq> LoadReg" "HiReg \<noteq> LoadReg" "LoReg \<noteq> LoadReg" "PCReg \<noteq> LoadReg"
  "NextPCReg \<noteq> LoadReg" "PrevPCReg \<noteq> LoadReg"
  by (simp_all add: reg_defs)

lemma exec_add_good: "confined pt m0 m \<Longrightarrow> regs5 i \<Longrightarrow> exec_add m i pc = Some r \<Longrightarrow> good pt m0 r"
  by (cases "opCode i") (auto simp: exec_add_def Let_def intro!: good_rules split: if_splits)

lemma exec_branch_good: "confined pt m0 m \<Longrightarrow> regs5 i \<Longrightarrow> exec_branch m i pc = Some r \<Longrightarrow> good pt m0 r"
  by (cases "opCode i") (auto simp: exec_branch_def branch_if_def Let_def intro!: good_rules)

lemma exec_div_good:
  "confined pt m0 m \<Longrightarrow> regs5 i \<Longrightarrow> exec_div m i pc = Some r \<Longrightarrow>
     good pt m0 r \<or> r = Inl ArithTrap \<and> opCode i = OP_DIV \<and> reg m (rs i) = SIGN_BIT \<and> reg m (rt i) = - 1"
  by (cases "opCode i") (auto simp: exec_div_def Let_def intro!: good_rules split: if_splits)

lemma exec_jump_good: "confined pt m0 m \<Longrightarrow> regs5 i \<Longrightarrow> exec_jump m i pc = Some r \<Longrightarrow> good pt m0 r"
  by (cases "opCode i") (auto simp: exec_jump_def Let_def intro!: good_rules)

lemma exec_load_good: "confined pt m0 m \<Longrightarrow> regs5 i \<Longrightarrow> exec_load m i pc = Some r \<Longrightarrow> good pt m0 r"
  by (cases "opCode i") (auto simp: exec_load_def Let_def intro!: good_rules split: if_splits)

lemma exec_lwl_good: "confined pt m0 m \<Longrightarrow> regs5 i \<Longrightarrow> exec_lwl m i pc = Some r \<Longrightarrow> good pt m0 r"
  by (cases "opCode i") (auto simp: exec_lwl_def Let_def intro!: good_rules)

lemma exec_lwr_good: "confined pt m0 m \<Longrightarrow> regs5 i \<Longrightarrow> exec_lwr m i pc = Some r \<Longrightarrow> good pt m0 r"
  by (cases "opCode i") (auto simp: exec_lwr_def Let_def intro!: good_rules)

lemma exec_hilo_good: "confined pt m0 m \<Longrightarrow> regs5 i \<Longrightarrow> exec_hilo m i pc = Some r \<Longrightarrow> good pt m0 r"
  by (cases "opCode i") (auto simp: exec_hilo_def Let_def intro!: good_rules split: prod.splits)

lemma exec_store_good: "confined pt m0 m \<Longrightarrow> regs5 i \<Longrightarrow> exec_store m i pc = Some r \<Longrightarrow> good pt m0 r"
  by (cases "opCode i") (auto simp: exec_store_def Let_def intro!: good_rules)

lemma exec_shift_good: "confined pt m0 m \<Longrightarrow> regs5 i \<Longrightarrow> exec_shift m i pc = Some r \<Longrightarrow> good pt m0 r"
  by (cases "opCode i") (auto simp: exec_shift_def Let_def intro!: good_rules)

lemma exec_compare_good: "confined pt m0 m \<Longrightarrow> regs5 i \<Longrightarrow> exec_compare m i pc = Some r \<Longrightarrow> good pt m0 r"
  by (cases "opCode i") (auto simp: exec_compare_def Let_def intro!: good_rules)

lemma exec_sub_good: "confined pt m0 m \<Longrightarrow> regs5 i \<Longrightarrow> exec_sub m i pc = Some r \<Longrightarrow> good pt m0 r"
  by (cases "opCode i") (auto simp: exec_sub_def Let_def intro!: good_rules split: if_splits)

lemma exec_swl_good: "confined pt m0 m \<Longrightarrow> regs5 i \<Longrightarrow> exec_swl m i pc = Some r \<Longrightarrow> good pt m0 r"
  by (cases "opCode i") (auto simp: exec_swl_def Let_def intro!: good_rules)

lemma exec_swr_good: "confined pt m0 m \<Longrightarrow> regs5 i \<Longrightarrow> exec_swr m i pc = Some r \<Longrightarrow> good pt m0 r"
  by (cases "opCode i") (auto simp: exec_swr_def Let_def intro!: good_rules)

lemma exec_system_good: "confined pt m0 m \<Longrightarrow> regs5 i \<Longrightarrow> exec_system m i pc = Some r \<Longrightarrow> good pt m0 r"
  by (cases "opCode i") (auto simp: exec_system_def Let_def intro!: good_rules)

lemmas exec_good = exec_add_good exec_branch_good exec_jump_good exec_load_good exec_lwl_good exec_lwr_good
  exec_hilo_good exec_store_good exec_shift_good exec_compare_good exec_sub_good exec_swl_good exec_swr_good
  exec_system_good

lemmas exec_defs = exec_add_def exec_branch_def exec_div_def exec_jump_def exec_load_def exec_lwl_def exec_lwr_def
  exec_hilo_def exec_store_def exec_shift_def exec_compare_def exec_sub_def exec_swl_def exec_swr_def exec_system_def

text \<open>Every opcode that \<open>Decode\<close> produces is a case of exactly one group, so \<open>default\<close> is not reached.\<close>

lemma some_case:
  "opCode i \<notin> {OP_RFE, SPECIAL, BCOND} \<Longrightarrow>
     \<exists>e \<in> set [exec_add, exec_branch, exec_div, exec_jump, exec_load, exec_lwl, exec_lwr, exec_hilo,
        exec_store, exec_shift, exec_compare, exec_sub, exec_swl, exec_swr, exec_system]. e m i pc \<noteq> None"
  by (cases "opCode i") (simp_all add: exec_defs Let_def)

lemma first_case_some:
  "\<exists>e \<in> set es. e m i pc \<noteq> None \<Longrightarrow> \<exists>e \<in> set es. e m i pc = Some (first_case es m i pc)"
  by (induction es) (auto split: option.splits)

lemma execute_good:
  assumes "confined pt m0 m" "regs5 i" "opCode i \<notin> {OP_RFE, SPECIAL, BCOND}"
  shows "good pt m0 (execute m i pc) \<or>
     execute m i pc = Inl ArithTrap \<and> opCode i = OP_DIV \<and> reg m (rs i) = SIGN_BIT \<and> reg m (rt i) = - 1"
proof -
  from first_case_some[OF some_case[OF assms(3), of m pc]] obtain e where
    "e \<in> set [exec_add, exec_branch, exec_div, exec_jump, exec_load, exec_lwl, exec_lwr, exec_hilo,
        exec_store, exec_shift, exec_compare, exec_sub, exec_swl, exec_swr, exec_system]"
    "e m i pc = Some (execute m i pc)" unfolding execute_def by blast
  moreover have "\<forall>e \<in> set [exec_add, exec_branch, exec_jump, exec_load, exec_lwl, exec_lwr, exec_hilo,
        exec_store, exec_shift, exec_compare, exec_sub, exec_swl, exec_swr, exec_system].
      \<forall>r. e m i pc = Some r \<longrightarrow> good pt m0 r"
    unfolding list.set ball_simps by (intro conjI allI impI TrueI; erule exec_good[OF assms(1,2)])
  ultimately have "good pt m0 (execute m i pc) \<or> exec_div m i pc = Some (execute m i pc)"
    by (metis list.set_intros set_ConsD)
  then show ?thesis using exec_div_good[OF assms(1,2)] by metis
qed

lemma OneInstruction_confined:
  assumes "paged m pt" "uint (registers m LoadReg) < 32"
  shows "(\<exists>ex m'. OneInstruction m = Inr (ex, m') \<and> confined pt m m' \<and> registers m' 0 = 0) \<or>
     OneInstruction m = Inl ArithTrap \<and>
       (\<exists>v m1 i. ReadMem m (reg m PCReg) 4 = Inr (NoException, v, m1) \<and> Decode v = Inr i \<and>
          opCode i = OP_DIV \<and> reg m1 (rs i) = SIGN_BIT \<and> reg m1 (rt i) = - 1)"
proof -
  have c0: "confined pt m m" using assms by (auto simp: confined_def)
  obtain ex v m1 where rd: "ReadMem m (reg m PCReg) 4 = Inr (ex, v, m1)" "confined pt m m1"
    "ex \<noteq> NoException \<longrightarrow> registers m1 0 = 0"
    using confined_ReadMem[OF c0, of 4 "reg m PCReg"] by auto
  show ?thesis
  proof (cases "ex = NoException")
    case False
    with rd show ?thesis by (auto simp: OneInstruction_def)
  next
    case True
    obtain i where i: "Decode v = Inr i" "regs5 i" "opCode i \<notin> {OP_RFE, SPECIAL, BCOND}"
      using Decode_ok[of v] by (auto simp: regs5_def)
    let ?r = "execute m1 i (reg m1 NextPCReg + 4)"
    from execute_good[OF rd(2) i(2,3), of "reg m1 NextPCReg + 4"] consider
      (good) "good pt m ?r" | (trap) "?r = Inl ArithTrap" "opCode i = OP_DIV" "reg m1 (rs i) = SIGN_BIT" "reg m1 (rt i) = - 1"
      by blast
    then show ?thesis
    proof cases
      case trap
      with rd(1) True i(1) show ?thesis by (auto simp: OneInstruction_def)
    next
      case good
      then consider (br) m2 pc l lv where "?r = Inr (Break m2 pc l lv)" "confined pt m m2" "l < 32"
        | (ret) ex m2 where "?r = Inr (Return ex m2)" "confined pt m m2" "registers m2 0 = 0"
        by (auto simp: good_def split: sum.splits outcome.splits)
      then show ?thesis
      proof cases
        case ret
        with rd(1) True i(1) show ?thesis by (auto simp: OneInstruction_def)
      next
        case br
        have "uint (word_of_nat l :: 32 word) < 32" using br(3) by (simp add: unsigned_of_nat take_bit_nat_eq_self)
        from confined_DelayedLoad[OF br(2) this, of lv] obtain m3 where
          m3: "DelayedLoad m2 (word_of_nat l) lv = Inr m3" "confined pt m m3" "registers m3 0 = 0" by auto
        let ?a = "set_reg m3 PrevPCReg (reg m3 PCReg)"
        let ?b = "set_reg ?a PCReg (reg ?a NextPCReg)"
        let ?m = "set_reg ?b NextPCReg pc"
        have "OneInstruction m = Inr (NoException, ?m)"
          using rd(1) True i(1) br(1) m3(1) by (simp add: OneInstruction_def Let_def)
        moreover have "confined pt m ?m" using m3(2) by (intro confined_set_reg) simp_all
        moreover have "registers ?m 0 = 0" using m3(3) by (simp add: set_reg_def reg_defs)
        ultimately show ?thesis by blast
      qed
    qed
  qed
qed

text \<open>
  C18: one instruction of a user program is safe for the kernel and for every other program.  From any
  machine state with a page table in which the pending load targets a general register, whatever the
  instruction word and the operands are, the simulator ends the instruction normally or with an
  exception for the kernel: no assertion fails and no array is left.  Register 0 is zero
  afterwards, the pending load targets a general register again, the access rights are unchanged and
  only bytes of frames mapped writable have changed.  The only other end is the trap of the host on
  a signed division of the least integer by -1.
\<close>

theorem OneInstruction_safe:
  assumes "paged m pt" "uint (registers m LoadReg) < 32"
  shows "(\<exists>ex m'. OneInstruction m = Inr (ex, m') \<and> confined pt m m' \<and> registers m' 0 = 0) \<or>
     OneInstruction m = Inl ArithTrap \<and>
       (\<exists>v m1 i. ReadMem m (reg m PCReg) 4 = Inr (NoException, v, m1) \<and> Decode v = Inr i \<and>
          opCode i = OP_DIV \<and> reg m1 (rs i) = SIGN_BIT \<and> reg m1 (rt i) = - 1)"
  by (rule OneInstruction_confined[OF assms])

theorem OneInstruction_safe_witness:
  "(\<exists>ex m'. OneInstruction (one_page_machine 5) = Inr (ex, m') \<and> confined (one_page 5) (one_page_machine 5) m' \<and> registers m' 0 = 0) \<or>
     OneInstruction (one_page_machine 5) = Inl ArithTrap \<and>
       (\<exists>v m1 i. ReadMem (one_page_machine 5) (reg (one_page_machine 5) PCReg) 4 = Inr (NoException, v, m1) \<and> Decode v = Inr i \<and>
          opCode i = OP_DIV \<and> reg m1 (rs i) = SIGN_BIT \<and> reg m1 (rt i) = - 1)"
  by (rule OneInstruction_safe[OF paged_one_page]) (simp add: one_page_machine_def Machine_new_def)

section \<open>Integer overflow\<close>

lemma sign_bit_iff: "(w :: 32 word) AND SIGN_BIT = 0 \<longleftrightarrow> 0 \<le> sint w"
proof -
  have "w AND SIGN_BIT = 0 \<longleftrightarrow> \<not> bit w 31"
    by (simp add: SIGN_BIT_def and_exp_eq_0_iff_not_bit[of w 31, simplified])
  also have "bit w 31 \<longleftrightarrow> sint w < 0"
    using bit_last_iff[of w] by simp
  finally show ?thesis by auto
qed

lemma xor_sign: "((a :: 32 word) XOR b) AND SIGN_BIT = 0 \<longleftrightarrow> (sint a < 0 \<longleftrightarrow> sint b < 0)"
proof -
  have "(a XOR b) AND SIGN_BIT = 0 \<longleftrightarrow> \<not> bit (a XOR b) 31"
    by (simp add: SIGN_BIT_def and_exp_eq_0_iff_not_bit[of _ 31, simplified])
  also have "\<dots> \<longleftrightarrow> (sint a < 0 \<longleftrightarrow> sint b < 0)"
    using bit_last_iff[of a] bit_last_iff[of b] by (simp add: bit_xor_iff)
  finally show ?thesis .
qed

lemma sint_bounds: "- (2 ^ 31) \<le> sint (a :: 32 word)" "sint (a :: 32 word) < 2 ^ 31"
  using sint_range_size[of a] by (simp_all add: word_size)

definition fits :: "int \<Rightarrow> bool" where
  "fits s \<longleftrightarrow> - (2 ^ 31) \<le> s \<and> s < 2 ^ 31"

lemma wrapped_sign:
  assumes "- (2 ^ 32) \<le> s" "s < 2 ^ 32"
  shows "sint (word_of_int s :: 32 word) < 0 \<longleftrightarrow> (if fits s then s < 0 else 0 \<le> s)"
proof -
  have w: "sint (word_of_int s :: 32 word) = signed_take_bit 31 s" by (simp add: signed_of_int)
  consider "fits s" | "s < - (2 ^ 31)" | "2 ^ 31 \<le> s" unfolding fits_def by linarith
  then show ?thesis
  proof cases
    case 1
    then have "signed_take_bit 31 s = s" unfolding fits_def by (intro signed_take_bit_int_eq_self) auto
    with 1 w show ?thesis by simp
  next
    case 2
    have "s + 4294967296 \<le> signed_take_bit 31 s" using signed_take_bit_int_greater_eq[of s 31] 2 by simp
    then have "\<not> sint (word_of_int s :: 32 word) < 0" unfolding w using assms(1)[simplified] by linarith
    with 2 show ?thesis by (simp add: fits_def)
  next
    case 3
    have "signed_take_bit 31 s \<le> s - 4294967296" using signed_take_bit_int_less_eq[of 31 s] 3 by simp
    then have "sint (word_of_int s :: 32 word) < 0" unfolding w using assms(2)[simplified] by linarith
    with 3 show ?thesis by (simp add: fits_def)
  qed
qed

lemma add_overflow_check:
  fixes a b :: "32 word"
  shows "((a XOR b) AND SIGN_BIT = 0 \<and> (a XOR (a + b)) AND SIGN_BIT \<noteq> 0) \<longleftrightarrow> \<not> fits (sint a + sint b)"
    and "a + b = word_of_int (sint a + sint b)"
    and "((a XOR b) AND SIGN_BIT \<noteq> 0 \<and> (a XOR (a - b)) AND SIGN_BIT \<noteq> 0) \<longleftrightarrow> \<not> fits (sint a - sint b)"
    and "a - b = word_of_int (sint a - sint b)"
proof -
  note bd = sint_bounds[of a] sint_bounds[of b]
  show p: "a + b = word_of_int (sint a + sint b)" and q: "a - b = word_of_int (sint a - sint b)" by simp_all
  have "sint (a + b) < 0 \<longleftrightarrow> (if fits (sint a + sint b) then sint a + sint b < 0 else 0 \<le> sint a + sint b)"
    unfolding p using bd by (intro wrapped_sign) simp_all
  then show "((a XOR b) AND SIGN_BIT = 0 \<and> (a XOR (a + b)) AND SIGN_BIT \<noteq> 0) \<longleftrightarrow> \<not> fits (sint a + sint b)"
    unfolding xor_sign using bd by (auto simp: fits_def split: if_splits)
  have "sint (a - b) < 0 \<longleftrightarrow> (if fits (sint a - sint b) then sint a - sint b < 0 else 0 \<le> sint a - sint b)"
    unfolding q using bd by (intro wrapped_sign) simp_all
  then show "((a XOR b) AND SIGN_BIT \<noteq> 0 \<and> (a XOR (a - b)) AND SIGN_BIT \<noteq> 0) \<longleftrightarrow> \<not> fits (sint a - sint b)"
    unfolding xor_sign using bd by (auto simp: fits_def split: if_splits)
qed

text \<open>
  C29: the overflow tests are exact.  \<open>ADD\<close>, \<open>ADDI\<close> and \<open>SUB\<close> raise the overflow exception, without
  writing a register, if and only if the mathematical result does not fit in 32 bits, and otherwise
  write the mathematical result.
\<close>

theorem overflow_exact:
  "(let a = sint (reg m (rs i)); b = sint (reg m (rt i)); c = sint (extra i);
        result = (\<lambda>r s. if fits s then Inr (Break (set_reg m r (word_of_int s)) pc 0 0)
                        else raise m OverflowException 0) in
    execute m (i\<lparr>opCode := OP_ADD\<rparr>) pc = result (rd i) (a + b) \<and>
    execute m (i\<lparr>opCode := OP_ADDI\<rparr>) pc = result (rt i) (a + c) \<and>
    execute m (i\<lparr>opCode := OP_SUB\<rparr>) pc = result (rd i) (a - b))"
proof -
  note ab = add_overflow_check[of "reg m (rs i)" "reg m (rt i)"]
  have ac: "((reg m (rs i) XOR extra i) AND SIGN_BIT = 0 \<and> (extra i XOR (reg m (rs i) + extra i)) AND SIGN_BIT \<noteq> 0) \<longleftrightarrow>
      \<not> fits (sint (reg m (rs i)) + sint (extra i))"
    "reg m (rs i) + extra i = word_of_int (sint (reg m (rs i)) + sint (extra i))"
    using add_overflow_check(1,2)[of "extra i" "reg m (rs i)"]
    by (simp_all only: add.commute[of "extra i"] add.commute[of "sint (extra i)"] xor.commute[of "extra i" "reg m (rs i)"])
  let ?a = "reg m (rs i)" and ?b = "reg m (rt i)" and ?c = "extra i"
  have "execute m (i\<lparr>opCode := OP_ADD\<rparr>) pc =
      (if (?a XOR ?b) AND SIGN_BIT = 0 \<and> (?a XOR (?a + ?b)) AND SIGN_BIT \<noteq> 0 then raise m OverflowException 0
       else Inr (Break (set_reg m (rd i) (?a + ?b)) pc 0 0))"
    by (simp add: execute_def exec_add_def Let_def)
  moreover have "execute m (i\<lparr>opCode := OP_ADDI\<rparr>) pc =
      (if (?a XOR ?c) AND SIGN_BIT = 0 \<and> (?c XOR (?a + ?c)) AND SIGN_BIT \<noteq> 0 then raise m OverflowException 0
       else Inr (Break (set_reg m (rt i) (?a + ?c)) pc 0 0))"
    by (simp add: execute_def exec_add_def Let_def)
  moreover have "execute m (i\<lparr>opCode := OP_SUB\<rparr>) pc =
      (if (?a XOR ?b) AND SIGN_BIT \<noteq> 0 \<and> (?a XOR (?a - ?b)) AND SIGN_BIT \<noteq> 0 then raise m OverflowException 0
       else Inr (Break (set_reg m (rd i) (?a - ?b)) pc 0 0))"
    by (simp add: execute_def exec_defs Let_def)
  ultimately show ?thesis
    unfolding Let_def ab(1,3) ac(1) unfolding ab(2,4) ac(2) by simp
qed

section \<open>Unaligned accesses\<close>

lemma byte_masks:
  "(0xff :: 32 word) = mask 8" "(0xffff :: 32 word) = mask 16" "(0xffffff :: 32 word) = mask 24"
  "(0xffffff00 :: 32 word) = NOT (mask 8)" "(0xffff0000 :: 32 word) = NOT (mask 16)"
  "(0xff000000 :: 32 word) = NOT (mask 24)"
  by (simp_all add: mask_eq_exp_minus_1)

lemma byte_high: "8 \<le> k \<Longrightarrow> \<not> bit (w :: 8 word) k"
  using bit_imp_le_length[of w k] by auto

lemma bit_load32:
  assumes "j < 4" "k < 8"
  shows "bit (load32 mem a) (8 * j + k) \<longleftrightarrow> bit (mem (a + j)) k"
proof -
  from assms(1) consider "j = 0" | "j = 1" | "j = 2" | "j = 3" by linarith
  then show ?thesis
    using assms(2) by cases (simp_all add: load32_def bit_simps byte_high)
qed

lemma byte_index:
  assumes "n < LENGTH(32)"
  obtains j k where "n = 8 * j + k" "j < 4" "k < 8"
proof
  show "n = 8 * (n div 8) + n mod 8" "n div 8 < 4" "n mod 8 < 8" using assms by auto
qed

lemma unaligned_bits:
  assumes "j < 4" "k < 8" "b < 4"
  shows "bit (load32 mem (base + b)) (8 * j + k) =
     (if j + b < 4 then bit (load32 mem base) (8 * (j + b) + k)
      else bit (load32 mem (base + 4)) (8 * (j + b - 4) + k))"
  using assms bit_load32[of "j + b" k mem base] bit_load32[of "j + b - 4" k mem "base + 4"]
  by (simp add: bit_load32 add.assoc add.commute[of b])

text \<open>
  The pair \<open>LWR r, 0(a)\<close>; \<open>LWL r, 3(a)\<close> loads the unaligned little-endian word at \<open>a\<close>.  With \<open>b\<close> the
  position of \<open>a\<close> in its aligned word at \<open>base\<close>, merging the word at \<open>base\<close> and the word that holds
  byte \<open>a + 3\<close> gives the four bytes from \<open>a\<close> on, whatever the register held before.
\<close>

theorem unaligned_load:
  assumes "b < 4"
  shows "lwl_merge (int ((b + 3) mod 4))
       (lwr_merge (int b) old (load32 mem base)) (load32 mem (if b = 0 then base else base + 4)) =
     load32 mem (base + b)"
proof (rule bit_word_eqI)
  fix n
  assume "n < LENGTH(32)"
  then obtain j k where n: "n = 8 * j + k" "j < 4" "k < 8" by (rule byte_index)
  have "b = 0 \<or> b = 1 \<or> b = 2 \<or> b = 3" "j = 0 \<or> j = 1 \<or> j = 2 \<or> j = 3" using assms n(2) by auto
  then show "bit (lwl_merge (int ((b + 3) mod 4)) (lwr_merge (int b) old (load32 mem base))
      (load32 mem (if b = 0 then base else base + 4))) n = bit (load32 mem (base + b)) n"
    unfolding n(1) unaligned_bits[OF n(2,3) assms]
    using n(3) by (elim disjE) (simp_all add: lwl_merge_def lwr_merge_def bit_simps byte_masks)
qed

text \<open>The two merged stores as one function on memory.\<close>

definition store_pair :: "(nat \<Rightarrow> 8 word) \<Rightarrow> nat \<Rightarrow> nat \<Rightarrow> 32 word \<Rightarrow> nat \<Rightarrow> 8 word" where
  "store_pair mem base b v =
     (let mem1 = store32 mem base (swr_merge (int b) (load32 mem base) v);
          other = (if b = 0 then base else base + 4) in
      store32 mem1 other (swl_merge (int ((b + 3) mod 4)) (load32 mem1 other) v))"

lemma bit_store32:
  assumes "k < 8"
  shows "bit (store32 mem a v x) k = (if a \<le> x \<and> x < a + 4 then bit v (8 * (x - a) + k) else bit (mem x) k)"
proof (cases "a \<le> x \<and> x < a + 4")
  case True
  then obtain j where x: "x = a + j" "j < 4" by (auto simp: le_iff_add)
  then have "j = 0 \<or> j = 1 \<or> j = 2 \<or> j = 3" by auto
  with x(1) assms show ?thesis by (elim disjE) (simp_all add: store32_def bit_simps)
next
  case False
  then show ?thesis by (auto simp: store32_def)
qed

lemma bit_swr_merge:
  assumes "b < 4" "j < 4" "k < 8"
  shows "bit (swr_merge (int b) w v) (8 * j + k) = (if j < b then bit w (8 * j + k) else bit v (8 * (j - b) + k))"
proof -
  have "b = 0 \<or> b = 1 \<or> b = 2 \<or> b = 3" "j = 0 \<or> j = 1 \<or> j = 2 \<or> j = 3" using assms by auto
  then show ?thesis using assms(3) by (elim disjE) (simp_all add: swr_merge_def bit_simps byte_masks)
qed

lemma bit_swl_merge:
  assumes "b < 4" "j < 4" "k < 8"
  shows "bit (swl_merge (int b) w v) (8 * j + k) = (if j \<le> b then bit v (8 * (j + 3 - b) + k) else bit w (8 * j + k))"
proof -
  have "b = 0 \<or> b = 1 \<or> b = 2 \<or> b = 3" "j = 0 \<or> j = 1 \<or> j = 2 \<or> j = 3" using assms by auto
  then show ?thesis using assms(3) by (elim disjE) (simp_all add: swl_merge_def bit_simps byte_masks)
qed

lemma bit_store_pair:
  assumes "b < 4" "k < 8"
  shows "bit (store_pair mem base b v x) k =
     (if base + b \<le> x \<and> x < base + b + 4 then bit v (8 * (x - (base + b)) + k) else bit (mem x) k)"
proof -
  have w1: "bit (store32 mem base (swr_merge (int b) (load32 mem base) v) y) k =
      (if base + b \<le> y \<and> y < base + 4 then bit v (8 * (y - (base + b)) + k) else bit (mem y) k)" for y
  proof (cases "base \<le> y \<and> y < base + 4")
    case True
    then obtain j where j: "y = base + j" "j < 4" by (auto simp: le_iff_add)
    then show ?thesis
      using assms by (simp add: bit_store32 bit_swr_merge bit_load32)
  next
    case False
    then show ?thesis using assms by (auto simp: bit_store32)
  qed
  show ?thesis
  proof (cases "b = 0")
    case True
    then show ?thesis
      using assms w1[of x] by (simp add: store_pair_def Let_def bit_store32 swl_merge_def swr_merge_def)
  next
    case False
    let ?m1 = "store32 mem base (swr_merge (int b) (load32 mem base) v)"
    have eq: "store_pair mem base b v = store32 ?m1 (base + 4) (swl_merge (int (b - 1)) (load32 ?m1 (base + 4)) v)"
    proof -
      have "(b + 3) mod 4 = b - 1" using False assms(1) by (cases b) auto
      then show ?thesis using False by (simp add: store_pair_def Let_def)
    qed
    show ?thesis
    proof (cases "base + 4 \<le> x \<and> x < base + 8")
      case True
      then obtain j where j: "x = base + 4 + j" "j < 4" by (auto simp: le_iff_add)
      have "bit (store_pair mem base b v x) k = bit (swl_merge (int (b - 1)) (load32 ?m1 (base + 4)) v) (8 * j + k)"
        unfolding eq using j assms by (simp add: bit_store32)
      also have "\<dots> = (if j \<le> b - 1 then bit v (8 * (j + 3 - (b - 1)) + k) else bit (?m1 (base + 4 + j)) k)"
        using j assms by (simp add: bit_swl_merge bit_load32)
      also have "\<dots> = (if base + b \<le> x \<and> x < base + b + 4 then bit v (8 * (x - (base + b)) + k) else bit (mem x) k)"
      proof (cases "j \<le> b - 1")
        case True
        then have "j + 3 - (b - 1) = x - (base + b)" using False assms(1) j by auto
        with True False assms(1) j show ?thesis by auto
      next
        case False
        with \<open>b \<noteq> 0\<close> w1[of x] assms(1) j show ?thesis by auto
      qed
      finally show ?thesis .
    next
      case x: False
      then have "bit (store_pair mem base b v x) k = bit (?m1 x) k"
        unfolding eq using assms by (auto simp: bit_store32)
      with x w1[of x] assms(1) show ?thesis by auto
    qed
  qed
qed

text \<open>
  The pair \<open>SWR r, 0(a)\<close>; \<open>SWL r, 3(a)\<close> stores the unaligned little-endian word at \<open>a\<close>: the four
  bytes from \<open>a\<close> on are those of the register, and every other byte of the two aligned words keeps
  its value.
\<close>

theorem unaligned_store:
  assumes "b < 4"
  shows "load32 (store_pair mem base b v) (base + b) = v \<and>
     (\<forall>x. x < base + b \<or> base + b + 4 \<le> x \<longrightarrow> store_pair mem base b v x = mem x)"
proof (intro conjI allI impI)
  show "load32 (store_pair mem base b v) (base + b) = v"
  proof (rule bit_word_eqI)
    fix n
    assume "n < LENGTH(32)"
    then obtain j k where "n = 8 * j + k" "j < 4" "k < 8" by (rule byte_index)
    then show "bit (load32 (store_pair mem base b v) (base + b)) n = bit v n"
      using assms by (simp add: bit_load32 bit_store_pair)
  qed
  fix x
  assume "x < base + b \<or> base + b + 4 \<le> x"
  then show "store_pair mem base b v x = mem x"
    using assms by (intro bit_word_eqI) (auto simp: bit_store_pair)
qed

section \<open>Logical right shifts\<close>

text \<open>
  \<open>SRL\<close> and \<open>SRLV\<close> are not logical shifts.  They do what \<open>SRA\<close> and \<open>SRAV\<close> do, and on a negative
  operand, for every shift by 1 to 31 bits, the result differs from the logical shift.
\<close>

theorem SRL_shifts_in_sign:
  assumes "sint (reg m (rt i)) < 0" "0 < unat (extra i)" "unat (extra i) < 32"
  shows "execute m (i\<lparr>opCode := OP_SRL\<rparr>) pc = execute m (i\<lparr>opCode := OP_SRA\<rparr>) pc \<and>
     execute m (i\<lparr>opCode := OP_SRLV\<rparr>) pc = execute m (i\<lparr>opCode := OP_SRAV\<rparr>) pc \<and>
     (\<exists>v. execute m (i\<lparr>opCode := OP_SRL\<rparr>) pc = Inr (Break (set_reg m (rd i) v) pc 0 0) \<and>
          v \<noteq> drop_bit (unat (extra i)) (reg m (rt i)))"
proof -
  have "bit (reg m (rt i)) 31" using assms(1) bit_last_iff[of "reg m (rt i)"] by simp
  then have "bit (signed_drop_bit (unat (extra i)) (reg m (rt i))) 31 \<noteq> bit (drop_bit (unat (extra i)) (reg m (rt i))) 31"
    using assms(2,3) bit_imp_le_length[of "reg m (rt i)" "unat (extra i) + 31"] by (auto simp: bit_simps)
  then have "signed_drop_bit (unat (extra i)) (reg m (rt i)) \<noteq> drop_bit (unat (extra i)) (reg m (rt i))" by metis
  then show ?thesis by (auto simp: execute_def exec_defs Let_def)
qed

end
