(* ===== verification/Interrupts.thy ===== *)
theory Interrupts
  imports ListLib MachineMem
begin

text \<open>
  The interrupt simulation (\<^verbatim>\<open>machine/interrupt.h\<close>, \<^verbatim>\<open>machine/interrupt.cc\<close>, \<^verbatim>\<open>machine/stats.h\<close>) and
  the hardware timer with the software alarm (\<^verbatim>\<open>machine/timer.cc\<close>, \<^verbatim>\<open>threads/alarm.cc\<close>).

  A pending interrupt is an object with an identity (\<open>pid\<close>, the address that \<open>new\<close> returned); the
  list of pending interrupts is a sorted list at the level of sequences.  The callbacks of the
  devices are an argument of the operations that run them: their contract is the locale
  \<open>interrupt_handlers\<close>, whose laws the timer satisfies.  The loop of \<open>CheckIfDue\<close> has as
  fuel the number of pending interrupts; under the contract it never runs out, since a handler
  schedules only for the future and does not advance the clock.
\<close>

section \<open>State\<close>

datatype IntStatus = IntOff | IntOn

datatype MachineStatus = IdleMode | SystemMode | UserMode

datatype IntType = TimerInt | DiskInt | ConsoleWriteInt | ConsoleReadInt | NetworkSendInt | NetworkRecvInt

record 'cb PendingInterrupt =
  pid :: nat
  callOnInterrupt :: "'cb option"
  whenDue :: int
  inttype :: IntType

record 'cb Interrupt =
  level :: IntStatus
  pending :: "'cb PendingInterrupt list"
  inHandler :: bool
  yieldOnReturn :: bool
  status :: MachineStatus
  nextPid :: nat

record Statistics =
  totalTicks :: int
  idleTicks :: int
  systemTicks :: int
  userTicks :: int
  numDiskReads :: int
  numDiskWrites :: int
  numConsoleCharsRead :: int
  numConsoleCharsWritten :: int
  numPageFaults :: int
  numPacketsSent :: int
  numPacketsRecvd :: int

definition UserTick :: int where "UserTick = 1"
definition SystemTick :: int where "SystemTick = 10"
definition RotationTime :: int where "RotationTime = 500"
definition SeekTime :: int where "SeekTime = 500"
definition ConsoleTime :: int where "ConsoleTime = 100"
definition NetworkTime :: int where "NetworkTime = 100"
definition TimerTicks :: int where "TimerTicks = 100"

lemmas tick_defs = UserTick_def SystemTick_def RotationTime_def SeekTime_def ConsoleTime_def NetworkTime_def TimerTicks_def

text \<open>The part of the kernel the interrupt simulation sees; \<open>dev\<close> is the state of the devices.\<close>

record ('cb, 'd) sim =
  intr :: "'cb Interrupt"
  stats :: Statistics
  machine :: "Machine option"
  dev :: 'd

definition Statistics_new :: Statistics where
  "Statistics_new = \<lparr>totalTicks = 0, idleTicks = 0, systemTicks = 0, userTicks = 0, numDiskReads = 0, numDiskWrites = 0,
     numConsoleCharsRead = 0, numConsoleCharsWritten = 0, numPageFaults = 0, numPacketsSent = 0, numPacketsRecvd = 0\<rparr>"

definition PendingCompare :: "'cb PendingInterrupt \<Rightarrow> 'cb PendingInterrupt \<Rightarrow> int" where
  "PendingCompare x y = (if whenDue x < whenDue y then - 1 else if whenDue x > whenDue y then 1 else 0)"

definition Interrupt_new :: "'cb Interrupt" where
  "Interrupt_new = \<lparr>level = IntOff, pending = [], inHandler = False, yieldOnReturn = False, status = SystemMode, nextPid = 0\<rparr>"

section \<open>Operations\<close>

definition upd_intr :: "('cb Interrupt \<Rightarrow> 'cb Interrupt) \<Rightarrow> ('cb, 'd) sim \<Rightarrow> ('cb, 'd) sim" where
  "upd_intr f s = s\<lparr>intr := f (intr s)\<rparr>"

abbreviation now :: "('cb, 'd) sim \<Rightarrow> int" where
  "now s \<equiv> totalTicks (stats s)"

definition ChangeLevel :: "IntStatus \<Rightarrow> ('cb, 'd) sim \<Rightarrow> ('cb, 'd) sim" where
  "ChangeLevel lv s = upd_intr (level_update (\<lambda>_. lv)) s"

definition setStatus :: "MachineStatus \<Rightarrow> ('cb, 'd) sim \<Rightarrow> ('cb, 'd) sim" where
  "setStatus st s = upd_intr (status_update (\<lambda>_. st)) s"

definition YieldOnReturn :: "('cb, 'd) sim \<Rightarrow> ('cb, 'd) sim run" where
  "YieldOnReturn s = ASSERT (inHandler (intr s)) (Inr (upd_intr (yieldOnReturn_update (\<lambda>_. True)) s))"

definition Schedule :: "'cb \<Rightarrow> int \<Rightarrow> IntType \<Rightarrow> ('cb, 'd) sim \<Rightarrow> ('cb, 'd) sim run" where
  "Schedule toCall fromNow type s =
     (let when = now s + fromNow;
          toOccur = \<lparr>pid = nextPid (intr s), callOnInterrupt = Some toCall, whenDue = when, inttype = type\<rparr>;
          s = upd_intr (nextPid_update Suc) s in
      ASSERT (fromNow > 0)
       (bind_run (Insert PendingCompare (pending (intr s)) toOccur) (\<lambda>ps.
          Inr (upd_intr (pending_update (\<lambda>_. ps)) s))))"

text \<open>The \<open>do\<close> loop of \<open>CheckIfDue\<close>.\<close>

fun fire :: "nat \<Rightarrow> ('cb \<Rightarrow> ('cb, 'd) sim \<Rightarrow> ('cb, 'd) sim run) \<Rightarrow> ('cb, 'd) sim \<Rightarrow> ('cb, 'd) sim run" where
  "fire 0 call_back s = Inl Diverges"
| "fire (Suc n) call_back s =
     bind_run (RemoveFront (pending (intr s))) (\<lambda>(p, ps).
     let s = upd_intr (pending_update (\<lambda>_. ps)) s in
     case callOnInterrupt p of None \<Rightarrow> Inl Uninitialised
     | Some c \<Rightarrow>
         bind_run (call_back c s) (\<lambda>s.
         if pending (intr s) \<noteq> [] \<and> whenDue (hd (pending (intr s))) \<le> now s
         then fire n call_back s else Inr s))"

definition CheckIfDue ::
  "('cb \<Rightarrow> ('cb, 'd) sim \<Rightarrow> ('cb, 'd) sim run) \<Rightarrow> bool \<Rightarrow> ('cb, 'd) sim \<Rightarrow> (bool \<times> ('cb, 'd) sim) run" where
  "CheckIfDue call_back advanceClock s =
     ASSERT (level (intr s) = IntOff)
      (if pending (intr s) = [] then Inr (False, s)
       else bind_run (Front (pending (intr s))) (\<lambda>p.
         if whenDue p > now s \<and> \<not> advanceClock then Inr (False, s)
         else
           let st = stats s;
               s = (if whenDue p > now s
                    then s\<lparr>stats := st\<lparr>idleTicks := idleTicks st + (whenDue p - totalTicks st),
                                      totalTicks := whenDue p\<rparr>\<rparr>
                    else s) in
           bind_run (case machine s of None \<Rightarrow> Inr s
                     | Some m \<Rightarrow> bind_run (DelayedLoad m 0 0) (\<lambda>m. Inr (s\<lparr>machine := Some m\<rparr>))) (\<lambda>s.
           let s = upd_intr (inHandler_update (\<lambda>_. True)) s in
           bind_run (fire (length (pending (intr s))) call_back s) (\<lambda>s.
           Inr (True, upd_intr (inHandler_update (\<lambda>_. False)) s)))))"

text \<open>\<open>thread_yield\<close> is \<open>kernel->currentThread->Yield()\<close>.\<close>

definition OneTick ::
  "('cb \<Rightarrow> ('cb, 'd) sim \<Rightarrow> ('cb, 'd) sim run) \<Rightarrow> (('cb, 'd) sim \<Rightarrow> ('cb, 'd) sim run) \<Rightarrow> ('cb, 'd) sim \<Rightarrow>
     ('cb, 'd) sim run" where
  "OneTick call_back thread_yield s =
     (let oldStatus = status (intr s); st = stats s;
          s = s\<lparr>stats := (if oldStatus = SystemMode
                         then st\<lparr>totalTicks := totalTicks st + SystemTick, systemTicks := systemTicks st + SystemTick\<rparr>
                         else st\<lparr>totalTicks := totalTicks st + UserTick, userTicks := userTicks st + UserTick\<rparr>)\<rparr> in
      bind_run (CheckIfDue call_back False (ChangeLevel IntOff s)) (\<lambda>(_, s).
      let s = ChangeLevel IntOn s in
      if yieldOnReturn (intr s) then
        bind_run (thread_yield (setStatus SystemMode (upd_intr (yieldOnReturn_update (\<lambda>_. False)) s))) (\<lambda>s.
        Inr (setStatus oldStatus s))
      else Inr s))"

definition SetLevel ::
  "('cb \<Rightarrow> ('cb, 'd) sim \<Rightarrow> ('cb, 'd) sim run) \<Rightarrow> (('cb, 'd) sim \<Rightarrow> ('cb, 'd) sim run) \<Rightarrow> IntStatus \<Rightarrow>
     ('cb, 'd) sim \<Rightarrow> (IntStatus \<times> ('cb, 'd) sim) run" where
  "SetLevel call_back thread_yield lv s =
     (let old = level (intr s) in
      ASSERT (lv = IntOff \<or> \<not> inHandler (intr s))
       (let s = ChangeLevel lv s in
        bind_run (if lv = IntOn \<and> old = IntOff then OneTick call_back thread_yield s else Inr s) (\<lambda>s.
        Inr (old, s))))"

text \<open>\<open>Idle\<close> returns to the scheduler, or halts the machine.\<close>

datatype 's idle_result = Resumed 's | Halted 's

definition Idle ::
  "('cb \<Rightarrow> ('cb, 'd) sim \<Rightarrow> ('cb, 'd) sim run) \<Rightarrow> ('cb, 'd) sim \<Rightarrow> ('cb, 'd) sim idle_result run" where
  "Idle call_back s =
     bind_run (CheckIfDue call_back True (setStatus IdleMode s)) (\<lambda>(fired, s).
       if fired then Inr (Resumed (setStatus SystemMode s)) else Inr (Halted s))"

section \<open>The invariant of the interrupt queue\<close>

text \<open>The register number of the load in the delay slot is that of a general register.\<close>

definition load_ok :: "Machine option \<Rightarrow> bool" where
  "load_ok mm \<longleftrightarrow> (case mm of None \<Rightarrow> True | Some m \<Rightarrow> uint (registers m LoadReg) < 32)"

lemma load_okD: "load_ok mm \<Longrightarrow> mm = Some m \<Longrightarrow> uint (registers m LoadReg) < 32"
  by (simp add: load_ok_def)

definition intr_ok :: "'cb Interrupt \<Rightarrow> bool" where
  [inv_defs]: "intr_ok i \<longleftrightarrow>
     sorted_wrt (\<lambda>x y. PendingCompare x y \<le> 0) (pending i) \<and> distinct (map pid (pending i)) \<and>
     (\<forall>p \<in> set (pending i). pid p < nextPid i \<and> callOnInterrupt p \<noteq> None)"

interpretation pending_cmp: comparison PendingCompare
  by unfold_locales (auto simp: PendingCompare_def split: if_splits)

lemma PendingCompare_le [simp]: "PendingCompare x y \<le> 0 \<longleftrightarrow> whenDue x \<le> whenDue y"
  by (auto simp: PendingCompare_def)

text \<open>
  The queue only gains interrupts that are due after the present, with new identities.
\<close>

definition only_later :: "int \<Rightarrow> 'cb Interrupt \<Rightarrow> 'cb Interrupt \<Rightarrow> bool" where
  "only_later t i i' \<longleftrightarrow> set (pending i) \<subseteq> set (pending i') \<and> nextPid i \<le> nextPid i' \<and>
     (\<forall>p \<in> set (pending i') - set (pending i). t < whenDue p \<and> nextPid i \<le> pid p)"

lemma only_later_refl [simp]: "only_later t i i"
  by (simp add: only_later_def)

lemma only_later_trans: "only_later t i j \<Longrightarrow> only_later t j k \<Longrightarrow> only_later t i k"
  unfolding only_later_def by (metis DiffI DiffD1 DiffD2 dual_order.trans subset_iff)

lemma Schedule_ok:
  assumes "intr_ok (intr s)" "0 < fromNow"
  shows "\<exists>s'. Schedule c fromNow ty s = Inr s' \<and> intr_ok (intr s') \<and> only_later (now s) (intr s) (intr s') \<and>
     stats s' = stats s \<and> machine s' = machine s \<and> dev s' = dev s \<and>
     intr s' = (intr s)\<lparr>nextPid := Suc (nextPid (intr s)),
                       pending := sorted_ins PendingCompare \<lparr>pid = nextPid (intr s), callOnInterrupt = Some c,
                         whenDue = now s + fromNow, inttype = ty\<rparr> (pending (intr s))\<rparr>"
proof -
  let ?p = "\<lparr>pid = nextPid (intr s), callOnInterrupt = Some c, whenDue = now s + fromNow, inttype = ty\<rparr>"
  let ?ps = "pending (intr s)"
  have fresh: "?p \<notin> set ?ps" "pid ?p \<notin> pid ` set ?ps" using assms(1) by (force simp: intr_ok_def)+
  let ?i = "(intr s)\<lparr>nextPid := Suc (nextPid (intr s)), pending := sorted_ins PendingCompare ?p ?ps\<rparr>"
  have ins: "Schedule c fromNow ty s = Inr (s\<lparr>intr := ?i\<rparr>)"
    using fresh assms(2) by (simp add: Schedule_def Insert_def upd_intr_def Let_def)
  have dist: "distinct (map pid (sorted_ins PendingCompare q qs))"
    if "distinct (map pid qs)" "pid q \<notin> pid ` set qs" for q :: "'a PendingInterrupt" and qs
    using that by (induction qs) auto
  have "intr_ok ?i"
    using assms(1) pending_cmp.ordered_sorted_ins[of ?ps ?p] dist[of ?ps ?p] fresh(2)
    by (auto simp: intr_ok_def less_Suc_eq)
  moreover have "only_later (now s) (intr s) ?i" using assms(2) by (auto simp: only_later_def)
  ultimately show ?thesis using ins by simp
qed

section \<open>The contract of the handlers, and what the simulation guarantees under it\<close>

text \<open>
  What a handler may do: it runs to its end, with interrupts off and \<open>inHandler\<close> set; it leaves these,
  the mode, the clock and the machine registers alone, and adds only later interrupts.  \<open>dinv\<close> is the
  invariant of the devices.
\<close>

definition handler_step :: "('cb, 'd) sim \<Rightarrow> ('cb, 'd) sim \<Rightarrow> bool" where
  "handler_step s s' \<longleftrightarrow> now s' = now s \<and> machine s' = machine s \<and>
     level (intr s') = level (intr s) \<and> inHandler (intr s') = inHandler (intr s) \<and>
     status (intr s') = status (intr s) \<and> intr_ok (intr s') \<and> only_later (now s) (intr s) (intr s')"

locale interrupt_handlers =
  fixes call_back :: "'cb \<Rightarrow> ('cb, 'd) sim \<Rightarrow> ('cb, 'd) sim run"
    and dinv :: "('cb, 'd) sim \<Rightarrow> bool"
  assumes handler_ok: "intr_ok (intr s) \<Longrightarrow> level (intr s) = IntOff \<Longrightarrow> inHandler (intr s) \<Longrightarrow>
      dinv (s\<lparr>intr := (intr s)\<lparr>pending := p # pending (intr s)\<rparr>\<rparr>) \<Longrightarrow> callOnInterrupt p = Some c \<Longrightarrow>
      \<exists>s'. call_back c s = Inr s' \<and> handler_step s s' \<and> dinv s'"
    and dinv_frame: "dinv s \<Longrightarrow> dev s' = dev s \<Longrightarrow> pending (intr s') = pending (intr s) \<Longrightarrow>
      nextPid (intr s') = nextPid (intr s) \<Longrightarrow> dinv s'"
begin

text \<open>The loop ends, and afterwards nothing is due.\<close>

lemma fire_ok:
  assumes "intr_ok (intr s)" "level (intr s) = IntOff" "inHandler (intr s)" "dinv s"
    "pending (intr s) \<noteq> []" "whenDue (hd (pending (intr s))) \<le> now s"
    "length (filter (\<lambda>p. whenDue p \<le> now s) (pending (intr s))) \<le> n"
  shows "\<exists>s'. fire n call_back s = Inr s' \<and> now s' = now s \<and> machine s' = machine s \<and>
     level (intr s') = IntOff \<and> inHandler (intr s') \<and> status (intr s') = status (intr s) \<and>
     intr_ok (intr s') \<and> dinv s' \<and> (\<forall>p \<in> set (pending (intr s')). now s < whenDue p) \<and>
     (\<forall>p \<in> set (pending (intr s)). now s < whenDue p \<longrightarrow> p \<in> set (pending (intr s')))"
  using assms
proof (induction n arbitrary: s)
  case 0
  then show ?case by (cases "pending (intr s)") auto
next
  case (Suc n)
  from Suc.prems(5) obtain p ps where ps: "pending (intr s) = p # ps" by (cases "pending (intr s)") auto
  then obtain c where c: "callOnInterrupt p = Some c" using Suc.prems(1) by (auto simp: intr_ok_def)
  let ?s1 = "s\<lparr>intr := (intr s)\<lparr>pending := ps\<rparr>\<rparr>"
  have ok1: "intr_ok (intr ?s1)" using Suc.prems(1) ps by (auto simp: intr_ok_def)
  have "dinv (?s1\<lparr>intr := (intr ?s1)\<lparr>pending := p # pending (intr ?s1)\<rparr>\<rparr>)"
    using Suc.prems(4) by (rule dinv_frame) (simp_all add: ps)
  from handler_ok[OF ok1 _ _ this c] Suc.prems(2,3) obtain s2 where
    s2: "call_back c ?s1 = Inr s2" "handler_step ?s1 s2" "dinv s2" by auto
  then have h: "now s2 = now s" "machine s2 = machine s" "level (intr s2) = IntOff" "inHandler (intr s2)"
    "status (intr s2) = status (intr s)" "intr_ok (intr s2)" "only_later (now s) (intr ?s1) (intr s2)"
    using Suc.prems(2,3) by (auto simp: handler_step_def)
  have step: "fire (Suc n) call_back s =
      (if pending (intr s2) \<noteq> [] \<and> whenDue (hd (pending (intr s2))) \<le> now s2 then fire n call_back s2 else Inr s2)"
    using ps c s2(1) by (simp add: RemoveFront_def upd_intr_def)
  have keep: "q \<in> set (pending (intr s2))" if "q \<in> set (pending (intr s))" "now s < whenDue q" for q
    using that ps Suc.prems(6) h(7) by (auto simp: only_later_def)
  show ?case
  proof (cases "pending (intr s2) \<noteq> [] \<and> whenDue (hd (pending (intr s2))) \<le> now s2")
    case False
    have late: "now s < whenDue q" if "q \<in> set (pending (intr s2))" for q
      using False that h(1,6) by (cases "pending (intr s2)") (auto simp: intr_ok_def)
    have "fire (Suc n) call_back s = Inr s2" unfolding step by (rule if_not_P[OF False])
    with h(1-6) keep late s2(3) show ?thesis by blast
  next
    case True
    have "set (filter (\<lambda>p. whenDue p \<le> now s) (pending (intr s2))) \<subseteq> set (filter (\<lambda>p. whenDue p \<le> now s) ps)"
      using h(7) by (auto simp: only_later_def dest: leD)
    moreover have "distinct (filter (\<lambda>p. whenDue p \<le> now s) (pending (intr s2)))"
      using h(6) by (auto simp: intr_ok_def distinct_map)
    ultimately have "length (filter (\<lambda>p. whenDue p \<le> now s2) (pending (intr s2))) \<le> length (filter (\<lambda>p. whenDue p \<le> now s) ps)"
      unfolding h(1) by (metis card_length card_mono distinct_card finite_set order_trans)
    also have "\<dots> \<le> n" using Suc.prems(6,7) ps by simp
    finally have le: "length (filter (\<lambda>p. whenDue p \<le> now s2) (pending (intr s2))) \<le> n" .
    have "fire (Suc n) call_back s = fire n call_back s2" unfolding step by (rule if_P[OF True])
    with Suc.IH[OF h(6,3,4) s2(3) _ _ le] True keep show ?thesis unfolding h(1,2,5) by metis
  qed
qed

lemma check_ok:
  assumes "intr_ok (intr s)" "level (intr s) = IntOff" "dinv s"
    "\<And>m. machine s = Some m \<Longrightarrow> uint (registers m LoadReg) < 32"
  shows "\<exists>b s'. CheckIfDue call_back adv s = Inr (b, s') \<and> intr_ok (intr s') \<and> dinv s' \<and> level (intr s') = IntOff \<and>
     status (intr s') = status (intr s) \<and> (inHandler (intr s') \<longrightarrow> inHandler (intr s)) \<and>
     (b \<longleftrightarrow> pending (intr s) \<noteq> [] \<and> (adv \<or> whenDue (hd (pending (intr s))) \<le> now s)) \<and>
     now s' = (if b then max (now s) (whenDue (hd (pending (intr s)))) else now s) \<and>
     (\<forall>p \<in> set (pending (intr s)). now s' < whenDue p \<longrightarrow> p \<in> set (pending (intr s'))) \<and>
     (\<not> adv \<or> b \<longrightarrow> (\<forall>p \<in> set (pending (intr s')). now s' < whenDue p)) \<and>
     (\<forall>m. machine s' = Some m \<longrightarrow> uint (registers m LoadReg) < 32) \<and> (machine s' = None \<longleftrightarrow> machine s = None)"
proof (cases "pending (intr s)")
  case Nil
  with assms show ?thesis by (auto simp: CheckIfDue_def)
next
  case (Cons p ps)
  show ?thesis
  proof (cases "whenDue p > now s \<and> \<not> adv")
    case True
    then have "CheckIfDue call_back adv s = Inr (False, s)"
      using assms(2) Cons by (simp add: CheckIfDue_def Front_def)
    moreover have "\<forall>q \<in> set (pending (intr s)). now s < whenDue q"
      using True Cons assms(1) by (auto simp: intr_ok_def)
    ultimately show ?thesis using True Cons assms by (intro exI[of _ False] exI[of _ s]) simp
  next
    case False
    define s0 where "s0 = (if whenDue p > now s
      then s\<lparr>stats := (stats s)\<lparr>idleTicks := idleTicks (stats s) + (whenDue p - now s), totalTicks := whenDue p\<rparr>\<rparr> else s)"
    have s0: "intr s0 = intr s" "machine s0 = machine s" "dev s0 = dev s" "now s0 = max (now s) (whenDue p)"
      by (simp_all add: s0_def)
    define F where "F = (case machine s of None \<Rightarrow> Inr None | Some m \<Rightarrow> bind_run (DelayedLoad m 0 0) (\<lambda>m. Inr (Some m)))"
    have "\<exists>mm. F = Inr mm \<and>
        (mm = None \<longleftrightarrow> machine s = None) \<and> (\<forall>m. mm = Some m \<longrightarrow> uint (registers m LoadReg) < 32)"
    proof (cases "machine s")
      case (Some m)
      have "sint (registers m LoadReg) = uint (registers m LoadReg)"
        using assms(4)[OF Some] by (simp add: sint_uint small_signed)
      then show ?thesis using assms(4)[OF Some] Some
        by (auto simp: F_def DelayedLoad_def NumTotalRegs_def LoadReg_def LoadValueReg_def Let_def)
    qed (simp add: F_def)
    then obtain mm where "F = Inr mm \<and> (mm = None \<longleftrightarrow> machine s = None) \<and>
        (\<forall>m. mm = Some m \<longrightarrow> uint (registers m LoadReg) < 32)" by (rule exE)
    then have mm: "F = Inr mm" "mm = None \<longleftrightarrow> machine s = None" "\<And>m. mm = Some m \<Longrightarrow> uint (registers m LoadReg) < 32"
      by simp_all
    let ?s = "s0\<lparr>machine := mm, intr := (intr s)\<lparr>inHandler := True\<rparr>\<rparr>"
    have t: "now ?s = max (now s) (whenDue p)" using s0 by simp
    have ok: "intr_ok (intr ?s)" using assms(1) by (simp add: intr_ok_def)
    have dv: "dinv ?s" using assms(3) by (rule dinv_frame) (simp_all add: s0)
    have fuel: "length (filter (\<lambda>q. whenDue q \<le> now ?s) (pending (intr ?s))) \<le> length (pending (intr ?s))" by simp
    have due: "pending (intr ?s) \<noteq> []" "whenDue (hd (pending (intr ?s))) \<le> now ?s" using Cons t by simp_all
    from fire_ok[OF ok _ _ dv due fuel] assms(2) obtain s' where
      s': "fire (length (pending (intr ?s))) call_back ?s = Inr s'" "now s' = now ?s" "machine s' = mm"
        "level (intr s') = IntOff" "status (intr s') = status (intr s)" "intr_ok (intr s')" "dinv s'"
        "\<forall>q \<in> set (pending (intr s')). now ?s < whenDue q"
        "\<forall>q \<in> set (pending (intr s)). now ?s < whenDue q \<longrightarrow> q \<in> set (pending (intr s'))" by auto
    let ?r = "upd_intr (inHandler_update (\<lambda>_. False)) s'"
    have "CheckIfDue call_back adv s =
        bind_run (case machine s0 of None \<Rightarrow> Inr s0
                  | Some m \<Rightarrow> bind_run (DelayedLoad m 0 0) (\<lambda>m. Inr (s0\<lparr>machine := Some m\<rparr>))) (\<lambda>s.
        let s = upd_intr (inHandler_update (\<lambda>_. True)) s in
        bind_run (fire (length (pending (intr s))) call_back s) (\<lambda>s.
        Inr (True, upd_intr (inHandler_update (\<lambda>_. False)) s)))"
      unfolding CheckIfDue_def using False assms(2) Cons if_not_P[OF False]
      by (simp only: Front_def list.sel list.distinct if_False ASSERT_True bind_run_Inr Let_def s0_def[symmetric] simp_thms)
    also have "\<dots> = Inr (True, ?r)"
    proof (cases "machine s")
      case None
      then have "mm = None" using mm(1) by (simp add: F_def)
      then have e: "?s = s0\<lparr>intr := (intr s)\<lparr>inHandler := True\<rparr>\<rparr>" using s0(2) None by (cases s0) simp
      show ?thesis using None s0 s'(1)[unfolded e] by (simp add: upd_intr_def del: fire.simps)
    next
      case (Some m)
      then obtain m1 where "DelayedLoad m 0 0 = Inr m1" "mm = Some m1" using mm(1) by (auto simp: F_def run_simps)
      then show ?thesis using Some s0 s'(1) by (simp add: upd_intr_def del: fire.simps)
    qed
    finally have "CheckIfDue call_back adv s = Inr (True, ?r)" .
    moreover have "dinv ?r" using s'(7) by (rule dinv_frame) (simp_all add: upd_intr_def)
    moreover have "intr_ok (intr ?r)" using s'(6) by (simp add: intr_ok_def upd_intr_def)
    moreover have "now ?r = max (now s) (whenDue p)" "pending (intr ?r) = pending (intr s')"
      "level (intr ?r) = IntOff" "status (intr ?r) = status (intr s)" "\<not> inHandler (intr ?r)" "machine ?r = mm"
      using s'(2-5) t by (simp_all add: upd_intr_def)
    ultimately obtain r where r: "CheckIfDue call_back adv s = Inr (True, r)" "dinv r" "intr_ok (intr r)"
      "now r = max (now s) (whenDue p)" "pending (intr r) = pending (intr s')" "level (intr r) = IntOff"
      "status (intr r) = status (intr s)" "\<not> inHandler (intr r)" "machine r = mm" by metis
    have late: "\<forall>q \<in> set (pending (intr r)). now r < whenDue q"
      "\<forall>q \<in> set (pending (intr s)). now r < whenDue q \<longrightarrow> q \<in> set (pending (intr r))"
      using s'(8,9) unfolding t r(4,5) by blast+
    have mr: "\<forall>m. machine r = Some m \<longrightarrow> uint (registers m LoadReg) < 32" "machine r = None \<longleftrightarrow> machine s = None"
      using mm(2,3) r(9) by simp_all
    have hd: "pending (intr s) \<noteq> [] \<and> (adv \<or> whenDue (hd (pending (intr s))) \<le> now s)"
      "now r = max (now s) (whenDue (hd (pending (intr s))))"
      using False Cons r(4) by auto
    show ?thesis
      by (intro exI[of _ True] exI[of _ r] conjI; (fact | use r(8) late(1) hd in simp))
  qed
qed

end

section \<open>The timer and the alarm\<close>

text \<open>
  The timer's random delays come from the host's generator: \<open>rand\<close> is the sequence of its values.
\<close>

datatype timer_obj = TimerObj

record Timer =
  randomize :: bool
  disable :: bool
  rand :: "nat \<Rightarrow> 32 word"
  randPos :: nat

type_synonym tsim = "(timer_obj, Timer) sim"

definition Timer_delay :: "Timer \<Rightarrow> int" where
  "Timer_delay t = (if randomize t then 1 + uint (rand t (randPos t)) mod (TimerTicks * 2) else TimerTicks)"

definition Timer_SetInterrupt :: "tsim \<Rightarrow> tsim run" where
  "Timer_SetInterrupt s =
     (if \<not> disable (dev s) then
        let t = dev s; delay = Timer_delay t;
            s = (if randomize t then s\<lparr>dev := t\<lparr>randPos := Suc (randPos t)\<rparr>\<rparr> else s) in
        Schedule TimerObj delay TimerInt s
      else Inr s)"

definition Timer_Disable :: "tsim \<Rightarrow> tsim" where
  "Timer_Disable s = s\<lparr>dev := (dev s)\<lparr>disable := True\<rparr>\<rparr>"

definition Timer_new :: "bool \<Rightarrow> (nat \<Rightarrow> 32 word) \<Rightarrow> tsim \<Rightarrow> tsim run" where
  "Timer_new doRandom r s =
     Timer_SetInterrupt (s\<lparr>dev := \<lparr>randomize = doRandom, disable = False, rand = r, randPos = 0\<rparr>\<rparr>)"

definition Alarm_CallBack :: "tsim \<Rightarrow> tsim run" where
  "Alarm_CallBack s = (if status (intr s) \<noteq> IdleMode then YieldOnReturn s else Inr s)"

fun Timer_CallBack :: "timer_obj \<Rightarrow> tsim \<Rightarrow> tsim run" where
  "Timer_CallBack TimerObj s = bind_run (Alarm_CallBack s) Timer_SetInterrupt"

text \<open>An enabled timer always has an interrupt scheduled.\<close>

definition armed :: "tsim \<Rightarrow> bool" where
  [inv_defs]: "armed s \<longleftrightarrow> (\<not> disable (dev s) \<longrightarrow> (\<exists>p \<in> set (pending (intr s)). inttype p = TimerInt))"

lemma Timer_delay_pos: "0 < Timer_delay t"
proof -
  have "0 < 1 + uint (rand t (randPos t)) mod (TimerTicks * 2)" by (simp add: TimerTicks_def add_pos_nonneg)
  then show ?thesis by (simp add: Timer_delay_def TimerTicks_def)
qed

lemma SetInterrupt_ok:
  assumes "intr_ok (intr s)"
  shows "\<exists>s'. Timer_SetInterrupt s = Inr s' \<and> intr_ok (intr s') \<and> only_later (now s) (intr s) (intr s') \<and> armed s' \<and>
     stats s' = stats s \<and> machine s' = machine s \<and> level (intr s') = level (intr s) \<and>
     inHandler (intr s') = inHandler (intr s) \<and> status (intr s') = status (intr s) \<and> disable (dev s') = disable (dev s)"
proof (cases "disable (dev s)")
  case True
  with assms show ?thesis by (simp add: Timer_SetInterrupt_def armed_def)
next
  case False
  define s0 where "s0 = (if randomize (dev s) then s\<lparr>dev := (dev s)\<lparr>randPos := Suc (randPos (dev s))\<rparr>\<rparr> else s)"
  have s0: "intr s0 = intr s" "stats s0 = stats s" "machine s0 = machine s" "disable (dev s0) = disable (dev s)"
    by (simp_all add: s0_def)
  have ok: "intr_ok (intr s0)" using assms s0(1) by simp
  from Schedule_ok[OF ok Timer_delay_pos[of "dev s"], of TimerObj TimerInt] obtain s' where
    s': "Schedule TimerObj (Timer_delay (dev s)) TimerInt s0 = Inr s'" "intr_ok (intr s')"
      "only_later (now s0) (intr s0) (intr s')" "stats s' = stats s0" "machine s' = machine s0" "dev s' = dev s0"
      "intr s' = (intr s0)\<lparr>nextPid := Suc (nextPid (intr s0)),
        pending := sorted_ins PendingCompare \<lparr>pid = nextPid (intr s0), callOnInterrupt = Some TimerObj,
          whenDue = now s0 + Timer_delay (dev s), inttype = TimerInt\<rparr> (pending (intr s0))\<rparr>"
    by blast
  have "Timer_SetInterrupt s = Inr s'" using False s'(1) by (simp add: Timer_SetInterrupt_def Let_def s0_def)
  moreover have "armed s'" using s'(7) by (simp add: armed_def)
  moreover have "level (intr s') = level (intr s)" "inHandler (intr s') = inHandler (intr s)"
    "status (intr s') = status (intr s)" using s'(7) s0(1) by simp_all
  ultimately show ?thesis using s'(2-6) s0 by (intro exI[of _ s']) simp
qed

interpretation timer_int: interrupt_handlers Timer_CallBack armed
proof
  fix s :: tsim and p :: "timer_obj PendingInterrupt" and c
  assume a: "intr_ok (intr s)" "level (intr s) = IntOff" "inHandler (intr s)"
  have "\<exists>s1. Alarm_CallBack s = Inr s1 \<and> intr_ok (intr s1) \<and> stats s1 = stats s \<and> machine s1 = machine s \<and> dev s1 = dev s \<and>
      level (intr s1) = level (intr s) \<and> inHandler (intr s1) = inHandler (intr s) \<and> status (intr s1) = status (intr s) \<and>
      pending (intr s1) = pending (intr s) \<and> nextPid (intr s1) = nextPid (intr s)"
    using a by (simp add: Alarm_CallBack_def YieldOnReturn_def upd_intr_def intr_ok_def)
  then obtain s1 where s1: "Alarm_CallBack s = Inr s1" "intr_ok (intr s1)" "stats s1 = stats s" "machine s1 = machine s"
    "level (intr s1) = level (intr s)" "inHandler (intr s1) = inHandler (intr s)" "status (intr s1) = status (intr s)"
    "pending (intr s1) = pending (intr s)" "nextPid (intr s1) = nextPid (intr s)" by blast
  from SetInterrupt_ok[OF s1(2)] obtain s2 where
    s2: "Timer_SetInterrupt s1 = Inr s2" "intr_ok (intr s2)" "only_later (now s1) (intr s1) (intr s2)" "armed s2"
      "stats s2 = stats s1" "machine s2 = machine s1" "level (intr s2) = level (intr s1)"
      "inHandler (intr s2) = inHandler (intr s1)" "status (intr s2) = status (intr s1)" by blast
  have "only_later (now s) (intr s) (intr s2)" using s2(3) s1(3,8,9) by (simp add: only_later_def)
  then have "handler_step s s2" using s1 s2 by (simp add: handler_step_def)
  with s1(1) s2(1,4) show "\<exists>s'. Timer_CallBack c s = Inr s' \<and> handler_step s s' \<and> armed s'"
    by (cases c) simp
qed (auto simp: armed_def)


definition sim_new :: "bool \<Rightarrow> (nat \<Rightarrow> 32 word) \<Rightarrow> tsim" where
  "sim_new doRandom r = \<lparr>intr = Interrupt_new, stats = Statistics_new, machine = None,
     dev = \<lparr>randomize = doRandom, disable = False, rand = r, randPos = 0\<rparr>\<rparr>"

lemma Timer_new_armed:
  "\<exists>s. Timer_new doRandom r (sim_new doRandom r) = Inr s \<and> intr_ok (intr s) \<and> level (intr s) = IntOff \<and> armed s \<and> load_ok (machine s)"
proof -
  have "intr_ok (intr (sim_new doRandom r))" by (simp add: sim_new_def Interrupt_new_def intr_ok_def)
  moreover have "level (intr (sim_new doRandom r)) = IntOff" "machine (sim_new doRandom r) = None"
    by (simp_all add: sim_new_def Interrupt_new_def)
  moreover have "(sim_new doRandom r)\<lparr>dev := \<lparr>randomize = doRandom, disable = False, rand = r, randPos = 0\<rparr>\<rparr> = sim_new doRandom r"
    by (simp add: sim_new_def)
  ultimately show ?thesis using SetInterrupt_ok[of "sim_new doRandom r"] by (auto simp: Timer_new_def load_ok_def)
qed




end
