(* ===== verification/Threads.thy ===== *)
theory Threads
  imports Interrupts
begin

text \<open>
  Threads, the scheduler and semaphores (\<^verbatim>\<open>threads/thread.cc\<close>, \<^verbatim>\<open>threads/scheduler.cc\<close>,
  \<^verbatim>\<open>threads/synch.cc\<close>).

  Control changes hands only in \<open>SWITCH\<close>.  The code between two switches runs atomically here, and a
  thread that was switched away keeps, as its continuation, where in \<open>Yield\<close>, \<open>P\<close> or \<open>ThreadRoot\<close> it
  will go on.  The mode of the kernel says what the current thread does: it executes its own code, it
  was just switched to and has to resume its continuation, or it is in the loop of \<open>Sleep\<close>,
  waiting for a thread to become ready.

  The ticks that \<open>SetLevel\<close> causes when it enables interrupts are steps of their own in \<open>kstep\<close>: an
  interrupt handler runs \<open>V\<close> on some semaphore, or makes the current thread yield.  Handlers run
  when interrupts are on or in the idle loop of \<open>Sleep\<close>, as in \<open>Interrupts\<close>.
\<close>

section \<open>State\<close>

datatype ThreadStatus = JUST_CREATED | RUNNING | READY | BLOCKED

datatype continuation = Unstarted | AtBegin | InYield IntStatus | InP nat IntStatus | InFinish

record Thread =
  tstatus :: ThreadStatus
  cont :: continuation
  userRegisters :: "nat \<Rightarrow> 32 word"
  space :: "nat option"

record Semaphore =
  semValue :: int
  semQueue :: "nat list"

datatype kmode = Executing | Resuming | Sleeping bool

record kernel =
  currentThread :: nat
  kmode :: kmode
  klevel :: IntStatus
  threads :: "nat \<Rightarrow> Thread option"
  readyList :: "nat list"
  toBeDestroyed :: "nat option"
  sems :: "nat \<Rightarrow> Semaphore option"
  mregs :: "nat \<Rightarrow> 32 word"
  mspace :: "nat option"

definition upd_thread :: "nat \<Rightarrow> (Thread \<Rightarrow> Thread) \<Rightarrow> kernel \<Rightarrow> kernel run" where
  "upd_thread t f k = bind_run (deref (threads k t)) (\<lambda>th. Inr (k\<lparr>threads := (threads k)(t \<mapsto> f th)\<rparr>))"

definition with_sem :: "nat \<Rightarrow> kernel \<Rightarrow> (Semaphore \<Rightarrow> 'a run) \<Rightarrow> 'a run" where
  "with_sem s k f = bind_run (deref (sems k s)) f"

definition set_sem :: "nat \<Rightarrow> Semaphore \<Rightarrow> kernel \<Rightarrow> kernel" where
  "set_sem s sm k = k\<lparr>sems := (sems k)(s \<mapsto> sm)\<rparr>"

definition set_level :: "IntStatus \<Rightarrow> kernel \<Rightarrow> kernel" where
  "set_level lv k = k\<lparr>klevel := lv\<rparr>"

section \<open>Scheduler\<close>

definition ReadyToRun :: "nat \<Rightarrow> kernel \<Rightarrow> kernel run" where
  "ReadyToRun t k =
     ASSERT (klevel k = IntOff)
      (bind_run (upd_thread t (tstatus_update (\<lambda>_. READY)) k) (\<lambda>k.
       bind_run (Append (readyList k) t) (\<lambda>r. Inr (k\<lparr>readyList := r\<rparr>))))"

definition FindNextToRun :: "kernel \<Rightarrow> (nat option \<times> kernel) run" where
  "FindNextToRun k =
     ASSERT (klevel k = IntOff)
      (if readyList k = [] then Inr (None, k)
       else bind_run (RemoveFront (readyList k)) (\<lambda>(t, r). Inr (Some t, k\<lparr>readyList := r\<rparr>)))"

text \<open>The destructor of \<open>Thread\<close>; thread 0 is the main thread.\<close>

definition Thread_delete :: "nat \<Rightarrow> kernel \<Rightarrow> kernel run" where
  "Thread_delete t k =
     bind_run (deref (threads k t)) (\<lambda>_.
     ASSERT (t = 0 \<or> t \<noteq> currentThread k) (Inr (k\<lparr>threads := (threads k)(t := None)\<rparr>)))"

definition CheckToBeDestroyed :: "kernel \<Rightarrow> kernel run" where
  "CheckToBeDestroyed k =
     (case toBeDestroyed k of None \<Rightarrow> Inr k
      | Some t \<Rightarrow> bind_run (Thread_delete t k) (\<lambda>k. Inr (k\<lparr>toBeDestroyed := None\<rparr>)))"

definition SaveUserState :: "nat \<Rightarrow> kernel \<Rightarrow> kernel run" where
  "SaveUserState t k = upd_thread t (userRegisters_update (\<lambda>_. mregs k)) k"

definition RestoreUserState :: "nat \<Rightarrow> kernel \<Rightarrow> kernel run" where
  "RestoreUserState t k = bind_run (deref (threads k t)) (\<lambda>th. Inr (k\<lparr>mregs := userRegisters th\<rparr>))"

text \<open>
  \<open>Run\<close> up to \<open>SWITCH\<close>, and from there on in the thread that is switched to: \<open>space->RestoreState\<close>
  installs the page table of its address space.
\<close>

definition Run :: "nat \<Rightarrow> bool \<Rightarrow> kernel \<Rightarrow> kernel run" where
  "Run nextThread finishing k =
     (let oldThread = currentThread k in
      ASSERT (klevel k = IntOff)
       (ASSERT (finishing \<longrightarrow> toBeDestroyed k = None)
        (let k = (if finishing then k\<lparr>toBeDestroyed := Some oldThread\<rparr> else k) in
         bind_run (deref (threads k oldThread)) (\<lambda>old.
         bind_run (if space old \<noteq> None then SaveUserState oldThread k else Inr k) (\<lambda>k.
         bind_run (upd_thread nextThread (tstatus_update (\<lambda>_. RUNNING)) (k\<lparr>currentThread := nextThread\<rparr>)) (\<lambda>k.
         Inr (k\<lparr>kmode := Resuming\<rparr>)))))))"

definition after_switch :: "kernel \<Rightarrow> kernel run" where
  "after_switch k =
     (let oldThread = currentThread k in
      ASSERT (klevel k = IntOff)
       (bind_run (CheckToBeDestroyed k) (\<lambda>k.
        bind_run (deref (threads k oldThread)) (\<lambda>old.
        if space old \<noteq> None
        then bind_run (RestoreUserState oldThread k) (\<lambda>k. Inr (k\<lparr>mspace := space old\<rparr>))
        else Inr k))))"

section \<open>Thread\<close>

definition Thread_new :: "nat \<Rightarrow> kernel \<Rightarrow> kernel" where
  "Thread_new t k = k\<lparr>threads := (threads k)(t \<mapsto>
     \<lparr>tstatus = JUST_CREATED, cont = Unstarted, userRegisters = (\<lambda>_. 0), space = None\<rparr>)\<rparr>"

text \<open>\<open>StackAllocate\<close> arranges that the first switch to the thread enters \<open>ThreadRoot\<close>.\<close>

definition StackAllocate :: "nat \<Rightarrow> kernel \<Rightarrow> kernel run" where
  "StackAllocate t k = upd_thread t (cont_update (\<lambda>_. AtBegin)) k"

definition Fork :: "nat \<Rightarrow> kernel \<Rightarrow> kernel run" where
  "Fork t k =
     bind_run (StackAllocate t k) (\<lambda>k.
     let oldLevel = klevel k in
     bind_run (ReadyToRun t (set_level IntOff k)) (\<lambda>k. Inr (set_level oldLevel k)))"

definition Begin :: "kernel \<Rightarrow> kernel run" where
  "Begin k = bind_run (CheckToBeDestroyed k) (\<lambda>k. Inr ((set_level IntOn k)\<lparr>kmode := Executing\<rparr>))"

definition Yield :: "kernel \<Rightarrow> kernel run" where
  "Yield k =
     (let oldLevel = klevel k; this = currentThread k in
      bind_run (FindNextToRun (set_level IntOff k)) (\<lambda>(next, k).
      case next of None \<Rightarrow> Inr (set_level oldLevel k)
      | Some nextThread \<Rightarrow>
          bind_run (upd_thread this (cont_update (\<lambda>_. InYield oldLevel)) k) (\<lambda>k.
          bind_run (ReadyToRun this k) (\<lambda>k. Run nextThread False k))))"

text \<open>\<open>Sleep\<close> enters its loop; each round of the loop is \<open>Sleep_round\<close>.\<close>

definition Sleep :: "bool \<Rightarrow> kernel \<Rightarrow> kernel run" where
  "Sleep finishing k =
     ASSERT (klevel k = IntOff)
      (bind_run (upd_thread (currentThread k) (tstatus_update (\<lambda>_. BLOCKED)) k) (\<lambda>k.
       Inr (k\<lparr>kmode := Sleeping finishing\<rparr>)))"

definition Sleep_round :: "bool \<Rightarrow> kernel \<Rightarrow> kernel run" where
  "Sleep_round finishing k =
     bind_run (FindNextToRun k) (\<lambda>(next, k).
     case next of None \<Rightarrow> Inr k | Some nextThread \<Rightarrow> Run nextThread finishing k)"

definition Finish :: "kernel \<Rightarrow> kernel run" where
  "Finish k =
     bind_run (upd_thread (currentThread k) (cont_update (\<lambda>_. InFinish)) (set_level IntOff k)) (Sleep True)"

section \<open>Semaphore\<close>

definition Semaphore_new :: "nat \<Rightarrow> int \<Rightarrow> kernel \<Rightarrow> kernel" where
  "Semaphore_new s initialValue k = set_sem s \<lparr>semValue = initialValue, semQueue = []\<rparr> k"

text \<open>One round of the loop of \<open>P\<close>, entered at the call and again whenever the thread is resumed.\<close>

definition P_round :: "nat \<Rightarrow> IntStatus \<Rightarrow> kernel \<Rightarrow> kernel run" where
  "P_round s oldLevel k =
     with_sem s k (\<lambda>sm.
       if semValue sm = 0 then
         bind_run (Append (semQueue sm) (currentThread k)) (\<lambda>q.
         bind_run (upd_thread (currentThread k) (cont_update (\<lambda>_. InP s oldLevel)) (set_sem s (sm\<lparr>semQueue := q\<rparr>) k)) (Sleep False))
       else Inr ((set_level oldLevel (set_sem s (sm\<lparr>semValue := semValue sm - 1\<rparr>) k))\<lparr>kmode := Executing\<rparr>))"

definition P :: "nat \<Rightarrow> kernel \<Rightarrow> kernel run" where
  "P s k = P_round s (klevel k) (set_level IntOff k)"

definition V :: "nat \<Rightarrow> kernel \<Rightarrow> kernel run" where
  "V s k =
     (let oldLevel = klevel k; k = set_level IntOff k in
      with_sem s k (\<lambda>sm.
      bind_run (if semQueue sm \<noteq> [] then
                  bind_run (RemoveFront (semQueue sm)) (\<lambda>(t, q).
                  bind_run (ReadyToRun t (set_sem s (sm\<lparr>semQueue := q\<rparr>) k)) (\<lambda>k. Inr (q, k)))
                else Inr (semQueue sm, k)) (\<lambda>(q, k).
      Inr (set_level oldLevel (set_sem s \<lparr>semValue = semValue sm + 1, semQueue = q\<rparr> k)))))"

section \<open>Resuming after a switch\<close>

definition resume :: "kernel \<Rightarrow> kernel run" where
  "resume k =
     bind_run (deref (threads k (currentThread k))) (\<lambda>th.
     case cont th of
       AtBegin \<Rightarrow> Begin k
     | InYield oldLevel \<Rightarrow> bind_run (after_switch k) (\<lambda>k. Inr ((set_level oldLevel k)\<lparr>kmode := Executing\<rparr>))
     | InP s oldLevel \<Rightarrow> bind_run (after_switch k) (P_round s oldLevel)
     | InFinish \<Rightarrow> Inl AssertFail
     | Unstarted \<Rightarrow> Inl BadPointer)"

text \<open>
  The steps of the kernel.  While it executes its own code the current thread may compute (on the
  machine registers of its user program), create and fork threads, create semaphores, and call
  \<open>Yield\<close>, \<open>P\<close>, \<open>V\<close> and \<open>Finish\<close>; interrupt handlers call \<open>V\<close> with interrupts off, and a timer handler
  makes the current thread yield.
\<close>

inductive kstep :: "kernel \<Rightarrow> kernel run \<Rightarrow> bool" where
  compute: "kmode k = Executing \<Longrightarrow> klevel k = IntOn \<Longrightarrow> kstep k (Inr (k\<lparr>mregs := r\<rparr>))"
| new_space: "kmode k = Executing \<Longrightarrow> klevel k = IntOn \<Longrightarrow> threads k (currentThread k) = Some th \<Longrightarrow>
    kstep k (Inr (k\<lparr>threads := (threads k)(currentThread k \<mapsto> th\<lparr>space := a\<rparr>), mspace := a\<rparr>))"
| new_thread: "kmode k = Executing \<Longrightarrow> klevel k = IntOn \<Longrightarrow> threads k t = None \<Longrightarrow> kstep k (Inr (Thread_new t k))"
| fork: "kmode k = Executing \<Longrightarrow> klevel k = IntOn \<Longrightarrow> threads k t = Some th \<Longrightarrow> tstatus th = JUST_CREATED \<Longrightarrow>
    kstep k (Fork t k)"
| new_sem: "kmode k = Executing \<Longrightarrow> klevel k = IntOn \<Longrightarrow> sems k s = None \<Longrightarrow> 0 \<le> v \<Longrightarrow> kstep k (Inr (Semaphore_new s v k))"
| yield: "kmode k = Executing \<Longrightarrow> klevel k = IntOn \<Longrightarrow> kstep k (Yield k)"
| down: "kmode k = Executing \<Longrightarrow> klevel k = IntOn \<Longrightarrow> sems k s = Some sm \<Longrightarrow> kstep k (P s k)"
| up: "kmode k = Executing \<Longrightarrow> klevel k = IntOn \<Longrightarrow> sems k s = Some sm \<Longrightarrow> kstep k (V s k)"
| finish: "kmode k = Executing \<Longrightarrow> klevel k = IntOn \<Longrightarrow> kstep k (Finish k)"
| irq_running: "kmode k = Executing \<Longrightarrow> klevel k = IntOn \<Longrightarrow> sems k s = Some sm \<Longrightarrow>
    kstep k (bind_run (V s (set_level IntOff k)) (\<lambda>k. Inr (set_level IntOn k)))"
| irq_idle: "kmode k = Sleeping f \<Longrightarrow> readyList k = [] \<Longrightarrow> sems k s = Some sm \<Longrightarrow> kstep k (V s k)"
| sleep_round: "kmode k = Sleeping f \<Longrightarrow> kstep k (Sleep_round f k)"
| switch_in: "kmode k = Resuming \<Longrightarrow> kstep k (resume k)"

section \<open>The invariant\<close>

definition kernel_new :: kernel where
  "kernel_new = \<lparr>currentThread = 0, kmode = Executing, klevel = IntOn,
     threads = [0 \<mapsto> \<lparr>tstatus = RUNNING, cont = Unstarted, userRegisters = (\<lambda>_. 0), space = None\<rparr>],
     readyList = [], toBeDestroyed = None, sems = Map.empty, mregs = (\<lambda>_. 0), mspace = None\<rparr>"

inductive reachable :: "kernel \<Rightarrow> bool" where
  start: "reachable kernel_new"
| step: "reachable k \<Longrightarrow> kstep k (Inr k') \<Longrightarrow> reachable k'"

text \<open>Where a thread is, according to its status and continuation.\<close>

fun suspended :: "continuation \<Rightarrow> bool" where
  "suspended AtBegin = True"
| "suspended (InYield l) = True"
| "suspended (InP s l) = True"
| "suspended _ = False"

definition thread_is :: "kernel \<Rightarrow> nat \<Rightarrow> (Thread \<Rightarrow> bool) \<Rightarrow> bool" where
  "thread_is k t Q \<longleftrightarrow> (case threads k t of None \<Rightarrow> False | Some th \<Rightarrow> Q th)"

definition waits_on :: "nat \<Rightarrow> Thread \<Rightarrow> bool" where
  "waits_on s th \<longleftrightarrow> tstatus th = BLOCKED \<and> (\<exists>l. cont th = InP s l)"

definition current_ok :: "kernel \<Rightarrow> bool" where
  "current_ok k \<longleftrightarrow> thread_is k (currentThread k) (\<lambda>th.
     (case kmode k of
        Executing \<Rightarrow> tstatus th = RUNNING
      | Resuming \<Rightarrow> tstatus th = RUNNING \<and> suspended (cont th)
      | Sleeping True \<Rightarrow> tstatus th = BLOCKED \<and> cont th = InFinish
      | Sleeping False \<Rightarrow> tstatus th \<in> {BLOCKED, READY} \<and> (\<exists>s l. cont th = InP s l)))"

text \<open>
  Every thread is exactly where its control block says: on the ready list when it is \<open>READY\<close>, on the
  queue of the semaphore it waits for when it is \<open>BLOCKED\<close> in \<open>P\<close>, and on no list otherwise.
\<close>

definition in_queue :: "kernel \<Rightarrow> nat \<Rightarrow> nat \<Rightarrow> bool" where
  "in_queue k s t \<longleftrightarrow> (\<exists>sm. sems k s = Some sm \<and> t \<in> set (semQueue sm))"

definition thread_ok :: "kernel \<Rightarrow> nat \<Rightarrow> Thread \<Rightarrow> bool" where
  "thread_ok k t th \<longleftrightarrow>
     (tstatus th = RUNNING \<longrightarrow> t = currentThread k) \<and>
     (tstatus th = READY \<longrightarrow> suspended (cont th)) \<and>
     (tstatus th = BLOCKED \<longrightarrow> (\<exists>s l. cont th = InP s l) \<or>
        cont th = InFinish \<and> (toBeDestroyed k = Some t \<or> t = currentThread k \<and> kmode k = Sleeping True)) \<and>
     (\<forall>s l. cont th = InP s l \<longrightarrow> s \<in> dom (sems k) \<and> l = IntOn) \<and>
     (\<forall>l. cont th = InYield l \<longrightarrow> l = IntOn)"

definition place_ok :: "kernel \<Rightarrow> nat \<Rightarrow> bool" where
  "place_ok k t \<longleftrightarrow>
     (t \<in> set (readyList k) \<longleftrightarrow> thread_is k t (\<lambda>th. tstatus th = READY)) \<and>
     (\<forall>s. in_queue k s t \<longleftrightarrow> thread_is k t (waits_on s)) \<and>
     (\<forall>th. threads k t = Some th \<longrightarrow> thread_ok k t th)"

definition lists_ok :: "kernel \<Rightarrow> bool" where
  "lists_ok k \<longleftrightarrow> distinct (readyList k) \<and>
     (\<forall>s sm. sems k s = Some sm \<longrightarrow> 0 \<le> semValue sm \<and> distinct (semQueue sm))"

definition dead_ok :: "kernel \<Rightarrow> bool" where
  "dead_ok k \<longleftrightarrow> (\<forall>t. toBeDestroyed k = Some t \<longrightarrow> kmode k = Resuming \<and> t \<noteq> currentThread k \<and>
     thread_is k t (\<lambda>th. tstatus th = BLOCKED \<and> cont th = InFinish))"

definition level_ok :: "kernel \<Rightarrow> bool" where
  "level_ok k \<longleftrightarrow> (klevel k = IntOn \<longleftrightarrow> kmode k = Executing)"

definition kinv :: "kernel \<Rightarrow> bool" where
  "kinv k \<longleftrightarrow> current_ok k \<and> (\<forall>t. place_ok k t) \<and> lists_ok k \<and> dead_ok k \<and> level_ok k"

lemmas kinv_parts = current_ok_def place_ok_def thread_ok_def in_queue_def lists_ok_def dead_ok_def level_ok_def

lemma kinv_start: "kinv kernel_new"
  by (auto simp: kinv_def kinv_parts kernel_new_def thread_is_def waits_on_def split: if_splits)

section \<open>Every operation runs to its end and keeps the invariant\<close>

text \<open>\<open>runs r\<close>: the operation ends without a fault, in a state that satisfies the invariant.\<close>

definition runs :: "kernel run \<Rightarrow> bool" where
  "runs r \<longleftrightarrow> (\<exists>k. r = Inr k \<and> kinv k)"

lemma runs_Inr [simp]: "runs (Inr k) \<longleftrightarrow> kinv k"
  by (simp add: runs_def)

lemma upd_thread_eq [simp]: "threads k t = Some th \<Longrightarrow> upd_thread t f k = Inr (k\<lparr>threads := (threads k)(t \<mapsto> f th)\<rparr>)"
  by (simp add: upd_thread_def)

lemma thread_is_Some [simp]: "threads k t = Some th \<Longrightarrow> thread_is k t Q = Q th"
  by (simp add: thread_is_def)

lemma thread_is_None [simp]: "threads k t = None \<Longrightarrow> \<not> thread_is k t Q"
  by (simp add: thread_is_def)

lemma in_queue_Some: "sems k s = Some sm \<Longrightarrow> in_queue k s t \<longleftrightarrow> t \<in> set (semQueue sm)"
  by (simp add: in_queue_def)

lemma kinvD:
  assumes "kinv k"
  shows "current_ok k" "place_ok k t" "lists_ok k" "dead_ok k" "level_ok k"
  using assms by (auto simp: kinv_def)

text \<open>A thread that an operation does not touch stays where it is.\<close>

lemma place_ok_frame:
  assumes "place_ok k t" "threads k' t = threads k t" "t \<in> set (readyList k') \<longleftrightarrow> t \<in> set (readyList k)"
    "\<And>s. in_queue k' s t \<longleftrightarrow> in_queue k s t" "dom (sems k) \<subseteq> dom (sems k')"
    "t = currentThread k \<Longrightarrow> currentThread k' = t \<and> kmode k' = kmode k"
    "toBeDestroyed k = Some t \<Longrightarrow> toBeDestroyed k' = Some t"
  shows "place_ok k' t"
proof -
  have is_eq: "thread_is k' t Q = thread_is k t Q" for Q using assms(2) by (simp add: thread_is_def)
  have "thread_ok k' t th" if th: "threads k t = Some th" for th
  proof -
    have "thread_ok k t th" using assms(1) th by (simp add: place_ok_def)
    then show ?thesis using assms(5-7) unfolding thread_ok_def by (metis subsetD)
  qed
  then show ?thesis using assms(1-4) is_eq unfolding place_ok_def by metis
qed

lemma compute_runs: "kinv k \<Longrightarrow> runs (Inr (k\<lparr>mregs := r\<rparr>))"
  by (simp add: kinv_def kinv_parts thread_is_def)

lemma new_thread_runs:
  assumes k: "kinv k" and t: "threads k t = None"
  shows "runs (Inr (Thread_new t k))"
proof -
  let ?k = "Thread_new t k"
  have "place_ok ?k u" for u
  proof (cases "u = t")
    case True
    then show ?thesis using kinvD(2)[OF k, of t] t
      by (simp add: place_ok_def thread_ok_def Thread_new_def waits_on_def thread_is_def in_queue_def)
  next
    case False
    then show ?thesis using kinvD(2)[OF k, of u]
      by (rule_tac place_ok_frame[of k]) (simp_all add: Thread_new_def in_queue_def)
  qed
  moreover have "t \<noteq> currentThread k" using kinvD(1)[OF k] t by (auto simp: current_ok_def)
  ultimately show ?thesis using kinvD(1,3-5)[OF k] t
    by (auto simp: kinv_def Thread_new_def current_ok_def lists_ok_def dead_ok_def level_ok_def thread_is_def split: option.splits)
qed

text \<open>An operation that touches only the threads in \<open>T\<close>.\<close>

lemma kinv_touch:
  assumes "kinv k" "\<And>t. t \<in> T \<Longrightarrow> place_ok k' t"
    "\<And>t. t \<notin> T \<Longrightarrow> threads k' t = threads k t \<and> (t \<in> set (readyList k') \<longleftrightarrow> t \<in> set (readyList k)) \<and>
       (\<forall>s. in_queue k' s t \<longleftrightarrow> in_queue k s t) \<and>
       (t = currentThread k \<longrightarrow> currentThread k' = t \<and> kmode k' = kmode k) \<and>
       (toBeDestroyed k = Some t \<longrightarrow> toBeDestroyed k' = Some t)"
    "dom (sems k) \<subseteq> dom (sems k')" "current_ok k'" "lists_ok k'" "dead_ok k'" "level_ok k'"
  shows "kinv k'"
proof -
  have "place_ok k' t" for t
    using assms(1-4) kinvD(2)[OF assms(1), of t] place_ok_frame[of k t k'] by (cases "t \<in> T") blast+
  then show ?thesis using assms(5-8) by (simp add: kinv_def)
qed

lemma current_thread:
  assumes "kinv k"
  obtains th where "threads k (currentThread k) = Some th" "thread_ok k (currentThread k) th"
  using assms by (auto simp: kinv_def current_ok_def thread_is_def place_ok_def split: option.splits)

lemma new_space_runs:
  assumes k: "kinv k" and e: "kmode k = Executing" and th: "threads k (currentThread k) = Some th"
  shows "runs (Inr (k\<lparr>threads := (threads k)(currentThread k \<mapsto> th\<lparr>space := a\<rparr>), mspace := a\<rparr>))"
  unfolding runs_Inr
  by (rule kinv_touch[OF k, where T = "{currentThread k}"])
    (use kinvD(1,3-5)[OF k] kinvD(2)[OF k, of "currentThread k"] e th in
      \<open>auto simp: in_queue_def current_ok_def lists_ok_def dead_ok_def level_ok_def place_ok_def thread_ok_def thread_is_def waits_on_def\<close>)

lemma new_sem_runs:
  assumes k: "kinv k" and s: "sems k s = None" and v: "0 \<le> v"
  shows "runs (Inr (Semaphore_new s v k))"
  unfolding runs_Inr Semaphore_new_def set_sem_def
  by (rule kinv_touch[OF k, where T = "{}"])
    (use kinvD(1,3-5)[OF k] s v in
      \<open>auto simp: in_queue_def current_ok_def lists_ok_def dead_ok_def level_ok_def thread_is_def\<close>)

text \<open>What each operation computes, and that it keeps the invariant.\<close>

lemmas op_defs = ReadyToRun_def FindNextToRun_def Append_def RemoveFront_def set_level_def set_sem_def with_sem_def Let_def

lemma Fork_eq:
  assumes "threads k t = Some th" "t \<notin> set (readyList k)"
  shows "Fork t k = Inr (k\<lparr>threads := (threads k)(t \<mapsto> th\<lparr>cont := AtBegin, tstatus := READY\<rparr>), readyList := readyList k @ [t]\<rparr>)"
  using assms by (simp add: Fork_def StackAllocate_def op_defs)

lemma Fork_runs:
  assumes k: "kinv k" and e: "kmode k = Executing" and t: "threads k t = Some th" "tstatus th = JUST_CREATED"
  shows "runs (Fork t k)"
proof -
  note pl = kinvD(2)[OF k, of t]
  have nr: "t \<notin> set (readyList k)" and nq: "\<not> in_queue k s t" for s using pl t by (simp_all add: place_ok_def waits_on_def)
  have nc: "t \<noteq> currentThread k" using kinvD(1)[OF k] t e by (auto simp: current_ok_def)
  show ?thesis
    unfolding Fork_eq[OF t(1) nr] runs_Inr
    by (rule kinv_touch[OF k, where T = "{t}"])
      (use kinvD(1,3-5)[OF k] e nr nq nc t in
        \<open>auto simp: in_queue_def current_ok_def lists_ok_def dead_ok_def level_ok_def place_ok_def thread_ok_def thread_is_def waits_on_def\<close>)
qed

lemma V_eq_empty:
  "sems k s = Some sm \<Longrightarrow> semQueue sm = [] \<Longrightarrow>
     V s k = Inr (k\<lparr>sems := (sems k)(s \<mapsto> \<lparr>semValue = semValue sm + 1, semQueue = []\<rparr>)\<rparr>)"
  by (simp add: V_def op_defs)

lemma V_eq_wake:
  "sems k s = Some sm \<Longrightarrow> semQueue sm = t # q \<Longrightarrow> threads k t = Some th \<Longrightarrow> t \<notin> set (readyList k) \<Longrightarrow>
     V s k = Inr (k\<lparr>threads := (threads k)(t \<mapsto> th\<lparr>tstatus := READY\<rparr>), readyList := readyList k @ [t],
       sems := (sems k)(s \<mapsto> \<lparr>semValue = semValue sm + 1, semQueue = q\<rparr>)\<rparr>)"
  by (simp add: V_def op_defs)

lemma queued_thread:
  assumes k: "kinv k" and s: "sems k s = Some sm" and t: "t \<in> set (semQueue sm)"
  obtains th where "threads k t = Some th" "tstatus th = BLOCKED" "cont th = InP s IntOn" "t \<notin> set (readyList k)"
proof -
  have "in_queue k s t" using s t by (simp add: in_queue_Some)
  then have "thread_is k t (waits_on s)" using kinvD(2)[OF k, of t] by (simp add: place_ok_def)
  then show thesis using kinvD(2)[OF k, of t] that
    by (auto simp: thread_is_def waits_on_def place_ok_def thread_ok_def split: option.splits)
qed

lemma V_runs:
  assumes k: "kinv k" and m: "kmode k = Executing \<or> kmode k = Sleeping f" and s: "sems k s = Some sm"
  shows "runs (V s k)"
proof (cases "semQueue sm")
  case Nil
  show ?thesis unfolding V_eq_empty[OF s Nil] runs_Inr
    by (rule kinv_touch[OF k, where T = "{}"])
      (use kinvD(1,3-5)[OF k] s Nil in
        \<open>auto simp: in_queue_def current_ok_def lists_ok_def dead_ok_def level_ok_def thread_is_def\<close>)
next
  case (Cons t q)
  obtain th where th: "threads k t = Some th" "tstatus th = BLOCKED" "cont th = InP s IntOn" and nr: "t \<notin> set (readyList k)"
    using queued_thread[OF k s, of t] Cons by auto
  have d: "distinct (t # q)" using kinvD(3)[OF k] s Cons unfolding lists_ok_def by metis
  have o: "\<not> in_queue k s' t" if "s' \<noteq> s" for s' using kinvD(2)[OF k, of t] th that by (auto simp: place_ok_def waits_on_def)
  show ?thesis unfolding V_eq_wake[OF s Cons th(1) nr] runs_Inr
    by (rule kinv_touch[OF k, where T = "{t}"])
      (use kinvD(1,3-5)[OF k] s th nr d o m Cons in
        \<open>auto simp: in_queue_def current_ok_def lists_ok_def dead_ok_def level_ok_def place_ok_def thread_ok_def thread_is_def waits_on_def
           split: option.splits bool.splits\<close>)
qed

definition saved :: "kernel \<Rightarrow> Thread \<Rightarrow> Thread" where
  "saved k th = (if space th = None then th else th\<lparr>userRegisters := mregs k\<rparr>)"

lemma saved_simps [simp]:
  "tstatus (saved k th) = tstatus th" "cont (saved k th) = cont th" "space (saved k th) = space th"
  by (simp_all add: saved_def)

lemma Run_eq:
  assumes "klevel k = IntOff" "finishing \<longrightarrow> toBeDestroyed k = None" "threads k (currentThread k) = Some ct"
    "((threads k)(currentThread k \<mapsto> saved k ct)) n = Some nt"
  shows "Run n finishing k = Inr (k\<lparr>currentThread := n, kmode := Resuming,
     toBeDestroyed := (if finishing then Some (currentThread k) else toBeDestroyed k),
     threads := (threads k)(currentThread k \<mapsto> saved k ct, n \<mapsto> nt\<lparr>tstatus := RUNNING\<rparr>)\<rparr>)"
proof -
  have "(if space ct \<noteq> None then SaveUserState (currentThread k) k' else Inr k') =
      Inr (k'\<lparr>threads := (threads k)(currentThread k \<mapsto> saved k ct)\<rparr>)" if "threads k' = threads k" "mregs k' = mregs k" for k'
    using that assms(3) fun_upd_idem[of "threads k" "currentThread k", OF assms(3)]
    by (simp add: SaveUserState_def saved_def flip: that(1))
  then show ?thesis using assms by (cases finishing) (simp_all add: Run_def Let_def upd_thread_def)
qed

lemma ready_thread:
  assumes k: "kinv k" and t: "t \<in> set (readyList k)"
  obtains th where "threads k t = Some th" "tstatus th = READY" "suspended (cont th)"
    "\<And>s. \<not> in_queue k s t" "toBeDestroyed k \<noteq> Some t"
proof -
  obtain th where th: "threads k t = Some th" "tstatus th = READY"
    using kinvD(2)[OF k, of t] t by (auto simp: place_ok_def thread_is_def split: option.splits)
  then have "suspended (cont th)" "\<not> in_queue k s t" "toBeDestroyed k \<noteq> Some t" for s
    using kinvD(2)[OF k, of t] kinvD(4)[OF k] by (auto simp: place_ok_def thread_ok_def waits_on_def dead_ok_def)
  with th show thesis by (rule that)
qed

lemma Yield_eq_none: "readyList k = [] \<Longrightarrow> Yield k = Inr k"
  by (simp add: Yield_def op_defs)

lemma Yield_eq:
  assumes "readyList k = n # r" "threads k (currentThread k) = Some ct" "threads k n = Some nt"
    "currentThread k \<notin> set (n # r)"
  shows "Yield k = Inr (k\<lparr>currentThread := n, kmode := Resuming, klevel := IntOff, readyList := r @ [currentThread k],
     threads := (threads k)(currentThread k \<mapsto> saved k (ct\<lparr>cont := InYield (klevel k), tstatus := READY\<rparr>),
                            n \<mapsto> nt\<lparr>tstatus := RUNNING\<rparr>)\<rparr>)"
  using assms by (simp add: Yield_def op_defs Run_eq[where ct = "ct\<lparr>cont := InYield (klevel k), tstatus := READY\<rparr>"] saved_def)

lemma Yield_runs:
  assumes k: "kinv k" and e: "kmode k = Executing" "klevel k = IntOn"
  shows "runs (Yield k)"
proof (cases "readyList k")
  case Nil
  then show ?thesis using k by (simp add: Yield_eq_none)
next
  case (Cons n r)
  obtain ct where ct: "threads k (currentThread k) = Some ct" "thread_ok k (currentThread k) ct" using current_thread[OF k] .
  have st: "tstatus ct = RUNNING" using kinvD(1)[OF k] e ct by (simp add: current_ok_def)
  obtain nt where nt: "threads k n = Some nt" "tstatus nt = READY" "suspended (cont nt)" "\<And>s. \<not> in_queue k s n"
    using ready_thread[OF k, of n] Cons by auto
  have nr: "currentThread k \<notin> set (readyList k)" and nq: "\<not> in_queue k s (currentThread k)" for s
    using kinvD(2)[OF k, of "currentThread k"] ct st by (auto simp: place_ok_def waits_on_def)
  have nok: "thread_ok k n nt" using kinvD(2)[OF k, of n] nt by (simp add: place_ok_def)
  show ?thesis unfolding Yield_eq[OF Cons ct(1) nt(1) nr[unfolded Cons]] runs_Inr
    by (rule kinv_touch[OF k, where T = "{currentThread k, n}"])
      (use kinvD(1,3-5)[OF k] Cons ct st e nt nr nq nok in
        \<open>auto simp: in_queue_def current_ok_def lists_ok_def dead_ok_def level_ok_def place_ok_def thread_ok_def thread_is_def waits_on_def
           split: option.splits\<close>)
qed

lemma Finish_eq:
  "threads k (currentThread k) = Some ct \<Longrightarrow>
     Finish k = Inr (k\<lparr>klevel := IntOff, kmode := Sleeping True,
       threads := (threads k)(currentThread k \<mapsto> ct\<lparr>cont := InFinish, tstatus := BLOCKED\<rparr>)\<rparr>)"
  by (simp add: Finish_def Sleep_def op_defs)

lemma executing_thread:
  assumes k: "kinv k" and e: "kmode k = Executing"
  obtains ct where "threads k (currentThread k) = Some ct" "tstatus ct = RUNNING" "thread_ok k (currentThread k) ct"
    "currentThread k \<notin> set (readyList k)" "\<And>s. \<not> in_queue k s (currentThread k)" "toBeDestroyed k = None"
proof -
  obtain ct where ct: "threads k (currentThread k) = Some ct" "thread_ok k (currentThread k) ct" using current_thread[OF k] .
  moreover have "tstatus ct = RUNNING" using kinvD(1)[OF k] e ct by (simp add: current_ok_def)
  moreover have "toBeDestroyed k = None" using kinvD(4)[OF k] e by (cases "toBeDestroyed k") (auto simp: dead_ok_def)
  ultimately show thesis
    using kinvD(2)[OF k, of "currentThread k"] by (rule_tac that) (auto simp: place_ok_def waits_on_def)
qed

lemma Finish_runs:
  assumes k: "kinv k" and e: "kmode k = Executing"
  shows "runs (Finish k)"
proof -
  obtain ct where ct: "threads k (currentThread k) = Some ct" "tstatus ct = RUNNING"
    "currentThread k \<notin> set (readyList k)" "\<And>s. \<not> in_queue k s (currentThread k)" "toBeDestroyed k = None"
    using executing_thread[OF k e] by metis
  show ?thesis unfolding Finish_eq[OF ct(1)] runs_Inr
    by (rule kinv_touch[OF k, where T = "{currentThread k}"])
      (use kinvD(3)[OF k] ct in
        \<open>auto simp: in_queue_def current_ok_def lists_ok_def dead_ok_def level_ok_def place_ok_def thread_ok_def thread_is_def waits_on_def
           split: option.splits\<close>)
qed

text \<open>A round of the loop of \<open>P\<close>, at the call and after a wake-up.\<close>

lemma P_round_eq_sleep:
  assumes "sems k s = Some sm" "semValue sm = 0" "currentThread k \<notin> set (semQueue sm)" "klevel k = IntOff"
    "threads k (currentThread k) = Some ct"
  shows "P_round s l k = Inr (k\<lparr>sems := (sems k)(s \<mapsto> sm\<lparr>semQueue := semQueue sm @ [currentThread k]\<rparr>),
     threads := (threads k)(currentThread k \<mapsto> ct\<lparr>cont := InP s l, tstatus := BLOCKED\<rparr>), kmode := Sleeping False\<rparr>)"
  using assms by (simp add: P_round_def Sleep_def op_defs)

lemma P_round_eq_take:
  assumes "sems k s = Some sm" "semValue sm \<noteq> 0"
  shows "P_round s l k = Inr (k\<lparr>sems := (sems k)(s \<mapsto> sm\<lparr>semValue := semValue sm - 1\<rparr>), klevel := l, kmode := Executing\<rparr>)"
  using assms by (simp add: P_round_def op_defs)

definition live :: "kernel \<Rightarrow> bool" where
  "live k \<longleftrightarrow> (\<forall>t. place_ok k t) \<and> lists_ok k \<and> toBeDestroyed k = None \<and>
     thread_is k (currentThread k) (\<lambda>th. tstatus th = RUNNING) \<and> kmode k \<noteq> Sleeping True"

lemma P_round_runs:
  assumes k: "live k" and off: "klevel k = IntOff" and s: "sems k s = Some sm"
  shows "runs (P_round s IntOn k)"
proof -
  obtain ct where ct: "threads k (currentThread k) = Some ct" "tstatus ct = RUNNING"
    using k by (auto simp: live_def thread_is_def split: option.splits)
  have pl: "place_ok k t" for t using k by (simp add: live_def)
  have nr: "currentThread k \<notin> set (readyList k)" and nq: "\<not> in_queue k s' (currentThread k)" for s'
    using pl[of "currentThread k"] ct by (auto simp: place_ok_def waits_on_def)
  show ?thesis
  proof (cases "semValue sm = 0")
    case True
    let ?k = "k\<lparr>sems := (sems k)(s \<mapsto> sm\<lparr>semQueue := semQueue sm @ [currentThread k]\<rparr>),
     threads := (threads k)(currentThread k \<mapsto> ct\<lparr>cont := InP s IntOn, tstatus := BLOCKED\<rparr>), kmode := Sleeping False\<rparr>"
    have "place_ok ?k t" for t
    proof (cases "t = currentThread k")
      case True
      then show ?thesis using nr nq ct s
        by (auto simp: place_ok_def thread_ok_def thread_is_def waits_on_def in_queue_def split: option.splits)
    next
      case False
      show ?thesis by (rule place_ok_frame[OF pl]) (use False s in \<open>auto simp: in_queue_def\<close>)
    qed
    moreover have "current_ok ?k" "lists_ok ?k" "dead_ok ?k" "level_ok ?k"
      using k s nq[of s] off by (auto simp: current_ok_def thread_is_def live_def lists_ok_def dead_ok_def level_ok_def in_queue_def)
    ultimately show ?thesis
      using P_round_eq_sleep[OF s True _ off ct(1), of IntOn] nq[of s] s by (simp add: in_queue_def kinv_def)
  next
    case False
    let ?k = "k\<lparr>sems := (sems k)(s \<mapsto> sm\<lparr>semValue := semValue sm - 1\<rparr>), klevel := IntOn, kmode := Executing\<rparr>"
    have "place_ok ?k t" for t
    proof (cases "t = currentThread k")
      case True
      then show ?thesis using nr nq ct s pl[of t]
        by (auto simp: place_ok_def thread_ok_def thread_is_def waits_on_def in_queue_def split: option.splits)
    next
      case False
      show ?thesis by (rule place_ok_frame[OF pl]) (use False s in \<open>auto simp: in_queue_def\<close>)
    qed
    moreover have "0 \<le> semValue sm" using k s unfolding live_def lists_ok_def by blast
    then have "1 \<le> semValue sm" using False by simp
    then have "current_ok ?k" "lists_ok ?k" "dead_ok ?k" "level_ok ?k"
      using k s False by (auto simp: current_ok_def thread_is_def live_def lists_ok_def dead_ok_def level_ok_def)
    ultimately show ?thesis by (simp add: P_round_eq_take[OF s False] kinv_def)
  qed
qed

lemma P_runs:
  assumes k: "kinv k" and e: "kmode k = Executing" "klevel k = IntOn" and s: "sems k s = Some sm"
  shows "runs (P s k)"
proof -
  obtain ct where ct: "threads k (currentThread k) = Some ct" "tstatus ct = RUNNING" "toBeDestroyed k = None"
    using executing_thread[OF k e(1)] by metis
  have "place_ok (set_level IntOff k) t" for t
    by (rule place_ok_frame[OF kinvD(2)[OF k]]) (simp_all add: set_level_def in_queue_def)
  then have "live (set_level IntOff k)"
    using kinvD(3)[OF k] ct e by (simp add: live_def set_level_def lists_ok_def thread_is_def)
  then show ?thesis unfolding P_def e(2) by (rule P_round_runs) (simp_all add: set_level_def s)
qed

lemma Sleep_round_runs:
  assumes k: "kinv k" and m: "kmode k = Sleeping f"
  shows "runs (Sleep_round f k)"
proof (cases "readyList k")
  case Nil
  then show ?thesis using k kinvD(5)[OF k] m by (cases "klevel k") (simp_all add: Sleep_round_def op_defs level_ok_def)
next
  case (Cons n r)
  have off: "klevel k = IntOff" using kinvD(5)[OF k] m by (cases "klevel k") (simp_all add: level_ok_def)
  obtain ct where ct: "threads k (currentThread k) = Some ct" "thread_ok k (currentThread k) ct" using current_thread[OF k] .
  have td: "toBeDestroyed k = None" using kinvD(4)[OF k] m by (cases "toBeDestroyed k") (auto simp: dead_ok_def)
  obtain nt where nt: "threads k n = Some nt" "tstatus nt = READY" "suspended (cont nt)" "\<And>s. \<not> in_queue k s n"
    using ready_thread[OF k, of n] Cons by auto
  have nok: "thread_ok k n nt" using kinvD(2)[OF k, of n] nt by (simp add: place_ok_def)
  have pc: "place_ok k (currentThread k)" by (rule kinvD(2)[OF k])
  have cc: "tstatus ct \<in> {BLOCKED, READY}" "f \<Longrightarrow> cont ct = InFinish \<and> tstatus ct = BLOCKED"
    using kinvD(1)[OF k] m ct by (auto simp: current_ok_def split: bool.splits)
  let ?nt = "if n = currentThread k then saved k ct else nt"
  let ?k = "k\<lparr>readyList := r, currentThread := n, kmode := Resuming,
     toBeDestroyed := (if f then Some (currentThread k) else toBeDestroyed k),
     threads := (threads k)(currentThread k \<mapsto> saved k ct, n \<mapsto> ?nt\<lparr>tstatus := RUNNING\<rparr>)\<rparr>"
  have "Sleep_round f k = Run n f (k\<lparr>readyList := r\<rparr>)" using Cons off by (simp add: Sleep_round_def op_defs)
  also have "\<dots> = Inr ?k"
    using Run_eq[of "k\<lparr>readyList := r\<rparr>" f ct n ?nt] off td ct nt by (simp add: saved_def)
  finally have eq: "Sleep_round f k = Inr ?k" .
  show ?thesis
  proof (cases "n = currentThread k")
    case True
    with nt ct cc have nf: "\<not> f" by auto
    show ?thesis unfolding eq runs_Inr
      by (rule kinv_touch[OF k, where T = "{currentThread k}"])
        (use kinvD(1,3-5)[OF k] Cons ct off nt nok td True nf m in
          \<open>auto simp: in_queue_def current_ok_def lists_ok_def dead_ok_def level_ok_def place_ok_def thread_ok_def thread_is_def waits_on_def\<close>)
  next
    case False
    show ?thesis unfolding eq runs_Inr
      by (rule kinv_touch[OF k, where T = "{currentThread k, n}"])
        (use kinvD(1,3-5)[OF k] Cons ct off nt nok td False cc pc m in
          \<open>auto simp: in_queue_def current_ok_def lists_ok_def dead_ok_def level_ok_def place_ok_def thread_ok_def thread_is_def waits_on_def\<close>)
  qed
qed

text \<open>\<open>buried k\<close>: the state after \<open>CheckToBeDestroyed\<close> has deleted the finished thread, if there is one.\<close>

definition buried :: "kernel \<Rightarrow> kernel" where
  "buried k = k\<lparr>toBeDestroyed := None,
    threads := (case toBeDestroyed k of None \<Rightarrow> threads k | Some t \<Rightarrow> (threads k)(t := None))\<rparr>"

lemma buried_simps [simp]:
  "currentThread (buried k) = currentThread k" "kmode (buried k) = kmode k" "klevel (buried k) = klevel k"
  "readyList (buried k) = readyList k" "sems (buried k) = sems k" "toBeDestroyed (buried k) = None"
  "mregs (buried k) = mregs k" "mspace (buried k) = mspace k"
  "toBeDestroyed k \<noteq> Some t \<Longrightarrow> threads (buried k) t = threads k t"
  "toBeDestroyed k = Some t \<Longrightarrow> threads (buried k) t = None"
  by (auto simp: buried_def split: option.splits)

lemma CheckToBeDestroyed_eq:
  assumes k: "kinv k" and m: "kmode k = Resuming"
  shows "CheckToBeDestroyed k = Inr (buried k)"
  using kinvD(4)[OF k] m
  by (auto simp: CheckToBeDestroyed_def Thread_delete_def dead_ok_def thread_is_def buried_def split: option.splits)

lemma dead_thread:
  assumes "kinv k" "toBeDestroyed k = Some t"
  shows "t \<noteq> currentThread k" "thread_is k t (\<lambda>th. tstatus th = BLOCKED \<and> cont th = InFinish)"
  using kinvD(4)[OF assms(1)] assms(2) by (simp_all add: dead_ok_def)

lemma buried_current: "kinv k \<Longrightarrow> threads (buried k) (currentThread k) = threads k (currentThread k)"
  using dead_thread(1) by (metis buried_simps(9))

lemma destroyed_live:
  assumes k: "kinv k" and m: "kmode k = Resuming"
  shows "live (buried k)"
proof -
  have "place_ok (buried k) t" for t
  proof (cases "toBeDestroyed k = Some t")
    case True
    with dead_thread[OF k True] kinvD(2)[OF k, of t] show ?thesis
      by (auto simp: place_ok_def thread_is_def waits_on_def in_queue_def split: option.splits)
  next
    case False
    show ?thesis by (rule place_ok_frame[OF kinvD(2)[OF k]]) (use False in \<open>auto simp: in_queue_def\<close>)
  qed
  moreover have "thread_is (buried k) (currentThread k) (\<lambda>th. tstatus th = RUNNING)"
    using kinvD(1)[OF k] m by (auto simp: current_ok_def thread_is_def buried_current[OF k] split: option.splits)
  ultimately show ?thesis using kinvD(3)[OF k] m by (simp add: live_def lists_ok_def)
qed

lemma live_executing:
  assumes k: "live k"
  shows "kinv (k\<lparr>klevel := IntOn, kmode := Executing\<rparr>)" (is "kinv ?k")
proof -
  have "place_ok ?k t" for t
    using k by (auto simp: live_def place_ok_def thread_ok_def thread_is_def in_queue_def)
  then show ?thesis
    using k by (simp add: live_def kinv_def current_ok_def lists_ok_def dead_ok_def level_ok_def thread_is_def)
qed

lemma live_regs: "live (k\<lparr>mregs := r, mspace := a\<rparr>) \<longleftrightarrow> live k"
  by (simp add: live_def place_ok_def lists_ok_def thread_is_def in_queue_def thread_ok_def)

lemma after_switch_eq:
  assumes k: "kinv k" and m: "kmode k = Resuming" and ct: "threads k (currentThread k) = Some ct"
  shows "after_switch k = Inr (if space ct = None then buried k
     else (buried k)\<lparr>mregs := userRegisters ct, mspace := space ct\<rparr>)"
proof -
  have off: "klevel k = IntOff" using kinvD(5)[OF k] m by (cases "klevel k") (simp_all add: level_ok_def)
  have "threads (buried k) (currentThread k) = Some ct" using ct by (simp add: buried_current[OF k])
  then show ?thesis using off by (simp add: after_switch_def CheckToBeDestroyed_eq[OF k m] RestoreUserState_def)
qed

lemma after_switch_live:
  assumes k: "kinv k" and m: "kmode k = Resuming"
  obtains r a where "after_switch k = Inr ((buried k)\<lparr>mregs := r, mspace := a\<rparr>)"
    "live ((buried k)\<lparr>mregs := r, mspace := a\<rparr>)" "klevel k = IntOff"
proof -
  obtain ct where ct: "threads k (currentThread k) = Some ct" using current_thread[OF k] by blast
  have off: "klevel k = IntOff" using kinvD(5)[OF k] m by (cases "klevel k") (simp_all add: level_ok_def)
  have lv: "live ((buried k)\<lparr>mregs := r, mspace := a\<rparr>)" for r a using live_regs destroyed_live[OF k m] by blast
  have "buried k = (buried k)\<lparr>mregs := mregs k, mspace := mspace k\<rparr>"
    by (rule kernel.equality) simp_all
  then have "\<exists>r a. after_switch k = Inr ((buried k)\<lparr>mregs := r, mspace := a\<rparr>)"
    using after_switch_eq[OF k m ct] by (cases "space ct = None") metis+
  then show thesis using that lv off by blast
qed

lemma resume_runs:
  assumes k: "kinv k" and m: "kmode k = Resuming"
  shows "runs (resume k)"
proof -
  obtain ct where ct: "threads k (currentThread k) = Some ct" "thread_ok k (currentThread k) ct" using current_thread[OF k] .
  have sus: "suspended (cont ct)" using kinvD(1)[OF k] m ct by (simp add: current_ok_def)
  obtain r a where k': "after_switch k = Inr ((buried k)\<lparr>mregs := r, mspace := a\<rparr>)"
    "live ((buried k)\<lparr>mregs := r, mspace := a\<rparr>)" "klevel k = IntOff" using after_switch_live[OF k m] .
  show ?thesis
  proof (cases "cont ct")
    case AtBegin
    then show ?thesis using ct live_executing[OF destroyed_live[OF k m]]
      by (simp add: resume_def Begin_def CheckToBeDestroyed_eq[OF k m] set_level_def)
  next
    case (InYield l)
    then show ?thesis using ct live_executing[OF k'(2)] k'(1)
      by (simp add: resume_def set_level_def thread_ok_def)
  next
    case (InP s l)
    then obtain sm where "sems k s = Some sm" "l = IntOn" using ct by (auto simp: thread_ok_def)
    then show ?thesis using ct InP P_round_runs[OF k'(2)] k'(1,3) by (simp add: resume_def)
  qed (use sus in simp_all)
qed

lemma irq_running_eq:
  assumes k: "kinv k" and l: "klevel k = IntOn" and s: "sems k s = Some sm"
  shows "bind_run (V s (set_level IntOff k)) (\<lambda>k. Inr (set_level IntOn k)) = V s k"
proof (cases "semQueue sm")
  case Nil
  then show ?thesis using l s by (auto simp: V_def op_defs)
next
  case (Cons t q)
  then obtain th where "threads k t = Some th" "t \<notin> set (readyList k)" using queued_thread[OF k s, of t] by auto
  then show ?thesis using l s Cons by (simp add: V_def op_defs)
qed

text \<open>The step relation: every step the kernel can take from a state of the invariant runs to its end.\<close>

lemma kstep_runs: "kstep k r \<Longrightarrow> kinv k \<Longrightarrow> runs r"
proof (induction rule: kstep.induct)
  case (irq_running k s sm)
  have "runs (V s k)" by (rule V_runs) (use irq_running in auto)
  then show ?case using irq_running irq_running_eq by metis
qed (blast intro: compute_runs new_space_runs new_thread_runs Fork_runs new_sem_runs Yield_runs P_runs V_runs
     Finish_runs Sleep_round_runs resume_runs)+

lemma reachable_kinv: "reachable k \<Longrightarrow> kinv k"
  by (induction rule: reachable.induct) (use kinv_start kstep_runs in \<open>auto simp: runs_def\<close>)

section \<open>No wake-up is lost\<close>

text \<open>
  \<open>V\<close> makes a waiter ready and increments the value, but the waiter takes the value only when it runs
  again, and another thread may take it before.  \<open>woken k s\<close> counts the threads that were made ready
  and have still to look at the value of semaphore \<open>s\<close> again.
\<close>

definition in_P :: "kernel \<Rightarrow> nat \<Rightarrow> nat \<Rightarrow> bool" where
  "in_P k s t \<longleftrightarrow> thread_is k t (\<lambda>th. case cont th of InP s' l \<Rightarrow> s' = s | _ \<Rightarrow> False)"

definition woken :: "kernel \<Rightarrow> nat \<Rightarrow> nat" where
  "woken k s = length (filter (in_P k s) (readyList k)) +
     (if kmode k = Resuming \<and> in_P k s (currentThread k) then 1 else 0)"

definition wake_ok :: "kernel \<Rightarrow> bool" where
  "wake_ok k \<longleftrightarrow> (\<forall>s sm. sems k s = Some sm \<longrightarrow> semQueue sm \<noteq> [] \<longrightarrow> semValue sm \<le> int (woken k s))"

lemma wake_okD: "wake_ok k \<Longrightarrow> sems k s = Some sm \<Longrightarrow> semQueue sm \<noteq> [] \<Longrightarrow> semValue sm \<le> int (woken k s)"
  unfolding wake_ok_def by blast

lemma in_P_cong: "threads k' t = threads k t \<Longrightarrow> in_P k' s t = in_P k s t"
  by (simp add: in_P_def thread_is_def)

lemma in_P_cont: "threads k' t = Some th' \<Longrightarrow> threads k t = Some th \<Longrightarrow> cont th' = cont th \<Longrightarrow> in_P k' s t = in_P k s t"
  by (simp add: in_P_def)

lemma filter_in_P:
  "(\<And>t. t \<in> set xs \<Longrightarrow> in_P k' s t = in_P k s t) \<Longrightarrow> filter (in_P k' s) xs = filter (in_P k s) xs"
  by (rule filter_cong) auto

text \<open>Steps that leave the semaphores alone need only not lose a woken thread.\<close>

lemma wake_ok_frame:
  assumes "wake_ok k" "\<And>s. woken k s \<le> woken k' s"
    "\<And>s sm. sems k' s = Some sm \<Longrightarrow> semQueue sm \<noteq> [] \<Longrightarrow> sems k s = Some sm"
  shows "wake_ok k'"
  unfolding wake_ok_def
proof (intro allI impI)
  fix s sm
  assume "sems k' s = Some sm" "semQueue sm \<noteq> []"
  then have "semValue sm \<le> int (woken k s)" using wake_okD[OF assms(1)] assms(3) by blast
  also have "\<dots> \<le> int (woken k' s)" using assms(2) by simp
  finally show "semValue sm \<le> int (woken k' s)" .
qed

lemma wake_new_thread:
  assumes k: "kinv k" "threads k t = None" "wake_ok k"
  shows "wake_ok (Thread_new t k)"
proof (rule wake_ok_frame[OF k(3)])
  fix s
  have "t \<notin> set (readyList k)" "t \<noteq> currentThread k"
    using kinvD(1,2)[OF k(1)] k(2) by (auto simp: place_ok_def current_ok_def)
  then have "in_P (Thread_new t k) s u = in_P k s u" if "u \<in> insert (currentThread k) (set (readyList k))" for u
    using that by (intro in_P_cong) (auto simp: Thread_new_def)
  then show "woken k s \<le> woken (Thread_new t k) s"
    using filter_in_P[of "readyList k" "Thread_new t k" s k] by (simp add: woken_def Thread_new_def)
qed (simp add: Thread_new_def)

lemma wake_fork:
  assumes k: "kinv k" "wake_ok k" and e: "kmode k = Executing" and t: "threads k t = Some th" "tstatus th = JUST_CREATED"
    and f: "Fork t k = Inr k'"
  shows "wake_ok k'"
proof (rule wake_ok_frame[OF k(2)])
  fix s
  have nr: "t \<notin> set (readyList k)" using kinvD(2)[OF k(1), of t] t by (simp add: place_ok_def)
  note k' = f[unfolded Fork_eq[OF t(1) nr], simplified]
  have "in_P k' s u = in_P k s u" if "u \<in> set (readyList k)" for u
    using that nr by (intro in_P_cong) (auto simp flip: k')
  then show "woken k s \<le> woken k' s"
    using filter_in_P[of "readyList k" k' s k] e by (simp add: woken_def flip: k')
qed (use f t kinvD(2)[OF k(1), of t] in \<open>auto simp: Fork_eq place_ok_def\<close>)

lemma in_P_update:
  "threads k' = (threads k)(u \<mapsto> x) \<Longrightarrow> in_P k' s t = (if t = u then (case cont x of InP s' l \<Rightarrow> s' = s | _ \<Rightarrow> False) else in_P k s t)"
  by (simp add: in_P_def thread_is_def)

lemma wake_yield:
  assumes k: "kinv k" "wake_ok k" and e: "kmode k = Executing" "klevel k = IntOn" and y: "Yield k = Inr k'"
  shows "wake_ok k'"
proof (cases "readyList k")
  case Nil
  then show ?thesis using k(2) y by (simp add: Yield_eq_none)
next
  case (Cons n r)
  obtain ct where ct: "threads k (currentThread k) = Some ct" "currentThread k \<notin> set (n # r)"
    using executing_thread[OF k(1) e(1)] Cons by metis
  obtain nt where nt: "threads k n = Some nt" using ready_thread[OF k(1), of n] Cons by auto
  note k' = y[unfolded Yield_eq[OF Cons ct(1) nt ct(2)], simplified]
  show ?thesis
  proof (rule wake_ok_frame[OF k(2)])
    fix s
    have same: "in_P k' s u = in_P k s u" if "u \<noteq> currentThread k" for u
      using that nt by (simp add: in_P_def thread_is_def flip: k')
    have "filter (in_P k' s) r = filter (in_P k s) r" by (rule filter_in_P, rule same) (use ct(2) in auto)
    moreover have "\<not> in_P k' s (currentThread k)" using ct(2) by (simp add: in_P_def thread_is_def flip: k')
    moreover have "readyList k' = r @ [currentThread k]" "kmode k' = Resuming" "currentThread k' = n" by (simp_all flip: k')
    ultimately show "woken k s \<le> woken k' s" using Cons e same[of n] ct(2) by (simp add: woken_def)
  qed (simp flip: k')
qed

lemma wake_sleep_round:
  assumes k: "kinv k" "wake_ok k" and m: "kmode k = Sleeping f" and y: "Sleep_round f k = Inr k'"
  shows "wake_ok k'"
proof -
  have off: "klevel k = IntOff" using kinvD(5)[OF k(1)] m by (cases "klevel k") (simp_all add: level_ok_def)
  obtain ct where ct: "threads k (currentThread k) = Some ct" using current_thread[OF k(1)] by blast
  have td: "toBeDestroyed k = None" using kinvD(4)[OF k(1)] m by (cases "toBeDestroyed k") (auto simp: dead_ok_def)
  show ?thesis
  proof (cases "readyList k")
    case Nil
    then show ?thesis using k(2) y off by (simp add: Sleep_round_def op_defs)
  next
    case (Cons n r)
    obtain nt where nt: "threads k n = Some nt" using ready_thread[OF k(1), of n] Cons by auto
    let ?nt = "if n = currentThread k then saved k ct else nt"
    have "Sleep_round f k = Run n f (k\<lparr>readyList := r\<rparr>)" using Cons off by (simp add: Sleep_round_def op_defs)
    then have k': "k' = k\<lparr>readyList := r, currentThread := n, kmode := Resuming,
         toBeDestroyed := (if f then Some (currentThread k) else toBeDestroyed k),
         threads := (threads k)(currentThread k \<mapsto> saved k ct, n \<mapsto> ?nt\<lparr>tstatus := RUNNING\<rparr>)\<rparr>"
      using Run_eq[of "k\<lparr>readyList := r\<rparr>" f ct n ?nt] off td ct nt y by (simp add: saved_def)
    have "in_P k' s = in_P k s" for s using ct nt by (intro ext) (auto simp: k' in_P_def thread_is_def)
    moreover have "readyList k' = r" "kmode k' = Resuming" "currentThread k' = n" by (simp_all add: k')
    ultimately have "woken k s \<le> woken k' s" for s using Cons m by (simp add: woken_def)
    then show ?thesis by (rule wake_ok_frame[OF k(2)]) (simp add: k')
  qed
qed

lemma wake_finish:
  assumes k: "kinv k" "wake_ok k" and e: "kmode k = Executing" and y: "Finish k = Inr k'"
  shows "wake_ok k'"
proof -
  obtain ct where ct: "threads k (currentThread k) = Some ct" "currentThread k \<notin> set (readyList k)"
    using executing_thread[OF k(1) e] by metis
  note k' = y[unfolded Finish_eq[OF ct(1)], simplified]
  show ?thesis
  proof (rule wake_ok_frame[OF k(2)])
    fix s
    have same: "in_P k' s u = in_P k s u" if "u \<noteq> currentThread k" for u using that by (simp add: in_P_def thread_is_def flip: k')
    have "filter (in_P k' s) (readyList k) = filter (in_P k s) (readyList k)" by (rule filter_in_P, rule same) (use ct(2) in auto)
    moreover have "readyList k' = readyList k" by (simp flip: k')
    ultimately show "woken k s \<le> woken k' s" using e by (simp add: woken_def)
  qed (simp flip: k')
qed

lemma wake_V:
  assumes k: "kinv k" "wake_ok k" and s: "sems k s = Some sm" and y: "V s k = Inr k'"
  shows "wake_ok k'"
proof (cases "semQueue sm")
  case Nil
  note k' = y[unfolded V_eq_empty[OF s Nil], simplified]
  have "in_P k' u = in_P k u" for u by (intro ext) (simp add: in_P_def thread_is_def flip: k')
  moreover have "readyList k' = readyList k" "kmode k' = kmode k" "currentThread k' = currentThread k" by (simp_all flip: k')
  ultimately have "woken k' u = woken k u" for u by (simp add: woken_def)
  then show ?thesis using k(2) unfolding wake_ok_def by (auto simp flip: k')
next
  case (Cons t q)
  obtain th where th: "threads k t = Some th" "cont th = InP s IntOn" "t \<notin> set (readyList k)"
    using queued_thread[OF k(1) s, of t] Cons by auto
  note k' = y[unfolded V_eq_wake[OF s Cons th(1,3)], simplified]
  have "in_P k' u = in_P k u" for u using th by (intro ext) (simp add: in_P_def thread_is_def flip: k')
  moreover have "in_P k u t \<longleftrightarrow> u = s" for u using th by (auto simp: in_P_def)
  moreover have "readyList k' = readyList k @ [t]" "kmode k' = kmode k" "currentThread k' = currentThread k" by (simp_all flip: k')
  ultimately have w: "woken k' u = woken k u + (if u = s then 1 else 0)" for u by (simp add: woken_def)
  have "semValue sm \<le> int (woken k s)" by (rule wake_okD[OF k(2) s]) (simp add: Cons)
  then show ?thesis using wake_okD[OF k(2)] unfolding wake_ok_def w by (auto simp flip: k')
qed

text \<open>
  A thread in \<open>P\<close> looks at the value: it may be one of the woken threads, and leaves them by taking the
  value or by finding it zero.
\<close>

lemma wake_P_round:
  assumes k: "live k" and off: "klevel k = IntOff" and s: "sems k s = Some sm"
    and w: "\<And>u sm. sems k u = Some sm \<Longrightarrow> semQueue sm \<noteq> [] \<Longrightarrow>
      semValue sm \<le> int (length (filter (in_P k u) (readyList k))) + (if u = s then 1 else 0)"
    and y: "P_round s l k = Inr k'"
  shows "wake_ok k'"
proof -
  obtain ct where ct: "threads k (currentThread k) = Some ct" "tstatus ct = RUNNING"
    using k by (auto simp: live_def thread_is_def split: option.splits)
  have pl: "place_ok k (currentThread k)" using k by (simp add: live_def)
  have nr: "currentThread k \<notin> set (readyList k)" and nq: "currentThread k \<notin> set (semQueue sm)"
    using pl ct s by (auto simp: place_ok_def waits_on_def in_queue_def)
  have v: "0 \<le> semValue sm" using k s unfolding live_def lists_ok_def by blast
  obtain q where k': "readyList k' = readyList k" "kmode k' \<noteq> Resuming"
    "sems k' = (sems k)(s \<mapsto> \<lparr>semValue = (if semValue sm = 0 then 0 else semValue sm - 1), semQueue = q\<rparr>)"
    "semValue sm = 0 \<or> q = semQueue sm"
    "\<And>u. u \<noteq> currentThread k \<Longrightarrow> threads k' u = threads k u"
  proof (cases "semValue sm = 0")
    case True
    show thesis by (rule that[of "semQueue sm @ [currentThread k]"])
      (use y[unfolded P_round_eq_sleep[OF s True nq off ct(1)]] True in \<open>auto simp: Semaphore.defs\<close>)
  next
    case False
    show thesis by (rule that[of "semQueue sm"])
      (use y[unfolded P_round_eq_take[OF s False]] False in auto)
  qed
  have "filter (in_P k' u) (readyList k) = filter (in_P k u) (readyList k)" for u
    by (rule filter_in_P, rule in_P_cong, rule k'(5)) (use nr in auto)
  then have "woken k' u = length (filter (in_P k u) (readyList k))" for u using k'(1,2) by (simp add: woken_def)
  moreover have "semQueue sm \<noteq> [] \<Longrightarrow> semValue sm - 1 \<le> int (length (filter (in_P k s) (readyList k)))"
    using w[OF s] by simp
  moreover have "semValue sm' \<le> int (length (filter (in_P k u) (readyList k)))"
    if "sems k u = Some sm'" "semQueue sm' \<noteq> []" "u \<noteq> s" for u sm' using w[of u sm'] that by simp
  ultimately show ?thesis using k'(3,4) v unfolding wake_ok_def by (auto split: if_splits)
qed

lemma woken_buried:
  assumes k: "kinv k"
  shows "filter (in_P (buried k) u) (readyList k) = filter (in_P k u) (readyList k)"
proof (rule filter_in_P, rule in_P_cong)
  fix t
  assume "t \<in> set (readyList k)"
  then have "toBeDestroyed k \<noteq> Some t" using ready_thread[OF k] by metis
  then show "threads (buried k) t = threads k t" by simp
qed

lemma wake_P:
  assumes k: "kinv k" "wake_ok k" and e: "kmode k = Executing" "klevel k = IntOn" and s: "sems k s = Some sm" and y: "P s k = Inr k'"
  shows "wake_ok k'"
proof -
  obtain ct where ct: "threads k (currentThread k) = Some ct" "tstatus ct = RUNNING" "toBeDestroyed k = None"
    using executing_thread[OF k(1) e(1)] by metis
  have "place_ok (set_level IntOff k) t" for t
    by (rule place_ok_frame[OF kinvD(2)[OF k(1)]]) (simp_all add: set_level_def in_queue_def)
  then have lv: "live (set_level IntOff k)"
    using kinvD(3)[OF k(1)] ct e by (simp add: live_def set_level_def lists_ok_def thread_is_def)
  have "in_P (set_level IntOff k) u = in_P k u" for u by (intro ext) (simp add: set_level_def in_P_def thread_is_def)
  moreover have "woken k u = length (filter (in_P k u) (readyList k))" for u using e by (simp add: woken_def)
  ultimately have w: "semValue sm \<le> int (length (filter (in_P (set_level IntOff k) u) (readyList (set_level IntOff k)))) + (if u = s then 1 else 0)"
    if "sems (set_level IntOff k) u = Some sm" "semQueue sm \<noteq> []" for u sm
    using wake_okD[OF k(2), of u sm] that by (auto simp: set_level_def)
  show ?thesis by (rule wake_P_round[OF lv _ _ w y[unfolded P_def]]) (use s in \<open>simp_all add: set_level_def\<close>)
qed

lemma wake_resume:
  assumes k: "kinv k" "wake_ok k" and m: "kmode k = Resuming" and y: "resume k = Inr k'"
  shows "wake_ok k'"
proof -
  obtain ct where ct: "threads k (currentThread k) = Some ct" "thread_ok k (currentThread k) ct" using current_thread[OF k(1)] .
  have sus: "suspended (cont ct)" using kinvD(1)[OF k(1)] m ct by (simp add: current_ok_def)
  obtain r a where k1: "after_switch k = Inr ((buried k)\<lparr>mregs := r, mspace := a\<rparr>)"
    "live ((buried k)\<lparr>mregs := r, mspace := a\<rparr>)" "klevel k = IntOff" using after_switch_live[OF k(1) m] .
  have P1: "in_P ((buried k)\<lparr>mregs := r, mspace := a\<rparr>) u = in_P (buried k) u" for u r a
    by (intro ext) (simp add: in_P_def thread_is_def)
  have P2: "in_P ((buried k)\<lparr>mregs := r, mspace := a, klevel := l, kmode := Executing\<rparr>) u = in_P (buried k) u"
    "in_P ((buried k)\<lparr>klevel := l, kmode := Executing\<rparr>) u = in_P (buried k) u" for u r a l
    by (intro ext, simp add: in_P_def thread_is_def)+
  show ?thesis
  proof (cases "cont ct")
    case AtBegin
    then have "\<not> in_P k u (currentThread k)" for u using ct by (simp add: in_P_def)
    moreover have "k' = (buried k)\<lparr>klevel := IntOn, kmode := Executing\<rparr>"
      using y ct AtBegin by (simp add: resume_def Begin_def CheckToBeDestroyed_eq[OF k(1) m] set_level_def)
    ultimately show ?thesis
      by (intro wake_ok_frame[OF k(2)]) (simp_all add: woken_def P2 woken_buried[OF k(1)])
  next
    case (InYield l)
    then have "\<not> in_P k u (currentThread k)" for u using ct by (simp add: in_P_def)
    moreover have "k' = (buried k)\<lparr>mregs := r, mspace := a, klevel := l, kmode := Executing\<rparr>"
      using y ct InYield k1(1) by (simp add: resume_def set_level_def)
    ultimately show ?thesis
      by (intro wake_ok_frame[OF k(2)]) (simp_all add: woken_def P2 woken_buried[OF k(1)])
  next
    case (InP s l)
    then obtain sm where sm: "sems k s = Some sm" "l = IntOn" using ct by (auto simp: thread_ok_def)
    have "woken k u = length (filter (in_P k u) (readyList k)) + (if u = s then 1 else 0)" for u
      using ct InP m by (auto simp: woken_def in_P_def)
    then have w: "semValue sm \<le> int (length (filter (in_P ((buried k)\<lparr>mregs := r, mspace := a\<rparr>) u) (readyList k))) + (if u = s then 1 else 0)"
      if "sems k u = Some sm" "semQueue sm \<noteq> []" for u sm
      using wake_okD[OF k(2) that] unfolding P1 woken_buried[OF k(1)] by (simp split: if_splits)
    show ?thesis
      by (rule wake_P_round[OF k1(2), of s]) (use y ct InP k1(1,3) sm w in \<open>simp_all add: resume_def\<close>)
  qed (use sus in simp_all)
qed

lemma wake_kstep: "kstep k r \<Longrightarrow> kinv k \<Longrightarrow> wake_ok k \<Longrightarrow> r = Inr k' \<Longrightarrow> wake_ok k'"
proof (induction rule: kstep.induct)
  case (compute k r)
  then show ?case by (auto simp: wake_ok_def woken_def in_P_def[abs_def] thread_is_def)
next
  case (new_space k th a)
  then have "in_P k' u = in_P k u" for u by (intro ext) (auto simp: in_P_def thread_is_def split: if_splits)
  then have "woken k' u = woken k u" for u using new_space by (auto simp: woken_def)
  then show ?case using new_space by (auto simp: wake_ok_def)
next
  case (new_sem k s v)
  then have "in_P k' u = in_P k u" for u by (intro ext) (auto simp: in_P_def thread_is_def Semaphore_new_def set_sem_def)
  then have "woken k' u = woken k u" for u using new_sem by (auto simp: woken_def Semaphore_new_def set_sem_def)
  then show ?case using new_sem by (auto simp: wake_ok_def Semaphore_new_def set_sem_def split: if_splits)
next
  case (irq_running k s sm)
  then show ?case using irq_running_eq wake_V by metis
qed (blast intro: wake_new_thread wake_fork wake_yield wake_P wake_V wake_finish wake_sleep_round wake_resume
     | use wake_new_thread in force)+

lemma reachable_wake_ok: "reachable k \<Longrightarrow> wake_ok k"
proof (induction rule: reachable.induct)
  case start
  then show ?case by (simp add: wake_ok_def kernel_new_def)
next
  case (step k k')
  then show ?case using wake_kstep reachable_kinv by blast
qed

section \<open>Context switches\<close>

text \<open>
  A step of another thread changes at most the status of a thread that has been started: it makes it
  ready or switches to it.
\<close>

definition same_block :: "Thread \<Rightarrow> Thread \<Rightarrow> bool" where
  "same_block th th' \<longleftrightarrow> tstatus th' \<noteq> JUST_CREATED \<and> cont th' = cont th \<and>
     userRegisters th' = userRegisters th \<and> space th' = space th"

definition untouched :: "nat \<Rightarrow> Thread \<Rightarrow> kernel \<Rightarrow> bool" where
  "untouched t th k \<longleftrightarrow> (\<exists>th'. threads k t = Some th' \<and> same_block th th') \<and>
     toBeDestroyed k \<noteq> Some t \<and> (currentThread k = t \<longrightarrow> kmode k = Resuming)"

lemma untouched_Run:
  assumes "Run n f k = Inr k'" "threads k t = Some th'" "same_block th th'"
    "toBeDestroyed k \<noteq> Some t" "currentThread k \<noteq> t"
  shows "untouched t th k'"
  using assms
  by (cases f; cases "n = t") (auto simp: Run_def Let_def run_simps SaveUserState_def upd_thread_def untouched_def same_block_def split: if_splits)

lemma untouched_P_round:
  assumes "P_round s l k = Inr k'" "threads k t = Some th'" "same_block th th'"
    "toBeDestroyed k \<noteq> Some t" "currentThread k \<noteq> t"
  shows "untouched t th k'"
  using assms by (auto simp: P_round_def Sleep_def op_defs upd_thread_def run_simps untouched_def same_block_def split: if_splits)

lemma untouched_resume:
  assumes k: "kinv k" and m: "kmode k = Resuming" and r: "resume k = Inr k'"
    and t: "threads k t = Some th'" "same_block th th'" "toBeDestroyed k \<noteq> Some t" "currentThread k \<noteq> t"
  shows "untouched t th k'"
proof -
  obtain ct where ct: "threads k (currentThread k) = Some ct" using current_thread[OF k] by blast
  obtain r a where k1: "after_switch k = Inr ((buried k)\<lparr>mregs := r, mspace := a\<rparr>)"
    using after_switch_live[OF k m] by metis
  have t': "threads (buried k) t = Some th'" using t by simp
  show ?thesis
  proof (cases "cont ct")
    case (InP s l)
    then have "P_round s l ((buried k)\<lparr>mregs := r, mspace := a\<rparr>) = Inr k'" using \<open>resume k = Inr k'\<close> ct k1 by (simp add: resume_def)
    then show ?thesis by (rule untouched_P_round) (use t t' in \<open>simp_all add: same_block_def\<close>)
  qed (use assms(3) ct k1 t t' in \<open>auto simp: resume_def Begin_def CheckToBeDestroyed_eq[OF k m] set_level_def untouched_def same_block_def\<close>)
qed

lemma untouched_step:
  assumes "kstep k r"
  shows "kinv k \<Longrightarrow> untouched t th k \<Longrightarrow> currentThread k \<noteq> t \<Longrightarrow> r = Inr k' \<Longrightarrow> untouched t th k'"
  using assms
proof (induction rule: kstep.induct)
  case (yield k)
  then obtain th' where st: "threads k t = Some th'" "same_block th th'" "toBeDestroyed k \<noteq> Some t"
    by (auto simp: untouched_def same_block_def)
  show ?case
  proof (cases "readyList k")
    case Nil
    then show ?thesis using yield by (simp add: Yield_eq_none)
  next
    case (Cons n r')
    obtain ct where ct: "threads k (currentThread k) = Some ct" "currentThread k \<notin> set (n # r')"
      using executing_thread[OF yield(3,1)] Cons by metis
    obtain nt where nt: "threads k n = Some nt" using ready_thread[OF yield(3), of n] Cons by auto
    show ?thesis using yield(6)[unfolded Yield_eq[OF Cons ct(1) nt ct(2)], simplified] st yield nt
      by (cases "n = t") (auto simp: untouched_def same_block_def)
  qed
next
  case (sleep_round k f)
  then obtain th' where st: "threads k t = Some th'" "same_block th th'" "toBeDestroyed k \<noteq> Some t"
    by (auto simp: untouched_def same_block_def)
  show ?case
  proof (cases "readyList k")
    case Nil
    then show ?thesis using sleep_round by (simp add: Sleep_round_def op_defs run_simps)
  next
    case (Cons n r')
    then have "Run n f (k\<lparr>readyList := r'\<rparr>) = Inr k'" using sleep_round by (simp add: Sleep_round_def op_defs run_simps)
    then show ?thesis by (rule untouched_Run) (use st sleep_round in \<open>simp_all add: same_block_def\<close>)
  qed
next
  case (down k s sm)
  then obtain th' where "threads k t = Some th'" "same_block th th'" "toBeDestroyed k \<noteq> Some t"
    by (auto simp: untouched_def same_block_def)
  then show ?case using down untouched_P_round[of s "klevel k" "set_level IntOff k"]
    by (simp add: P_def set_level_def same_block_def)
next
  case (switch_in k)
  then show ?case using untouched_resume by (auto simp: untouched_def same_block_def)
qed (auto simp: untouched_def same_block_def Thread_new_def Fork_def StackAllocate_def Semaphore_new_def V_def Finish_def Sleep_def op_defs upd_thread_def run_simps
      split: if_splits)

text \<open>\<open>away t k k'\<close>: from \<open>k\<close> to \<open>k'\<close> only other threads than \<open>t\<close> take steps.\<close>

inductive away :: "nat \<Rightarrow> kernel \<Rightarrow> kernel \<Rightarrow> bool" for t where
  stay: "away t k k"
| others: "away t k k' \<Longrightarrow> currentThread k' \<noteq> t \<Longrightarrow> kstep k' (Inr k'') \<Longrightarrow> away t k k''"

lemma kstep_kinv: "kstep k (Inr k') \<Longrightarrow> kinv k \<Longrightarrow> kinv k'"
  using kstep_runs[of k "Inr k'"] by simp

lemma untouched_away: "away t k k' \<Longrightarrow> kinv k \<Longrightarrow> untouched t th k \<Longrightarrow> kinv k' \<and> untouched t th k'"
  by (induction rule: away.induct) (use untouched_step kstep_kinv in blast)+

lemma P_round_frame: "P_round s l k = Inr k' \<Longrightarrow> mregs k' = mregs k \<and> mspace k' = mspace k \<and> kmode k' \<noteq> Resuming"
  by (auto simp: P_round_def Sleep_def op_defs upd_thread_def run_simps split: if_splits)

lemma resume_not_Resuming:
  assumes "resume k = Inr k'"
  shows "kmode k' \<noteq> Resuming"
proof -
  obtain th where "threads k (currentThread k) = Some th" using assms by (auto simp: resume_def run_simps)
  then show ?thesis using assms P_round_frame[where k' = k']
    by (cases "cont th") (auto simp: resume_def Begin_def set_level_def run_simps)
qed

lemma Resuming_cases:
  assumes "kstep k r" "r = Inr k'" "kmode k' = Resuming"
  shows "readyList k \<noteq> [] \<and> (kmode k = Executing \<and> klevel k = IntOn \<and> Yield k = Inr k' \<or>
    (\<exists>f. kmode k = Sleeping f \<and> Sleep_round f k = Inr k'))"
  using assms
proof (induction rule: kstep.induct)
  case (yield k)
  then show ?case by (cases "readyList k") (auto simp: Yield_eq_none)
next
  case (sleep_round k f)
  then show ?case by (cases "readyList k = []") (auto simp: Sleep_round_def op_defs run_simps)
next
  case (switch_in k)
  then show ?case using resume_not_Resuming by blast
qed (auto simp: Thread_new_def Fork_def StackAllocate_def Semaphore_new_def P_def P_round_def V_def Finish_def Sleep_def op_defs
       upd_thread_def run_simps split: if_splits)

text \<open>The step that gives up the processor saves the registers of a user program.\<close>

lemma switch_away:
  assumes k: "kinv k" and f: "kmode k \<noteq> Sleeping True" and th: "threads k (currentThread k) = Some th" "space th = Some a"
    and step: "kstep k (Inr k1)" and m: "kmode k1 = Resuming"
  shows "\<exists>c. untouched (currentThread k) (th\<lparr>cont := c, userRegisters := mregs k\<rparr>) k1 \<and>
    ((\<exists>l. c = InYield l) \<or> (\<exists>s l. c = InP s l))"
proof -
  consider (y) "kmode k = Executing" "klevel k = IntOn" "Yield k = Inr k1" "readyList k \<noteq> []"
    | (s) "kmode k = Sleeping False" "Sleep_round False k = Inr k1" "readyList k \<noteq> []"
    using Resuming_cases[OF step refl m] f by (metis (full_types))
  then show ?thesis
  proof cases
    case y
    obtain n r where nr: "readyList k = n # r" using y(4) by (cases "readyList k") auto
    have c: "currentThread k \<notin> set (n # r)" "toBeDestroyed k = None" using executing_thread[OF k y(1)] nr by metis+
    obtain nt where nt: "threads k n = Some nt" using ready_thread[OF k, of n] nr by auto
    note k1 = y(3)[unfolded Yield_eq[OF nr th(1) nt c(1)], simplified]
    show ?thesis using th c
      by (intro exI[of _ "InYield (klevel k)"]) (auto simp: untouched_def same_block_def saved_def simp flip: k1)
  next
    case s
    obtain n r where nr: "readyList k = n # r" using s(3) by (cases "readyList k") auto
    have off: "klevel k = IntOff" using kinvD(5)[OF k] s by (cases "klevel k") (simp_all add: level_ok_def)
    have td: "toBeDestroyed k = None" using kinvD(4)[OF k] s by (cases "toBeDestroyed k") (auto simp: dead_ok_def)
    obtain nt where nt: "threads k n = Some nt" using ready_thread[OF k, of n] nr by auto
    let ?nt = "if n = currentThread k then saved k th else nt"
    have "Run n False (k\<lparr>readyList := r\<rparr>) = Inr k1" using s nr off by (simp add: Sleep_round_def op_defs)
    then have k1: "k1 = k\<lparr>readyList := r, currentThread := n, kmode := Resuming, toBeDestroyed := None,
         threads := (threads k)(currentThread k \<mapsto> saved k th, n \<mapsto> ?nt\<lparr>tstatus := RUNNING\<rparr>)\<rparr>"
      using Run_eq[of "k\<lparr>readyList := r\<rparr>" False th n ?nt] off td th nt by (simp add: saved_def)
    have "tstatus th \<in> {BLOCKED, READY}" "\<exists>s l. cont th = InP s l" using kinvD(1)[OF k] s th by (simp_all add: current_ok_def)
    then show ?thesis using th
      by (intro exI[of _ "cont th"]) (auto simp: untouched_def same_block_def saved_def k1)
  qed
qed

lemma resume_regs:
  assumes k: "kinv k" and m: "kmode k = Resuming" and r: "resume k = Inr k'"
    and th: "threads k (currentThread k) = Some th" "space th = Some a" "(\<exists>l. cont th = InYield l) \<or> (\<exists>s l. cont th = InP s l)"
  shows "mregs k' = userRegisters th \<and> mspace k' = Some a"
  using r th after_switch_eq[OF k m th(1)] P_round_frame[where k' = k'] by (fastforce simp: resume_def set_level_def)

text \<open>
  A run of the kernel, used as a concrete case: the main thread gets an address space and a semaphore,
  forks a second thread, and computes.
\<close>

definition two_threads :: kernel where
  "two_threads = \<lparr>currentThread = 0, kmode = Executing, klevel = IntOn,
     threads = [0 \<mapsto> \<lparr>tstatus = RUNNING, cont = Unstarted, userRegisters = (\<lambda>_. 0), space = Some 7\<rparr>,
                1 \<mapsto> \<lparr>tstatus = READY, cont = AtBegin, userRegisters = (\<lambda>_. 0), space = None\<rparr>],
     readyList = [1], toBeDestroyed = None, sems = [0 \<mapsto> \<lparr>semValue = 0, semQueue = []\<rparr>], mregs = (\<lambda>_. 5), mspace = Some 7\<rparr>"

lemma two_threads_reachable: "reachable two_threads"
proof -
  let ?k1 = "kernel_new\<lparr>threads := [0 \<mapsto> \<lparr>tstatus = RUNNING, cont = Unstarted, userRegisters = (\<lambda>_. 0), space = Some 7\<rparr>], mspace := Some 7\<rparr>"
  let ?k2 = "Semaphore_new 0 0 ?k1" and ?k3 = "Thread_new 1 (Semaphore_new 0 0 ?k1)"
  let ?k4 = "?k3\<lparr>threads := (threads ?k3)(1 \<mapsto> \<lparr>tstatus = READY, cont = AtBegin, userRegisters = (\<lambda>_. 0), space = None\<rparr>), readyList := [1]\<rparr>"
  note simps = kernel_new_def Semaphore_new_def Thread_new_def set_sem_def
  have "kstep kernel_new (Inr ?k1)"
    using kstep.new_space[of kernel_new "\<lparr>tstatus = RUNNING, cont = Unstarted, userRegisters = (\<lambda>_. 0), space = None\<rparr>" "Some 7"]
    by (simp add: kernel_new_def)
  then have r1: "reachable ?k1" using reachable.start reachable.step by blast
  have "kstep ?k1 (Inr ?k2)" by (rule kstep.new_sem) (simp_all add: simps)
  then have r2: "reachable ?k2" using r1 reachable.step by blast
  have "kstep ?k2 (Inr ?k3)" by (rule kstep.new_thread) (simp_all add: simps)
  then have r3: "reachable ?k3" using r2 reachable.step by blast
  have "kstep ?k3 (Fork 1 ?k3)" by (rule kstep.fork[where th = "\<lparr>tstatus = JUST_CREATED, cont = Unstarted, userRegisters = (\<lambda>_. 0), space = None\<rparr>"]) (simp_all add: simps)
  moreover have "Fork 1 ?k3 = Inr ?k4"
    by (subst Fork_eq[of _ _ "\<lparr>tstatus = JUST_CREATED, cont = Unstarted, userRegisters = (\<lambda>_. 0), space = None\<rparr>"]) (simp_all add: simps)
  ultimately have r4: "reachable ?k4" using r3 reachable.step by metis
  have "kstep ?k4 (Inr (?k4\<lparr>mregs := (\<lambda>_. 5)\<rparr>))" by (rule kstep.compute) (simp_all add: simps)
  then have "reachable (?k4\<lparr>mregs := (\<lambda>_. 5)\<rparr>)" using r4 reachable.step by blast
  moreover have "?k4\<lparr>mregs := (\<lambda>_. 5)\<rparr> = two_threads" by (simp add: simps two_threads_def)
  ultimately show ?thesis by simp
qed

section \<open>Properties\<close>

text \<open>
  C1: in every state the kernel can reach, every operation of threads, scheduler and semaphores that
  can be called there, every interrupt handler and every context switch runs to its end: no assertion
  of the code fails and no deleted or missing thread is touched.
\<close>

theorem kernel_steps_run:
  assumes "reachable k" "kstep k r"
  shows "\<exists>k'. r = Inr k' \<and> reachable k'"
  using kstep_runs[OF assms(2) reachable_kinv[OF assms(1)]] reachable.step[OF assms(1)] assms(2) by (auto simp: runs_def)

theorem kernel_steps_run_witness:
  "reachable two_threads \<and> kstep two_threads (P 0 two_threads) \<and> (\<exists>k'. P 0 two_threads = Inr k' \<and> reachable k')"
proof -
  have "kstep two_threads (P 0 two_threads)" by (rule kstep.down) (simp_all add: two_threads_def)
  then show ?thesis using kernel_steps_run[OF two_threads_reachable] two_threads_reachable by blast
qed



text \<open>
  C5: no wake-up is lost: while threads wait on a semaphore, its value is at most the number of threads
  that were woken and have still to look at it, so a positive value always finds a taker.
\<close>

theorem no_lost_wakeup:
  assumes "reachable k" "sems k s = Some sm" "semQueue sm \<noteq> []"
  shows "semValue sm \<le> int (woken k s)"
  by (rule wake_okD[OF reachable_wake_ok[OF assms(1)] assms(2,3)])

theorem no_lost_wakeup_witness:
  "\<exists>k. P 0 two_threads = Inr k \<and> sems k 0 = Some \<lparr>semValue = 0, semQueue = [0]\<rparr> \<and> (0::int) \<le> int (woken k 0)"
proof -
  obtain k where k: "P 0 two_threads = Inr k" "sems k 0 = Some \<lparr>semValue = 0, semQueue = [0]\<rparr>"
    by (simp add: P_def P_round_def Sleep_def op_defs two_threads_def)
  have "kstep two_threads (P 0 two_threads)" by (rule kstep.down) (simp_all add: two_threads_def)
  then have "reachable k" using reachable.step[OF two_threads_reachable] k(1) by simp
  then show ?thesis using no_lost_wakeup[of k 0 "\<lparr>semValue = 0, semQueue = [0]\<rparr>"] k by simp
qed

text \<open>
  \<open>V\<close> increments the value, wakes the thread that has waited longest by moving it to the end of the
  ready list, and changes nothing else that belongs to other semaphores or to the caller.
\<close>

theorem V_wakes_first:
  assumes "reachable k" "sems k s = Some sm"
  shows "\<exists>k'. V s k = Inr k' \<and> sems k' = (sems k)(s \<mapsto> \<lparr>semValue = semValue sm + 1, semQueue = tl (semQueue sm)\<rparr>) \<and>
    readyList k' = readyList k @ take 1 (semQueue sm) \<and> klevel k' = klevel k \<and> kmode k' = kmode k \<and>
    currentThread k' = currentThread k \<and> mregs k' = mregs k"
proof -
  have k: "kinv k" by (rule reachable_kinv[OF assms(1)])
  show ?thesis
  proof (cases "semQueue sm")
    case Nil
    then show ?thesis by (simp add: V_eq_empty[OF assms(2)])
  next
    case (Cons t q)
    then obtain th where "threads k t = Some th" "t \<notin> set (readyList k)" using queued_thread[OF k assms(2), of t] by auto
    then show ?thesis using Cons by (simp add: V_eq_wake[OF assms(2)])
  qed
qed

text \<open>
  C17: a user program finds its registers and its address space again after a context switch: when the
  current thread, which has an address space, gives up the processor in \<open>Yield\<close> or \<open>P\<close>, any number of
  steps of other threads follow, and it is switched to again, then the machine registers are those of
  the moment it gave up the processor and its page table is installed.
\<close>

theorem context_switch_keeps_registers:
  assumes "reachable k" "kmode k \<noteq> Sleeping True" "threads k (currentThread k) = Some th" "space th = Some a"
    and "kstep k (Inr k1)" "kmode k1 = Resuming" "away (currentThread k) k1 k2" "currentThread k2 = currentThread k"
    and "kstep k2 (Inr k3)"
  shows "mregs k3 = mregs k \<and> mspace k3 = Some a"
proof -
  have k: "kinv k" "kinv k1" using reachable_kinv[OF assms(1)] kstep_kinv[OF assms(5)] by blast+
  obtain c where c: "untouched (currentThread k) (th\<lparr>cont := c, userRegisters := mregs k\<rparr>) k1"
    "(\<exists>l. c = InYield l) \<or> (\<exists>s l. c = InP s l)" using switch_away[OF k(1) assms(2-6)] by blast
  then have k2: "kinv k2" "untouched (currentThread k) (th\<lparr>cont := c, userRegisters := mregs k\<rparr>) k2"
    using untouched_away[OF assms(7) k(2)] by blast+
  then obtain th2 where th2: "threads k2 (currentThread k2) = Some th2" "kmode k2 = Resuming" "userRegisters th2 = mregs k"
    "space th2 = Some a" "cont th2 = c" using assms(4,8) by (auto simp: untouched_def same_block_def)
  have "resume k2 = Inr k3" using assms(9) th2(2) by (auto elim: kstep.cases)
  then show ?thesis using resume_regs[OF k2(1) th2(2) _ th2(1,4)] c(2) th2(3,5) by simp
qed

theorem context_switch_keeps_registers_witness:
  "\<exists>k1 k2 k3. kstep two_threads (Inr k1) \<and> away 0 k1 k2 \<and> currentThread k1 = 1 \<and> kstep k2 (Inr k3) \<and>
     mregs k3 = (\<lambda>_. 5) \<and> mspace k3 = Some 7"
proof -
  let ?th = "\<lparr>tstatus = RUNNING, cont = Unstarted, userRegisters = (\<lambda>_. 0), space = Some 7\<rparr>"
  obtain k1 where k1: "Yield two_threads = Inr k1" "currentThread k1 = 1" "kmode k1 = Resuming" "klevel k1 = IntOff" "readyList k1 = [0]"
    "threads k1 = [0 \<mapsto> ?th\<lparr>cont := InYield IntOn, tstatus := READY, userRegisters := (\<lambda>_. 5)\<rparr>,
                   1 \<mapsto> \<lparr>tstatus = RUNNING, cont = AtBegin, userRegisters = (\<lambda>_. 0), space = None\<rparr>]" "toBeDestroyed k1 = None"
    by (simp add: two_threads_def Yield_def op_defs Run_def SaveUserState_def fun_upd_twist)
  have y: "kstep two_threads (Inr k1)" using kstep.yield[of two_threads] k1(1) by (simp add: two_threads_def)
  then have r1: "reachable k1" using reachable.step[OF two_threads_reachable] by simp
  let ?k = "k1\<lparr>klevel := IntOn, kmode := Executing\<rparr>"
  have b: "kstep k1 (Inr ?k)" using kstep.switch_in[OF k1(3)] k1
    by (simp add: resume_def Begin_def CheckToBeDestroyed_def set_level_def)
  then have r: "reachable ?k" using reachable.step[OF r1] by simp
  obtain k2 where k2: "Yield ?k = Inr k2" "currentThread k2 = 0" "kmode k2 = Resuming"
    using k1 by (simp add: Yield_def op_defs Run_def)
  have y2: "kstep ?k (Inr k2)" using kstep.yield[of ?k] k2(1) by simp
  have aw: "away 0 k1 k2" using away.others[OF away.others[OF away.stay[of 0 k1] _ b] _ y2] k1(2) by simp
  have "reachable k2" using reachable.step[OF r y2] .
  then obtain k3 where k3: "resume k2 = Inr k3" using kstep_runs[OF kstep.switch_in[OF k2(3)] reachable_kinv] by (auto simp: runs_def)
  then have s3: "kstep k2 (Inr k3)" using kstep.switch_in[OF k2(3)] by simp
  have "mregs k3 = mregs two_threads \<and> mspace k3 = Some 7"
    by (rule context_switch_keeps_registers[OF two_threads_reachable _ _ _ y k1(3) _ _ s3, where th = ?th])
      (use aw k2 in \<open>simp_all add: two_threads_def\<close>)
  then show ?thesis using y aw k1(2) s3 by (auto simp: two_threads_def)
qed

end
