(* ===== verification/FileStub.thy ===== *)
theory FileStub
  imports Prelude
begin

text \<open>
  The file system as it is built: with \<^verbatim>\<open>FILESYS_STUB\<close> the classes \<open>OpenFile\<close> and \<open>FileSystem\<close> of
  \<^verbatim>\<open>filesys/openfile.h\<close> and \<^verbatim>\<open>filesys/filesys.h\<close> call the host through the wrappers of
  \<^verbatim>\<open>lib/sysdep.cc\<close>.

  The host is a directory of names, the contents of its files and a table of open descriptors, each
  with a file and a position.  Descriptors are numbered in the order of opening and not used again;
  the code only compares them with -1.  The system calls follow POSIX: reads are short at the end of a
  file, writes behind the end fill the gap with zeros, a seek to a negative position and a read or
  write of a negative length fail.
\<close>

section \<open>The host\<close>

type_synonym bytes = "8 word list"

record host =
  dir :: "bytes \<Rightarrow> nat option"
  inode :: "nat \<Rightarrow> bytes"
  fds :: "int \<Rightarrow> (nat \<times> int) option"
  nextInode :: nat
  nextFd :: int

definition host_new :: host where
  "host_new = \<lparr>dir = Map.empty, inode = (\<lambda>_. []), fds = Map.empty, nextInode = 0, nextFd = 3\<rparr>"

definition new_fd :: "nat \<Rightarrow> host \<Rightarrow> int \<times> host" where
  "new_fd n h = (nextFd h, h\<lparr>fds := (fds h)(nextFd h \<mapsto> (n, 0)), nextFd := nextFd h + 1\<rparr>)"

text \<open>\<^verbatim>\<open>open(name, O_RDWR)\<close>, \<^verbatim>\<open>open(name, O_RDWR|O_CREAT|O_TRUNC, 0666)\<close>, \<^verbatim>\<open>read\<close>, \<^verbatim>\<open>write\<close>, \<^verbatim>\<open>lseek\<close>,
  \<^verbatim>\<open>close\<close> and \<^verbatim>\<open>unlink\<close>.\<close>

definition host_open :: "bytes \<Rightarrow> host \<Rightarrow> int \<times> host" where
  "host_open name h = (case dir h name of None \<Rightarrow> (-1, h) | Some n \<Rightarrow> new_fd n h)"

definition host_creat :: "bytes \<Rightarrow> host \<Rightarrow> int \<times> host" where
  "host_creat name h =
     (case dir h name of
        Some n \<Rightarrow> new_fd n (h\<lparr>inode := (inode h)(n := [])\<rparr>)
      | None \<Rightarrow> let n = nextInode h in
          new_fd n (h\<lparr>dir := (dir h)(name \<mapsto> n), inode := (inode h)(n := []), nextInode := Suc n\<rparr>))"

definition host_read :: "int \<Rightarrow> int \<Rightarrow> host \<Rightarrow> int \<times> bytes \<times> host" where
  "host_read fd n h =
     (case fds h fd of None \<Rightarrow> (-1, [], h)
      | Some (i, pos) \<Rightarrow>
          if n < 0 then (-1, [], h)
          else let bs = take (nat n) (drop (nat pos) (inode h i)) in
            (int (length bs), bs, h\<lparr>fds := (fds h)(fd \<mapsto> (i, pos + int (length bs)))\<rparr>))"

definition overwrite :: "bytes \<Rightarrow> nat \<Rightarrow> bytes \<Rightarrow> bytes" where
  "overwrite c pos bs = take pos (c @ replicate (pos - length c) 0) @ bs @ drop (pos + length bs) c"

definition host_write :: "int \<Rightarrow> bytes \<Rightarrow> host \<Rightarrow> int \<times> host" where
  "host_write fd bs h =
     (case fds h fd of None \<Rightarrow> (-1, h)
      | Some (i, pos) \<Rightarrow>
          (int (length bs), h\<lparr>inode := (inode h)(i := (if bs = [] then inode h i else overwrite (inode h i) (nat pos) bs)),
                               fds := (fds h)(fd \<mapsto> (i, pos + int (length bs)))\<rparr>))"

datatype whence = SEEK_SET | SEEK_CUR | SEEK_END

definition host_lseek :: "int \<Rightarrow> int \<Rightarrow> whence \<Rightarrow> host \<Rightarrow> int \<times> host" where
  "host_lseek fd offset wh h =
     (case fds h fd of None \<Rightarrow> (-1, h)
      | Some (i, pos) \<Rightarrow>
          let p = (case wh of SEEK_SET \<Rightarrow> offset | SEEK_CUR \<Rightarrow> pos + offset | SEEK_END \<Rightarrow> int (length (inode h i)) + offset) in
          if p < 0 then (-1, h) else (p, h\<lparr>fds := (fds h)(fd \<mapsto> (i, p))\<rparr>))"

definition host_close :: "int \<Rightarrow> host \<Rightarrow> int \<times> host" where
  "host_close fd h = (if fds h fd = None then (-1, h) else (0, h\<lparr>fds := (fds h)(fd := None)\<rparr>))"

definition host_unlink :: "bytes \<Rightarrow> host \<Rightarrow> int \<times> host" where
  "host_unlink name h = (if dir h name = None then (-1, h) else (0, h\<lparr>dir := (dir h)(name := None)\<rparr>))"

section \<open>The wrappers of sysdep.cc\<close>

definition OpenForWrite :: "bytes \<Rightarrow> host \<Rightarrow> (int \<times> host) run" where
  "OpenForWrite name h = (let (fd, h) = host_creat name h in ASSERT (fd \<ge> 0) (Inr (fd, h)))"

definition OpenForReadWrite :: "bytes \<Rightarrow> bool \<Rightarrow> host \<Rightarrow> (int \<times> host) run" where
  "OpenForReadWrite name crashOnError h =
     (let (fd, h) = host_open name h in ASSERT (\<not> crashOnError \<or> fd \<ge> 0) (Inr (fd, h)))"

definition ReadPartial :: "int \<Rightarrow> int \<Rightarrow> host \<Rightarrow> int \<times> bytes \<times> host" where
  "ReadPartial fd nBytes h = host_read fd nBytes h"

text \<open>A write reads \<open>nBytes\<close> bytes of the buffer; a negative count fails in the host.\<close>

definition WriteFile :: "int \<Rightarrow> bytes \<Rightarrow> int \<Rightarrow> host \<Rightarrow> host run" where
  "WriteFile fd buffer nBytes h =
     (if nBytes > int (length buffer) then Inl OutOfBounds
      else let (retVal, h) = (if nBytes < 0 then (-1, h) else host_write fd (take (nat nBytes) buffer) h) in
        ASSERT (retVal = nBytes) (Inr h))"

definition Lseek :: "int \<Rightarrow> int \<Rightarrow> whence \<Rightarrow> host \<Rightarrow> host run" where
  "Lseek fd offset wh h = (let (retVal, h) = host_lseek fd offset wh h in ASSERT (retVal \<ge> 0) (Inr h))"

definition Tell :: "int \<Rightarrow> host \<Rightarrow> int \<times> host" where
  "Tell fd h = host_lseek fd 0 SEEK_CUR h"

definition Close :: "int \<Rightarrow> host \<Rightarrow> (int \<times> host) run" where
  "Close fd h = (let (retVal, h) = host_close fd h in ASSERT (retVal \<ge> 0) (Inr (retVal, h)))"

definition Unlink :: "bytes \<Rightarrow> host \<Rightarrow> int \<times> host" where
  "Unlink name h = (let (r, h) = host_unlink name h in (if r \<noteq> 0 then 1 else 0, h))"

section \<open>OpenFile\<close>

record OpenFile =
  fileFd :: int
  currentOffset :: int

definition OpenFile_new :: "int \<Rightarrow> OpenFile" where
  "OpenFile_new f = \<lparr>fileFd = f, currentOffset = 0\<rparr>"

definition OpenFile_delete :: "OpenFile \<Rightarrow> host \<Rightarrow> host run" where
  "OpenFile_delete f h = bind_run (Close (fileFd f) h) (\<lambda>(_, h). Inr h)"

definition OpenFile_Seek :: "OpenFile \<Rightarrow> int \<Rightarrow> host \<Rightarrow> (int \<times> OpenFile \<times> host) run" where
  "OpenFile_Seek f pos h =
     bind_run (Lseek (fileFd f) pos SEEK_SET h) (\<lambda>h.
     let (t, h) = Tell (fileFd f) h in Inr (t, f\<lparr>currentOffset := t\<rparr>, h))"

definition ReadAt :: "OpenFile \<Rightarrow> int \<Rightarrow> int \<Rightarrow> host \<Rightarrow> (int \<times> bytes \<times> host) run" where
  "ReadAt f numBytes position h =
     bind_run (Lseek (fileFd f) position SEEK_SET h) (\<lambda>h. Inr (ReadPartial (fileFd f) numBytes h))"

definition WriteAt :: "OpenFile \<Rightarrow> bytes \<Rightarrow> int \<Rightarrow> int \<Rightarrow> host \<Rightarrow> (int \<times> host) run" where
  "WriteAt f from_buf numBytes position h =
     bind_run (Lseek (fileFd f) position SEEK_SET h) (\<lambda>h.
     bind_run (WriteFile (fileFd f) from_buf numBytes h) (\<lambda>h. Inr (numBytes, h)))"

definition OpenFile_Read :: "OpenFile \<Rightarrow> int \<Rightarrow> host \<Rightarrow> (int \<times> bytes \<times> OpenFile \<times> host) run" where
  "OpenFile_Read f numBytes h =
     bind_run (ReadAt f numBytes (currentOffset f) h) (\<lambda>(numRead, bs, h).
     Inr (numRead, bs, f\<lparr>currentOffset := currentOffset f + numRead\<rparr>, h))"

definition OpenFile_Write :: "OpenFile \<Rightarrow> bytes \<Rightarrow> int \<Rightarrow> host \<Rightarrow> (int \<times> OpenFile \<times> host) run" where
  "OpenFile_Write f from_buf numBytes h =
     bind_run (WriteAt f from_buf numBytes (currentOffset f) h) (\<lambda>(numWritten, h).
     Inr (numWritten, f\<lparr>currentOffset := currentOffset f + numWritten\<rparr>, h))"

definition OpenFile_Length :: "OpenFile \<Rightarrow> host \<Rightarrow> (int \<times> host) run" where
  "OpenFile_Length f h = bind_run (Lseek (fileFd f) 0 SEEK_END h) (\<lambda>h. Inr (Tell (fileFd f) h))"

section \<open>FileSystem\<close>

definition cstr :: "string \<Rightarrow> bytes" where
  "cstr s = map of_char s"

record FileSystem =
  openFiles :: "OpenFile option list"
  ftype :: "int list"
  fsIdx :: int

definition FS_Create :: "bytes \<Rightarrow> host \<Rightarrow> (bool \<times> host) run" where
  "FS_Create name h =
     bind_run (OpenForWrite name h) (\<lambda>(fileDescriptor, h).
     if fileDescriptor = -1 then Inr (False, h)
     else bind_run (Close fileDescriptor h) (\<lambda>(_, h). Inr (True, h)))"

definition FS_Open :: "bytes \<Rightarrow> host \<Rightarrow> (OpenFile option \<times> host) run" where
  "FS_Open name h =
     bind_run (OpenForReadWrite name False h) (\<lambda>(fileDescriptor, h).
     if fileDescriptor = -1 then Inr (None, h) else Inr (Some (OpenFile_new fileDescriptor), h))"

definition FS_Remove :: "bytes \<Rightarrow> host \<Rightarrow> bool \<times> host" where
  "FS_Remove name h = (let (r, h) = Unlink name h in (r = 0, h))"

fun free_slot :: "OpenFile option list \<Rightarrow> int list \<Rightarrow> int run" where
  "free_slot fs [] = Inr (-1)"
| "free_slot fs (i # is) = bind_run (get_at fs i) (\<lambda>e. if e = None then Inr i else free_slot fs is)"

definition findFreeSlot :: "FileSystem \<Rightarrow> int run" where
  "findFreeSlot fs = free_slot (openFiles fs) (drop 2 (count_to 10))"

definition FileSystem_new :: "host \<Rightarrow> (FileSystem \<times> host) run" where
  "FileSystem_new h =
     (let fs = \<lparr>openFiles = replicate 10 None, ftype = replicate 10 0, fsIdx = 0\<rparr> in
      bind_run (FS_Create (cstr ''stdin'') h) (\<lambda>(_, h).
      bind_run (FS_Create (cstr ''stdout'') h) (\<lambda>(_, h).
      bind_run (set_at (ftype fs) 1 1) (\<lambda>ty.
      bind_run (FS_Open (cstr ''stdin'') h) (\<lambda>(f0, h).
      bind_run (set_at (openFiles fs) (fsIdx fs) f0) (\<lambda>os.
      bind_run (FS_Open (cstr ''stdout'') h) (\<lambda>(f1, h).
      bind_run (set_at os (fsIdx fs + 1) f1) (\<lambda>os.
      Inr (fs\<lparr>openFiles := os, ftype := ty, fsIdx := fsIdx fs + 2\<rparr>, h)))))))))"

definition FileSystem_delete :: "FileSystem \<Rightarrow> host \<Rightarrow> host run" where
  "FileSystem_delete fs h =
     for_each (\<lambda>i h. bind_run (get_at (openFiles fs) i) (\<lambda>e. case e of None \<Rightarrow> Inr h | Some f \<Rightarrow> OpenFile_delete f h))
       (count_to 10) h"

section \<open>What an open file promises\<close>

lemma length_overwrite: "length (overwrite c p bs) = max (length c) (p + length bs)"
  by (simp add: overwrite_def)

lemma overwrite_read: "take (length bs) (drop p (overwrite c p bs)) = bs"
  by (simp add: overwrite_def)

lemma overwrite_nth:
  assumes "k < length (overwrite c p bs)"
  shows "overwrite c p bs ! k =
    (if p \<le> k \<and> k < p + length bs then bs ! (k - p) else if k < length c then c ! k else 0)"
  using assms by (auto simp: overwrite_def nth_append min_def)

text \<open>\<open>refers h f i\<close>: the descriptor of \<open>f\<close> is open on file \<open>i\<close>.\<close>

definition refers :: "host \<Rightarrow> OpenFile \<Rightarrow> nat \<Rightarrow> bool" where
  "refers h f i \<longleftrightarrow> (\<exists>p \<ge> 0. fds h (fileFd f) = Some (i, p))"

lemma Lseek_eq:
  assumes "fds h fd = Some (i, p)" "0 \<le> offset"
  shows "Lseek fd offset SEEK_SET h = Inr (h\<lparr>fds := (fds h)(fd \<mapsto> (i, offset))\<rparr>)"
  using assms by (simp add: Lseek_def host_lseek_def)

lemma ReadAt_eq:
  assumes "refers h f i" "0 \<le> n" "0 \<le> pos"
  shows "\<exists>p. ReadAt f n pos h = Inr (int (length (take (nat n) (drop (nat pos) (inode h i)))),
     take (nat n) (drop (nat pos) (inode h i)), h\<lparr>fds := (fds h)(fileFd f \<mapsto> (i, p))\<rparr>) \<and> 0 \<le> p"
  using assms by (auto simp: refers_def ReadAt_def Lseek_eq ReadPartial_def host_read_def Let_def)

lemma WriteAt_eq:
  assumes "refers h f i" "0 \<le> n" "n \<le> int (length buf)" "0 \<le> pos"
  shows "\<exists>p. WriteAt f buf n pos h = Inr (n, h\<lparr>fds := (fds h)(fileFd f \<mapsto> (i, p)),
     inode := (inode h)(i := (if n = 0 then inode h i else overwrite (inode h i) (nat pos) (take (nat n) buf)))\<rparr>) \<and> 0 \<le> p"
proof (intro exI conjI)
  have "length (take (nat n) buf) = nat n" using assms(2,3) by simp
  then show "WriteAt f buf n pos h = Inr (n, h\<lparr>fds := (fds h)(fileFd f \<mapsto> (i, pos + n)),
     inode := (inode h)(i := (if n = 0 then inode h i else overwrite (inode h i) (nat pos) (take (nat n) buf)))\<rparr>)"
    using assms by (cases "n = 0") (auto simp: refers_def WriteAt_def Lseek_eq WriteFile_def host_write_def Let_def fun_upd_idem)
qed (use assms in simp)

lemma refers_upd: "refers h g i \<Longrightarrow> 0 \<le> p \<Longrightarrow> fds h' = (fds h)(fd \<mapsto> (j, p)) \<Longrightarrow> (fd = fileFd g \<longrightarrow> j = i) \<Longrightarrow> refers h' g i"
  by (auto simp: refers_def)

text \<open>
  An open file is an array of bytes with a position.  \<open>Write\<close> of \<open>n\<close> bytes succeeds, puts them at the
  position, extends the file if needed and with zeros before a position behind its end, changes no other byte and
  no other file, and moves the position behind them; afterwards every open file on the same contents
  reads the bytes back from there.
\<close>

theorem Write_reads_back:
  assumes "refers h f i" "0 \<le> currentOffset f" "0 < n" "n \<le> int (length buf)" "refers h g i"
  shows "\<exists>f' h'. OpenFile_Write f buf n h = Inr (n, f', h') \<and> currentOffset f' = currentOffset f + n \<and>
     (\<forall>j. j \<noteq> i \<longrightarrow> inode h' j = inode h j) \<and>
     length (inode h' i) = max (length (inode h i)) (nat (currentOffset f + n)) \<and>
     (\<forall>k < length (inode h' i). k < nat (currentOffset f) \<or> nat (currentOffset f + n) \<le> k \<longrightarrow>
        inode h' i ! k = (if k < length (inode h i) then inode h i ! k else 0)) \<and>
     (\<exists>h''. ReadAt g n (currentOffset f) h' = Inr (n, take (nat n) buf, h'') \<and> inode h'' = inode h')"
proof -
  let ?p = "nat (currentOffset f)" and ?bs = "take (nat n) buf"
  let ?c = "overwrite (inode h i) ?p ?bs"
  obtain p where p: "WriteAt f buf n (currentOffset f) h = Inr (n, h\<lparr>fds := (fds h)(fileFd f \<mapsto> (i, p)), inode := (inode h)(i := ?c)\<rparr>)" "0 \<le> p"
    using WriteAt_eq[OF assms(1) _ assms(4,2)] assms(3) by auto
  define h' where "h' = h\<lparr>fds := (fds h)(fileFd f \<mapsto> (i, p)), inode := (inode h)(i := ?c)\<rparr>"
  have w: "OpenFile_Write f buf n h = Inr (n, f\<lparr>currentOffset := currentOffset f + n\<rparr>, h')"
    using p by (simp add: OpenFile_Write_def h'_def)
  have g: "refers h' g i" by (rule refers_upd[OF assms(5) p(2), of _ "fileFd f" i]) (simp_all add: h'_def)
  have len: "length ?bs = nat n" using assms(3,4) by simp
  have i': "inode h' i = ?c" by (simp add: h'_def)
  have read: "take (nat n) (drop ?p ?c) = ?bs" using overwrite_read[of ?bs ?p "inode h i"] len by simp
  then obtain q where "ReadAt g n (currentOffset f) h' = Inr (int (length ?bs), ?bs, h'\<lparr>fds := (fds h')(fileFd g \<mapsto> (i, q))\<rparr>)"
    using ReadAt_eq[OF g, of n "currentOffset f"] assms(2,3) i' by auto
  then have r: "\<exists>h''. ReadAt g n (currentOffset f) h' = Inr (n, ?bs, h'') \<and> inode h'' = inode h'" using len assms(3) by simp
  have l: "length (inode h' i) = max (length (inode h i)) (nat (currentOffset f + n))"
    using assms(2,3) len by (simp add: i' length_overwrite nat_add_distrib)
  have k: "inode h' i ! k = (if k < length (inode h i) then inode h i ! k else 0)"
    if "k < length (inode h' i)" "k < ?p \<or> nat (currentOffset f + n) \<le> k" for k
    using overwrite_nth[of k "inode h i" ?p ?bs] that assms(2,3) len by (auto simp: i' nat_add_distrib)
  show ?thesis using w r l k by (intro exI[of _ "f\<lparr>currentOffset := currentOffset f + n\<rparr>"] exI[of _ h']) (simp add: h'_def)
qed

section \<open>The table of open files\<close>

text \<open>The table has ten slots, the first two hold the console, and every used slot has an open descriptor.\<close>

definition fs_ok :: "FileSystem \<Rightarrow> host \<Rightarrow> bool" where
  [inv_defs]: "fs_ok fs h \<longleftrightarrow> length (openFiles fs) = 10 \<and> length (ftype fs) = 10 \<and>
     (\<forall>f \<in> set (openFiles fs). \<forall>x. f = Some x \<longrightarrow> (\<exists>i. refers h x i) \<and> 0 \<le> currentOffset x)"

lemma free_slot_cases:
  assumes "set is \<subseteq> {0..<int (length os)}"
  shows "(\<forall>i \<in> set is. os ! nat i \<noteq> None) \<and> free_slot os is = Inr (-1) \<or>
    (\<exists>i \<in> set is. os ! nat i = None \<and> free_slot os is = Inr i)"
  using assms by (induction "is") (auto simp: get_at_def)

lemma findFreeSlot_cases:
  assumes "fs_ok fs h"
  shows "findFreeSlot fs = Inr (-1) \<and> (\<forall>i \<in> {2..<10}. openFiles fs ! i \<noteq> None) \<or>
    (\<exists>i \<in> {2..<10}. findFreeSlot fs = Inr (int i) \<and> openFiles fs ! i = None)"
proof -
  have s: "drop 2 (count_to 10) = map int [2..<10]" by code_simp
  have set_s: "set (drop 2 (count_to 10)) = int ` {2..<10}" unfolding s by (simp only: set_map set_upt)
  have "set (drop 2 (count_to 10)) \<subseteq> {0..<int (length (openFiles fs))}" unfolding set_s using assms by (auto simp: fs_ok_def)
  from free_slot_cases[OF this] show ?thesis
  proof
    assume a: "(\<forall>i \<in> set (drop 2 (count_to 10)). openFiles fs ! nat i \<noteq> None) \<and> free_slot (openFiles fs) (drop 2 (count_to 10)) = Inr (-1)"
    have "openFiles fs ! i \<noteq> None" if "i \<in> {2..<10}" for i
    proof -
      have "int i \<in> set (drop 2 (count_to 10))" using that by (simp add: set_s)
      with a show ?thesis by fastforce
    qed
    with a show ?thesis by (simp add: findFreeSlot_def)
  next
    assume "\<exists>i \<in> set (drop 2 (count_to 10)). openFiles fs ! nat i = None \<and> free_slot (openFiles fs) (drop 2 (count_to 10)) = Inr i"
    then obtain i where "i \<in> int ` {2..<10}" "openFiles fs ! nat i = None" "findFreeSlot fs = Inr i"
      unfolding findFreeSlot_def set_s by blast
    then show ?thesis by auto
  qed
qed

end
