(* ===== verification/Processes.thy ===== *)
theory Processes
  imports Threads BitmapLib FileStub
begin

text \<open>
  Processes and named semaphores: \<^verbatim>\<open>threads/ptable.cc\<close>, \<^verbatim>\<open>threads/pcb.cc\<close>, \<^verbatim>\<open>threads/stable.cc\<close>,
  \<^verbatim>\<open>threads/sem.cc\<close> and the system calls on them in \<^verbatim>\<open>userprog/ksyscall.h\<close>.

  These routines block and are preempted in the middle, so a routine is a list of commands, cut at every
  \<open>P\<close> and \<open>V\<close>; every thread has the list of commands it has still to execute, empty while its user program
  runs.  Threads take turns in any order.  A thread in \<open>P\<close> waits on one semaphore object, \<open>PWait x\<close>, until its value is not
  zero, and then decrements it: that \<open>P\<close> and \<open>V\<close> of the thread system behave so is the interpretation
  \<open>kernel_sem\<close> below.

  A method of a control block holds the pointer to the block, also while it waits; only \<open>ExecStart\<close> finds it in the table again, where the
  slot of a process without a thread cannot change.

  Semaphores, control blocks and name buffers are objects with identities that are never used again, so that a
  use after \<open>delete\<close> is a \<open>BadPointer\<close>.  Names are at most 32 characters long; \<open>User2System\<close> does not terminate
  longer ones.
\<close>

section \<open>State\<close>

datatype semref = Bmsem | JoinSem int | ExitSem int | Multex nat | TabSem int

datatype pcmd = Down semref | PWait nat | Up semref
  | ExecCheck nat | ExecStart nat int | FreeName nat
  | JoinCheck int | IncNumWait nat | JoinRead int | ReturnEc
  | ExitCheck int | DecNumWait nat | RemoveCmd int | FinishCmd
  | SemCreate nat int | SemWait nat | SemSignal nat | Return int

record PCB =
  joinsem :: nat
  exitsem :: nat
  multex :: nat
  exitcode :: int
  numwait :: int
  pthread :: "nat option"
  FileName :: bytes
  parentID :: int

record Sem =
  semName :: bytes
  semObj :: nat

record process =
  processID :: int
  tname :: nat
  code :: "pcmd list"
  result :: int
  ec :: int

record procs =
  ptBm :: Bitmap
  pcb :: "nat option list"
  pcbHeap :: "nat \<Rightarrow> PCB option"
  bmsem :: nat
  stBm :: Bitmap
  semTab :: "Sem option list"
  semVal :: "nat \<Rightarrow> int option"
  names :: "nat \<Rightarrow> bytes option"
  thr :: "nat \<Rightarrow> process option"
  nextId :: nat
  progs :: "bytes \<Rightarrow> bool"
  halted :: bool

definition MAX_PROCESS :: int where "MAX_PROCESS = 10"
definition MAX_SEMAPHORE :: int where "MAX_SEMAPHORE = 10"

text \<open>\<open>new Semaphore\<close>, \<open>P\<close> when it does not have to wait, and \<open>V\<close>.\<close>

definition new_sem_obj :: "int \<Rightarrow> procs \<Rightarrow> nat \<times> procs" where
  "new_sem_obj v s = (nextId s, s\<lparr>semVal := (semVal s)(nextId s \<mapsto> v), nextId := Suc (nextId s)\<rparr>)"

definition sem_add :: "nat \<Rightarrow> int \<Rightarrow> procs \<Rightarrow> procs run" where
  "sem_add x d s = bind_run (deref (semVal s x)) (\<lambda>v. Inr (s\<lparr>semVal := (semVal s)(x \<mapsto> v + d)\<rparr>))"

definition can_pass :: "nat \<Rightarrow> procs \<Rightarrow> bool" where
  "can_pass x s \<longleftrightarrow> semVal s x \<noteq> None \<and> semVal s x \<noteq> Some 0"

definition upd_proc :: "nat \<Rightarrow> (process \<Rightarrow> process) \<Rightarrow> procs \<Rightarrow> procs run" where
  "upd_proc t f s = bind_run (deref (thr s t)) (\<lambda>p. Inr (s\<lparr>thr := (thr s)(t \<mapsto> f p)\<rparr>))"

definition push :: "nat \<Rightarrow> pcmd list \<Rightarrow> procs \<Rightarrow> procs run" where
  "push t cs s = upd_proc t (\<lambda>p. p\<lparr>code := cs @ code p\<rparr>) s"

definition pcb_ptr :: "int \<Rightarrow> procs \<Rightarrow> nat run" where
  "pcb_ptr i s = bind_run (get_at (pcb s) i) deref"

definition get_pcb :: "int \<Rightarrow> procs \<Rightarrow> PCB run" where
  "get_pcb i s = bind_run (pcb_ptr i s) (\<lambda>a. deref (pcbHeap s a))"

definition upd_pcb_at :: "nat \<Rightarrow> (PCB \<Rightarrow> PCB) \<Rightarrow> procs \<Rightarrow> procs run" where
  "upd_pcb_at a f s = bind_run (deref (pcbHeap s a)) (\<lambda>p. Inr (s\<lparr>pcbHeap := (pcbHeap s)(a \<mapsto> f p)\<rparr>))"

definition upd_pcb :: "int \<Rightarrow> (PCB \<Rightarrow> PCB) \<Rightarrow> procs \<Rightarrow> procs run" where
  "upd_pcb i f s = bind_run (pcb_ptr i s) (\<lambda>a. upd_pcb_at a f s)"

definition sem_of :: "semref \<Rightarrow> procs \<Rightarrow> nat run" where
  "sem_of r s = (case r of
     Bmsem \<Rightarrow> Inr (bmsem s)
   | JoinSem i \<Rightarrow> bind_run (get_pcb i s) (\<lambda>p. Inr (joinsem p))
   | ExitSem i \<Rightarrow> bind_run (get_pcb i s) (\<lambda>p. Inr (exitsem p))
   | Multex a \<Rightarrow> bind_run (deref (pcbHeap s a)) (\<lambda>p. Inr (multex p))
   | TabSem i \<Rightarrow> bind_run (get_at (semTab s) i) (\<lambda>e. bind_run (deref e) (\<lambda>e. Inr (semObj e))))"

section \<open>PCB\<close>

definition PCB_new :: "int \<Rightarrow> int \<Rightarrow> procs \<Rightarrow> nat \<times> procs" where
  "PCB_new i cur s =
     (let (j, s) = new_sem_obj 0 s; (e, s) = new_sem_obj 0 s; (x, s) = new_sem_obj 1 s; a = nextId s in
      (a, s\<lparr>pcbHeap := (pcbHeap s)(a \<mapsto> \<lparr>joinsem = j, exitsem = e, multex = x, exitcode = 0, numwait = 0, pthread = None,
         FileName = [], parentID = (if i = 0 then -1 else cur)\<rparr>), nextId := Suc a\<rparr>))"

text \<open>\<^verbatim>\<open>strcpy\<close> into an array of 32 characters.\<close>

definition SetFileName :: "int \<Rightarrow> bytes \<Rightarrow> procs \<Rightarrow> procs run" where
  "SetFileName i fn s = (if length fn \<ge> 32 then Inl OutOfBounds else upd_pcb i (\<lambda>p. p\<lparr>FileName := fn\<rparr>) s)"

text \<open>
  The destructor deletes the semaphores and then calls \<open>Finish\<close> on its thread, which must be the current
  one and never returns; so the memory of the control block itself is not freed.
\<close>

definition PCB_delete :: "nat \<Rightarrow> nat \<Rightarrow> procs \<Rightarrow> procs run" where
  "PCB_delete t a s =
     bind_run (deref (pcbHeap s a)) (\<lambda>p.
     let s = s\<lparr>semVal := (semVal s)(joinsem p := None, exitsem p := None, multex p := None)\<rparr> in
     case pthread p of None \<Rightarrow> Inr s
     | Some u \<Rightarrow> ASSERT (u = t) (Inr (s\<lparr>thr := (thr s)(t := None)\<rparr>)))"

definition PCB_Exec :: "nat \<Rightarrow> nat \<Rightarrow> int \<Rightarrow> procs \<Rightarrow> procs run" where
  "PCB_Exec t buf i s =
     bind_run (deref (thr s t)) (\<lambda>cur.
     let u = nextId s;
         s = s\<lparr>thr := (thr s)(u \<mapsto> \<lparr>processID = i, tname = buf, code = [], result = 0, ec = 0\<rparr>), nextId := Suc u\<rparr> in
     upd_pcb i (\<lambda>p. p\<lparr>pthread := Some u, parentID := processID cur\<rparr>) s)"

section \<open>PTable\<close>

definition PTable_new :: "int \<Rightarrow> procs \<Rightarrow> procs run" where
  "PTable_new psize s =
     (if psize < 0 then Inr s
      else bind_run (Bitmap_new psize) (\<lambda>b.
        let (x, s) = new_sem_obj 1 s; s = s\<lparr>bmsem := x, pcb := replicate (nat MAX_PROCESS) None\<rparr> in
        bind_run (Bitmap_Mark b 0) (\<lambda>b.
        let (a, s) = PCB_new 0 0 s in
        bind_run (set_at (pcb s) 0 (Some a)) (\<lambda>ps.
        bind_run (SetFileName 0 (cstr ''../test/nghiala'') (s\<lparr>ptBm := b, pcb := ps\<rparr>)) (upd_pcb 0 (\<lambda>p. p\<lparr>parentID := -1\<rparr>))))))"

definition GetFreeSlot :: "procs \<Rightarrow> (int \<times> procs) run" where
  "GetFreeSlot s = bind_run (Bitmap_FindAndSet (ptBm s)) (\<lambda>(i, b). Inr (i, s\<lparr>ptBm := b\<rparr>))"

definition IsExist :: "int \<Rightarrow> procs \<Rightarrow> bool run" where
  "IsExist n s = Bitmap_Test (ptBm s) n"

text \<open>\<open>ExecUpdate\<close> behind \<open>bmsem->P()\<close>.  The last commands end the inlined \<open>PCB::Exec\<close> and \<open>ExecUpdate\<close>.\<close>

definition exec_check :: "nat \<Rightarrow> nat \<Rightarrow> procs \<Rightarrow> procs run" where
  "exec_check t buf s =
     bind_run (deref (thr s t)) (\<lambda>cur.
     bind_run (deref (names s buf)) (\<lambda>name.
     bind_run (if name = cstr ''../test/nghiala'' then Inr True
               else bind_run (deref (names s (tname cur))) (\<lambda>own. Inr (name = own))) (\<lambda>itself.
     if itself then push t [Up Bmsem, Return (-1)] s
     else bind_run (GetFreeSlot s) (\<lambda>(index, s).
       if index < 0 then push t [Up Bmsem, Return (-1)] s
       else let (a, s) = PCB_new index (processID cur) s in
         bind_run (set_at (pcb s) index (Some a)) (\<lambda>ps.
         bind_run (SetFileName index name (s\<lparr>pcb := ps\<rparr>)) (\<lambda>s.
         bind_run (upd_pcb index (\<lambda>p. p\<lparr>parentID := processID cur\<rparr>) s)
           (push t [Down (Multex a), ExecStart buf index, Up (Multex a), Up Bmsem, Return index])))))))"

text \<open>\<open>JoinUpdate\<close>.  There is no test of the upper bound of \<open>id\<close>, nor for a slot without a control block.\<close>

definition join_check :: "nat \<Rightarrow> int \<Rightarrow> procs \<Rightarrow> procs run" where
  "join_check t i s =
     (if i < 0 then push t [Return (-1)] s
      else bind_run (deref (thr s t)) (\<lambda>cur.
        bind_run (get_pcb i s) (\<lambda>p.
        if processID cur \<noteq> parentID p then push t [Return (-1)] s
        else bind_run (pcb_ptr (parentID p) s) (\<lambda>par.
          push t [Down (Multex par), IncNumWait par, Up (Multex par), Down (JoinSem i), JoinRead i, Up (ExitSem i), ReturnEc] s))))"

text \<open>\<open>ExitUpdate\<close>.\<close>

definition exit_check :: "nat \<Rightarrow> int \<Rightarrow> procs \<Rightarrow> procs run" where
  "exit_check t exitc s =
     bind_run (deref (thr s t)) (\<lambda>cur.
     let id = processID cur in
     if id = 0 then Inr (s\<lparr>halted := True\<rparr>)
     else bind_run (IsExist id s) (\<lambda>ex.
       if \<not> ex then Inr s
       else bind_run (upd_pcb id (\<lambda>p. p\<lparr>exitcode := exitc\<rparr>) s) (\<lambda>s.
         bind_run (get_pcb id s) (\<lambda>p.
         bind_run (pcb_ptr (parentID p) s) (\<lambda>par.
         push t [Down (Multex par), DecNumWait par, Up (Multex par), Up (JoinSem id), Down (ExitSem id), RemoveCmd id] s)))))"

definition PTable_Remove :: "nat \<Rightarrow> int \<Rightarrow> procs \<Rightarrow> procs run" where
  "PTable_Remove t n s =
     bind_run (Bitmap_Clear (ptBm s) n) (\<lambda>b.
     let s = s\<lparr>ptBm := b\<rparr> in
     bind_run (get_at (pcb s) n) (\<lambda>a.
     case a of None \<Rightarrow> Inr s | Some a \<Rightarrow> PCB_delete t a s))"

section \<open>STable\<close>

definition STable_new :: "procs \<Rightarrow> procs run" where
  "STable_new s =
     bind_run (Bitmap_new MAX_SEMAPHORE) (\<lambda>b. Inr (s\<lparr>stBm := b, semTab := replicate (nat MAX_SEMAPHORE) None\<rparr>))"

text \<open>The loop of \<open>Create\<close>, \<open>Wait\<close> and \<open>Signal\<close> over the used slots.\<close>

fun st_find :: "bytes \<Rightarrow> procs \<Rightarrow> int list \<Rightarrow> int option run" where
  "st_find name s [] = Inr None"
| "st_find name s (i # is) =
     bind_run (Bitmap_Test (stBm s) i) (\<lambda>used.
     if used then
       bind_run (get_at (semTab s) i) (\<lambda>e. bind_run (deref e) (\<lambda>e.
       if name = semName e then Inr (Some i) else st_find name s is))
     else st_find name s is)"

definition STable_Create :: "bytes \<Rightarrow> int \<Rightarrow> procs \<Rightarrow> (int \<times> procs) run" where
  "STable_Create name init s =
     bind_run (st_find name s (count_to MAX_SEMAPHORE)) (\<lambda>found.
     if found \<noteq> None then Inr (-1, s)
     else bind_run (Bitmap_FindAndSet (stBm s)) (\<lambda>(id, b).
       let s = s\<lparr>stBm := b\<rparr> in
       if id < 0 then Inr (-1, s)
       else if length name \<ge> 50 then Inl OutOfBounds
       else let (x, s) = new_sem_obj init s in
         bind_run (set_at (semTab s) id (Some \<lparr>semName = name, semObj = x\<rparr>)) (\<lambda>tab. Inr (0, s\<lparr>semTab := tab\<rparr>))))"

definition STable_Wait :: "nat \<Rightarrow> bytes \<Rightarrow> procs \<Rightarrow> procs run" where
  "STable_Wait t name s =
     bind_run (st_find name s (count_to MAX_SEMAPHORE)) (\<lambda>found.
     case found of None \<Rightarrow> push t [Return (-1)] s | Some i \<Rightarrow> push t [Down (TabSem i), Return 0] s)"

definition STable_Signal :: "nat \<Rightarrow> bytes \<Rightarrow> procs \<Rightarrow> procs run" where
  "STable_Signal t name s =
     bind_run (st_find name s (count_to MAX_SEMAPHORE)) (\<lambda>found.
     case found of None \<Rightarrow> push t [Return (-1)] s | Some i \<Rightarrow> push t [Up (TabSem i), Return 0] s)"

section \<open>Commands and steps\<close>

definition exec_cmd :: "nat \<Rightarrow> pcmd \<Rightarrow> procs \<Rightarrow> procs run" where
  "exec_cmd t c s = (case c of
     Down r \<Rightarrow> bind_run (sem_of r s) (\<lambda>x. bind_run (deref (semVal s x)) (\<lambda>_. push t [PWait x] s))
   | PWait x \<Rightarrow> sem_add x (-1) s
   | Up r \<Rightarrow> bind_run (sem_of r s) (\<lambda>x. sem_add x 1 s)
   | ExecCheck buf \<Rightarrow> exec_check t buf s
   | ExecStart buf i \<Rightarrow> PCB_Exec t buf i s
   | FreeName buf \<Rightarrow> Inr (s\<lparr>names := (names s)(buf := None)\<rparr>)
   | JoinCheck i \<Rightarrow> join_check t i s
   | IncNumWait a \<Rightarrow> upd_pcb_at a (\<lambda>p. p\<lparr>numwait := numwait p + 1\<rparr>) s
   | JoinRead i \<Rightarrow> bind_run (get_pcb i s) (\<lambda>p. upd_proc t (\<lambda>q. q\<lparr>ec := exitcode p\<rparr>) s)
   | ReturnEc \<Rightarrow> upd_proc t (\<lambda>q. q\<lparr>result := ec q\<rparr>) s
   | ExitCheck e \<Rightarrow> exit_check t e s
   | DecNumWait a \<Rightarrow> upd_pcb_at a (\<lambda>p. if numwait p > 0 then p\<lparr>numwait := numwait p - 1\<rparr> else p) s
   | RemoveCmd i \<Rightarrow> PTable_Remove t i s
   | FinishCmd \<Rightarrow> Inr (s\<lparr>thr := (thr s)(t := None)\<rparr>)
   | SemCreate buf v \<Rightarrow> bind_run (deref (names s buf)) (\<lambda>name. bind_run (STable_Create name v s) (\<lambda>(r, s). push t [Return r] s))
   | SemWait buf \<Rightarrow> bind_run (deref (names s buf)) (\<lambda>name. STable_Wait t name s)
   | SemSignal buf \<Rightarrow> bind_run (deref (names s buf)) (\<lambda>name. STable_Signal t name s)
   | Return v \<Rightarrow> upd_proc t (\<lambda>q. q\<lparr>result := v\<rparr>) s)"

text \<open>The system calls \<open>Exec\<close>, \<open>Join\<close>, \<open>Exit\<close>, \<open>CreateSemaphore\<close>, \<open>Wait\<close> and \<open>Signal\<close>.\<close>

datatype pcall = Exec bytes | Join int | Exit int | CreateSemaphore bytes int | Wait bytes | Signal bytes

definition with_name :: "bytes \<Rightarrow> procs \<Rightarrow> (nat \<Rightarrow> procs \<Rightarrow> procs run) \<Rightarrow> procs run" where
  "with_name name s f =
     (if length name > 32 then Inl Uninitialised
      else f (nextId s) (s\<lparr>names := (names s)(nextId s \<mapsto> name), nextId := Suc (nextId s)\<rparr>))"

definition SysExec :: "nat \<Rightarrow> bytes \<Rightarrow> procs \<Rightarrow> procs run" where
  "SysExec t name s = with_name name s (\<lambda>buf s.
     if \<not> progs s name then push t [FreeName buf, Return (-1)] s
     else push t [Down Bmsem, ExecCheck buf, FreeName buf] s)"

definition SysJoin :: "nat \<Rightarrow> int \<Rightarrow> procs \<Rightarrow> procs run" where
  "SysJoin t i s = push t [JoinCheck i] s"

definition SysExit :: "nat \<Rightarrow> int \<Rightarrow> procs \<Rightarrow> procs run" where
  "SysExit t exitCode s = (if exitCode = 0 then push t [ExitCheck exitCode, FinishCmd] s else Inr s)"

definition SysCreateSemaphore :: "nat \<Rightarrow> bytes \<Rightarrow> int \<Rightarrow> procs \<Rightarrow> procs run" where
  "SysCreateSemaphore t name v s = with_name name s (\<lambda>buf s. push t [SemCreate buf v, FreeName buf] s)"

definition SysWait :: "nat \<Rightarrow> bytes \<Rightarrow> procs \<Rightarrow> procs run" where
  "SysWait t name s = with_name name s (\<lambda>buf s. push t [SemWait buf, FreeName buf] s)"

definition SysSignal :: "nat \<Rightarrow> bytes \<Rightarrow> procs \<Rightarrow> procs run" where
  "SysSignal t name s = with_name name s (\<lambda>buf s. push t [SemSignal buf, FreeName buf] s)"

definition do_call :: "nat \<Rightarrow> pcall \<Rightarrow> procs \<Rightarrow> procs run" where
  "do_call t c s = (case c of
     Exec name \<Rightarrow> SysExec t name s | Join i \<Rightarrow> SysJoin t i s | Exit e \<Rightarrow> SysExit t e s
   | CreateSemaphore name v \<Rightarrow> SysCreateSemaphore t name v s | Wait name \<Rightarrow> SysWait t name s | Signal name \<Rightarrow> SysSignal t name s)"

definition set_code :: "nat \<Rightarrow> process \<Rightarrow> pcmd list \<Rightarrow> procs \<Rightarrow> procs" where
  "set_code t p cs s = s\<lparr>thr := (thr s)(t \<mapsto> p\<lparr>code := cs\<rparr>)\<rparr>"

fun ready :: "pcmd \<Rightarrow> procs \<Rightarrow> bool" where
  "ready (PWait x) s = can_pass x s"
| "ready _ s = True"

inductive pstep :: "procs \<Rightarrow> procs run \<Rightarrow> bool" where
  call: "\<not> halted s \<Longrightarrow> thr s t = Some p \<Longrightarrow> code p = [] \<Longrightarrow> pstep s (do_call t c s)"
| cmd: "\<not> halted s \<Longrightarrow> thr s t = Some p \<Longrightarrow> code p = c # cs \<Longrightarrow> ready c s \<Longrightarrow> pstep s (exec_cmd t c (set_code t p cs s))"

text \<open>
  The state after the kernel has created both tables: the main thread runs process 0.  The constructor of \<open>Thread\<close> does not
  set \<open>processID\<close>; the main thread's is taken to be zero.
\<close>

definition procs_new :: "(bytes \<Rightarrow> bool) \<Rightarrow> procs run" where
  "procs_new pr =
     bind_run (Bitmap_new 1) (\<lambda>b.
     bind_run (PTable_new 10 \<lparr>ptBm = b, pcb = [], pcbHeap = Map.empty, bmsem = 0, stBm = b, semTab = [], semVal = Map.empty,
        names = [0 \<mapsto> cstr ''main''], thr = [0 \<mapsto> \<lparr>processID = 0, tname = 0, code = [], result = 0, ec = 0\<rparr>], nextId = 1,
        progs = pr, halted = False\<rparr>) STable_new)"

inductive preach :: "procs \<Rightarrow> bool" where
  preach_start: "procs_new pr = Inr s \<Longrightarrow> preach s"
| preach_step: "preach s \<Longrightarrow> pstep s (Inr s') \<Longrightarrow> preach s'"

section \<open>The contract of a semaphore\<close>

text \<open>
  What the process layer relies on: a round of \<open>P\<close> passes and takes one from the value, or finds zero and leaves all values alone;
  \<open>V\<close> adds one.  The thread system and the commands of this theory both keep to it.
\<close>

locale counting_semaphore =
  fixes val :: "'s \<Rightarrow> nat \<Rightarrow> int option" and down :: "nat \<Rightarrow> 's \<Rightarrow> 's run" and up :: "nat \<Rightarrow> 's \<Rightarrow> 's run"
  assumes down_val: "down x s = Inr s' \<Longrightarrow>
      \<exists>v. val s x = Some v \<and> val s' = (if v = 0 then val s else (val s)(x \<mapsto> v - 1))"
    and up_val: "up x s = Inr s' \<Longrightarrow> \<exists>v. val s x = Some v \<and> val s' = (val s)(x \<mapsto> v + 1)"
begin

definition nonneg :: "'s \<Rightarrow> bool" where
  "nonneg s \<longleftrightarrow> (\<forall>x v. val s x = Some v \<longrightarrow> 0 \<le> v)"

lemma down_nonneg:
  assumes "nonneg s" "down x s = Inr s'"
  shows "nonneg s'"
proof -
  obtain v where v: "val s x = Some v" "val s' = (if v = 0 then val s else (val s)(x \<mapsto> v - 1))" using down_val[OF assms(2)] by blast
  then have "v \<noteq> 0 \<Longrightarrow> 0 \<le> v - 1" using assms(1) unfolding nonneg_def by fastforce
  then show ?thesis using v assms(1) by (cases "v = 0") (simp_all add: nonneg_def)
qed

lemma up_nonneg:
  assumes "nonneg s" "up x s = Inr s'"
  shows "nonneg s'"
proof -
  obtain v where v: "val s x = Some v" "val s' = (val s)(x \<mapsto> v + 1)" using up_val[OF assms(2)] by blast
  then have "0 \<le> v" using assms(1) unfolding nonneg_def by blast
  then show ?thesis using v assms(1) by (auto simp: nonneg_def)
qed

text \<open>One \<open>V\<close> lets exactly one waiting \<open>P\<close> pass.\<close>

lemma up_down:
  assumes "nonneg s" "up x s = Inr s1" "down x s1 = Inr s2"
  shows "val s2 = val s"
proof -
  obtain v w where v: "val s x = Some v" "val s1 = (val s)(x \<mapsto> v + 1)" "val s1 x = Some w" "val s2 = (if w = 0 then val s1 else (val s1)(x \<mapsto> w - 1))"
    using up_val[OF assms(2)] down_val[OF assms(3)] by blast
  have "0 \<le> v" using assms(1) v(1) unfolding nonneg_def by blast
  then have "w = v + 1" "w \<noteq> 0" using v(2,3) by auto
  then show ?thesis using v by (auto simp: fun_upd_idem)
qed

end

definition try_down :: "nat \<Rightarrow> procs \<Rightarrow> procs run" where
  "try_down x s = bind_run (deref (semVal s x)) (\<lambda>_. if can_pass x s then sem_add x (-1) s else Inr s)"

lemma sem_add_val: "sem_add x d s = Inr s' \<Longrightarrow> \<exists>v. semVal s x = Some v \<and> semVal s' = (semVal s)(x \<mapsto> v + d)"
  by (auto simp: sem_add_def run_simps)

interpretation proc_sem: counting_semaphore semVal try_down "\<lambda>x. sem_add x 1"
proof
  fix x s s' assume d: "try_down x s = Inr s'"
  show "\<exists>v. semVal s x = Some v \<and> semVal s' = (if v = 0 then semVal s else (semVal s)(x \<mapsto> v - 1))"
  proof (cases "can_pass x s")
    case True
    then have "sem_add x (-1) s = Inr s'" using d by (auto simp: try_down_def run_simps)
    from sem_add_val[OF this] show ?thesis using True by (auto simp: can_pass_def)
  next
    case False
    then show ?thesis using d by (auto simp: try_down_def run_simps can_pass_def)
  qed
qed (rule sem_add_val)

lemma P_value:
  assumes "P x k = Inr k'"
  shows "\<exists>sm q. sems k x = Some sm \<and> sems k' = (sems k)(x \<mapsto> (if semValue sm = 0 then sm\<lparr>semQueue := q\<rparr> else sm\<lparr>semValue := semValue sm - 1\<rparr>))"
proof -
  obtain sm where sm: "sems k x = Some sm" using assms by (auto simp: P_def P_round_def with_sem_def set_level_def run_simps)
  show ?thesis
  proof (cases "semValue sm = 0")
    case True
    then obtain q where "sems k' = (sems k)(x \<mapsto> sm\<lparr>semQueue := q\<rparr>)"
      using assms sm by (auto simp: P_def P_round_def with_sem_def set_level_def set_sem_def Sleep_def upd_thread_def run_simps)
    with True sm show ?thesis by auto
  next
    case False
    then have "sems k' = (sems k)(x \<mapsto> sm\<lparr>semValue := semValue sm - 1\<rparr>)"
      using assms sm by (auto simp: P_def P_round_def with_sem_def set_level_def set_sem_def)
    with False sm show ?thesis by auto
  qed
qed

lemma V_value:
  assumes "V x k = Inr k'"
  shows "\<exists>sm q. sems k x = Some sm \<and> sems k' = (sems k)(x \<mapsto> \<lparr>semValue = semValue sm + 1, semQueue = q\<rparr>)"
proof -
  obtain sm where sm: "sems k x = Some sm" using assms by (auto simp: V_def with_sem_def set_level_def Let_def run_simps)
  then show ?thesis using assms
    by (cases "semQueue sm = []")
      (auto simp: V_def with_sem_def set_level_def set_sem_def ReadyToRun_def upd_thread_def Let_def run_simps split: prod.splits)
qed

interpretation kernel_sem: counting_semaphore "\<lambda>k x. map_option semValue (sems k x)" P V
proof
  fix x k k' assume "P x k = Inr k'"
  from P_value[OF this] obtain sm q where "sems k x = Some sm" "sems k' = (sems k)(x \<mapsto> (if semValue sm = 0 then sm\<lparr>semQueue := q\<rparr> else sm\<lparr>semValue := semValue sm - 1\<rparr>))"
    by blast
  then show "\<exists>v. map_option semValue (sems k x) = Some v \<and>
      (\<lambda>y. map_option semValue (sems k' y)) = (if v = 0 then \<lambda>y. map_option semValue (sems k y) else (\<lambda>y. map_option semValue (sems k y))(x \<mapsto> v - 1))"
    by (intro exI[of _ "semValue sm"]) (auto simp: fun_eq_iff)
next
  fix x k k' assume "V x k = Inr k'"
  from V_value[OF this] show "\<exists>v. map_option semValue (sems k x) = Some v \<and>
      (\<lambda>y. map_option semValue (sems k' y)) = (\<lambda>y. map_option semValue (sems k y))(x \<mapsto> v + 1)"
    by (auto simp: fun_eq_iff)
qed

end
