(* ===== verification/ProcessTable.thy ===== *)
theory ProcessTable
  imports Processes
begin

text \<open>
  The invariant of the process table: which commands a thread can have, who holds the token of the protocol between
  a process that ends and its parent, and the steps that keep the invariant, except the creation and the end of a process.
\<close>

section \<open>The invariant of the process table\<close>

text \<open>
  \<open>own s i p\<close>: slot \<open>i\<close> is in use, with control block \<open>p\<close>.  A parent holds process \<open>i\<close> from its return from \<open>JoinWait\<close>
  to \<open>ExitRelease\<close>; a child is released from its \<open>JoinRelease\<close> on until \<open>ExitWait\<close> lets it go.
\<close>

definition own :: "procs \<Rightarrow> int \<Rightarrow> PCB \<Rightarrow> bool" where
  "own s i p \<longleftrightarrow> bit_used (ptBm s) i \<and> get_pcb i s = Inr p"

fun holding :: "pcmd list \<Rightarrow> int option" where
  "holding (JoinRead i # _) = Some i"
| "holding (Up (ExitSem i) # _) = Some i"
| "holding _ = None"

fun released :: "pcmd list \<Rightarrow> int option" where
  "released (Down (ExitSem i) # _) = Some i"
| "released (PWait x # RemoveCmd i # _) = Some i"
| "released _ = None"

definition holds :: "procs \<Rightarrow> nat \<Rightarrow> int \<Rightarrow> bool" where
  "holds s t i \<longleftrightarrow> (\<exists>q. thr s t = Some q \<and> holding (code q) = Some i)"

definition is_released :: "procs \<Rightarrow> int \<Rightarrow> bool" where
  "is_released s i \<longleftrightarrow> (\<exists>t q. thr s t = Some q \<and> released (code q) = Some i)"

text \<open>
  There is exactly one token while the child is released and none otherwise: on \<open>joinsem\<close>, with the parent that
  holds the child, or on \<open>exitsem\<close>.
\<close>

definition tok :: "procs \<Rightarrow> int \<Rightarrow> PCB \<Rightarrow> bool" where
  "tok s i p \<longleftrightarrow> (let j = semVal s (joinsem p); e = semVal s (exitsem p) in
     if is_released s i then
       j = Some 1 \<and> e = Some 0 \<and> (\<forall>t. \<not> holds s t i) \<or>
       j = Some 0 \<and> e = Some 0 \<and> (\<exists>t. holds s t i \<and> (\<forall>u. holds s u i \<longrightarrow> u = t)) \<or>
       j = Some 0 \<and> e = Some 1 \<and> (\<forall>t. \<not> holds s t i)
     else j = Some 0 \<and> e = Some 0 \<and> (\<forall>t. \<not> holds s t i))"

fun plain :: "procs \<Rightarrow> pcmd \<Rightarrow> bool" where
  "plain s (PWait x) = (x < nextId s \<and> (\<forall>a p. pcbHeap s a = Some p \<longrightarrow> x \<noteq> joinsem p \<and> x \<noteq> exitsem p))"
| "plain s (Down (JoinSem i)) = False"
| "plain s (Down (ExitSem i)) = False"
| "plain s (Up (JoinSem i)) = False"
| "plain s (Up (ExitSem i)) = False"
| "plain s (JoinCheck i) = False"
| "plain s (JoinRead i) = False"
| "plain s (ExitCheck e) = False"
| "plain s (RemoveCmd i) = False"
| "plain s FinishCmd = False"
| "plain s _ = True"

text \<open>The codes a thread of process \<open>i\<close> can have.\<close>

inductive shape :: "procs \<Rightarrow> int \<Rightarrow> pcmd list \<Rightarrow> bool" for s i where
  sh_plain: "list_all (plain s) cs \<Longrightarrow> shape s i cs"
| sh_join0: "shape s i [JoinCheck j]"
| sh_join: "list_all (plain s) pre \<Longrightarrow> shape s i (pre @ [Down (JoinSem j), JoinRead j, Up (ExitSem j), ReturnEc])"
| sh_jwait: "x < nextId s \<Longrightarrow> (semVal s x \<noteq> None \<longrightarrow> (\<exists>p. own s j p \<and> x = joinsem p)) \<Longrightarrow>
    shape s i [PWait x, JoinRead j, Up (ExitSem j), ReturnEc]"
| sh_hold1: "shape s i [JoinRead j, Up (ExitSem j), ReturnEc]"
| sh_hold2: "shape s i [Up (ExitSem j), ReturnEc]"
| sh_exit0: "shape s i [ExitCheck e, FinishCmd]"
| sh_exit: "i \<noteq> 0 \<Longrightarrow> list_all (plain s) pre \<Longrightarrow> shape s i (pre @ [Up (JoinSem i), Down (ExitSem i), RemoveCmd i, FinishCmd])"
| sh_exit1: "i \<noteq> 0 \<Longrightarrow> shape s i [Down (ExitSem i), RemoveCmd i, FinishCmd]"
| sh_ewait: "i \<noteq> 0 \<Longrightarrow> own s i p \<Longrightarrow> shape s i [PWait (exitsem p), RemoveCmd i, FinishCmd]"
| sh_exit2: "i \<noteq> 0 \<Longrightarrow> shape s i [RemoveCmd i, FinishCmd]"
| sh_halt: "halted s \<Longrightarrow> shape s i [FinishCmd]"

definition psems :: "PCB \<Rightarrow> nat set" where
  "psems p = {joinsem p, exitsem p, multex p}"

definition ids_ok :: "procs \<Rightarrow> bool" where
  "ids_ok s \<longleftrightarrow> (\<forall>x v. semVal s x = Some v \<longrightarrow> x < nextId s) \<and> (\<forall>t q. thr s t = Some q \<longrightarrow> t < nextId s) \<and>
     (\<forall>a p. pcbHeap s a = Some p \<longrightarrow> a < nextId s \<and> (\<forall>x \<in> psems p. x < nextId s) \<and> distinct [joinsem p, exitsem p, multex p] \<and>
        bmsem s \<notin> psems p \<and> (\<forall>m. Some m \<in> set (semTab s) \<longrightarrow> semObj m \<notin> psems p)) \<and>
     (\<forall>a b p q. pcbHeap s a = Some p \<longrightarrow> pcbHeap s b = Some q \<longrightarrow> a \<noteq> b \<longrightarrow> psems p \<inter> psems q = {}) \<and>
     bmsem s < nextId s \<and> (\<forall>m. Some m \<in> set (semTab s) \<longrightarrow> semObj m < nextId s) \<and> 0 < nextId s"

definition slots_ok :: "procs \<Rightarrow> bool" where
  "slots_ok s \<longleftrightarrow> bitmap_inv (ptBm s) \<and> numBits (ptBm s) = 10 \<and> length (pcb s) = 10 \<and> bit_used (ptBm s) 0 \<and>
     (\<forall>i < 10. \<forall>j < 10. \<forall>a. pcb s ! i = Some a \<longrightarrow> pcb s ! j = Some a \<longrightarrow> i = j) \<and>
     (\<forall>i < 10. \<forall>a. pcb s ! i = Some a \<longrightarrow> pcbHeap s a \<noteq> None) \<and>
     (\<forall>i. bit_used (ptBm s) i \<longrightarrow> (\<exists>p. own s i p)) \<and>
     (\<forall>i p. get_pcb i s = Inr p \<longrightarrow> semVal s (joinsem p) \<noteq> None \<longrightarrow> bit_used (ptBm s) i)"

definition procs_ok :: "procs \<Rightarrow> bool" where
  "procs_ok s \<longleftrightarrow> (\<forall>t q. thr s t = Some q \<longrightarrow> shape s (processID q) (code q) \<and>
     (if processID q = 0 then t = 0 else \<exists>p. own s (processID q) p \<and> pthread p = Some t))"

definition toks_ok :: "procs \<Rightarrow> bool" where
  "toks_ok s \<longleftrightarrow> (\<forall>i p. own s i p \<longrightarrow> tok s i p) \<and> (\<forall>t i. holds s t i \<longrightarrow> bit_used (ptBm s) i)"

text \<open>The slots for which \<open>ExecUpdate\<close> has still to make the thread.\<close>

fun starts :: "pcmd list \<Rightarrow> int list" where
  "starts [] = []"
| "starts (ExecStart b i # cs) = i # starts cs"
| "starts (_ # cs) = starts cs"

definition starts_ok :: "procs \<Rightarrow> bool" where
  "starts_ok s \<longleftrightarrow> (\<forall>t q. thr s t = Some q \<longrightarrow> distinct (starts (code q)) \<and>
     (\<forall>i \<in> set (starts (code q)). i \<noteq> 0 \<and> (\<exists>p. own s i p \<and> pthread p = None)) \<and>
     (\<forall>u r. thr s u = Some r \<longrightarrow> u \<noteq> t \<longrightarrow> set (starts (code q)) \<inter> set (starts (code r)) = {}))"

definition pinv :: "procs \<Rightarrow> bool" where
  [inv_defs]: "pinv s \<longleftrightarrow> ids_ok s \<and> slots_ok s \<and> procs_ok s \<and> toks_ok s \<and> starts_ok s"

lemma own_unique: "own s i p \<Longrightarrow> own s i q \<Longrightarrow> p = q"
  by (simp add: own_def)

lemma get_pcb_iff:
  "get_pcb i s = Inr p \<longleftrightarrow> (\<exists>a. 0 \<le> i \<and> i < int (length (pcb s)) \<and> pcb s ! nat i = Some a \<and> pcbHeap s a = Some p)"
  by (auto simp: get_pcb_def pcb_ptr_def run_simps)

lemma ids_okD:
  assumes "ids_ok s" "pcbHeap s a = Some p"
  shows "joinsem p < nextId s" "exitsem p < nextId s" "multex p < nextId s" "joinsem p \<noteq> exitsem p" "joinsem p \<noteq> multex p"
    "exitsem p \<noteq> multex p" "bmsem s \<noteq> joinsem p" "bmsem s \<noteq> exitsem p" "a < nextId s"
  using assms by (force simp: ids_ok_def psems_def)+

lemma psems_disjoint: "ids_ok s \<Longrightarrow> pcbHeap s a = Some p \<Longrightarrow> pcbHeap s b = Some q \<Longrightarrow> a \<noteq> b \<Longrightarrow> x \<in> psems p \<Longrightarrow> x \<notin> psems q"
  unfolding ids_ok_def by blast

text \<open>Changes that keep the shape of a code.\<close>

lemma shape_mono:
  assumes "shape s i cs" "\<And>c. plain s c \<Longrightarrow> plain s' c" "nextId s \<le> nextId s'" "halted s \<Longrightarrow> halted s'"
    "\<And>x j p. x < nextId s \<Longrightarrow> semVal s' x \<noteq> None \<Longrightarrow> semVal s x \<noteq> None"
    "\<And>j p. own s j p \<Longrightarrow> semVal s' (joinsem p) \<noteq> None \<Longrightarrow> \<exists>p'. own s' j p' \<and> joinsem p' = joinsem p"
    "\<And>p. own s i p \<Longrightarrow> \<exists>p'. own s' i p' \<and> exitsem p' = exitsem p"
  shows "shape s' i cs"
  using assms(1)
proof cases
  case (sh_jwait x j)
  have "semVal s' x \<noteq> None \<longrightarrow> (\<exists>p. own s' j p \<and> x = joinsem p)"
    using sh_jwait assms(5)[of x] assms(6)[of j] by metis
  then show ?thesis using sh_jwait assms(3) by (auto intro: shape.sh_jwait)
next
  case (sh_ewait p)
  then obtain p' where "own s' i p'" "exitsem p' = exitsem p" using assms(7) by blast
  then show ?thesis using sh_ewait shape.sh_ewait[of i s' p'] by simp
qed (use assms(2,4) in \<open>auto simp: list_all_iff intro: shape.intros\<close>)

lemma plain_mono:
  assumes "plain s c" "nextId s \<le> nextId s'"
    "\<And>a p. pcbHeap s' a = Some p \<Longrightarrow> (\<exists>q. pcbHeap s a = Some q \<and> joinsem p = joinsem q \<and> exitsem p = exitsem q) \<or>
       nextId s \<le> joinsem p \<and> nextId s \<le> exitsem p"
  shows "plain s' c"
  using assms(1)
proof (cases c)
  case (PWait x)
  then show ?thesis using assms by (fastforce dest!: assms(3))
next
  case (Down r)
  then show ?thesis using assms(1) by (cases r) simp_all
next
  case (Up r)
  then show ?thesis using assms(1) by (cases r) simp_all
qed simp_all

lemma holds_code: "thr s t = Some q \<Longrightarrow> holds s t i \<longleftrightarrow> holding (code q) = Some i"
  by (simp add: holds_def)

lemma plain_idle: "plain s c \<Longrightarrow> holding (c # cs) = None"
  by (cases "(s, c)" rule: plain.cases) auto

lemma own_cong: "ptBm s' = ptBm s \<Longrightarrow> pcb s' = pcb s \<Longrightarrow> pcbHeap s' = pcbHeap s \<Longrightarrow> own s' = own s"
  by (simp add: own_def get_pcb_def pcb_ptr_def fun_eq_iff)

lemma plain_cong: "nextId s' = nextId s \<Longrightarrow> pcbHeap s' = pcbHeap s \<Longrightarrow> plain s' c = plain s c"
  using plain_mono[of s c s'] plain_mono[of s' c s] by auto

lemma shape_cong:
  assumes "ptBm s' = ptBm s" "pcb s' = pcb s" "pcbHeap s' = pcbHeap s" "nextId s' = nextId s" "semVal s' = semVal s" "halted s' = halted s"
  shows "shape s' i cs = shape s i cs"
proof -
  have o: "own s' = own s" using own_cong assms by blast
  have p: "plain s' c = plain s c" for c using plain_cong assms by blast
  show ?thesis using shape_mono[of s i cs s'] shape_mono[of s' i cs s] assms o p by (metis order_refl)
qed

lemma holds_same:
  assumes "thr s t = Some q" "thr s' = (thr s)(t \<mapsto> q')" "holding (code q') = holding (code q)"
  shows "holds s' u i = holds s u i"
  using assms by (simp add: holds_def)

lemma released_same:
  assumes "thr s t = Some q" "thr s' = (thr s)(t \<mapsto> q')" "released (code q') = released (code q)"
  shows "is_released s' i = is_released s i"
  using assms unfolding is_released_def by (metis fun_upd_apply option.inject)

lemma tok_cong:
  assumes "semVal s' (joinsem p') = semVal s (joinsem p)" "semVal s' (exitsem p') = semVal s (exitsem p)"
    "\<And>t. holds s' t i = holds s t i" "is_released s' i = is_released s i"
  shows "tok s' i p' = tok s i p"
  unfolding tok_def using assms by simp

lemma tok_frame:
  assumes "thr s t = Some q" "thr s' = (thr s)(t \<mapsto> q')"
    "holding (code q) \<noteq> Some j" "holding (code q') \<noteq> Some j" "released (code q) \<noteq> Some j" "released (code q') \<noteq> Some j"
    "semVal s' (joinsem p) = semVal s (joinsem p)" "semVal s' (exitsem p) = semVal s (exitsem p)"
  shows "tok s' j p = tok s j p"
proof (rule tok_cong)
  show "holds s' u j = holds s u j" for u using assms(1-4) by (simp add: holds_def)
  show "is_released s' j = is_released s j"
    unfolding is_released_def using assms(1,2,5,6) by (metis fun_upd_apply option.inject)
qed (use assms in simp_all)

lemma ids_ok_mono:
  assumes "ids_ok s" "pcbHeap s' = pcbHeap s" "bmsem s' = bmsem s" "semTab s' = semTab s" "nextId s' = nextId s"
    "\<And>x. semVal s' x \<noteq> None \<Longrightarrow> semVal s x \<noteq> None" "\<And>t. thr s' t \<noteq> None \<Longrightarrow> thr s t \<noteq> None"
  shows "ids_ok s'"
proof -
  have "x < nextId s" if "semVal s' x \<noteq> None" for x using assms(1) assms(6)[OF that] unfolding ids_ok_def by blast
  moreover have "t < nextId s" if "thr s' t \<noteq> None" for t using assms(1) assms(7)[OF that] unfolding ids_ok_def by blast
  ultimately show ?thesis using assms(1-5) unfolding ids_ok_def by simp
qed

lemma starts_ok_mono:
  assumes "starts_ok s" "\<And>u r'. thr s' u = Some r' \<Longrightarrow> starts (code r') = [] \<or> (\<exists>r. thr s u = Some r \<and> starts (code r') = starts (code r))"
    "\<And>i p. own s i p \<Longrightarrow> pthread p = None \<Longrightarrow> \<exists>p'. own s' i p' \<and> pthread p' = None"
  shows "starts_ok s'"
  unfolding starts_ok_def
proof (intro allI impI)
  fix t q assume q: "thr s' t = Some q"
  show "distinct (starts (code q)) \<and> (\<forall>i \<in> set (starts (code q)). i \<noteq> 0 \<and> (\<exists>p. own s' i p \<and> pthread p = None)) \<and>
     (\<forall>u r. thr s' u = Some r \<longrightarrow> u \<noteq> t \<longrightarrow> set (starts (code q)) \<inter> set (starts (code r)) = {})"
  proof (cases "starts (code q) = []")
    case False
    then obtain q0 where q0: "thr s t = Some q0" "starts (code q) = starts (code q0)" using assms(2)[OF q] by blast
    have 1: "distinct (starts (code q0))" "\<forall>i \<in> set (starts (code q0)). i \<noteq> 0 \<and> (\<exists>p. own s i p \<and> pthread p = None)"
      "\<And>u r. thr s u = Some r \<Longrightarrow> u \<noteq> t \<Longrightarrow> set (starts (code q0)) \<inter> set (starts (code r)) = {}"
      using assms(1) q0(1) unfolding starts_ok_def by blast+
    have "set (starts (code q)) \<inter> set (starts (code r)) = {}" if "thr s' u = Some r" "u \<noteq> t" for u r
      using assms(2)[OF that(1)] 1(3)[of u] that(2) q0(2) by auto
    then show ?thesis using 1(1,2) q0(2) assms(3) by metis
  qed simp
qed

text \<open>
  One step of a thread: its code changes, and values of semaphores.  What is left to show is that the new code has
  a possible shape and that there is one token again.
\<close>

lemma pinv_step_starts:
  assumes "pinv s" "thr s t = Some q" "shape s (processID q) (code q')" "processID q' = processID q"
    "starts_ok (s\<lparr>thr := (thr s)(t \<mapsto> q')\<rparr>)"
    "\<And>x. (sv x = None) = (semVal s x = None)"
    "\<And>i p. own s i p \<Longrightarrow> tok (s\<lparr>thr := (thr s)(t \<mapsto> q'), semVal := sv\<rparr>) i p"
    "\<And>i. holding (code q') = Some i \<Longrightarrow> bit_used (ptBm s) i"
  shows "pinv (s\<lparr>thr := (thr s)(t \<mapsto> q'), semVal := sv\<rparr>)"
proof -
  let ?s = "s\<lparr>thr := (thr s)(t \<mapsto> q'), semVal := sv\<rparr>"
  have o: "own ?s = own s" by (rule own_cong) simp_all
  have o': "own (s\<lparr>thr := (thr s)(t \<mapsto> q')\<rparr>) = own s" by (rule own_cong) simp_all
  have pl: "plain ?s c = plain s c" for c by (rule plain_cong) simp_all
  have sh: "shape ?s i cs" if "shape s i cs" for i cs
    by (rule shape_mono[OF that]) (use assms(6) o pl in auto)
  have "ids_ok ?s" by (rule ids_ok_mono[of s]) (use assms(1,2,6) in \<open>auto simp: pinv_def split: if_splits\<close>)
  moreover have "get_pcb i ?s = get_pcb i s" for i by (simp add: get_pcb_def pcb_ptr_def)
  then have "slots_ok ?s" using assms(1,6) o by (simp add: pinv_def slots_ok_def)
  moreover have "procs_ok ?s" using assms(1-4) sh by (auto simp: pinv_def procs_ok_def o split: if_splits)
  moreover have "toks_ok ?s" using assms(1,2,7,8) by (auto simp: pinv_def toks_ok_def o holds_def split: if_splits)
  moreover have "starts_ok ?s" using assms(5) by (simp add: starts_ok_def o o')
  ultimately show ?thesis by (simp add: pinv_def)
qed

lemma starts_ok_code:
  assumes "pinv s" "thr s t = Some q" "starts (code q') = starts (code q)"
  shows "starts_ok (s\<lparr>thr := (thr s)(t \<mapsto> q')\<rparr>)"
proof -
  have o: "own (s\<lparr>thr := (thr s)(t \<mapsto> q')\<rparr>) = own s" by (rule own_cong) simp_all
  show ?thesis
    by (rule starts_ok_mono[of s]) (use assms o in \<open>auto simp: pinv_def split: if_splits\<close>)
qed

lemma pinv_step:
  assumes "pinv s" "thr s t = Some q" "shape s (processID q) (code q')" "processID q' = processID q" "starts (code q') = starts (code q)"
    "\<And>x. (sv x = None) = (semVal s x = None)"
    "\<And>i p. own s i p \<Longrightarrow> tok (s\<lparr>thr := (thr s)(t \<mapsto> q'), semVal := sv\<rparr>) i p"
    "\<And>i. holding (code q') = Some i \<Longrightarrow> bit_used (ptBm s) i"
  shows "pinv (s\<lparr>thr := (thr s)(t \<mapsto> q'), semVal := sv\<rparr>)"
  by (rule pinv_step_starts[OF assms(1-4) starts_ok_code[OF assms(1,2,5)]]) (use assms(6-8) in blast)+

text \<open>A step of a thread that does not take part in the protocol.\<close>

lemma pinv_code_starts:
  assumes "pinv s" "thr s t = Some q" "shape s (processID q) (code q')" "processID q' = processID q"
    "starts_ok (s\<lparr>thr := (thr s)(t \<mapsto> q')\<rparr>)" "holding (code q') = holding (code q)" "released (code q') = released (code q)"
  shows "pinv (s\<lparr>thr := (thr s)(t \<mapsto> q')\<rparr>)"
proof -
  let ?s = "s\<lparr>thr := (thr s)(t \<mapsto> q'), semVal := semVal s\<rparr>"
  have h: "holds ?s u i = holds s u i" for u i using holds_same[OF assms(2) _ assms(6)] by simp
  have r: "is_released ?s i = is_released s i" for i using released_same[OF assms(2) _ assms(7)] by simp
  have "pinv ?s"
  proof (rule pinv_step_starts[OF assms(1-5)])
    show "tok ?s i p" if "own s i p" for i p
      using assms(1) that tok_cong[of ?s p s p i, OF _ _ h r] by (simp add: pinv_def toks_ok_def)
    show "bit_used (ptBm s) i" if "holding (code q') = Some i" for i
      using assms(1,2,6) that unfolding pinv_def toks_ok_def holds_def by metis
  qed simp
  then show ?thesis by simp
qed

lemma pinv_code:
  assumes "pinv s" "thr s t = Some q" "shape s (processID q) (code q')" "processID q' = processID q" "starts (code q') = starts (code q)"
    "holding (code q') = holding (code q)" "released (code q') = released (code q)"
  shows "pinv (s\<lparr>thr := (thr s)(t \<mapsto> q')\<rparr>)"
  by (rule pinv_code_starts[OF assms(1-4) starts_ok_code[OF assms(1,2,5)] assms(6,7)])

lemma pinv_names: "pinv s \<Longrightarrow> pinv (s\<lparr>names := x\<rparr>)"
proof -
  have o: "own (s\<lparr>names := x\<rparr>) = own s" by (rule own_cong) simp_all
  have sh: "shape (s\<lparr>names := x\<rparr>) i cs = shape s i cs" for i cs by (rule shape_cong) simp_all
  have h: "holds (s\<lparr>names := x\<rparr>) t i = holds s t i" "is_released (s\<lparr>names := x\<rparr>) i = is_released s i" for t i
    by (simp_all add: holds_def is_released_def)
  have g: "get_pcb i (s\<lparr>names := x\<rparr>) = get_pcb i s" for i by (simp add: get_pcb_def pcb_ptr_def)
  show "pinv s \<Longrightarrow> ?thesis"
    by (simp add: g pinv_def ids_ok_def slots_ok_def procs_ok_def toks_ok_def starts_ok_def o sh h tok_cong[OF _ _ h])
qed

text \<open>A change of fields of a control block that the protocol does not depend on.\<close>

lemma get_upd_pcb:
  assumes "pcbHeap s a = Some p" "joinsem p' = joinsem p" "exitsem p' = exitsem p" "pthread p' = pthread p"
    "s' = s\<lparr>pcbHeap := (pcbHeap s)(a \<mapsto> p')\<rparr>"
  shows "get_pcb i s = Inr r \<Longrightarrow> \<exists>r'. get_pcb i s' = Inr r' \<and> joinsem r' = joinsem r \<and> exitsem r' = exitsem r \<and> pthread r' = pthread r"
    "get_pcb i s' = Inr r' \<Longrightarrow> \<exists>r. get_pcb i s = Inr r \<and> joinsem r' = joinsem r \<and> exitsem r' = exitsem r \<and> pthread r' = pthread r"
proof -
  show "\<exists>r'. get_pcb i s' = Inr r' \<and> joinsem r' = joinsem r \<and> exitsem r' = exitsem r \<and> pthread r' = pthread r" if o: "get_pcb i s = Inr r"
  proof -
    obtain b where b: "0 \<le> i" "i < int (length (pcb s))" "pcb s ! nat i = Some b" "pcbHeap s b = Some r"
      using o by (auto simp: get_pcb_iff)
    have "get_pcb i s' = Inr (if b = a then p' else r)" using b assms(5) by (auto simp: get_pcb_iff)
    then show ?thesis using assms(1-4) b(4) by (intro exI[of _ "if b = a then p' else r"]) auto
  qed
  show "\<exists>r. get_pcb i s = Inr r \<and> joinsem r' = joinsem r \<and> exitsem r' = exitsem r \<and> pthread r' = pthread r" if o: "get_pcb i s' = Inr r'"
  proof -
    obtain b where b: "0 \<le> i" "i < int (length (pcb s))" "pcb s ! nat i = Some b" "((pcbHeap s)(a \<mapsto> p')) b = Some r'"
      using o unfolding assms(5) get_pcb_iff by (auto simp del: fun_upd_apply)
    have "get_pcb i s = Inr (if b = a then p else r')" using b assms(1) by (auto simp: get_pcb_iff split: if_splits)
    then show ?thesis using assms(2-4) b(4) by (intro exI[of _ "if b = a then p else r'"]) (auto split: if_splits)
  qed
qed

lemma own_upd_pcb:
  assumes "pcbHeap s a = Some p" "joinsem p' = joinsem p" "exitsem p' = exitsem p" "pthread p' = pthread p"
    "s' = s\<lparr>pcbHeap := (pcbHeap s)(a \<mapsto> p')\<rparr>"
  shows "own s i r \<Longrightarrow> \<exists>r'. own s' i r' \<and> joinsem r' = joinsem r \<and> exitsem r' = exitsem r \<and> pthread r' = pthread r"
    "own s' i r' \<Longrightarrow> \<exists>r. own s i r \<and> joinsem r' = joinsem r \<and> exitsem r' = exitsem r \<and> pthread r' = pthread r"
  using get_upd_pcb[OF assms] by (auto simp: own_def assms(5))

lemma pinv_pcb:
  assumes "pinv s" "pcbHeap s a = Some p" "psems p' = psems p" "joinsem p' = joinsem p" "exitsem p' = exitsem p" "multex p' = multex p"
    "pthread p' = pthread p"
  shows "pinv (s\<lparr>pcbHeap := (pcbHeap s)(a \<mapsto> p')\<rparr>)"
proof -
  let ?s = "s\<lparr>pcbHeap := (pcbHeap s)(a \<mapsto> p')\<rparr>"
  note o = own_upd_pcb[OF assms(2,4,5,7) refl]
  have pl: "plain ?s c" if "plain s c" for c
    by (rule plain_mono[OF that]) (use assms(2,4,5) in \<open>auto split: if_splits\<close>)
  have sh: "shape ?s i cs" if "shape s i cs" for i cs
    by (rule shape_mono[OF that pl]) (use o(1) in \<open>auto\<close>)
  have h: "holds ?s t i = holds s t i" "is_released ?s i = is_released s i" for t i
    by (simp_all add: holds_def is_released_def)
  have "ids_ok ?s" using assms(1-6) by (auto simp: pinv_def ids_ok_def)
  moreover have "bit_used (ptBm s) i" if "get_pcb i ?s = Inr r'" "semVal s (joinsem r') \<noteq> None" for i r'
    using get_upd_pcb(2)[OF assms(2,4,5,7) refl that(1)] that(2) assms(1) by (auto simp: pinv_def slots_ok_def)
  moreover have "\<exists>r. own ?s i r" if u: "bit_used (ptBm s) i" for i
  proof -
    obtain r where "own s i r" using u assms(1) by (auto simp: pinv_def slots_ok_def)
    from o(1)[OF this] show ?thesis by blast
  qed
  ultimately have "slots_ok ?s" using assms(1,2) by (auto simp: pinv_def slots_ok_def)
  note ok = \<open>ids_ok ?s\<close> this
  moreover have "procs_ok ?s" using assms(1) sh o(1) by (fastforce simp: pinv_def procs_ok_def split: if_splits)
  moreover have "tok ?s i r'" if r': "own ?s i r'" for i r'
  proof -
    obtain r where r: "own s i r" "joinsem r' = joinsem r" "exitsem r' = exitsem r" using o(2)[OF r'] by blast
    then have "tok s i r" using assms(1) by (simp add: pinv_def toks_ok_def)
    then show ?thesis using tok_cong[of ?s r' s r i] r(2,3) h by simp
  qed
  moreover have "starts_ok ?s" by (rule starts_ok_mono[of s]) (use assms(1) o(1) in \<open>fastforce simp: pinv_def\<close>)+
  ultimately show ?thesis using assms(1) ok by (simp add: pinv_def toks_ok_def h)
qed

section \<open>Codes\<close>

abbreviation join_code :: "int \<Rightarrow> pcmd list" where
  "join_code j \<equiv> [Down (JoinSem j), JoinRead j, Up (ExitSem j), ReturnEc]"

abbreviation exit_code :: "int \<Rightarrow> pcmd list" where
  "exit_code i \<equiv> [Up (JoinSem i), Down (ExitSem i), RemoveCmd i, FinishCmd]"

text \<open>Codes whose next command is outside the protocol of \<open>Join\<close> and \<open>Exit\<close>.\<close>

definition free_code :: "procs \<Rightarrow> int \<Rightarrow> pcmd list \<Rightarrow> bool" where
  "free_code s i cs \<longleftrightarrow> list_all (plain s) cs \<or> (\<exists>pre j. list_all (plain s) pre \<and> cs = pre @ join_code j) \<or>
     (i \<noteq> 0 \<and> (\<exists>pre. list_all (plain s) pre \<and> cs = pre @ exit_code i))"

lemma free_push: "free_code s i cs \<Longrightarrow> list_all (plain s) pre \<Longrightarrow> free_code s i (pre @ cs)"
  unfolding free_code_def by (metis append_assoc list_all_append)

lemma released_PWait: "ds = [] \<or> (\<forall>i. hd ds \<noteq> RemoveCmd i) \<Longrightarrow> released (PWait x # ds) = None"
proof (cases ds)
  case (Cons d ds')
  assume "ds = [] \<or> (\<forall>i. hd ds \<noteq> RemoveCmd i)"
  with Cons show ?thesis by (cases d) auto
qed simp

lemma plain_released:
  assumes "ds = [] \<or> (\<forall>i. hd ds \<noteq> RemoveCmd i)" "list_all (plain s) (c # cs)"
  shows "released (c # cs @ ds) = None"
proof -
  have n: "cs @ ds = [] \<or> (\<forall>i. hd (cs @ ds) \<noteq> RemoveCmd i)"
    using assms by (cases cs) (auto simp: list_all_iff)
  show ?thesis
  proof (cases c)
    case (PWait x)
    then show ?thesis using released_PWait[OF n] by simp
  next
    case (Down r)
    then show ?thesis using assms(2) by (cases r) auto
  qed (use assms(2) in auto)
qed

lemma free_shape:
  assumes "free_code s i cs"
  shows "shape s i cs" "holding cs = None" "released cs = None"
proof -
  show "shape s i cs" using assms unfolding free_code_def by (auto intro: shape.intros)
  have h: "holding (pre @ ds) = None \<and> released (pre @ ds) = None"
    if "list_all (plain s) pre" "holding ds = None" "released ds = None" "ds = [] \<or> (\<forall>i. hd ds \<noteq> RemoveCmd i)" for pre ds
    using that plain_idle[of s "hd pre"] plain_released[OF that(4), of s "hd pre" "tl pre"] by (cases pre) auto
  show "holding cs = None" "released cs = None"
    using assms h[of _ "[]"] h[of _ "exit_code i"] h[of _ "join_code j" for j] unfolding free_code_def by auto
qed

lemma shape_free:
  assumes "shape s i (c # cs)" "plain s c" "\<And>x. c \<noteq> PWait x"
  shows "free_code s i (c # cs) \<and> free_code s i cs"
  using assms(1)
proof cases
  case (sh_join pre j)
  then show ?thesis using assms(2) by (cases pre) (auto simp: free_code_def)
next
  case (sh_exit pre)
  then show ?thesis using assms(2) by (cases pre) (auto simp: free_code_def)
qed (use assms(2,3) in \<open>auto simp: free_code_def\<close>)

lemma shape_PWait:
  assumes "shape s i (PWait x # cs)" "semVal s x \<noteq> None"
  shows "plain s (PWait x) \<and> free_code s i (PWait x # cs) \<and> free_code s i cs \<or>
    (\<exists>j p. own s j p \<and> x = joinsem p \<and> cs = [JoinRead j, Up (ExitSem j), ReturnEc]) \<or>
    (i \<noteq> 0 \<and> (\<exists>p. own s i p \<and> x = exitsem p \<and> cs = [RemoveCmd i, FinishCmd]))"
  using assms(1)
proof cases
  case (sh_join pre j)
  then show ?thesis by (cases pre) (auto simp: free_code_def)
next
  case (sh_exit pre)
  then show ?thesis by (cases pre) (auto simp: free_code_def)
qed (use assms(2) in \<open>auto simp: free_code_def\<close>)

lemma shape_protocol:
  "shape s i (Up (JoinSem j) # cs) \<Longrightarrow> i \<noteq> 0 \<and> j = i \<and> cs = [Down (ExitSem i), RemoveCmd i, FinishCmd]"
  "shape s i (Down (ExitSem j) # cs) \<Longrightarrow> i \<noteq> 0 \<and> j = i \<and> cs = [RemoveCmd i, FinishCmd]"
  "shape s i (RemoveCmd j # cs) \<Longrightarrow> i \<noteq> 0 \<and> j = i \<and> cs = [FinishCmd]"
  "shape s i (Down (JoinSem j) # cs) \<Longrightarrow> cs = [JoinRead j, Up (ExitSem j), ReturnEc]"
  "shape s i (JoinRead j # cs) \<Longrightarrow> cs = [Up (ExitSem j), ReturnEc]"
  "shape s i (Up (ExitSem j) # cs) \<Longrightarrow> cs = [ReturnEc]"
  "shape s i (JoinCheck j # cs) \<Longrightarrow> cs = []"
  "shape s i (ExitCheck e # cs) \<Longrightarrow> cs = [FinishCmd]"
  "shape s i (FinishCmd # cs) \<Longrightarrow> halted s"
  by (erule shape.cases; auto simp: Cons_eq_append_conv)+

lemma shape_released: "shape s i cs \<Longrightarrow> released cs = Some j \<Longrightarrow> j = i"
proof (induction rule: shape.induct)
  case (sh_plain cs)
  then have "free_code s i cs" by (simp add: free_code_def)
  with free_shape(3) sh_plain show ?case by fastforce
next
  case (sh_join pre k)
  then have "free_code s i (pre @ join_code k)" by (auto simp: free_code_def)
  with free_shape(3) sh_join show ?case by fastforce
next
  case (sh_exit pre)
  then have "free_code s i (pre @ exit_code i)" by (auto simp: free_code_def)
  with free_shape(3) sh_exit show ?case by fastforce
qed simp_all

section \<open>Who is who\<close>

lemma pinvD:
  assumes "pinv s"
  shows "ids_ok s" "slots_ok s" "procs_ok s" "toks_ok s" "starts_ok s"
  using assms by (simp_all add: pinv_def)

lemma proc_shape: "pinv s \<Longrightarrow> thr s t = Some q \<Longrightarrow> shape s (processID q) (code q)"
  by (simp add: pinv_def procs_ok_def)

lemma one_thread:
  assumes "pinv s" "thr s t = Some q" "thr s u = Some r" "processID q = processID r"
  shows "t = u"
proof (cases "processID q = 0")
  case True
  then show ?thesis using assms unfolding pinv_def procs_ok_def by metis
next
  case False
  then obtain p p' where "own s (processID q) p" "pthread p = Some t" "own s (processID q) p'" "pthread p' = Some u"
    using assms unfolding pinv_def procs_ok_def by metis
  then show ?thesis using own_unique by fastforce
qed

lemma released_iff:
  assumes "pinv s" "thr s t = Some q"
  shows "is_released s (processID q) \<longleftrightarrow> released (code q) = Some (processID q)"
proof
  assume "is_released s (processID q)"
  then obtain u r where u: "thr s u = Some r" "released (code r) = Some (processID q)" by (auto simp: is_released_def)
  then have "processID q = processID r" using shape_released[OF proc_shape[OF assms(1) u(1)]] by simp
  then have "t = u" using one_thread[OF assms u(1)] by simp
  then show "released (code q) = Some (processID q)" using u assms(2) by simp
qed (use assms(2) in \<open>auto simp: is_released_def\<close>)

lemma own_heap: "own s i p \<Longrightarrow> \<exists>a. pcb s ! nat i = Some a \<and> pcbHeap s a = Some p \<and> 0 \<le> i \<and> i < int (length (pcb s))"
  by (auto simp: own_def get_pcb_iff)

text \<open>Different processes have different semaphores.\<close>

lemma own_disjoint:
  assumes "pinv s" "own s i p" "own s j q" "i \<noteq> j" "x \<in> psems p"
  shows "x \<notin> psems q"
proof -
  obtain a b where a: "pcb s ! nat i = Some a" "pcbHeap s a = Some p" "0 \<le> i" "i < int (length (pcb s))"
    and b: "pcb s ! nat j = Some b" "pcbHeap s b = Some q" "0 \<le> j" "j < int (length (pcb s))"
    using own_heap[OF assms(2)] own_heap[OF assms(3)] by blast
  have l: "length (pcb s) = 10" using assms(1) by (simp add: pinv_def slots_ok_def)
  have "nat i \<noteq> nat j" "nat i < 10" "nat j < 10" using a b assms(4) l by auto
  then have "a \<noteq> b" using assms(1) a(1) b(1) unfolding pinv_def slots_ok_def by metis
  then show ?thesis using psems_disjoint[of s a p b q x] assms(1,5) a(2) b(2) by (simp add: pinv_def)
qed

section \<open>Steps outside the protocol\<close>

lemma starts_append [simp]: "starts (xs @ ys) = starts xs @ starts ys"
  by (induction xs rule: starts.induct) simp_all

lemma set_code_push:
  "thr s t = Some q \<Longrightarrow> push t pre (set_code t q cs s) = Inr (s\<lparr>thr := (thr s)(t \<mapsto> q\<lparr>code := pre @ cs\<rparr>)\<rparr>)"
  by (simp add: push_def upd_proc_def set_code_def)

lemma free_starts: "free_code s i cs \<Longrightarrow> plain s c \<Longrightarrow> starts (c # cs) = starts [c] @ starts cs"
  by (metis append_Cons append_Nil starts_append)

text \<open>A thread executes a command outside the protocol, which leaves the commands \<open>pre\<close> to be done first.\<close>

lemma pinv_plain:
  assumes "pinv s" "thr s t = Some q" "code q = c # cs" "plain s c" "\<And>x. c \<noteq> PWait x" "list_all (plain s) pre"
    "starts [c] = starts pre" "code q' = pre @ cs" "processID q' = processID q"
  shows "pinv (s\<lparr>thr := (thr s)(t \<mapsto> q')\<rparr>)"
proof -
  have f: "free_code s (processID q) (c # cs)" "free_code s (processID q) (pre @ cs)"
    using shape_free[OF _ assms(4,5)] proc_shape[OF assms(1,2)] free_push assms(3,6) by auto
  have "starts (c # cs) = starts (pre @ cs)" using assms(7) starts_append[of "[c]" cs] by simp
  then show ?thesis
    using pinv_code[OF assms(1,2), of q'] free_shape[OF f(1)] free_shape[OF f(2)] assms(3,8,9) by simp
qed

lemma own_sem_exists:
  assumes "pinv s" "own s j p"
  shows "semVal s (joinsem p) \<noteq> None" "semVal s (exitsem p) \<noteq> None"
proof -
  have "tok s j p" using assms by (simp add: pinv_def toks_ok_def)
  then show "semVal s (joinsem p) \<noteq> None" "semVal s (exitsem p) \<noteq> None" unfolding tok_def Let_def by (auto split: if_splits)
qed

text \<open>The same with a change of a semaphore that is not part of the protocol.\<close>

lemma pinv_plain_sem:
  assumes "pinv s" "thr s t = Some q" "plain s (PWait x)" "semVal s x \<noteq> None" "free_code s (processID q) (code q)"
    "free_code s (processID q) cs" "starts cs = starts (code q)"
  shows "pinv (s\<lparr>thr := (thr s)(t \<mapsto> q\<lparr>code := cs\<rparr>), semVal := (semVal s)(x \<mapsto> v)\<rparr>)"
proof (rule pinv_step[OF assms(1,2)])
  fix i p assume o: "own s i p"
  then have "x \<noteq> joinsem p" "x \<noteq> exitsem p" using assms(3) by (auto simp: own_def get_pcb_iff)
  moreover have "tok s i p" using assms(1) o by (simp add: pinv_def toks_ok_def)
  ultimately show "tok (s\<lparr>thr := (thr s)(t \<mapsto> q\<lparr>code := cs\<rparr>), semVal := (semVal s)(x \<mapsto> v)\<rparr>) i p"
    using tok_frame[OF assms(2), of _ "q\<lparr>code := cs\<rparr>" i p] free_shape[OF assms(5)] free_shape[OF assms(6)] by simp
qed (use assms free_shape[OF assms(6)] in auto)

lemma sem_of_plain:
  assumes "pinv s" "plain s (Down r)" "sem_of r s = Inr x"
  shows "plain s (PWait x)"
proof -
  note d = ids_okD[OF pinvD(1)[OF assms(1)]]
  have m: "multex p \<noteq> joinsem p' \<and> multex p \<noteq> exitsem p'" if "pcbHeap s a = Some p" "pcbHeap s b = Some p'" for a b p p'
  proof (cases "a = b")
    case True
    then show ?thesis using that d(5,6)[OF that(1)] by auto
  next
    case False
    then show ?thesis using psems_disjoint[OF pinvD(1)[OF assms(1)] that False, of "multex p"] by (simp add: psems_def)
  qed
  show ?thesis
  proof (cases r)
    case Bmsem
    then show ?thesis using assms(3) d pinvD(1)[OF assms(1)] by (auto simp: sem_of_def ids_ok_def psems_def)
  next
    case (Multex i)
    then obtain a p where "pcbHeap s a = Some p" "x = multex p" using assms(3) by (auto simp: sem_of_def run_simps get_pcb_iff)
    then show ?thesis using m d(3) by auto
  next
    case (TabSem i)
    then obtain e where e: "0 \<le> i" "i < int (length (semTab s))" "semTab s ! nat i = Some e" "x = semObj e"
      using assms(3) by (auto simp: sem_of_def run_simps)
    then have "Some e \<in> set (semTab s)" using nth_mem[of "nat i" "semTab s"] by simp
    with e(4) show ?thesis using pinvD(1)[OF assms(1)] unfolding ids_ok_def psems_def by auto
  qed (use assms(2) in auto)
qed

lemma sem_of_set_code [simp]: "sem_of r (set_code t q cs s) = sem_of r s"
  by (cases r) (simp_all add: sem_of_def set_code_def get_pcb_def pcb_ptr_def)

lemma get_pcb_set_code [simp]: "get_pcb i (set_code t q cs s) = get_pcb i s"
  by (simp add: set_code_def get_pcb_def pcb_ptr_def)

lemma set_code_simps [simp]: "semVal (set_code t q cs s) = semVal s" "pcbHeap (set_code t q cs s) = pcbHeap s"
  "pcb (set_code t q cs s) = pcb s" "ptBm (set_code t q cs s) = ptBm s" "names (set_code t q cs s) = names s"
  "nextId (set_code t q cs s) = nextId s" "thr (set_code t q cs s) = (thr s)(t \<mapsto> q\<lparr>code := cs\<rparr>)"
  "stBm (set_code t q cs s) = stBm s" "semTab (set_code t q cs s) = semTab s" "halted (set_code t q cs s) = halted s"
  by (simp_all add: set_code_def)

lemma step_Down_plain:
  assumes "pinv s" "thr s t = Some q" "code q = Down r # cs" "plain s (Down r)" "exec_cmd t (Down r) (set_code t q cs s) = Inr s'"
  shows "pinv s'"
proof -
  obtain x where x: "sem_of r s = Inr x" and s': "s' = s\<lparr>thr := (thr s)(t \<mapsto> q\<lparr>code := [PWait x] @ cs\<rparr>)\<rparr>"
    using assms(5) set_code_push[OF assms(2), of "[_]" cs] by (auto simp: exec_cmd_def run_simps)
  have "plain s (PWait x)" by (rule sem_of_plain[OF assms(1,4) x])
  then show ?thesis unfolding s' by (intro pinv_plain[OF assms(1-4)]) simp_all
qed

lemma sem_add_eq: "sem_add x d (set_code t q cs s) = Inr s' \<Longrightarrow>
    \<exists>v. semVal s x = Some v \<and> s' = s\<lparr>thr := (thr s)(t \<mapsto> q\<lparr>code := cs\<rparr>), semVal := (semVal s)(x \<mapsto> v + d)\<rparr>"
  by (auto simp: sem_add_def run_simps set_code_def)

lemma step_Up_plain:
  assumes "pinv s" "thr s t = Some q" "code q = Up r # cs" "plain s (Up r)" "exec_cmd t (Up r) (set_code t q cs s) = Inr s'"
  shows "pinv s'"
proof -
  obtain x where x: "sem_of r s = Inr x" and e: "sem_add x 1 (set_code t q cs s) = Inr s'"
    using assms(5) by (auto simp: exec_cmd_def run_simps)
  obtain v where v: "semVal s x = Some v" and s': "s' = s\<lparr>thr := (thr s)(t \<mapsto> q\<lparr>code := cs\<rparr>), semVal := (semVal s)(x \<mapsto> v + 1)\<rparr>"
    using sem_add_eq[OF e] by blast
  have "plain s (Down r)" using assms(4) by (cases r) simp_all
  then have p: "plain s (PWait x)" using sem_of_plain[OF assms(1) _ x] by simp
  have f: "free_code s (processID q) (code q)" "free_code s (processID q) cs"
    using shape_free[of s "processID q" "Up r" cs] proc_shape[OF assms(1,2)] assms(3,4) by auto
  show ?thesis unfolding s' by (rule pinv_plain_sem[OF assms(1,2) p _ f]) (use v assms(3) in simp_all)
qed

lemma step_upd_pcb:
  assumes "pinv s" "upd_pcb_at i f s = Inr s'"
    "\<And>p. joinsem (f p) = joinsem p \<and> exitsem (f p) = exitsem p \<and> multex (f p) = multex p \<and> pthread (f p) = pthread p"
  shows "pinv s'"
proof -
  obtain a p where a: "pcbHeap s a = Some p" "s' = s\<lparr>pcbHeap := (pcbHeap s)(a \<mapsto> f p)\<rparr>"
    using assms(2) by (auto simp: upd_pcb_at_def run_simps)
  show ?thesis unfolding a(2) by (rule pinv_pcb[OF assms(1) a(1)]) (use assms(3) in \<open>simp_all add: psems_def\<close>)
qed

lemma pinv_set_code:
  assumes "pinv s" "thr s t = Some q" "code q = c # cs" "plain s c" "\<And>x. c \<noteq> PWait x" "starts [c] = []"
  shows "pinv (set_code t q cs s)"
  unfolding set_code_def by (rule pinv_plain[OF assms(1-5), of "[]"]) (use assms(6) in simp_all)

lemma step_simple:
  assumes "pinv s" "thr s t = Some q" "code q = c # cs" "plain s c"
    "c = FreeName b \<or> c = IncNumWait i \<or> c = DecNumWait i \<or> c = ReturnEc \<or> c = Return v" "exec_cmd t c (set_code t q cs s) = Inr s'"
  shows "pinv s'"
proof -
  have s1: "pinv (set_code t q cs s)" by (rule pinv_set_code[OF assms(1-4)]) (use assms(5) in auto)
  have q1: "pinv (s\<lparr>thr := (thr s)(t \<mapsto> q')\<rparr>)" if "code q' = cs" "processID q' = processID q" for q'
    by (rule pinv_plain[OF assms(1-4), of "[]"]) (use assms(5) that in auto)
  from assms(5) show ?thesis
  proof (elim disjE)
    assume "c = FreeName b"
    then show ?thesis using assms(6) pinv_names[OF s1] by (auto simp: exec_cmd_def)
  next
    assume "c = IncNumWait i"
    then show ?thesis using assms(6) step_upd_pcb[OF s1] by (simp add: exec_cmd_def)
  next
    assume "c = DecNumWait i"
    then have "upd_pcb_at i (\<lambda>p. if numwait p > 0 then p\<lparr>numwait := numwait p - 1\<rparr> else p) (set_code t q cs s) = Inr s'"
      using assms(6) by (simp add: exec_cmd_def)
    from step_upd_pcb[OF s1 this] show ?thesis by simp
  next
    assume "c = ReturnEc"
    then have "s' = s\<lparr>thr := (thr s)(t \<mapsto> q\<lparr>code := cs, result := ec q\<rparr>)\<rparr>"
      using assms(6) by (auto simp: exec_cmd_def upd_proc_def set_code_def)
    then show ?thesis using q1 by simp
  next
    assume "c = Return v"
    then have "s' = s\<lparr>thr := (thr s)(t \<mapsto> q\<lparr>code := cs, result := v\<rparr>)\<rparr>"
      using assms(6) by (auto simp: exec_cmd_def upd_proc_def set_code_def)
    then show ?thesis using q1 by simp
  qed
qed

section \<open>Steps of the protocol\<close>

lemma child_own:
  assumes "pinv s" "thr s t = Some q" "own s (processID q) p"
  shows "tok s (processID q) p" "is_released s (processID q) \<longleftrightarrow> released (code q) = Some (processID q)"
  using assms released_iff[OF assms(1,2)] by (simp_all add: pinv_def toks_ok_def)

text \<open>What a step does to the token of another process: nothing.\<close>

lemma tok_other:
  assumes "pinv s" "thr s t = Some q" "own s i p" "own s j r" "i \<noteq> j" "x \<in> psems p"
    "holding (code q) \<noteq> Some j" "holding (code q') \<noteq> Some j" "released (code q) \<noteq> Some j" "released (code q') \<noteq> Some j"
  shows "tok (s\<lparr>thr := (thr s)(t \<mapsto> q'), semVal := (semVal s)(x \<mapsto> v)\<rparr>) j r"
proof -
  have "x \<notin> psems r" by (rule own_disjoint[OF assms(1,3,4,5,6)])
  then have "x \<noteq> joinsem r" "x \<noteq> exitsem r" by (auto simp: psems_def)
  then show ?thesis
    using tok_frame[OF assms(2), of _ q' j r] assms(1,4,7-10) by (simp add: pinv_def toks_ok_def)
qed

lemma holds_upd: "thr s' = (thr s)(t \<mapsto> q') \<Longrightarrow> holds s' u i = (if u = t then holding (code q') = Some i else holds s u i)"
  by (simp add: holds_def)

lemma own_neq: "pinv s \<Longrightarrow> own s i p \<Longrightarrow> joinsem p \<noteq> exitsem p"
  using ids_okD(4) by (force simp: pinv_def own_def get_pcb_iff)

lemma is_released_upd:
  assumes "pinv s" "thr s t = Some q" "thr s' = (thr s)(t \<mapsto> q')"
  shows "is_released s' (processID q) \<longleftrightarrow> released (code q') = Some (processID q)"
proof
  assume "is_released s' (processID q)"
  then obtain u r where u: "thr s' u = Some r" "released (code r) = Some (processID q)" by (auto simp: is_released_def)
  show "released (code q') = Some (processID q)"
  proof (cases "u = t")
    case False
    then have ur: "thr s u = Some r" using u(1) assms(3) by simp
    then have "processID q = processID r" using shape_released[OF proc_shape[OF assms(1) ur]] u(2) by simp
    then show ?thesis using one_thread[OF assms(1,2) ur] False by simp
  qed (use u assms(3) in simp)
qed (use assms(3) in \<open>auto simp: is_released_def\<close>)

text \<open>The child's \<open>JoinRelease\<close>, \<open>ExitWait\<close> and its return from \<open>ExitWait\<close>.\<close>

lemma step_JoinRelease:
  assumes "pinv s" "thr s t = Some q" "code q = Up (JoinSem j) # cs" "exec_cmd t (Up (JoinSem j)) (set_code t q cs s) = Inr s'"
    "bit_used (ptBm s) (processID q)"
  shows "pinv s'"
proof -
  have j: "j = processID q" "j \<noteq> 0" and cs: "cs = [Down (ExitSem j), RemoveCmd j, FinishCmd]"
    using shape_protocol(1)[of s "processID q" j cs] proc_shape[OF assms(1,2)] assms(3) by simp_all
  obtain p where p: "get_pcb j s = Inr p" "sem_add (joinsem p) 1 (set_code t q cs s) = Inr s'"
    using assms(4) sem_of_set_code[of "JoinSem j" t q cs s] by (auto simp: exec_cmd_def run_simps sem_of_def)
  obtain v where v: "semVal s (joinsem p) = Some v" and
    s': "s' = s\<lparr>thr := (thr s)(t \<mapsto> q\<lparr>code := cs\<rparr>), semVal := (semVal s)(joinsem p \<mapsto> v + 1)\<rparr>"
    using sem_add_eq[OF p(2)] by blast
  have o: "own s j p" using p(1) assms(5) j by (simp add: own_def)
  have t0: "tok s j p" "\<not> is_released s j" using child_own[OF assms(1,2), of p] o j assms(3) by auto
  then have z: "semVal s (joinsem p) = Some 0" "semVal s (exitsem p) = Some 0" "\<And>u. \<not> holds s u j" by (auto simp: tok_def Let_def)
  have r1: "is_released s' j" using is_released_upd[OF assms(1,2), of s' "q\<lparr>code := cs\<rparr>"] j cs by (simp add: s')
  have h1: "\<not> holds s' u j" for u using holds_upd[of s' s t "q\<lparr>code := cs\<rparr>" u j] z(3) cs by (simp add: s')
  have tj: "tok s' j p" using r1 h1 z v own_neq[OF assms(1) o] unfolding tok_def Let_def by (simp add: s')
  show ?thesis unfolding s'
  proof (rule pinv_step[OF assms(1,2)])
    fix i r assume r: "own s i r"
    show "tok (s\<lparr>thr := (thr s)(t \<mapsto> q\<lparr>code := cs\<rparr>), semVal := (semVal s)(joinsem p \<mapsto> v + 1)\<rparr>) i r"
    proof (cases "i = j")
      case True
      then show ?thesis using tj own_unique[OF o] r by (simp add: s')
    next
      case False
      then show ?thesis using tok_other[OF assms(1,2) o r, of "joinsem p" "q\<lparr>code := cs\<rparr>"] assms(3) cs by (simp add: psems_def)
    qed
  qed (use v cs j assms(3) sh_exit1 in \<open>auto\<close>)
qed

lemma step_ExitWait:
  assumes "pinv s" "thr s t = Some q" "code q = Down (ExitSem j) # cs" "exec_cmd t (Down (ExitSem j)) (set_code t q cs s) = Inr s'"
    "bit_used (ptBm s) (processID q)"
  shows "pinv s'"
proof -
  have j: "j = processID q" "j \<noteq> 0" and cs: "cs = [RemoveCmd j, FinishCmd]"
    using shape_protocol(2)[of s "processID q" j cs] proc_shape[OF assms(1,2)] assms(3) by simp_all
  obtain p where p: "get_pcb j s = Inr p" and s': "s' = s\<lparr>thr := (thr s)(t \<mapsto> q\<lparr>code := [PWait (exitsem p)] @ cs\<rparr>)\<rparr>"
    using assms(4) sem_of_set_code[of "ExitSem j" t q cs s] set_code_push[OF assms(2), of "[_]" cs]
    by (auto simp: exec_cmd_def run_simps sem_of_def)
  have "own s j p" using p assms(5) j by (simp add: own_def)
  then have "shape s (processID q) [PWait (exitsem p), RemoveCmd j, FinishCmd]" using sh_ewait j by blast
  then show ?thesis unfolding s' by (intro pinv_code[OF assms(1,2)]) (use cs assms(3) in simp_all)
qed

lemma step_ExitPass:
  assumes "pinv s" "thr s t = Some q" "code q = [PWait (exitsem p), RemoveCmd j, FinishCmd]" "own s j p" "j = processID q" "j \<noteq> 0"
    "can_pass (exitsem p) s" "exec_cmd t (PWait (exitsem p)) (set_code t q [RemoveCmd j, FinishCmd] s) = Inr s'"
  shows "pinv s'"
proof -
  let ?q = "q\<lparr>code := [RemoveCmd j, FinishCmd]\<rparr>"
  have e: "sem_add (exitsem p) (-1) (set_code t q [RemoveCmd j, FinishCmd] s) = Inr s'" using assms(8) by (simp add: exec_cmd_def)
  obtain v where v: "semVal s (exitsem p) = Some v" and
    s': "s' = s\<lparr>thr := (thr s)(t \<mapsto> ?q), semVal := (semVal s)(exitsem p \<mapsto> v + -1)\<rparr>"
    using sem_add_eq[OF e] by blast
  have t0: "tok s j p" "is_released s j" using child_own[OF assms(1,2), of p] assms(3-5) by auto
  then have z: "semVal s (joinsem p) = Some 0" "v = 1" "\<And>u. \<not> holds s u j"
    using v assms(7) by (auto simp: tok_def Let_def can_pass_def)
  have r1: "\<not> is_released s' j" using is_released_upd[OF assms(1,2), of s' ?q] assms(5) by (simp add: s')
  have h1: "\<not> holds s' u j" for u using holds_upd[of s' s t ?q u j] z(3) by (simp add: s')
  have tj: "tok s' j p" using r1 h1 z v own_neq[OF assms(1,4)] unfolding tok_def Let_def by (simp add: s')
  show ?thesis unfolding s'
  proof (rule pinv_step[OF assms(1,2)])
    fix i r assume r: "own s i r"
    show "tok (s\<lparr>thr := (thr s)(t \<mapsto> ?q), semVal := (semVal s)(exitsem p \<mapsto> v + -1)\<rparr>) i r"
    proof (cases "i = j")
      case True
      then show ?thesis using tj own_unique[OF assms(4)] r by (simp add: s')
    next
      case False
      then show ?thesis using tok_other[OF assms(1,2,4) r, of "exitsem p" ?q] assms(3) by (simp add: psems_def)
    qed
  qed (use v assms(3,5,6) sh_exit2 in \<open>auto\<close>)
qed

text \<open>The parent's \<open>JoinWait\<close>, its return from it, \<open>GetExitCode\<close> and \<open>ExitRelease\<close>.\<close>

lemma step_JoinWait:
  assumes "pinv s" "thr s t = Some q" "code q = Down (JoinSem j) # cs" "exec_cmd t (Down (JoinSem j)) (set_code t q cs s) = Inr s'"
  shows "pinv s'"
proof -
  have cs: "cs = [JoinRead j, Up (ExitSem j), ReturnEc]"
    using shape_protocol(4) proc_shape[OF assms(1,2)] assms(3) by auto
  obtain p where p: "get_pcb j s = Inr p" "semVal s (joinsem p) \<noteq> None" and s': "s' = s\<lparr>thr := (thr s)(t \<mapsto> q\<lparr>code := [PWait (joinsem p)] @ cs\<rparr>)\<rparr>"
    using assms(4) sem_of_set_code[of "JoinSem j" t q cs s] set_code_push[OF assms(2), of "[_]" cs]
    by (auto simp: exec_cmd_def run_simps sem_of_def)
  have "own s j p" using p pinvD(2)[OF assms(1)] by (simp add: own_def slots_ok_def)
  moreover have "joinsem p < nextId s" using p(1) ids_okD(1)[OF pinvD(1)[OF assms(1)]] by (auto simp: get_pcb_iff)
  ultimately have "shape s (processID q) [PWait (joinsem p), JoinRead j, Up (ExitSem j), ReturnEc]" using sh_jwait by blast
  then show ?thesis unfolding s' by (intro pinv_code[OF assms(1,2)]) (use cs assms(3) in simp_all)
qed

lemma step_JoinPass:
  assumes "pinv s" "thr s t = Some q" "code q = [PWait (joinsem p), JoinRead j, Up (ExitSem j), ReturnEc]" "own s j p"
    "can_pass (joinsem p) s" "exec_cmd t (PWait (joinsem p)) (set_code t q [JoinRead j, Up (ExitSem j), ReturnEc] s) = Inr s'"
  shows "pinv s'"
proof -
  let ?q = "q\<lparr>code := [JoinRead j, Up (ExitSem j), ReturnEc]\<rparr>"
  have e: "sem_add (joinsem p) (-1) (set_code t q [JoinRead j, Up (ExitSem j), ReturnEc] s) = Inr s'"
    using assms(6) by (simp add: exec_cmd_def)
  obtain v where v: "semVal s (joinsem p) = Some v" and
    s': "s' = s\<lparr>thr := (thr s)(t \<mapsto> ?q), semVal := (semVal s)(joinsem p \<mapsto> v + -1)\<rparr>"
    using sem_add_eq[OF e] by blast
  have "tok s j p" using assms(1,4) by (simp add: pinv_def toks_ok_def)
  then have z: "is_released s j" "v = 1" "semVal s (exitsem p) = Some 0" "\<And>u. \<not> holds s u j"
    using v assms(5) by (auto simp: tok_def Let_def can_pass_def split: if_splits)
  have r1: "is_released s' j" using z(1) released_same[OF assms(2), of s' ?q] assms(3) by (simp add: s')
  have h1: "holds s' u j = (u = t)" for u using holds_upd[of s' s t ?q u j] z(4) by (simp add: s')
  have tj: "tok s' j p" using r1 h1 z v own_neq[OF assms(1,4)] unfolding tok_def Let_def by (simp add: s')
  show ?thesis unfolding s'
  proof (rule pinv_step[OF assms(1,2)])
    fix i r assume r: "own s i r"
    show "tok (s\<lparr>thr := (thr s)(t \<mapsto> ?q), semVal := (semVal s)(joinsem p \<mapsto> v + -1)\<rparr>) i r"
    proof (cases "i = j")
      case True
      then show ?thesis using tj own_unique[OF assms(4)] r by (simp add: s')
    next
      case False
      then show ?thesis using tok_other[OF assms(1,2,4) r, of "joinsem p" ?q] assms(3) by (simp add: psems_def)
    qed
  qed (use v assms(3,4) sh_hold1 in \<open>auto simp: own_def\<close>)
qed

lemma step_JoinRead:
  assumes "pinv s" "thr s t = Some q" "code q = JoinRead j # cs" "exec_cmd t (JoinRead j) (set_code t q cs s) = Inr s'"
  shows "pinv s'"
proof -
  have cs: "cs = [Up (ExitSem j), ReturnEc]" using shape_protocol(5) proc_shape[OF assms(1,2)] assms(3) by auto
  obtain p :: PCB where "s' = s\<lparr>thr := (thr s)(t \<mapsto> q\<lparr>code := cs, ec := exitcode p\<rparr>)\<rparr>"
    using assms(4) by (auto simp: exec_cmd_def run_simps upd_proc_def set_code_def)
  then show ?thesis using pinv_code[OF assms(1,2), of "q\<lparr>code := cs, ec := exitcode p\<rparr>"] cs assms(3) sh_hold2 by auto
qed

lemma step_ExitRelease:
  assumes "pinv s" "thr s t = Some q" "code q = Up (ExitSem j) # cs" "exec_cmd t (Up (ExitSem j)) (set_code t q cs s) = Inr s'"
  shows "pinv s'"
proof -
  have cs: "cs = [ReturnEc]" using shape_protocol(6) proc_shape[OF assms(1,2)] assms(3) by auto
  obtain p where p: "get_pcb j s = Inr p" "sem_add (exitsem p) 1 (set_code t q cs s) = Inr s'"
    using assms(4) by (auto simp: exec_cmd_def run_simps sem_of_def)
  obtain v where v: "semVal s (exitsem p) = Some v" and
    s': "s' = s\<lparr>thr := (thr s)(t \<mapsto> q\<lparr>code := cs\<rparr>), semVal := (semVal s)(exitsem p \<mapsto> v + 1)\<rparr>"
    using sem_add_eq[OF p(2)] by blast
  have hd: "holds s t j" using assms(2,3) by (simp add: holds_def)
  then have o: "own s j p" using p(1) pinvD(4)[OF assms(1)] by (auto simp: own_def toks_ok_def)
  have "tok s j p" using assms(1) o by (simp add: pinv_def toks_ok_def)
  then have z: "is_released s j" "semVal s (joinsem p) = Some 0" "v = 0" "\<And>u. holds s u j \<Longrightarrow> u = t"
    using v hd by (auto simp: tok_def Let_def split: if_splits)
  let ?q = "q\<lparr>code := cs\<rparr>"
  have r1: "is_released s' j" using z(1) released_same[OF assms(2), of s' ?q] assms(3) cs by (simp add: s')
  have h1: "\<not> holds s' u j" for u using holds_upd[of s' s t ?q u j] z(4)[of u] cs by (auto simp: s')
  have tj: "tok s' j p" using r1 h1 z v own_neq[OF assms(1) o] unfolding tok_def Let_def by (simp add: s')
  show ?thesis unfolding s'
  proof (rule pinv_step[OF assms(1,2)])
    fix i r assume r: "own s i r"
    show "tok (s\<lparr>thr := (thr s)(t \<mapsto> ?q), semVal := (semVal s)(exitsem p \<mapsto> v + 1)\<rparr>) i r"
    proof (cases "i = j")
      case True
      then show ?thesis using tj own_unique[OF o] r by (simp add: s')
    next
      case False
      then show ?thesis using tok_other[OF assms(1,2) o r, of "exitsem p" ?q] assms(3) cs by (simp add: psems_def)
    qed
  qed (use v assms(3) cs in \<open>auto intro: sh_plain\<close>)
qed

end
