(* ===== verification/ProcessSteps.thy ===== *)
theory ProcessSteps
  imports ProcessTable
begin

text \<open>
  The steps of the process layer that end a process, the checks of \<open>Join\<close> and \<open>Exit\<close>, the calls, and the named
  semaphores keep the invariant of \<open>ProcessTable\<close>.
\<close>

section \<open>Processes end\<close>

lemma step_Remove:
  assumes "pinv s" "thr s t = Some q" "code q = RemoveCmd j # cs" "exec_cmd t (RemoveCmd j) (set_code t q cs s) = Inr s'"
  shows "pinv s'"
proof -
  have j: "j = processID q" "j \<noteq> 0" and cs: "cs = [FinishCmd]"
    using shape_protocol(3)[of s "processID q" j cs] proc_shape[OF assms(1,2)] assms(3) by simp_all
  obtain p where o: "own s j p" and pt: "pthread p = Some t"
    using pinvD(3)[OF assms(1)] assms(2) j unfolding procs_ok_def by metis
  obtain a where a: "pcb s ! nat j = Some a" "pcbHeap s a = Some p" "0 \<le> j" "j < int (length (pcb s))" using own_heap[OF o] by blast
  have sl: "bitmap_inv (ptBm s)" "numBits (ptBm s) = 10" "length (pcb s) = 10" using pinvD(2)[OF assms(1)] by (simp_all add: slots_ok_def)
  obtain b where b: "Bitmap_Clear (ptBm s) j = Inr b" "bitmap_inv b" "numBits b = 10" "bit_used b = (bit_used (ptBm s))(j := False)"
    using Bitmap_Clear_ok[of "ptBm s" j] sl a by auto
  define sv where "sv = (semVal s)(joinsem p := None, exitsem p := None, multex p := None)"
  have s': "s' = s\<lparr>ptBm := b, semVal := sv, thr := (thr s)(t := None)\<rparr>"
    using assms(4) a b(1) pt unfolding sv_def by (simp add: exec_cmd_def PTable_Remove_def PCB_delete_def Let_def set_code_def)
  have svD: "semVal s x = Some y" if "sv x = Some y" for x y using that by (auto simp: sv_def split: if_splits)
  have get: "get_pcb k s' = get_pcb k s" for k by (simp add: s' get_pcb_def pcb_ptr_def)
  have own: "own s' k r \<longleftrightarrow> k \<noteq> j \<and> own s k r" for k r unfolding own_def get by (auto simp: s' b(4))
  have idle: "\<not> holds s u j" for u
    using child_own[OF assms(1,2), of p] o j(1) assms(3) by (auto simp: tok_def Let_def)
  have hs: "holds s' u k \<longleftrightarrow> holds s u k" for u k using assms(2,3) by (auto simp: holds_def s')
  have rl: "is_released s' k \<longleftrightarrow> is_released s k" for k
  proof -
    have "released (code q) = None" using assms(3) by simp
    then show ?thesis using assms(2) unfolding is_released_def s' by simp (metis option.distinct(1) option.inject)
  qed
  have joins: "k \<noteq> j" if "get_pcb k s = Inr r" "sv (joinsem r) \<noteq> None" for k r
  proof
    assume "k = j"
    then have "r = p" using that(1) o by (simp add: own_def)
    then show False using that(2) by (simp add: sv_def split: if_splits)
  qed
  have sh: "shape s' (processID r) (code r)" if r: "thr s u = Some r" "u \<noteq> t" for u r
  proof (rule shape_mono[OF proc_shape[OF assms(1) r(1)]])
    have "processID r \<noteq> j" using one_thread[OF assms(1,2) r(1)] r(2) j(1) by auto
    then show "\<exists>p'. own s' (processID r) p' \<and> exitsem p' = exitsem p0" if "own s (processID r) p0" for p0 using that own by auto
    show "\<exists>p'. own s' k p' \<and> joinsem p' = joinsem p0" if "own s k p0" "semVal s' (joinsem p0) \<noteq> None" for k p0
      using joins[of k p0] that own by (auto simp: own_def s')
    show "plain s' c" if "plain s c" for c using plain_cong[of s' s c] that by (simp add: s')
  qed (auto simp: s' dest: svD)
  have "ids_ok s'" by (rule ids_ok_mono[of s]) (use pinvD(1)[OF assms(1)] in \<open>auto simp: s' dest: svD split: if_splits\<close>)
  moreover have "slots_ok s'"
    unfolding slots_ok_def get
  proof (intro conjI)
    show "\<forall>k. bit_used (ptBm s') k \<longrightarrow> (\<exists>r. own s' k r)"
      using pinvD(2)[OF assms(1)] own b(4) by (auto simp: slots_ok_def s' split: if_splits)
    show "\<forall>k r. get_pcb k s = Inr r \<longrightarrow> semVal s' (joinsem r) \<noteq> None \<longrightarrow> bit_used (ptBm s') k"
      using pinvD(2)[OF assms(1)] joins b(4) by (auto simp: slots_ok_def s' dest: svD)
  qed (use pinvD(2)[OF assms(1)] b j(2) in \<open>auto simp: slots_ok_def s'\<close>)
  moreover have "procs_ok s'"
    unfolding procs_ok_def
  proof (intro allI impI)
    fix u r assume u: "thr s' u = Some r"
    then have r: "thr s u = Some r" "u \<noteq> t" by (auto simp: s' split: if_splits)
    have "processID r \<noteq> j" using one_thread[OF assms(1,2) r(1)] r(2) j(1) by auto
    then show "shape s' (processID r) (code r) \<and> (if processID r = 0 then u = 0 else \<exists>p. own s' (processID r) p \<and> pthread p = Some u)"
      using sh[OF r] own pinvD(3)[OF assms(1)] r(1) unfolding procs_ok_def by (metis (no_types, lifting))
  qed
  moreover have "toks_ok s'"
  proof -
    have "tok s' k r" if "own s' k r" for k r
    proof -
      have kr: "k \<noteq> j" "own s k r" using that own by auto
      have "joinsem r \<notin> psems p" "exitsem r \<notin> psems p"
        using own_disjoint[OF assms(1) kr(2) o kr(1)] by (simp_all add: psems_def)
      then have "semVal s' (joinsem r) = semVal s (joinsem r)" "semVal s' (exitsem r) = semVal s (exitsem r)"
        by (simp_all add: s' sv_def psems_def)
      then show ?thesis using tok_cong[of s' r s r k] hs rl kr(2) pinvD(4)[OF assms(1)] by (simp add: toks_ok_def)
    qed
    moreover have "bit_used (ptBm s') k" if "holds s' u k" for u k
      using that hs idle pinvD(4)[OF assms(1)] by (cases "k = j") (auto simp: toks_ok_def s' b(4))
    ultimately show ?thesis by (simp add: toks_ok_def)
  qed
  moreover have "starts_ok s'"
    by (rule starts_ok_mono[OF pinvD(5)[OF assms(1)]])
      (use own own_unique[OF o] pt in \<open>auto simp: s' split: if_splits\<close>)
  ultimately show ?thesis by (simp add: pinv_def)
qed

section \<open>The checks of Join and Exit\<close>

lemma step_JoinCheck:
  assumes "pinv s" "thr s t = Some q" "code q = JoinCheck j # cs" "exec_cmd t (JoinCheck j) (set_code t q cs s) = Inr s'"
  shows "pinv s'"
proof -
  have cs: "cs = []" using shape_protocol(7) proc_shape[OF assms(1,2)] assms(3) by auto
  obtain cs' where s': "s' = s\<lparr>thr := (thr s)(t \<mapsto> q\<lparr>code := cs'\<rparr>)\<rparr>"
    and c: "cs' = [Return (-1)] \<or> (\<exists>par. cs' = [Down (Multex par), IncNumWait par, Up (Multex par)] @ join_code j)"
    using assms(4) set_code_push[OF assms(2), of _ cs] cs
    by (auto simp: exec_cmd_def join_check_def Let_def run_simps split: if_splits)
  have f: "free_code s (processID q) cs'" using c unfolding free_code_def by auto
  have "starts cs' = []" using c by auto
  then show ?thesis unfolding s' by (intro pinv_code[OF assms(1,2)]) (use free_shape[OF f] assms(3) cs in simp_all)
qed

lemma pinv_halt:
  assumes "pinv s" "thr s t = Some q" "code q = [c, FinishCmd]" "holding [c, FinishCmd] = None" "released [c, FinishCmd] = None" "starts [c] = []"
  shows "pinv (s\<lparr>thr := (thr s)(t \<mapsto> q\<lparr>code := [FinishCmd]\<rparr>), halted := True\<rparr>)"
proof -
  let ?h = "s\<lparr>halted := True\<rparr>"
  have o: "own ?h = own s" by (rule own_cong) simp_all
  have g: "get_pcb i ?h = get_pcb i s" for i by (simp add: get_pcb_def pcb_ptr_def)
  have pl: "plain ?h c = plain s c" for c by (rule plain_cong) simp_all
  have sh: "shape ?h i cs" if "shape s i cs" for i cs by (rule shape_mono[OF that]) (use o pl in auto)
  have h: "holds ?h t i = holds s t i" "is_released ?h i = is_released s i" for t i by (simp_all add: holds_def is_released_def)
  have "pinv ?h"
    using assms(1) sh by (simp add: pinv_def ids_ok_def slots_ok_def procs_ok_def toks_ok_def starts_ok_def o g h tok_cong[OF _ _ h])
  then have "pinv (?h\<lparr>thr := (thr ?h)(t \<mapsto> q\<lparr>code := [FinishCmd]\<rparr>)\<rparr>)"
    by (rule pinv_code[of ?h t q]) (use assms sh_halt[of ?h] starts_append[of "[c]" "[FinishCmd]"] in simp_all)
  moreover have "?h\<lparr>thr := (thr ?h)(t \<mapsto> q\<lparr>code := [FinishCmd]\<rparr>)\<rparr> = s\<lparr>thr := (thr s)(t \<mapsto> q\<lparr>code := [FinishCmd]\<rparr>), halted := True\<rparr>" by simp
  ultimately show ?thesis by (simp only:)
qed

lemma step_ExitCheck:
  assumes "pinv s" "thr s t = Some q" "code q = ExitCheck e # cs" "exec_cmd t (ExitCheck e) (set_code t q cs s) = Inr s'"
  shows "pinv s'"
proof -
  have cs: "cs = [FinishCmd]" using shape_protocol(8) proc_shape[OF assms(1,2)] assms(3) by auto
  let ?i = "processID q"
  show ?thesis
  proof (cases "?i = 0")
    case True
    then have "s' = s\<lparr>thr := (thr s)(t \<mapsto> q\<lparr>code := [FinishCmd]\<rparr>), halted := True\<rparr>"
      using assms(4) cs by (simp add: exec_cmd_def exit_check_def set_code_def)
    then show ?thesis using pinv_halt[OF assms(1,2), of "ExitCheck e"] assms(3) cs by simp
  next
    case False
    then obtain p where o: "own s ?i p" using pinvD(3)[OF assms(1)] assms(2) unfolding procs_ok_def by metis
    then have "IsExist ?i (set_code t q cs s) = Inr True"
      using own_heap[OF o] pinvD(2)[OF assms(1)] Bitmap_Test_ok[of "ptBm s" ?i] by (auto simp: IsExist_def slots_ok_def own_def)
    then obtain s1 par where s1: "upd_pcb ?i (\<lambda>p. p\<lparr>exitcode := e\<rparr>) (set_code t q cs s) = Inr s1"
      and p: "push t [Down (Multex par), DecNumWait par, Up (Multex par), Up (JoinSem ?i), Down (ExitSem ?i), RemoveCmd ?i] s1 = Inr s'"
      using assms(4) False by (auto simp: exec_cmd_def exit_check_def Let_def run_simps)
    let ?cs = "[Down (Multex par), DecNumWait par, Up (Multex par)] @ exit_code ?i"
    obtain a r where a: "pcbHeap s a = Some r" "s1 = (set_code t q cs s)\<lparr>pcbHeap := (pcbHeap s)(a \<mapsto> r\<lparr>exitcode := e\<rparr>)\<rparr>"
      using s1 by (auto simp: upd_pcb_def upd_pcb_at_def run_simps)
    let ?s1 = "s\<lparr>pcbHeap := (pcbHeap s)(a \<mapsto> r\<lparr>exitcode := e\<rparr>)\<rparr>"
    have i1: "pinv ?s1" by (rule pinv_pcb[OF assms(1) a(1)]) (simp_all add: psems_def)
    have f: "free_code ?s1 ?i ?cs" using False unfolding free_code_def by auto
    have "pinv (?s1\<lparr>thr := (thr ?s1)(t \<mapsto> q\<lparr>code := ?cs\<rparr>)\<rparr>)"
      by (rule pinv_code[OF i1, of t q]) (use free_shape[OF f] assms(2,3) cs in simp_all)
    moreover have "s' = ?s1\<lparr>thr := (thr ?s1)(t \<mapsto> q\<lparr>code := ?cs\<rparr>)\<rparr>"
      using p cs by (simp add: a(2) push_def upd_proc_def set_code_def)
    ultimately show ?thesis by simp
  qed
qed

section \<open>New names, semaphores and calls\<close>

text \<open>A change that only uses identities that are new.\<close>

lemma pinv_grow:
  assumes "pinv s" "s' = s\<lparr>stBm := b, semTab := tab, semVal := sv, names := nm, nextId := n\<rparr>" "nextId s \<le> n"
    "\<And>x. x < nextId s \<Longrightarrow> sv x = semVal s x" "\<And>x v. sv x = Some v \<Longrightarrow> x < n"
    "\<And>m. Some m \<in> set tab \<Longrightarrow> Some m \<in> set (semTab s) \<or> nextId s \<le> semObj m \<and> semObj m < n"
  shows "pinv s'"
proof -
  have o: "own s' = own s" by (rule own_cong) (simp_all add: assms(2))
  have g: "get_pcb i s' = get_pcb i s" for i by (simp add: assms(2) get_pcb_def pcb_ptr_def)
  have pl: "plain s' c" if "plain s c" for c by (rule plain_mono[OF that]) (use assms(3) in \<open>auto simp: assms(2)\<close>)
  have sh: "shape s' i cs" if "shape s i cs" for i cs
    by (rule shape_mono[OF that pl]) (use assms(3,4) o in \<open>auto simp: assms(2)\<close>)
  have h: "holds s' t i = holds s t i" "is_released s' i = is_released s i" for t i
    by (simp_all add: holds_def is_released_def assms(2))
  have thr: "thr s' = thr s" by (simp add: assms(2))
  note i = pinvD(1)[OF assms(1)]
  have sems: "semVal s' x = semVal s x" if "pcbHeap s a = Some p" "x \<in> psems p" for a p x
    using that i assms(4)[of x] by (auto simp: ids_ok_def assms(2))
  have "ids_ok s'"
    unfolding ids_ok_def
  proof (intro conjI allI impI)
    fix a p assume a: "pcbHeap s' a = Some p"
    then have p: "pcbHeap s a = Some p" by (simp add: assms(2))
    have lt: "x < nextId s" if "x \<in> psems p" for x using i p that unfolding ids_ok_def by blast
    show "bmsem s' \<notin> psems p" using i p by (auto simp: ids_ok_def assms(2))
    show "\<forall>x \<in> psems p. x < nextId s'" using lt assms(3) by (auto simp: assms(2) intro: less_le_trans)
    show "distinct [joinsem p, exitsem p, multex p]" using i p unfolding ids_ok_def by blast
    show "a < nextId s'" using ids_okD(9)[OF i p] assms(3) by (simp add: assms(2))
    show "semObj m \<notin> psems p" if "Some m \<in> set (semTab s')" for m
      using assms(6)[of m] that lt i p unfolding ids_ok_def assms(2) by fastforce
  next
    fix a c p q assume "pcbHeap s' a = Some p" "pcbHeap s' c = Some q" "a \<noteq> c"
    then show "psems p \<inter> psems q = {}" using i by (simp add: ids_ok_def assms(2))
  next
    fix m assume "Some m \<in> set (semTab s')"
    then show "semObj m < nextId s'" using assms(6)[of m] i assms(3) by (auto simp: ids_ok_def assms(2))
  qed (use i assms(3,5) in \<open>auto simp: ids_ok_def assms(2)\<close>)
  moreover have "slots_ok s'"
  proof -
    have "bit_used (ptBm s) k" if gk: "get_pcb k s = Inr p" "semVal s' (joinsem p) \<noteq> None" for k p
    proof -
      obtain a where "pcbHeap s a = Some p" using gk(1) by (auto simp: get_pcb_iff)
      then have "semVal s' (joinsem p) = semVal s (joinsem p)" using sems by (simp add: psems_def)
      then show ?thesis using pinvD(2)[OF assms(1)] gk by (simp add: slots_ok_def)
    qed
    then show ?thesis using pinvD(2)[OF assms(1)] unfolding slots_ok_def g o by (simp add: assms(2))
  qed
  moreover have "procs_ok s'" using pinvD(3)[OF assms(1)] sh unfolding procs_ok_def o thr by blast
  moreover have "tok s' k p" if k: "own s k p" for k p
  proof -
    obtain a where "pcbHeap s a = Some p" using own_heap[OF k] by blast
    then have "semVal s' (joinsem p) = semVal s (joinsem p)" "semVal s' (exitsem p) = semVal s (exitsem p)"
      using sems by (simp_all add: psems_def)
    then show ?thesis using tok_cong[of s' p s p k] h k pinvD(4)[OF assms(1)] by (simp add: toks_ok_def)
  qed
  then have "toks_ok s'" using pinvD(4)[OF assms(1)] by (simp add: toks_ok_def o h) (simp add: assms(2))
  moreover have "starts_ok s'" using pinvD(5)[OF assms(1)] by (simp add: starts_ok_def o) (simp add: assms(2))
  ultimately show ?thesis by (simp add: pinv_def)
qed

lemma plain_grow:
  "plain s c \<Longrightarrow> nextId s \<le> nextId s' \<Longrightarrow> pcbHeap s' = pcbHeap s \<Longrightarrow> plain s' c"
  by (rule plain_mono) auto

lemma free_mono:
  assumes "free_code s i cs" "\<And>c. plain s c \<Longrightarrow> plain s' c"
  shows "free_code s' i cs"
proof -
  have "list_all (plain s') xs" if "list_all (plain s) xs" for xs using that assms(2) by (auto simp: list_all_iff)
  then show ?thesis using assms(1) unfolding free_code_def by blast
qed

lemma pinv_push:
  assumes "pinv s" "thr s t = Some q" "free_code s (processID q) (code q)" "list_all (plain s) pre" "starts pre = []" "push t pre s = Inr s'"
  shows "pinv s'"
proof -
  have s': "s' = s\<lparr>thr := (thr s)(t \<mapsto> q\<lparr>code := pre @ code q\<rparr>)\<rparr>" using assms(2,6) by (simp add: push_def upd_proc_def)
  have f: "free_code s (processID q) (pre @ code q)" by (rule free_push[OF assms(3,4)])
  show ?thesis unfolding s'
    by (rule pinv_code[OF assms(1,2)]) (use free_shape[OF f] free_shape[OF assms(3)] assms(5) in simp_all)
qed

lemma free_nil: "free_code s i []"
  by (simp add: free_code_def)

lemma with_name_cases:
  assumes "pinv s" "with_name name s f = Inr s'"
  obtains s1 where "pinv s1" "thr s1 = thr s" "progs s1 = progs s" "f (nextId s) s1 = Inr s'"
proof
  let ?s = "s\<lparr>names := (names s)(nextId s \<mapsto> name), nextId := Suc (nextId s)\<rparr>"
  show "f (nextId s) ?s = Inr s'" using assms(2) by (simp add: with_name_def split: if_splits)
  have "?s = s\<lparr>stBm := stBm s, semTab := semTab s, semVal := semVal s, names := (names s)(nextId s \<mapsto> name), nextId := Suc (nextId s)\<rparr>" by simp
  then show "pinv ?s"
    by (rule pinv_grow[OF assms(1)]) (use pinvD(1)[OF assms(1)] in \<open>auto simp: ids_ok_def less_Suc_eq\<close>)
qed simp_all

lemma pinv_call:
  assumes "pinv s" "thr s t = Some q" "code q = []" "do_call t c s = Inr s'"
  shows "pinv s'"
proof -
  have named: "pinv s'" if w: "with_name name s f = Inr s'" and
    f: "\<And>s1. thr s1 = thr s \<Longrightarrow> progs s1 = progs s \<Longrightarrow> \<exists>pre. f (nextId s) s1 = push t pre s1 \<and> list_all (plain s1) pre \<and> starts pre = []" for name f
  proof -
    obtain s1 where s1: "pinv s1" "thr s1 = thr s" "progs s1 = progs s" "f (nextId s) s1 = Inr s'" by (rule with_name_cases[OF assms(1) w])
    obtain pre where "push t pre s1 = Inr s'" "list_all (plain s1) pre" "starts pre = []" using f[OF s1(2,3)] s1(4) by auto
    then show ?thesis using pinv_push[OF s1(1), of t q pre s'] s1(2) assms(2,3) free_nil by simp
  qed
  have code: "pinv s'" if "push t cs s = Inr s'" "shape s (processID q) cs" "starts cs = []" "holding cs = None" "released cs = None" for cs
  proof -
    have "s' = s\<lparr>thr := (thr s)(t \<mapsto> q\<lparr>code := cs\<rparr>)\<rparr>" using that(1) assms(2,3) by (simp add: push_def upd_proc_def)
    then show ?thesis using pinv_code[OF assms(1,2), of "q\<lparr>code := cs\<rparr>"] that assms(3) by simp
  qed
  show ?thesis
  proof (cases c)
    case (Exec name)
    have w: "with_name name s (\<lambda>buf s. if \<not> progs s name then push t [FreeName buf, Return (-1)] s
       else push t [Down Bmsem, ExecCheck buf, FreeName buf] s) = Inr s'"
      using assms(4) Exec by (simp add: do_call_def SysExec_def)
    show ?thesis by (rule named[OF w]) (cases "progs s name"; fastforce)
  next
    case (Join i)
    then show ?thesis using code[of "[JoinCheck i]"] sh_join0 assms(4) by (simp add: do_call_def SysJoin_def)
  next
    case (Exit e)
    then show ?thesis using code[of "[ExitCheck e, FinishCmd]"] sh_exit0 assms(1,4) by (auto simp: do_call_def SysExit_def split: if_splits)
  next
    case (CreateSemaphore name v)
    then have w: "with_name name s (\<lambda>buf s. push t [SemCreate buf v, FreeName buf] s) = Inr s'"
      using assms(4) by (simp add: do_call_def SysCreateSemaphore_def)
    show ?thesis by (rule named[OF w]) fastforce
  next
    case (Wait name)
    then have w: "with_name name s (\<lambda>buf s. push t [SemWait buf, FreeName buf] s) = Inr s'"
      using assms(4) by (simp add: do_call_def SysWait_def)
    show ?thesis by (rule named[OF w]) fastforce
  next
    case (Signal name)
    then have w: "with_name name s (\<lambda>buf s. push t [SemSignal buf, FreeName buf] s) = Inr s'"
      using assms(4) by (simp add: do_call_def SysSignal_def)
    show ?thesis by (rule named[OF w]) fastforce
  qed
qed

lemma step_push:
  assumes "pinv s" "thr s t = Some q" "code q = c # cs" "plain s c" "\<And>x. c \<noteq> PWait x" "starts [c] = []"
    "pinv s1" "thr s1 = (thr s)(t \<mapsto> q\<lparr>code := cs\<rparr>)" "\<And>c. plain s c \<Longrightarrow> plain s1 c"
    "list_all (plain s1) pre" "starts pre = []" "push t pre s1 = Inr s'"
  shows "pinv s'"
proof -
  have "free_code s (processID q) cs" using shape_free[of s "processID q" c cs] proc_shape[OF assms(1,2)] assms(3-5) by auto
  then have "free_code s1 (processID q) cs" by (rule free_mono[OF _ assms(9)])
  then show ?thesis using pinv_push[OF assms(7), of t "q\<lparr>code := cs\<rparr>"] assms(8,10-12) by simp
qed

lemma STable_Create_result:
  assumes "STable_Create name v s = Inr (r, s')"
  obtains (exists) i where "st_find name s (count_to MAX_SEMAPHORE) = Inr (Some i)" "r = -1" "s' = s"
  | (full) i b where "st_find name s (count_to MAX_SEMAPHORE) = Inr None" "Bitmap_FindAndSet (stBm s) = Inr (i, b)" "i < 0" "r = -1" "s' = s\<lparr>stBm := b\<rparr>"
  | (new) i b where "st_find name s (count_to MAX_SEMAPHORE) = Inr None" "Bitmap_FindAndSet (stBm s) = Inr (i, b)" "0 \<le> i"
      "i < int (length (semTab s))" "r = 0" "s' = s\<lparr>stBm := b, semTab := (semTab s)[nat i := Some \<lparr>semName = name, semObj = nextId s\<rparr>],
         semVal := (semVal s)(nextId s \<mapsto> v), nextId := Suc (nextId s)\<rparr>"
proof -
  obtain found where f: "st_find name s (count_to MAX_SEMAPHORE) = Inr found" using assms by (auto simp: STable_Create_def run_simps)
  show thesis
  proof (cases found)
    case None
    then obtain i b where b: "Bitmap_FindAndSet (stBm s) = Inr (i, b)" using assms f by (auto simp: STable_Create_def run_simps)
    have "(if i < 0 then Inr (-1, s\<lparr>stBm := b\<rparr>) else if length name \<ge> 50 then Inl OutOfBounds else
        bind_run (set_at (semTab s) i (Some \<lparr>semName = name, semObj = nextId s\<rparr>))
          (\<lambda>tab. Inr (0, s\<lparr>stBm := b, semVal := (semVal s)(nextId s \<mapsto> v), nextId := Suc (nextId s), semTab := tab\<rparr>))) = Inr (r, s')"
      using assms f None b by (simp add: STable_Create_def new_sem_obj_def Let_def cong: if_cong)
    then show thesis using full[OF _ b] new[OF _ b] f None by (auto simp: run_simps split: if_splits)
  next
    case (Some i)
    have "r = -1 \<and> s' = s" using assms unfolding STable_Create_def f Some bind_run_Inr by simp
    then show thesis using exists[of i] f unfolding Some by blast
  qed
qed

lemma STable_Create_cases:
  assumes "pinv s" "STable_Create name v s = Inr (r, s')"
  shows "pinv s' \<and> thr s' = thr s \<and> nextId s \<le> nextId s' \<and> pcbHeap s' = pcbHeap s"
  using assms(2)
proof (cases rule: STable_Create_result)
  case exists
  then show ?thesis using assms(1) by simp
next
  case (full i b)
  then have "s' = s\<lparr>stBm := b, semTab := semTab s, semVal := semVal s, names := names s, nextId := nextId s\<rparr>" by simp
  from pinv_grow[OF assms(1) this] show ?thesis using full pinvD(1)[OF assms(1)] by (auto simp: ids_ok_def)
next
  case (new i b)
  then have s': "s' = s\<lparr>stBm := b, semTab := (semTab s)[nat i := Some \<lparr>semName = name, semObj = nextId s\<rparr>],
    semVal := (semVal s)(nextId s \<mapsto> v), names := names s, nextId := Suc (nextId s)\<rparr>" by simp
  have "Some m \<in> set (semTab s) \<or> nextId s \<le> semObj m \<and> semObj m < Suc (nextId s)"
    if "Some m \<in> set ((semTab s)[nat i := Some \<lparr>semName = name, semObj = nextId s\<rparr>])" for m
    using that set_update_subset_insert[of "semTab s"] by fastforce
  from pinv_grow[OF assms(1) s' _ _ _ this] have "pinv s'"
    using pinvD(1)[OF assms(1)] by (auto simp: ids_ok_def less_Suc_eq split: if_splits)
  then show ?thesis by (simp add: new)
qed

lemma step_Sem:
  assumes "pinv s" "thr s t = Some q" "code q = c # cs" "c = SemCreate b v \<or> c = SemWait b \<or> c = SemSignal b"
    "exec_cmd t c (set_code t q cs s) = Inr s'"
  shows "pinv s'"
proof -
  have c: "plain s c" "\<And>x. c \<noteq> PWait x" "starts [c] = []" using assms(4) by auto
  have s0: "pinv (set_code t q cs s)" by (rule pinv_set_code[OF assms(1-3) c])
  obtain s1 pre where s1: "pinv s1" "thr s1 = thr (set_code t q cs s)" "nextId (set_code t q cs s) \<le> nextId s1" "pcbHeap s1 = pcbHeap (set_code t q cs s)"
    and pre: "list_all (plain s1) pre" "starts pre = []" "push t pre s1 = Inr s'"
    using assms(4)
  proof (elim disjE)
    assume "c = SemCreate b v"
    then obtain name r s1 where r: "STable_Create name v (set_code t q cs s) = Inr (r, s1)" "push t [Return r] s1 = Inr s'"
      using assms(5) by (auto simp: exec_cmd_def run_simps)
    show thesis by (rule that[of s1 "[Return r]"]) (use STable_Create_cases[OF s0 r(1)] r(2) in simp_all)
  next
    assume "c = SemWait b"
    then obtain found where e: "(case found of None \<Rightarrow> push t [Return (-1)] (set_code t q cs s) | Some i \<Rightarrow> push t [Down (TabSem i), Return 0] (set_code t q cs s)) = Inr s'"
      using assms(5) by (auto simp: exec_cmd_def STable_Wait_def run_simps)
    show thesis
    proof (cases found)
      case None
      show thesis by (rule that[OF s0, of "[Return (-1)]"]) (use e None in simp_all)
    next
      case (Some i)
      show thesis by (rule that[OF s0, of "[Down (TabSem i), Return 0]"]) (use e Some in simp_all)
    qed
  next
    assume "c = SemSignal b"
    then obtain found where e: "(case found of None \<Rightarrow> push t [Return (-1)] (set_code t q cs s) | Some i \<Rightarrow> push t [Up (TabSem i), Return 0] (set_code t q cs s)) = Inr s'"
      using assms(5) by (auto simp: exec_cmd_def STable_Signal_def run_simps)
    show thesis
    proof (cases found)
      case None
      show thesis by (rule that[OF s0, of "[Return (-1)]"]) (use e None in simp_all)
    next
      case (Some i)
      show thesis by (rule that[OF s0, of "[Up (TabSem i), Return 0]"]) (use e Some in simp_all)
    qed
  qed
  show ?thesis
  proof (rule step_push[OF assms(1-3) c s1(1) _ _ pre])
    show "plain s1 d" if "plain s d" for d using plain_grow[OF that] s1 by simp
  qed (use s1 in simp)
qed

lemma step_PWait:
  assumes "pinv s" "thr s t = Some q" "code q = PWait x # cs" "can_pass x s" "exec_cmd t (PWait x) (set_code t q cs s) = Inr s'"
  shows "pinv s'"
proof -
  have "semVal s x \<noteq> None" using assms(4) by (simp add: can_pass_def)
  then consider (plain) "plain s (PWait x)" "free_code s (processID q) (PWait x # cs)" "free_code s (processID q) cs"
    | (join) j p where "own s j p" "x = joinsem p" "cs = [JoinRead j, Up (ExitSem j), ReturnEc]"
    | (exit) p where "processID q \<noteq> 0" "own s (processID q) p" "x = exitsem p" "cs = [RemoveCmd (processID q), FinishCmd]"
    using shape_PWait[of s "processID q" x cs] proc_shape[OF assms(1,2)] assms(3) by auto
  then show ?thesis
  proof cases
    case plain
    obtain v where v: "semVal s x = Some v" and s': "s' = s\<lparr>thr := (thr s)(t \<mapsto> q\<lparr>code := cs\<rparr>), semVal := (semVal s)(x \<mapsto> v + -1)\<rparr>"
      using sem_add_eq[of x "-1" t q cs s s'] assms(5) by (auto simp: exec_cmd_def)
    show ?thesis unfolding s' by (rule pinv_plain_sem[OF assms(1,2)]) (use plain v assms(3) in simp_all)
  next
    case join
    then show ?thesis using step_JoinPass[OF assms(1,2) _ join(1)] assms(3-5) by simp
  next
    case exit
    then show ?thesis using step_ExitPass[OF assms(1,2) _ exit(2)] assms(3-5) by simp
  qed
qed

end
