(* ===== verification/ProcessStart.thy ===== *)
theory ProcessStart
  imports ProcessSteps
begin

text \<open>
  The steps of \<open>Exec\<close>: a control block in a free slot and the thread of the new process.  With them every reachable
  state of the process layer has the invariant of \<open>ProcessTable\<close>.
\<close>

section \<open>Processes start\<close>

text \<open>\<open>ExecUpdate\<close> puts a new control block, with new semaphores, in a free slot.\<close>

lemma pinv_new_slot:
  assumes "pinv s" "i \<in> free_bits (ptBm s)" "bitmap_inv b" "numBits b = 10" "bit_used b = (bit_used (ptBm s))(i := True)"
    "n = nextId s" "pn = \<lparr>joinsem = n, exitsem = Suc n, multex = Suc (Suc n), exitcode = e, numwait = w, pthread = None, FileName = f, parentID = par\<rparr>"
    "s' = s\<lparr>ptBm := b, pcb := (pcb s)[nat i := Some (n + 3)], pcbHeap := (pcbHeap s)(n + 3 \<mapsto> pn),
       semVal := (semVal s)(n \<mapsto> 0, Suc n \<mapsto> 0, Suc (Suc n) \<mapsto> 1), nextId := n + 4\<rparr>"
  shows "pinv s'" "own s' i pn" "i \<noteq> 0" "\<And>c. plain s c \<Longrightarrow> plain s' c"
    "\<And>t q. thr s t = Some q \<Longrightarrow> i \<notin> set (starts (code q))" "\<And>t q. thr s t = Some q \<Longrightarrow> processID q \<noteq> i"
proof -
  note ids = pinvD(1)[OF assms(1)] and sl = pinvD(2)[OF assms(1)]
  have l: "length (pcb s) = 10" "numBits (ptBm s) = 10" using sl by (simp_all add: slots_ok_def)
  have i: "0 \<le> i" "i < 10" "\<not> bit_used (ptBm s) i" using assms(2) l by (simp_all add: free_bits_def)
  show i0: "i \<noteq> 0" using i(3) sl by (auto simp: slots_ok_def)
  have no: "\<not> own s i p" for p using i(3) by (simp add: own_def)
  have new: "a < n" if "pcbHeap s a = Some p" for a p using ids_okD(9)[OF ids that] assms(6) by simp
  have old: "a < n" if "pcb s ! nat j = Some a" "0 \<le> j" "j < 10" for a j
  proof -
    have "pcbHeap s a \<noteq> None" using sl that nat_less_iff[of j 10] unfolding slots_ok_def by simp
    then show ?thesis using new by blast
  qed
  have lt: "x < n" if "pcbHeap s a = Some p" "x \<in> psems p" for a p x using ids that assms(6) unfolding ids_ok_def by blast
  have fresh: "n \<le> x" if "x \<in> psems pn" for x using that by (auto simp: assms(7) psems_def)
  have get: "get_pcb j s' = (if j = i then Inr pn else get_pcb j s)" for j
  proof (cases "j = i")
    case True
    then show ?thesis using i l by (simp add: assms(8) get_pcb_def pcb_ptr_def)
  next
    case False
    have "get_at (pcb s') j = get_at (pcb s) j" using False i by (simp add: assms(8) get_at_def nat_eq_iff)
    moreover have "pcbHeap s' a = pcbHeap s a" if "get_at (pcb s) j = Inr (Some a)" for a
      using old[of j a] that l by (auto simp: assms(8) run_simps)
    ultimately show ?thesis using False by (auto simp: get_pcb_def pcb_ptr_def bind_run_def deref_def split: sum.splits option.splits)
  qed
  have own: "own s' j p \<longleftrightarrow> j = i \<and> p = pn \<or> j \<noteq> i \<and> own s j p" for j p unfolding own_def get by (auto simp: assms(5,8))
  then show "own s' i pn" by simp
  show pl: "plain s' c" if "plain s c" for c by (rule plain_mono[OF that]) (use assms(6,7) in \<open>auto simp: assms(8) split: if_splits\<close>)
  have sv: "semVal s' x = semVal s x" if "x < n" for x using that by (simp add: assms(8))
  have sh: "shape s' j cs" if "shape s j cs" for j cs
  proof (rule shape_mono[OF that pl])
    show "\<exists>p'. own s' k p' \<and> joinsem p' = joinsem p" if "own s k p" for k p using that own no by auto
    show "\<exists>p'. own s' j p' \<and> exitsem p' = exitsem p" if "own s j p" for p using that own no by auto
  qed (use sv assms(6) in \<open>auto simp: assms(8)\<close>)
  have pid: "processID q \<noteq> i" if "thr s t = Some q" for t q
    using that pinvD(3)[OF assms(1)] no i0 unfolding procs_ok_def by metis
  then show "\<And>t q. thr s t = Some q \<Longrightarrow> processID q \<noteq> i" .
  have thr: "thr s' = thr s" by (simp add: assms(8))
  have h: "holds s' t j = holds s t j" "is_released s' j = is_released s j" for t j by (simp_all add: holds_def is_released_def thr)
  have nh: "\<not> holds s t i" for t using i(3) pinvD(4)[OF assms(1)] by (auto simp: toks_ok_def)
  have nr: "\<not> is_released s i"
    using pid shape_released[OF proc_shape[OF assms(1)]] unfolding is_released_def by metis
  show st: "\<And>t q. thr s t = Some q \<Longrightarrow> i \<notin> set (starts (code q))" using pinvD(5)[OF assms(1)] no unfolding starts_ok_def by blast
  have "ids_ok s'"
    unfolding ids_ok_def
  proof (intro conjI allI impI)
    fix a p assume a: "pcbHeap s' a = Some p"
    then have c: "a = n + 3 \<and> p = pn \<or> pcbHeap s a = Some p" by (auto simp: assms(8) split: if_splits)
    show "a < nextId s'" "\<forall>x \<in> psems p. x < nextId s'" using c new lt by (fastforce simp: assms(7,8) psems_def)+
    show "distinct [joinsem p, exitsem p, multex p]" using c ids_okD[OF ids] by (auto simp: assms(7))
    have "bmsem s < n" using ids assms(6) by (simp add: ids_ok_def)
    then show "bmsem s' \<notin> psems p" using c ids by (auto simp: ids_ok_def assms(7,8) psems_def)
    show "semObj m \<notin> psems p" if "Some m \<in> set (semTab s')" for m
    proof -
      have "Some m \<in> set (semTab s)" using that by (simp add: assms(8))
      then show ?thesis using c ids assms(6) by (force simp: ids_ok_def assms(7) psems_def)
    qed
  next
    fix a c p q assume a: "pcbHeap s' a = Some p" "pcbHeap s' c = Some q" "a \<noteq> c"
    have new: "psems pn \<inter> psems r = {}" if "pcbHeap s d = Some r" for d r
      unfolding disjoint_iff using lt[OF that] fresh leD by blast
    have oldp: "psems p \<inter> psems q = {}" if "pcbHeap s a = Some p" "pcbHeap s c = Some q" unfolding disjoint_iff using psems_disjoint[OF ids that a(3)] by blast
    show "psems p \<inter> psems q = {}" using a new oldp by (auto simp: assms(8) split: if_splits)
  qed (use ids assms(6) in \<open>auto simp: ids_ok_def assms(8) split: if_splits intro: less_trans trans_less_add1\<close>)
  moreover have "slots_ok s'"
    unfolding slots_ok_def
  proof (intro conjI allI impI)
    fix j k a assume "j < 10" "k < 10" "pcb s' ! j = Some a" "pcb s' ! k = Some a"
    then show "j = k" using sl old[of "int j" a] old[of "int k" a] l i
      by (auto simp: assms(8) slots_ok_def nth_list_update split: if_splits)
  next
    fix j a assume "j < 10" "pcb s' ! j = Some a"
    then show "pcbHeap s' a \<noteq> None" using sl l i by (auto simp: assms(8) slots_ok_def nth_list_update split: if_splits)
  next
    fix j p assume "get_pcb j s' = Inr p" "semVal s' (joinsem p) \<noteq> None"
    then show "bit_used (ptBm s') j" using sl sv lt by (auto simp: get slots_ok_def get_pcb_iff psems_def split: if_splits) (auto simp: assms(5,8))
  next
    fix j assume "bit_used (ptBm s') j"
    then have "j = i \<or> bit_used (ptBm s) j" by (simp add: assms(5,8) split: if_splits)
    then show "\<exists>p. own s' j p" using sl own unfolding slots_ok_def by metis
  qed (use assms(3-5) sl l in \<open>auto simp: assms(8) slots_ok_def\<close>)
  moreover have "procs_ok s'"
    using pinvD(3)[OF assms(1)] sh pid unfolding procs_ok_def thr own by metis
  moreover have "tok s' j p" if j: "own s' j p" for j p
  proof (cases "j = i")
    case True
    then have "p = pn" using j own by simp
    then show ?thesis using nh nr True by (simp add: tok_def h) (simp add: assms(7,8))
  next
    case False
    then have o: "own s j p" using j own by simp
    then have "joinsem p < n" "exitsem p < n" using own_heap[OF o] lt by (auto simp: psems_def)
    then show ?thesis using tok_cong[of s' p s p j] sv h o pinvD(4)[OF assms(1)] by (simp add: toks_ok_def)
  qed
  then have "toks_ok s'" using pinvD(4)[OF assms(1)] nh by (auto simp: toks_ok_def h) (auto simp: assms(5,8))
  moreover have "starts_ok s'"
    by (rule starts_ok_mono[OF pinvD(5)[OF assms(1)]]) (use own no thr in auto)
  ultimately show "pinv s'" by (simp add: pinv_def)
qed

text \<open>The part of \<open>ExecUpdate\<close> behind \<open>GetFreeSlot\<close>, up to the first \<open>P\<close>.\<close>

lemma new_slot_state:
  assumes "pinv s" "0 \<le> i" "i < 10" "(a, s1) = PCB_new i cur (s\<lparr>ptBm := b\<rparr>)" "set_at (pcb s1) i (Some a) = Inr ps"
    "SetFileName i name (s1\<lparr>pcb := ps\<rparr>) = Inr s2" "upd_pcb i (\<lambda>p. p\<lparr>parentID := cur\<rparr>) s2 = Inr s3" "n = nextId s"
  shows "s3 = s\<lparr>ptBm := b, pcb := (pcb s)[nat i := Some (n + 3)],
       pcbHeap := (pcbHeap s)(n + 3 \<mapsto> \<lparr>joinsem = n, exitsem = Suc n, multex = Suc (Suc n), exitcode = 0, numwait = 0, pthread = None,
         FileName = name, parentID = cur\<rparr>),
       semVal := (semVal s)(n \<mapsto> 0, Suc n \<mapsto> 0, Suc (Suc n) \<mapsto> 1), nextId := n + 4\<rparr>"
proof -
  have l: "length (pcb s) = 10" using pinvD(2)[OF assms(1)] by (simp add: slots_ok_def)
  have s1: "a = n + 3" "s1 = s\<lparr>ptBm := b, semVal := (semVal s)(n \<mapsto> 0, Suc n \<mapsto> 0, Suc (Suc n) \<mapsto> 1), pcbHeap := (pcbHeap s)(n + 3 \<mapsto>
      \<lparr>joinsem = n, exitsem = Suc n, multex = Suc (Suc n), exitcode = 0, numwait = 0, pthread = None, FileName = [],
       parentID = (if i = 0 then -1 else cur)\<rparr>), nextId := n + 4\<rparr>"
    using assms(4,8) by (simp_all add: PCB_new_def new_sem_obj_def Let_def numeral_3_eq_3 eval_nat_numeral)
  have ps: "ps = (pcb s)[nat i := Some (n + 3)]" using assms(2,3,5) l by (simp add: s1 run_simps)
  have i: "nat i < 10" "get_at ps i = Inr (Some (n + 3))" using assms(2,3) l by (simp_all add: ps)
  have s2: "s2 = s1\<lparr>pcb := ps, pcbHeap := (pcbHeap s)(n + 3 \<mapsto>
      \<lparr>joinsem = n, exitsem = Suc n, multex = Suc (Suc n), exitcode = 0, numwait = 0, pthread = None, FileName = name,
       parentID = (if i = 0 then -1 else cur)\<rparr>)\<rparr>"
    using assms(6) i by (simp add: SetFileName_def upd_pcb_def upd_pcb_at_def pcb_ptr_def s1 split: if_splits)
  show ?thesis using assms(7) i unfolding s2 by (auto simp: upd_pcb_def upd_pcb_at_def pcb_ptr_def s1 ps)
qed

lemma pinv_push_start:
  assumes "pinv s" "thr s t = Some q" "free_code s (processID q) (code q)" "list_all (plain s) pre" "starts pre = [i]" "i \<noteq> 0" "own s i p"
    "pthread p = None" "\<And>u r. thr s u = Some r \<Longrightarrow> i \<notin> set (starts (code r))" "push t pre s = Inr s'"
  shows "pinv s'"
proof -
  have s': "s' = s\<lparr>thr := (thr s)(t \<mapsto> q\<lparr>code := pre @ code q\<rparr>)\<rparr>" using assms(2,10) by (simp add: push_def upd_proc_def)
  have f: "free_code s (processID q) (pre @ code q)" by (rule free_push[OF assms(3,4)])
  have o: "own s' = own s" by (rule own_cong) (simp_all add: s')
  have st: "starts (code r) = (if u = t then i # starts (code q) else starts (code r0))" if "thr s' u = Some r" "thr s u = Some r0" for u r r0
    using that assms(2,5) by (auto simp: s' split: if_splits)
  have "starts_ok s'"
    unfolding starts_ok_def o
  proof (intro allI impI conjI)
    fix u r assume r: "thr s' u = Some r"
    then obtain r0 where r0: "thr s u = Some r0" using assms(2) by (auto simp: s' split: if_splits)
    note ok = pinvD(5)[OF assms(1), unfolded starts_ok_def, rule_format, OF r0]
    show "distinct (starts (code r))" using st[OF r r0] ok assms(9)[OF r0] assms(2) r0 by (auto split: if_splits)
    show "\<forall>j \<in> set (starts (code r)). j \<noteq> 0 \<and> (\<exists>p. own s j p \<and> pthread p = None)"
      using st[OF r r0] ok assms(2,6-8) r0 by (auto split: if_splits)
    show "set (starts (code r)) \<inter> set (starts (code v)) = {}" if v: "thr s' w = Some v" "w \<noteq> u" for w v
    proof -
      obtain v0 where v0: "thr s w = Some v0" using v(1) assms(2) by (auto simp: s' split: if_splits)
      have "set (starts (code r0)) \<inter> set (starts (code v0)) = {}" using ok v0 v(2) by blast
      then show ?thesis using st[OF r r0] st[OF v(1) v0] assms(9)[OF r0] assms(9)[OF v0] assms(2) r0 v0 v(2) by (auto split: if_splits)
    qed
  qed
  then show ?thesis unfolding s'
    by (intro pinv_code_starts[OF assms(1,2)]) (use free_shape[OF f] free_shape[OF assms(3)] in \<open>simp_all\<close>)
qed

lemma step_ExecCheck:
  assumes "pinv s" "thr s t = Some q" "code q = ExecCheck buf # cs" "exec_cmd t (ExecCheck buf) (set_code t q cs s) = Inr s'"
  shows "pinv s'"
proof -
  let ?s = "set_code t q cs s"
  have s0: "pinv ?s" by (rule pinv_set_code[OF assms(1-3)]) simp_all
  have fail: "pinv s'" if "push t [Up Bmsem, Return (-1)] ?s = Inr s'"
    by (rule step_push[OF assms(1-3) _ _ _ s0 _ _ _ _ that]) (auto simp: plain_grow)
  have f: "free_code s (processID q) cs" using shape_free[of s "processID q" "ExecCheck buf" cs] proc_shape[OF assms(1,2)] assms(3) by auto
  have sl: "bitmap_inv (ptBm ?s)" "numBits (ptBm ?s) = 10" using pinvD(2)[OF assms(1)] by (simp_all add: slots_ok_def)
  obtain name itself where e: "(if itself then push t [Up Bmsem, Return (-1)] ?s
     else bind_run (GetFreeSlot ?s) (\<lambda>(index, s).
       if index < 0 then push t [Up Bmsem, Return (-1)] s
       else let (a, s) = PCB_new index (processID (q\<lparr>code := cs\<rparr>)) s in
         bind_run (set_at (pcb s) index (Some a)) (\<lambda>ps.
         bind_run (SetFileName index name (s\<lparr>pcb := ps\<rparr>)) (\<lambda>s.
         bind_run (upd_pcb index (\<lambda>p. p\<lparr>parentID := processID (q\<lparr>code := cs\<rparr>)\<rparr>) s)
           (push t [Down (Multex a), ExecStart buf index, Up (Multex a), Up Bmsem, Return index]))))) = Inr s'"
    using assms(4) unfolding exec_cmd_def exec_check_def by (auto simp: bind_run_eq_Inr_iff[of "deref _"] run_simps split del: if_split)
  show ?thesis
  proof (cases itself)
    case True
    then show ?thesis using e fail by simp
  next
    case False
    from sl(1) show ?thesis
    proof (cases rule: Bitmap_FindAndSet_cases)
      case full
      then have "push t [Up Bmsem, Return (-1)] ?s = Inr s'" using e False by (simp add: GetFreeSlot_def del: set_code_simps)
      then show ?thesis by (rule fail)
    next
      case (found i b)
      have i: "0 \<le> i" "i < 10" using found(1) sl(2) by (simp_all add: free_bits_def)
      obtain a s1 where n: "PCB_new i (processID q) (?s\<lparr>ptBm := b\<rparr>) = (a, s1)" by fastforce
      have "bind_run (set_at (pcb s1) i (Some a)) (\<lambda>ps. bind_run (SetFileName i name (s1\<lparr>pcb := ps\<rparr>)) (\<lambda>s.
         bind_run (upd_pcb i (\<lambda>p. p\<lparr>parentID := processID q\<rparr>) s)
           (push t [Down (Multex a), ExecStart buf i, Up (Multex a), Up Bmsem, Return i]))) = Inr s'"
        using e False found(3) i n by (simp add: GetFreeSlot_def del: set_code_simps)
      then obtain ps s2 s3 where x: "set_at (pcb s1) i (Some a) = Inr ps" "SetFileName i name (s1\<lparr>pcb := ps\<rparr>) = Inr s2"
        "upd_pcb i (\<lambda>p. p\<lparr>parentID := processID q\<rparr>) s2 = Inr s3"
        "push t [Down (Multex a), ExecStart buf i, Up (Multex a), Up Bmsem, Return i] s3 = Inr s'"
        unfolding bind_run_eq_Inr_iff by blast
      note s3 = new_slot_state[OF s0 i n[symmetric] x(1-3) refl]
      note new = pinv_new_slot[OF s0 found(1,4) _ found(6) refl refl s3]
      have t3: "thr s3 = (thr s)(t \<mapsto> q\<lparr>code := cs\<rparr>)" by (simp add: s3)
      have pl: "plain s3 c" if "plain s c" for c using new(4) plain_grow[OF that, of ?s] found(5) sl(2) by simp
      have f3: "free_code s3 (processID q) cs" by (rule free_mono[OF f pl])
      have st: "i \<notin> set (starts (code r))" if "thr s3 u = Some r" for u r using new(5)[of u r] that found(5) sl(2) by (simp add: t3)
      show ?thesis
        by (rule pinv_push_start[OF _ _ _ _ _ _ new(2) _ st x(4), of "q\<lparr>code := cs\<rparr>"]) (use new(1,3) f3 found(5) sl(2) in \<open>simp_all add: t3\<close>)
    qed
  qed
qed

lemma slots_distinct:
  assumes "pinv s" "pcb s ! nat i = Some a" "pcb s ! nat j = Some a" "0 \<le> i" "i < int (length (pcb s))" "0 \<le> j" "j < int (length (pcb s))"
  shows "i = j"
proof -
  have "length (pcb s) = 10" using pinvD(2)[OF assms(1)] by (simp add: slots_ok_def)
  then have "nat i < 10" "nat j < 10" using assms(4-7) by simp_all
  then have "nat i = nat j" using assms(2,3) pinvD(2)[OF assms(1)] unfolding slots_ok_def by blast
  then show ?thesis using assms(4,6) by simp
qed

text \<open>\<open>PCB::Exec\<close> makes the thread of a new process.\<close>

lemma pinv_new_thread:
  assumes "pinv s" "own s i p" "pcb s ! nat i = Some a" "pthread p = None" "i \<noteq> 0" "\<And>u r. thr s u = Some r \<Longrightarrow> i \<notin> set (starts (code r))"
    "s' = s\<lparr>thr := (thr s)(nextId s \<mapsto> \<lparr>processID = i, tname = b, code = [], result = 0, ec = 0\<rparr>), nextId := Suc (nextId s),
       pcbHeap := (pcbHeap s)(a \<mapsto> p\<lparr>pthread := Some (nextId s), parentID := par\<rparr>)\<rparr>"
  shows "pinv s'"
proof -
  note ids = pinvD(1)[OF assms(1)]
  let ?u = "nextId s"
  let ?p = "p\<lparr>pthread := Some ?u, parentID := par\<rparr>"
  have a: "pcbHeap s a = Some p" "0 \<le> i" "i < int (length (pcb s))" using own_heap[OF assms(2)] assms(3) by auto
  have fr: "thr s ?u = None" using ids unfolding ids_ok_def by (metis less_irrefl not_Some_eq)
  have get: "get_pcb j s' = (if j = i then Inr ?p else get_pcb j s)" for j
  proof (cases "j = i")
    case True
    then show ?thesis using a assms(3) by (simp add: assms(7) get_pcb_def pcb_ptr_def)
  next
    case False
    have "x \<noteq> a" if "get_at (pcb s) j = Inr (Some x)" for x
      using that slots_distinct[OF assms(1,3), of j] a(2,3) False by (auto simp: run_simps)
    then show ?thesis using False by (auto simp: assms(7) get_pcb_def pcb_ptr_def bind_run_def deref_def split: sum.splits option.splits)
  qed
  have own: "own s' j r \<longleftrightarrow> (if j = i then r = ?p else own s j r)" for j r
    using assms(2) unfolding own_def get by (auto simp: assms(7))
  have pl: "plain s' c" if "plain s c" for c
    by (rule plain_mono[OF that]) (use a(1) in \<open>auto simp: assms(7) split: if_splits\<close>)
  have jo: "\<exists>r'. own s' j r' \<and> joinsem r' = joinsem r \<and> exitsem r' = exitsem r" if "own s j r" for j r
    using that own own_unique[OF assms(2)] by (cases "j = i") auto
  have sh: "shape s' j cs" if "shape s j cs" for j cs
    by (rule shape_mono[OF that pl]) (use jo in \<open>auto simp: assms(7)\<close>)
  have h: "holds s' t k = holds s t k" for t k using fr by (simp add: holds_def assms(7))
  have r: "is_released s' k = is_released s k" for k unfolding is_released_def assms(7) using fr by simp (metis option.distinct(1))
  have pid: "processID q \<noteq> i" if q: "thr s t = Some q" for t q
  proof
    assume e: "processID q = i"
    then obtain p' where "own s i p'" "pthread p' = Some t" using pinvD(3)[OF assms(1)] q assms(5) unfolding procs_ok_def by metis
    then show False using own_unique[OF assms(2)] assms(4) by auto
  qed
  have "ids_ok s'"
  proof -
    have "psems ?p = psems p" by (simp add: psems_def)
    then show ?thesis using ids a(1) unfolding ids_ok_def assms(7) by (auto simp: less_Suc_eq)
  qed
  moreover have "slots_ok s'"
    unfolding slots_ok_def
  proof (intro conjI allI impI)
    fix j r assume "get_pcb j s' = Inr r" "semVal s' (joinsem r) \<noteq> None"
    then show "bit_used (ptBm s') j" using pinvD(2)[OF assms(1)] assms(2) by (auto simp: get slots_ok_def own_def split: if_splits) (auto simp: assms(7))
  next
    fix j assume "bit_used (ptBm s') j"
    then have "bit_used (ptBm s) j" by (simp add: assms(7))
    then obtain r where "own s j r" using pinvD(2)[OF assms(1)] by (auto simp: slots_ok_def)
    from jo[OF this] show "\<exists>r. own s' j r" by blast
  qed (use pinvD(2)[OF assms(1)] in \<open>auto simp: assms(7) slots_ok_def\<close>)
  moreover have "procs_ok s'"
    unfolding procs_ok_def
  proof (intro allI impI)
    fix t q assume q: "thr s' t = Some q"
    show "shape s' (processID q) (code q) \<and> (if processID q = 0 then t = 0 else \<exists>p. own s' (processID q) p \<and> pthread p = Some t)"
    proof (cases "t = ?u")
      case True
      then have "q = \<lparr>processID = i, tname = b, code = [], result = 0, ec = 0\<rparr>" using q by (simp add: assms(7))
      then show ?thesis using True assms(5) own sh_plain[of s' "[]"] by simp
    next
      case False
      then have q0: "thr s t = Some q" using q by (simp add: assms(7))
      then show ?thesis using pinvD(3)[OF assms(1)] sh own pid[OF q0] unfolding procs_ok_def by (metis (no_types, lifting))
    qed
  qed
  moreover have "tok s' j r" if o: "own s' j r" for j r
  proof -
    obtain r0 where r0: "own s j r0" "joinsem r = joinsem r0" "exitsem r = exitsem r0"
      using o own[of j r] assms(2) by (cases "j = i") auto
    have "semVal s' = semVal s" by (simp add: assms(7))
    then show ?thesis using tok_cong[of s' r s r0 j] h r r0 pinvD(4)[OF assms(1)] by (simp add: toks_ok_def)
  qed
  then have "toks_ok s'" using pinvD(4)[OF assms(1)] by (simp add: toks_ok_def h) (simp add: assms(7))
  moreover have "starts_ok s'"
    unfolding starts_ok_def
  proof (intro allI impI)
    fix t q assume q: "thr s' t = Some q"
    show "distinct (starts (code q)) \<and> (\<forall>i \<in> set (starts (code q)). i \<noteq> 0 \<and> (\<exists>p. own s' i p \<and> pthread p = None)) \<and>
     (\<forall>u r. thr s' u = Some r \<longrightarrow> u \<noteq> t \<longrightarrow> set (starts (code q)) \<inter> set (starts (code r)) = {})"
    proof (cases "t = ?u")
      case True
      then show ?thesis using q by (auto simp: assms(7))
    next
      case False
      then have q0: "thr s t = Some q" using q by (simp add: assms(7))
      note ok = pinvD(5)[OF assms(1), unfolded starts_ok_def, rule_format, OF q0]
      have "\<exists>r'. own s' j r' \<and> pthread r' = None" if "j \<in> set (starts (code q))" for j
        using ok that assms(6)[OF q0] own by (metis (no_types, lifting))
      moreover have "set (starts (code q)) \<inter> set (starts (code r)) = {}" if "thr s' u = Some r" "u \<noteq> t" for u r
        using ok that by (cases "u = ?u") (auto simp: assms(7))
      ultimately show ?thesis using ok by blast
    qed
  qed
  ultimately show ?thesis by (simp add: pinv_def)
qed

lemma step_ExecStart:
  assumes "pinv s" "thr s t = Some q" "code q = ExecStart b i # cs" "exec_cmd t (ExecStart b i) (set_code t q cs s) = Inr s'"
  shows "pinv s'"
proof -
  let ?s = "set_code t q cs s"
  note ok = pinvD(5)[OF assms(1), unfolded starts_ok_def, rule_format, OF assms(2)]
  obtain p where p: "i \<noteq> 0" "own s i p" "pthread p = None" "i \<notin> set (starts cs)" using ok assms(3) by auto
  obtain a where a: "pcb s ! nat i = Some a" "pcbHeap s a = Some p" "0 \<le> i" "i < int (length (pcb s))" using own_heap[OF p(2)] by blast
  have o: "own ?s = own s" by (rule own_cong) simp_all
  have f: "free_code s (processID q) (ExecStart b i # cs)" "free_code s (processID q) cs"
    using shape_free[of s "processID q" "ExecStart b i" cs] proc_shape[OF assms(1,2)] assms(3) by auto
  have st: "set (starts (code r)) \<inter> set (starts (code v)) = {}" if "thr ?s u = Some r" "thr ?s w = Some v" "u \<noteq> w" for u w r v
    using that pinvD(5)[OF assms(1)] assms(2,3) unfolding starts_ok_def by (fastforce split: if_splits)
  have "starts_ok ?s"
    unfolding starts_ok_def o
  proof (intro allI impI conjI)
    fix u r assume r: "thr ?s u = Some r"
    show "distinct (starts (code r))" "\<forall>j \<in> set (starts (code r)). j \<noteq> 0 \<and> (\<exists>p. own s j p \<and> pthread p = None)"
      using r pinvD(5)[OF assms(1)] ok assms(3) unfolding starts_ok_def by (auto split: if_splits)
    show "set (starts (code r)) \<inter> set (starts (code v)) = {}" if "thr ?s w = Some v" "w \<noteq> u" for w v using st[OF r that(1)] that(2) by blast
  qed
  then have s0: "pinv ?s" unfolding set_code_def
    by (intro pinv_code_starts[OF assms(1,2)]) (use free_shape[OF f(1)] free_shape[OF f(2)] assms(3) in simp_all)
  have no: "i \<notin> set (starts (code r))" if "thr ?s u = Some r" for u r
  proof (cases "u = t")
    case True
    then show ?thesis using that p(4) by auto
  next
    case False
    then have "set (starts (code q)) \<inter> set (starts (code r)) = {}" using ok that by simp
    then show ?thesis using assms(3) by auto
  qed
  have "s' = ?s\<lparr>thr := (thr ?s)(nextId ?s \<mapsto> \<lparr>processID = i, tname = b, code = [], result = 0, ec = 0\<rparr>), nextId := Suc (nextId ?s),
       pcbHeap := (pcbHeap ?s)(a \<mapsto> p\<lparr>pthread := Some (nextId ?s), parentID := processID q\<rparr>)\<rparr>"
    using assms(4) a by (simp add: exec_cmd_def PCB_Exec_def upd_pcb_def upd_pcb_at_def pcb_ptr_def Let_def)
  then show ?thesis using pinv_new_thread[OF s0, of i p a] p a no o by simp
qed

section \<open>Reachable states\<close>

lemma procs_new_eq:
  obtains b b' where "bitmap_inv b" "numBits b = 10" "bit_used b = (\<lambda>_. False)(0 := True)" "bitmap_inv b'" "numBits b' = 10" "bit_used b' = (\<lambda>_. False)"
    "procs_new pr = Inr \<lparr>ptBm = b, pcb = (replicate 10 None)[0 := Some 5],
       pcbHeap = [5 \<mapsto> \<lparr>joinsem = 2, exitsem = 3, multex = 4, exitcode = 0, numwait = 0, pthread = None, FileName = cstr ''../test/nghiala'', parentID = -1\<rparr>],
       bmsem = 1, stBm = b', semTab = replicate 10 None, semVal = [1 \<mapsto> 1, 2 \<mapsto> 0, 3 \<mapsto> 0, 4 \<mapsto> 1], names = [0 \<mapsto> cstr ''main''],
       thr = [0 \<mapsto> \<lparr>processID = 0, tname = 0, code = [], result = 0, ec = 0\<rparr>], nextId = 6, progs = pr, halted = False\<rparr>"
proof -
  obtain b0 where b0: "Bitmap_new 1 = Inr b0" using Bitmap_new_ok[of 1] by auto
  obtain b1 where b1: "Bitmap_new 10 = Inr b1" "bitmap_inv b1" "numBits b1 = 10" "bit_used b1 = (\<lambda>_. False)" using Bitmap_new_ok[of 10] by auto
  obtain b2 where b2: "Bitmap_Mark b1 0 = Inr b2" "bitmap_inv b2" "numBits b2 = 10" "bit_used b2 = (\<lambda>_. False)(0 := True)"
    using Bitmap_Mark_ok[OF b1(2), of 0] b1(3,4) by auto
  have "length (cstr ''../test/nghiala'') < 32" by (simp add: cstr_def)
  then have s: "procs_new pr = Inr \<lparr>ptBm = b2, pcb = (replicate 10 None)[0 := Some (Suc (Suc (Suc (Suc (Suc 0)))))],
       pcbHeap = [Suc (Suc (Suc (Suc (Suc 0)))) \<mapsto> \<lparr>joinsem = Suc (Suc 0), exitsem = Suc (Suc (Suc 0)), multex = Suc (Suc (Suc (Suc 0))),
         exitcode = 0, numwait = 0, pthread = None, FileName = cstr ''../test/nghiala'', parentID = -1\<rparr>],
       bmsem = Suc 0, stBm = b1, semTab = replicate 10 None,
       semVal = [Suc 0 \<mapsto> 1, Suc (Suc 0) \<mapsto> 0, Suc (Suc (Suc 0)) \<mapsto> 0, Suc (Suc (Suc (Suc 0))) \<mapsto> 1], names = [0 \<mapsto> cstr ''main''],
       thr = [0 \<mapsto> \<lparr>processID = 0, tname = 0, code = [], result = 0, ec = 0\<rparr>], nextId = Suc (Suc (Suc (Suc (Suc (Suc 0))))), progs = pr, halted = False\<rparr>"
    using b0 b1(1) b2(1) by (simp add: procs_new_def PTable_new_def STable_new_def MAX_PROCESS_def MAX_SEMAPHORE_def
        new_sem_obj_def PCB_new_def Let_def SetFileName_def upd_pcb_def upd_pcb_at_def pcb_ptr_def set_at_def get_at_def)
  show thesis by (rule that[OF b2(2-4) b1(2-4)]) (simp add: s numeral_2_eq_2 numeral_3_eq_3 eval_nat_numeral)
qed

lemma pinv_start:
  assumes "procs_new pr = Inr s"
  shows "pinv s"
proof -
  let ?p = "\<lparr>joinsem = 2, exitsem = 3, multex = 4, exitcode = 0, numwait = 0, pthread = None, FileName = cstr ''../test/nghiala'', parentID = -1\<rparr>"
  obtain b b' where b: "bitmap_inv b" "numBits b = 10" "bit_used b = (\<lambda>_. False)(0 := True)"
    and s: "s = \<lparr>ptBm = b, pcb = (replicate 10 None)[0 := Some 5], pcbHeap = [5 \<mapsto> ?p],
       bmsem = 1, stBm = b', semTab = replicate 10 None, semVal = [1 \<mapsto> 1, 2 \<mapsto> 0, 3 \<mapsto> 0, 4 \<mapsto> 1], names = [0 \<mapsto> cstr ''main''],
       thr = [0 \<mapsto> \<lparr>processID = 0, tname = 0, code = [], result = 0, ec = 0\<rparr>], nextId = 6, progs = pr, halted = False\<rparr>"
    using assms procs_new_eq[of pr] by (metis sum.inject(2))
  have get: "get_pcb i s = Inr p \<longleftrightarrow> i = 0 \<and> p = ?p" for i p
    by (auto simp: get_pcb_iff s nth_list_update split: if_splits)
  have own: "own s i p \<longleftrightarrow> i = 0 \<and> p = ?p" for i p unfolding own_def get by (auto simp: s b(3))
  have h: "\<not> holds s t i" "\<not> is_released s i" for t i by (simp_all add: holds_def is_released_def s)
  have "ids_ok s" by (auto simp: ids_ok_def s psems_def split: if_splits)
  moreover have "slots_ok s"
    unfolding slots_ok_def get own by (auto simp: s b nth_list_update split: if_splits)
  moreover have "procs_ok s" using sh_plain[of s "[]" 0] by (simp add: procs_ok_def s)
  moreover have "tok s i p" if "own s i p" for i p using that h unfolding own tok_def by (auto simp: s)
  then have "toks_ok s" using h by (simp add: toks_ok_def)
  moreover have "starts_ok s" by (simp add: starts_ok_def s)
  ultimately show ?thesis by (simp add: pinv_def)
qed

lemma pinv_cmd:
  assumes "pinv s" "\<not> halted s" "thr s t = Some q" "code q = c # cs" "ready c s" "exec_cmd t c (set_code t q cs s) = Inr s'"
  shows "pinv s'"
proof -
  have used: "bit_used (ptBm s) (processID q)" if "processID q \<noteq> 0"
    using that pinvD(3)[OF assms(1)] assms(3) unfolding procs_ok_def own_def by metis
  note pr = proc_shape[OF assms(1,3), unfolded assms(4)]
  note st = assms(1,3,4,6)
  show ?thesis
  proof (cases c)
    case (Down r)
    show ?thesis
    proof (cases "plain s c")
      case True
      then show ?thesis using step_Down_plain[OF assms(1,3)] Down assms(4,6) by simp
    next
      case False
      then show ?thesis using step_JoinWait[OF assms(1,3)] step_ExitWait[OF assms(1,3) _ _ used] Down assms(4,6) pr shape_protocol(2)
        by (cases r) auto
    qed
  next
    case (Up r)
    show ?thesis
    proof (cases "plain s c")
      case True
      then show ?thesis using step_Up_plain[OF assms(1,3)] Up assms(4,6) by simp
    next
      case False
      then show ?thesis using step_JoinRelease[OF assms(1,3) _ _ used] step_ExitRelease[OF assms(1,3)] Up assms(4,6) pr shape_protocol(1)
        by (cases r) auto
    qed
  next
    case (PWait x)
    then show ?thesis using step_PWait[OF assms(1,3)] assms(4-6) by simp
  next
    case (ExecCheck b)
    then show ?thesis using step_ExecCheck[OF assms(1,3)] assms(4,6) by simp
  next
    case (ExecStart b i)
    then show ?thesis using step_ExecStart[OF assms(1,3)] assms(4,6) by simp
  next
    case (JoinCheck i)
    then show ?thesis using step_JoinCheck[OF assms(1,3)] assms(4,6) by simp
  next
    case (JoinRead i)
    then show ?thesis using step_JoinRead[OF assms(1,3)] assms(4,6) by simp
  next
    case (ExitCheck e)
    then show ?thesis using step_ExitCheck[OF assms(1,3)] assms(4,6) by simp
  next
    case (RemoveCmd i)
    then show ?thesis using step_Remove[OF assms(1,3)] assms(4,6) by simp
  next
    case FinishCmd
    then show ?thesis using shape_protocol(9) pr assms(2) by blast
  next
    case (SemCreate b v)
    then show ?thesis using step_Sem[OF assms(1,3,4) _ assms(6)] by blast
  next
    case (SemWait b)
    then show ?thesis using step_Sem[OF assms(1,3,4) _ assms(6)] by blast
  next
    case (SemSignal b)
    then show ?thesis using step_Sem[OF assms(1,3,4) _ assms(6)] by blast
  qed (use step_simple[OF assms(1,3,4) _ _ assms(6)] in simp_all)
qed

lemma preach_pinv: "preach s \<Longrightarrow> pinv s"
proof (induction rule: preach.induct)
  case (preach_step s s')
  from preach_step(2) show ?case
  proof cases
    case (call t p c)
    then show ?thesis using pinv_call[OF preach_step(3)] by metis
  next
    case (cmd t p c cs)
    then show ?thesis using pinv_cmd[OF preach_step(3)] by metis
  qed
qed (rule pinv_start)

end
