(* ===== verification/SemTable.thy ===== *)
theory SemTable
  imports ProcessStart
begin

text \<open>
  The table of named semaphores (\<^verbatim>\<open>threads/stable.cc\<close>) is a map from at most ten names to semaphore objects.
\<close>

definition slot_name :: "procs \<Rightarrow> int \<Rightarrow> bytes option" where
  "slot_name s i = (if bit_used (stBm s) i then map_option semName (semTab s ! nat i) else None)"

definition sem_map :: "procs \<Rightarrow> bytes \<Rightarrow> nat option" where
  "sem_map s n = (case find (\<lambda>i. slot_name s i = Some n) (count_to MAX_SEMAPHORE) of None \<Rightarrow> None
     | Some i \<Rightarrow> map_option semObj (semTab s ! nat i))"

definition stable_inv :: "procs \<Rightarrow> bool" where
  [inv_defs]: "stable_inv s \<longleftrightarrow> bitmap_inv (stBm s) \<and> numBits (stBm s) = MAX_SEMAPHORE \<and> length (semTab s) = nat MAX_SEMAPHORE \<and>
     (\<forall>i. bit_used (stBm s) i \<longrightarrow> semTab s ! nat i \<noteq> None) \<and>
     (\<forall>i j n. slot_name s i = Some n \<longrightarrow> slot_name s j = Some n \<longrightarrow> i = j)"

lemma st_find_eq:
  assumes "stable_inv s" "set is \<subseteq> {0..<MAX_SEMAPHORE}"
  shows "st_find n s is = Inr (find (\<lambda>i. slot_name s i = Some n) is)"
  using assms(2)
proof (induction "is")
  case (Cons i "is")
  have i: "0 \<le> i" "i < MAX_SEMAPHORE" using Cons.prems by auto
  have t: "Bitmap_Test (stBm s) i = Inr (bit_used (stBm s) i)" using Bitmap_Test_ok[of "stBm s" i] assms(1) i by (simp add: stable_inv_def)
  have g: "get_at (semTab s) i = Inr (semTab s ! nat i)" using assms(1) i by (simp add: stable_inv_def)
  show ?case
  proof (cases "bit_used (stBm s) i")
    case True
    then obtain e where "semTab s ! nat i = Some e" using assms(1) by (auto simp: stable_inv_def)
    then show ?thesis using Cons t g True by (auto simp: slot_name_def)
  next
    case False
    then show ?thesis using Cons t by (simp add: slot_name_def)
  qed
qed simp

lemma slot_range: "stable_inv s \<Longrightarrow> slot_name s i = Some n \<Longrightarrow> 0 \<le> i \<and> i < MAX_SEMAPHORE"
  by (auto simp: slot_name_def bit_used_def stable_inv_def split: if_splits)

lemma find_slot:
  assumes "stable_inv s"
  shows "find (\<lambda>i. slot_name s i = Some n) (count_to MAX_SEMAPHORE) = Some i \<longleftrightarrow> slot_name s i = Some n"
proof
  assume n: "slot_name s i = Some n"
  then have i: "i \<in> set (count_to MAX_SEMAPHORE)" using slot_range[OF assms n] by simp
  obtain j where j: "find (\<lambda>i. slot_name s i = Some n) (count_to MAX_SEMAPHORE) = Some j"
    using i n by (cases "find (\<lambda>i. slot_name s i = Some n) (count_to MAX_SEMAPHORE)") (auto simp: find_None_iff)
  then have "slot_name s j = Some n" by (auto simp: find_Some_iff)
  then show "find (\<lambda>i. slot_name s i = Some n) (count_to MAX_SEMAPHORE) = Some i" using j n assms unfolding stable_inv_def by blast
qed (auto simp: find_Some_iff)

lemma sem_map_None:
  assumes "stable_inv s"
  shows "sem_map s n = None \<longleftrightarrow> (\<forall>i. slot_name s i \<noteq> Some n)"
proof (cases "\<exists>i. slot_name s i = Some n")
  case True
  then obtain i where i: "slot_name s i = Some n" by blast
  then have "semTab s ! nat i \<noteq> None" by (auto simp: slot_name_def split: if_splits)
  then have "sem_map s n \<noteq> None" using i find_slot[OF assms, of n i] by (simp add: sem_map_def)
  then show ?thesis using i by blast
next
  case False
  then have "find (\<lambda>i. slot_name s i = Some n) (count_to MAX_SEMAPHORE) = None" by (simp add: find_None_iff)
  then show ?thesis using False by (simp add: sem_map_def)
qed

lemma new_slot:
  assumes "stable_inv s" "Bitmap_FindAndSet (stBm s) = Inr (i, b)" "0 \<le> i" "\<And>j. slot_name s j \<noteq> Some n"
    "s' = s\<lparr>stBm := b, semTab := (semTab s)[nat i := Some \<lparr>semName = n, semObj = x\<rparr>], semVal := sv, nextId := k\<rparr>"
  shows "stable_inv s'" "sem_map s' = (sem_map s)(n \<mapsto> x)"
proof -
  have b: "bitmap_inv b" "numBits b = MAX_SEMAPHORE" "bit_used b = (bit_used (stBm s))(i := True)" "i < MAX_SEMAPHORE" "\<not> bit_used (stBm s) i"
    using Bitmap_FindAndSet_cases[of "stBm s"] assms(1-3) by (fastforce simp: stable_inv_def free_bits_def)+
  have l: "length (semTab s) = nat MAX_SEMAPHORE" using assms(1) by (simp add: stable_inv_def)
  have other: "semTab s' ! nat j = semTab s ! nat j" if "bit_used (stBm s) j" "j \<noteq> i" for j
    using that assms(3) by (simp add: assms(5) bit_used_def nat_eq_iff2)
  have nm: "slot_name s' j = (if j = i then Some n else slot_name s j)" for j
    using other[of j] b l assms(3) by (simp add: slot_name_def assms(5) MAX_SEMAPHORE_def)
  have s: "slot_name s i = None" using b(5) by (simp add: slot_name_def)
  show inv: "stable_inv s'"
    unfolding stable_inv_def
  proof (intro conjI allI impI)
    fix j assume "bit_used (stBm s') j"
    then show "semTab s' ! nat j \<noteq> None" using nm[of j] by (auto simp: slot_name_def split: if_splits) (use assms(1) other in \<open>auto simp: stable_inv_def assms(5) b(3) split: if_splits\<close>)
  next
    fix j k m assume "slot_name s' j = Some m" "slot_name s' k = Some m"
    then show "j = k" using assms(1,4) unfolding nm stable_inv_def by (auto split: if_splits)
  qed (use b l in \<open>simp_all add: assms(5)\<close>)
  show "sem_map s' = (sem_map s)(n \<mapsto> x)"
  proof
    fix m
    show "sem_map s' m = ((sem_map s)(n \<mapsto> x)) m"
    proof (cases "m = n")
      case True
      have "find (\<lambda>j. slot_name s' j = Some n) (count_to MAX_SEMAPHORE) = Some i" using find_slot[OF inv] nm by simp
      then show ?thesis using True l b(4) assms(3) by (simp add: sem_map_def assms(5) MAX_SEMAPHORE_def)
    next
      case False
      have "(\<lambda>j. slot_name s' j = Some m) = (\<lambda>j. slot_name s j = Some m)" using nm False s by auto
      then have f: "find (\<lambda>j. slot_name s' j = Some m) (count_to MAX_SEMAPHORE) = find (\<lambda>j. slot_name s j = Some m) (count_to MAX_SEMAPHORE)" by simp
      have t: "semTab s' ! nat j = semTab s ! nat j" if "slot_name s j = Some m" for j
        using that other s by (cases "j = i") (auto simp: slot_name_def split: if_splits)
      show ?thesis
      proof (cases "find (\<lambda>j. slot_name s j = Some m) (count_to MAX_SEMAPHORE)")
        case (Some j)
        then have "slot_name s j = Some m" using find_slot[OF assms(1)] by simp
        then show ?thesis using False f Some t by (simp add: sem_map_def)
      qed (use False f in \<open>simp add: sem_map_def\<close>)
    qed
  qed
qed

lemma STable_Create_step:
  assumes "stable_inv s" "length n < 50"
  shows "\<exists>r s'. STable_Create n v s = Inr (r, s') \<and> stable_inv s' \<and>
     (if sem_map s n \<noteq> None \<or> free_bits (stBm s) = {} then r = -1 \<and> s' = s
      else r = 0 \<and> sem_map s' = (sem_map s)(n \<mapsto> nextId s) \<and> semVal s' = (semVal s)(nextId s \<mapsto> v))"
proof -
  let ?f = "find (\<lambda>i. slot_name s i = Some n) (count_to MAX_SEMAPHORE)"
  have f: "st_find n s (count_to MAX_SEMAPHORE) = Inr ?f" by (rule st_find_eq[OF assms(1)]) simp
  show ?thesis
  proof (cases ?f)
    case (Some i)
    then have "sem_map s n \<noteq> None" using sem_map_None[OF assms(1)] find_slot[OF assms(1)] by blast
    moreover have "STable_Create n v s = Inr (-1, s)" unfolding STable_Create_def f Some by simp
    ultimately show ?thesis using assms(1) by simp
  next
    case None
    then have no: "\<And>j. slot_name s j \<noteq> Some n" using find_slot[OF assms(1), of n] by simp
    then have m: "sem_map s n = None" using sem_map_None[OF assms(1)] by blast
    have "bitmap_inv (stBm s)" using assms(1) by (simp add: stable_inv_def)
    then show ?thesis
    proof (cases rule: Bitmap_FindAndSet_cases)
      case full
      have "STable_Create n v s = Inr (-1, s)" unfolding STable_Create_def f None by (simp add: full)
      then show ?thesis using assms(1) full by simp
    next
      case (found i b)
      have i: "0 \<le> i" "i < MAX_SEMAPHORE" using found(1) assms(1) by (auto simp: free_bits_def stable_inv_def)
      let ?s = "s\<lparr>stBm := b, semTab := (semTab s)[nat i := Some \<lparr>semName = n, semObj = nextId s\<rparr>], semVal := (semVal s)(nextId s \<mapsto> v), nextId := Suc (nextId s)\<rparr>"
      note new = new_slot[OF assms(1) found(3) i(1) no, of ?s, OF refl]
      have "set_at (semTab s) i (Some \<lparr>semName = n, semObj = nextId s\<rparr>) = Inr ((semTab s)[nat i := Some \<lparr>semName = n, semObj = nextId s\<rparr>])"
        using i assms(1) by (simp add: run_simps stable_inv_def)
      then have "STable_Create n v s = Inr (0, ?s)"
        unfolding STable_Create_def f None bind_run_Inr using found(3) i assms(2) by (simp add: new_sem_obj_def Let_def)
      moreover have "free_bits (stBm s) \<noteq> {}" using found(1) by blast
      ultimately show ?thesis using new m by simp
    qed
  qed
qed

section \<open>Reachable states\<close>

text \<open>Only \<open>CreateSemaphore\<close> changes the table.\<close>

abbreviation same_sems :: "procs \<Rightarrow> procs \<Rightarrow> bool" where
  "same_sems s s' \<equiv> stBm s' = stBm s \<and> semTab s' = semTab s"

lemma stable_inv_same: "same_sems s s' \<Longrightarrow> stable_inv s' = stable_inv s"
  by (simp add: stable_inv_def slot_name_def)

lemma same_sems_basic:
  "push t cs s = Inr s' \<Longrightarrow> same_sems s s'"
  "upd_proc t f s = Inr s' \<Longrightarrow> same_sems s s'"
  "upd_pcb_at a g s = Inr s' \<Longrightarrow> same_sems s s'"
  "upd_pcb i g s = Inr s' \<Longrightarrow> same_sems s s'"
  "sem_add x d s = Inr s' \<Longrightarrow> same_sems s s'"
  "GetFreeSlot s = Inr (k, s') \<Longrightarrow> same_sems s s'"
  "SetFileName i n s = Inr s' \<Longrightarrow> same_sems s s'"
  by (auto simp: push_def upd_proc_def upd_pcb_def upd_pcb_at_def sem_add_def GetFreeSlot_def SetFileName_def PCB_new_def new_sem_obj_def Let_def run_simps
    split: if_splits prod.splits)

lemma same_sems_new: "stBm (snd (PCB_new i c s)) = stBm s" "semTab (snd (PCB_new i c s)) = semTab s"
  by (simp_all add: PCB_new_def new_sem_obj_def Let_def)

lemma same_sems_parts:
  "PCB_Exec t b i s = Inr s' \<Longrightarrow> same_sems s s'"
  "PTable_Remove t i s = Inr s' \<Longrightarrow> same_sems s s'"
  "join_check t i s = Inr s' \<Longrightarrow> same_sems s s'"
  "exit_check t i s = Inr s' \<Longrightarrow> same_sems s s'"
  "STable_Wait t n s = Inr s' \<Longrightarrow> same_sems s s'"
  "STable_Signal t n s = Inr s' \<Longrightarrow> same_sems s s'"
  by (auto simp: PCB_Exec_def PTable_Remove_def PCB_delete_def join_check_def exit_check_def STable_Wait_def STable_Signal_def Let_def run_simps
    split: if_splits option.splits dest!: same_sems_basic)

lemma same_sems_exec_check:
  assumes "exec_check t b s = Inr s'"
  shows "same_sems s s'"
  using assms
  by (auto simp: exec_check_def Let_def run_simps case_prod_beta same_sems_new split: if_split_asm dest!: same_sems_basic)

lemma stable_inv_cmd:
  assumes "stable_inv s" "exec_cmd t c s = Inr s'"
  shows "stable_inv s'"
proof (cases "\<exists>b v. c = SemCreate b v")
  case True
  then obtain b v n r s1 where c: "STable_Create n v s = Inr (r, s1)" "push t [Return r] s1 = Inr s'"
    using assms(2) by (auto simp: exec_cmd_def run_simps)
  have "stable_inv s1" using c(1)
  proof (cases rule: STable_Create_result)
    case (new i b)
    then have "\<And>j. slot_name s j \<noteq> Some n"
      using st_find_eq[OF assms(1), of "count_to MAX_SEMAPHORE" n] find_slot[OF assms(1), of n] by simp
    from new_slot(1)[OF assms(1) new(2,3) this new(6)] show ?thesis .
  next
    case (full i b)
    have "bitmap_inv (stBm s)" using assms(1) by (simp add: stable_inv_def)
    then show ?thesis
      by (cases rule: Bitmap_FindAndSet_cases) (use full assms(1) in \<open>auto simp: free_bits_def\<close>)
  qed (use assms(1) in simp)
  then show ?thesis using stable_inv_same same_sems_basic(1)[OF c(2)] by blast
next
  case False
  have "same_sems s s'"
    using assms(2) False
    by (cases c) (auto simp: exec_cmd_def run_simps dest!: same_sems_basic same_sems_parts same_sems_exec_check)
  then show ?thesis using stable_inv_same assms(1) by blast
qed

lemma stable_inv_call: "stable_inv s \<Longrightarrow> do_call t c s = Inr s' \<Longrightarrow> stable_inv s'"
proof -
  assume s: "stable_inv s" "do_call t c s = Inr s'"
  have "same_sems s s'" using s(2)
    by (cases c) (auto simp: do_call_def SysExec_def SysJoin_def SysExit_def SysCreateSemaphore_def SysWait_def SysSignal_def with_name_def
      split: if_splits dest!: same_sems_basic(1))
  then show ?thesis using stable_inv_same s(1) by blast
qed

lemma preach_stable: "preach s \<Longrightarrow> stable_inv s"
proof (induction rule: preach.induct)
  case (preach_start pr s)
  show ?case by (rule procs_new_eq[of pr]) (use preach_start in \<open>auto simp: stable_inv_def slot_name_def MAX_SEMAPHORE_def\<close>)
next
  case (preach_step s s')
  from preach_step(2) show ?case
  proof cases
    case (call t p c)
    then show ?thesis using stable_inv_call[OF preach_step(3)] by metis
  next
    case (cmd t p c cs)
    have "stable_inv (set_code t p cs s)" using preach_step(3) stable_inv_same[of s "set_code t p cs s"] by simp
    then show ?thesis using stable_inv_cmd cmd by metis
  qed
qed

text \<open>
  C35: the table of semaphores is a map from names to semaphores, with no name twice.  In every reachable state \<open>Create\<close> returns
  \<open>-1\<close> and changes nothing if the name exists or all ten slots are taken, and otherwise enters the name with a new semaphore of
  the given value and leaves all other names alone.
\<close>

theorem named_semaphores:
  assumes "preach s" "length n < 50"
  shows "\<exists>r s'. STable_Create n v s = Inr (r, s') \<and> (\<forall>i j m. slot_name s' i = Some m \<and> slot_name s' j = Some m \<longrightarrow> i = j) \<and>
     (if sem_map s n \<noteq> None \<or> free_bits (stBm s) = {} then r = -1 \<and> s' = s
      else r = 0 \<and> sem_map s' = (sem_map s)(n \<mapsto> nextId s) \<and> semVal s' = (semVal s)(nextId s \<mapsto> v))"
  using STable_Create_step[OF preach_stable[OF assms(1)] assms(2), of v] unfolding stable_inv_def by blast

lemma named_semaphores_witness:
  "\<exists>s s'. preach s \<and> STable_Create (cstr ''mutex'') 1 s = Inr (0, s') \<and> sem_map s' (cstr ''mutex'') = Some (nextId s) \<and> semVal s' (nextId s) = Some 1"
proof -
  obtain s where s: "preach s" "sem_map s = (\<lambda>_. None)" "free_bits (stBm s) \<noteq> {}"
  proof -
    obtain s b' where s: "procs_new (\<lambda>_. True) = Inr s" "stBm s = b'" "numBits b' = 10" "bit_used b' = (\<lambda>_. False)"
      by (rule procs_new_eq[of "\<lambda>_. True"]) auto
    have "slot_name s i = None" for i by (simp add: slot_name_def s)
    then have "sem_map s n = None" for n using sem_map_None[OF preach_stable[OF preach_start[OF s(1)]]] by simp
    moreover have "0 \<in> free_bits (stBm s)" by (simp add: free_bits_def s)
    ultimately show thesis using that[OF preach_start[OF s(1)]] by auto
  qed
  have "length (cstr ''mutex'') < 50" by (simp add: cstr_def)
  from named_semaphores[OF s(1) this, of 1] s show ?thesis by auto
qed

end
