(* ===== verification/Monitors.thy ===== *)
theory Monitors
  imports Processes
begin

text \<open>
  Locks, condition variables and synchronised lists: \<open>Lock\<close> and \<open>Condition\<close> of \<^verbatim>\<open>threads/synch.cc\<close>, \<^verbatim>\<open>threads/synchlist.cc\<close>.

  As in the process layer, a routine is a list of commands, cut where another thread may run, and every thread has the
  list of commands it has still to execute.  The commands that read or change the list or the queue of the condition take many instructions; that no two threads
  are ever at such commands together is part of what is proved.  \<open>P\<close> waits until the value of the semaphore is not zero; semaphores
  are objects whose identity is never used again, semaphore \<open>0\<close> is that of the lock.  \<open>appended\<close> and \<open>removed\<close>
  record, for the statements, the items in the order in which they came and went.
\<close>

section \<open>Operations\<close>

datatype 'a mcmd = SemP nat | SemV nat | SetHolder | ClearHolder | CheckHeld | NewWaiter | DeleteSem nat
  | SignalFront | BroadcastTest | AppendItem 'a | TestEmpty | RemoveItem

record 'a monitor =
  msems :: "nat \<Rightarrow> int option"
  nextSem :: nat
  lockHolder :: "nat option"
  waitQueue :: "nat list"
  items :: "'a list"
  progs :: "nat \<Rightarrow> 'a mcmd list"
  appended :: "'a list"
  removed :: "'a list"

definition lockSem :: nat where "lockSem = 0"

definition Lock_Acquire :: "'a mcmd list" where
  "Lock_Acquire = [SemP lockSem, SetHolder]"

definition Lock_Release :: "'a mcmd list" where
  "Lock_Release = [ClearHolder, SemV lockSem]"

definition Condition_Wait :: "'a mcmd list" where
  "Condition_Wait = [CheckHeld, NewWaiter]"

definition Condition_Signal :: "'a mcmd list" where
  "Condition_Signal = [CheckHeld, SignalFront]"

definition Condition_Broadcast :: "'a mcmd list" where
  "Condition_Broadcast = [BroadcastTest]"

definition SynchList_Append :: "'a \<Rightarrow> 'a mcmd list" where
  "SynchList_Append x = Lock_Acquire @ [AppendItem x] @ Condition_Signal @ Lock_Release"

definition SynchList_RemoveFront :: "'a mcmd list" where
  "SynchList_RemoveFront = Lock_Acquire @ [TestEmpty, RemoveItem] @ Lock_Release"

text \<open>Any client may wake all waiting threads.\<close>

definition wake_all :: "'a mcmd list" where
  "wake_all = Lock_Acquire @ Condition_Broadcast @ Lock_Release"

text \<open>\<open>new SynchList\<close>: an empty list, a free lock, and a condition on which nobody waits.\<close>

definition SynchList_new :: "'a monitor" where
  "SynchList_new = \<lparr>msems = [lockSem \<mapsto> 1], nextSem = 1, lockHolder = None, waitQueue = [], items = [], progs = (\<lambda>_. []), appended = [], removed = []\<rparr>"

definition set_val :: "nat \<Rightarrow> int \<Rightarrow> 'a monitor \<Rightarrow> 'a monitor" where
  "set_val w v m = m\<lparr>msems := (msems m)(w \<mapsto> v)\<rparr>"

text \<open>
  One command of thread \<open>t\<close>: what the thread does next, and the new state; \<open>None\<close> if the thread has to wait.
\<close>

fun exec :: "nat \<Rightarrow> 'a mcmd \<Rightarrow> 'a monitor \<Rightarrow> ('a mcmd list \<times> 'a monitor) run option" where
  "exec t (SemP w) m = (case msems m w of None \<Rightarrow> Some (Inl BadPointer)
     | Some v \<Rightarrow> if v = 0 then None else Some (Inr ([], set_val w (v - 1) m)))"
| "exec t (SemV w) m = (case msems m w of None \<Rightarrow> Some (Inl BadPointer) | Some v \<Rightarrow> Some (Inr ([], set_val w (v + 1) m)))"
| "exec t SetHolder m = Some (Inr ([], m\<lparr>lockHolder := Some t\<rparr>))"
| "exec t ClearHolder m = Some (ASSERT (lockHolder m = Some t) (Inr ([], m\<lparr>lockHolder := None\<rparr>)))"
| "exec t CheckHeld m = Some (ASSERT (lockHolder m = Some t) (Inr ([], m)))"
| "exec t NewWaiter m = (let w = nextSem m in
     Some (Inr (Lock_Release @ [SemP w] @ Lock_Acquire @ [DeleteSem w], m\<lparr>msems := (msems m)(w \<mapsto> 0), nextSem := Suc w, waitQueue := waitQueue m @ [w]\<rparr>)))"
| "exec t (DeleteSem w) m = (case msems m w of None \<Rightarrow> Some (Inl BadPointer) | Some v \<Rightarrow> Some (Inr ([], m\<lparr>msems := (msems m)(w := None)\<rparr>)))"
| "exec t SignalFront m = (case waitQueue m of [] \<Rightarrow> Some (Inr ([], m)) | w # ws \<Rightarrow> Some (Inr ([SemV w], m\<lparr>waitQueue := ws\<rparr>)))"
| "exec t BroadcastTest m = Some (Inr (if waitQueue m \<noteq> [] then Condition_Signal @ [BroadcastTest] else [], m))"
| "exec t (AppendItem x) m = Some (Inr ([], m\<lparr>items := items m @ [x], appended := appended m @ [x]\<rparr>))"
| "exec t TestEmpty m = Some (Inr (if items m = [] then Condition_Wait @ [TestEmpty] else [], m))"
| "exec t RemoveItem m = (case items m of [] \<Rightarrow> Some (Inl AssertFail) | x # xs \<Rightarrow> Some (Inr ([], m\<lparr>items := xs, removed := removed m @ [x]\<rparr>)))"

definition set_prog :: "nat \<Rightarrow> 'a mcmd list \<Rightarrow> 'a monitor \<Rightarrow> 'a monitor" where
  "set_prog t p m = m\<lparr>progs := (progs m)(t := p)\<rparr>"

inductive mstep :: "'a monitor \<Rightarrow> 'a monitor run \<Rightarrow> bool" where
  call: "progs m t = [] \<Longrightarrow> p = wake_all \<or> p = SynchList_RemoveFront \<or> (\<exists>x. p = SynchList_Append x) \<Longrightarrow> mstep m (Inr (set_prog t p m))"
| run: "progs m t = c # cs \<Longrightarrow> exec t c m = Some r \<Longrightarrow> mstep m (bind_run r (\<lambda>(p, m'). Inr (set_prog t (p @ cs) m')))"

inductive mreach :: "'a monitor \<Rightarrow> bool" where
  start: "mreach SynchList_new"
| step: "mreach m \<Longrightarrow> mstep m (Inr m') \<Longrightarrow> mreach m'"

lemmas routine_defs = lockSem_def Lock_Acquire_def Lock_Release_def Condition_Wait_def Condition_Signal_def Condition_Broadcast_def
  SynchList_Append_def SynchList_RemoveFront_def wake_all_def

section \<open>Where a thread can be\<close>

abbreviation (input) rel_end :: "'a mcmd list" where
  "rel_end \<equiv> [ClearHolder, SemV 0]"

abbreviation (input) take_end :: "'a mcmd list" where
  "take_end \<equiv> [RemoveItem, ClearHolder, SemV 0]"

inductive point :: "'a mcmd list \<Rightarrow> bool" where
  "point []"
| "point (SemP 0 # SetHolder # AppendItem x # CheckHeld # SignalFront # rel_end)"
| "point (SetHolder # AppendItem x # CheckHeld # SignalFront # rel_end)"
| "point (AppendItem x # CheckHeld # SignalFront # rel_end)"
| "point (CheckHeld # SignalFront # rel_end)"
| "point (SignalFront # rel_end)"
| "w \<noteq> 0 \<Longrightarrow> point (SemV w # rel_end)"
| "point rel_end"
| "point [SemV 0]"
| "point (SemP 0 # SetHolder # TestEmpty # take_end)"
| "point (SetHolder # TestEmpty # take_end)"
| "point (TestEmpty # take_end)"
| "point take_end"
| "point (CheckHeld # NewWaiter # TestEmpty # take_end)"
| "point (NewWaiter # TestEmpty # take_end)"
| "w \<noteq> 0 \<Longrightarrow> point (ClearHolder # SemV 0 # SemP w # SemP 0 # SetHolder # DeleteSem w # TestEmpty # take_end)"
| "w \<noteq> 0 \<Longrightarrow> point (SemV 0 # SemP w # SemP 0 # SetHolder # DeleteSem w # TestEmpty # take_end)"
| "w \<noteq> 0 \<Longrightarrow> point (SemP w # SemP 0 # SetHolder # DeleteSem w # TestEmpty # take_end)"
| "w \<noteq> 0 \<Longrightarrow> point (SemP 0 # SetHolder # DeleteSem w # TestEmpty # take_end)"
| "w \<noteq> 0 \<Longrightarrow> point (SetHolder # DeleteSem w # TestEmpty # take_end)"
| "w \<noteq> 0 \<Longrightarrow> point (DeleteSem w # TestEmpty # take_end)"
| "point (SemP 0 # SetHolder # BroadcastTest # rel_end)"
| "point (SetHolder # BroadcastTest # rel_end)"
| "point (BroadcastTest # rel_end)"
| "point (CheckHeld # SignalFront # BroadcastTest # rel_end)"
| "point (SignalFront # BroadcastTest # rel_end)"
| "w \<noteq> 0 \<Longrightarrow> point (SemV w # BroadcastTest # rel_end)"

text \<open>Inside: the thread has taken the semaphore of the lock.  Holding: it is also the lock holder.\<close>

fun inside :: "'a mcmd list \<Rightarrow> bool" where
  "inside [] = False"
| "inside (SemP w # _) = False"
| "inside _ = True"

fun holding :: "'a mcmd list \<Rightarrow> bool" where
  "holding [] = False"
| "holding (SemP w # _) = False"
| "holding (SetHolder # _) = False"
| "holding (SemV w # _) = (w \<noteq> 0)"
| "holding _ = True"

definition sleeps_on :: "nat \<Rightarrow> 'a mcmd list \<Rightarrow> bool" where
  "sleeps_on w p \<longleftrightarrow> w \<noteq> 0 \<and> SemP w \<in> set p"

definition owns :: "nat \<Rightarrow> 'a mcmd list \<Rightarrow> bool" where
  "owns w p \<longleftrightarrow> DeleteSem w \<in> set p"

fun signals :: "nat \<Rightarrow> 'a mcmd list \<Rightarrow> bool" where
  "signals w (SemV v # _) = (v = w \<and> w \<noteq> 0)"
| "signals w _ = False"

definition owes_signal :: "'a mcmd list \<Rightarrow> bool" where
  "owes_signal p \<longleftrightarrow> p = CheckHeld # SignalFront # rel_end \<or> p = SignalFront # rel_end"

definition awake :: "'a monitor \<Rightarrow> nat \<Rightarrow> bool" where
  "awake m t \<longleftrightarrow> RemoveItem \<in> set (progs m t) \<and> (\<forall>w \<in> set (waitQueue m). SemP w \<notin> set (progs m t))"

section \<open>The invariant\<close>

definition lock_ok :: "'a monitor \<Rightarrow> bool" where
  "lock_ok m \<longleftrightarrow> msems m 0 = Some (if \<exists>t. inside (progs m t) then 0 else 1) \<and>
     (\<forall>t t'. inside (progs m t) \<and> inside (progs m t') \<longrightarrow> t = t') \<and> (\<forall>t. lockHolder m = Some t \<longleftrightarrow> holding (progs m t))"

definition points_ok :: "'a monitor \<Rightarrow> bool" where
  "points_ok m \<longleftrightarrow> (\<forall>t. point (progs m t)) \<and> finite {t. progs m t \<noteq> []} \<and> (\<forall>t. progs m t = take_end \<longrightarrow> items m \<noteq> []) \<and>
     (\<forall>t. NewWaiter \<in> set (progs m t) \<longrightarrow> items m = [])"

definition sems_ok :: "'a monitor \<Rightarrow> bool" where
  "sems_ok m \<longleftrightarrow> 0 < nextSem m \<and> (\<forall>w. nextSem m \<le> w \<longrightarrow> msems m w = None) \<and> distinct (waitQueue m) \<and>
     (\<forall>w \<in> set (waitQueue m). w \<noteq> 0 \<and> msems m w = Some 0 \<and> (\<exists>t. sleeps_on w (progs m t))) \<and>
     (\<forall>t w. owns w (progs m t) \<longrightarrow> w \<noteq> 0 \<and> msems m w \<noteq> None) \<and>
     (\<forall>t t' w. owns w (progs m t) \<and> owns w (progs m t') \<longrightarrow> t = t') \<and>
     (\<forall>t w. sleeps_on w (progs m t) \<and> w \<notin> set (waitQueue m) \<longrightarrow>
        msems m w = Some 1 \<and> (\<forall>t'. \<not> signals w (progs m t')) \<or> msems m w = Some 0 \<and> (\<exists>t'. signals w (progs m t'))) \<and>
     (\<forall>t w. signals w (progs m t) \<longrightarrow> w \<notin> set (waitQueue m) \<and> msems m w = Some 0 \<and> (\<exists>t'. sleeps_on w (progs m t')))"

definition items_ok :: "'a monitor \<Rightarrow> bool" where
  "items_ok m \<longleftrightarrow> appended m = removed m @ items m \<and>
     (waitQueue m \<noteq> [] \<longrightarrow> length (items m) \<le> card {t. awake m t} + card {t. owes_signal (progs m t)})"

definition minv :: "'a monitor \<Rightarrow> bool" where
  [inv_defs]: "minv m \<longleftrightarrow> points_ok m \<and> lock_ok m \<and> sems_ok m \<and> items_ok m"

lemma minv_start: "minv SynchList_new"
  by (simp add: minv_def points_ok_def lock_ok_def sems_ok_def items_ok_def SynchList_new_def lockSem_def point.intros sleeps_on_def owns_def)

lemma no_fault:
  assumes "minv m" "progs m t = c # cs" "exec t c m = Some r"
  shows "\<exists>p m'. r = Inr (p, m')"
proof -
  have "point (c # cs)" "\<And>t. lockHolder m = Some t \<longleftrightarrow> holding (progs m t)" "\<And>w. owns w (c # cs) \<Longrightarrow> msems m w \<noteq> None"
    "msems m 0 \<noteq> None" "\<And>w. signals w (c # cs) \<Longrightarrow> msems m w = Some 0" "c # cs = take_end \<Longrightarrow> items m \<noteq> []"
    using assms(1,2) unfolding minv_def points_ok_def lock_ok_def sems_ok_def by (metis, metis, metis, metis option.distinct(1), metis, metis)
  then show ?thesis using assms(2,3)
    by (cases rule: point.cases) (auto simp: owns_def Let_def split: option.splits if_splits list.splits)
qed

lemma points_call:
  assumes "points_ok m" "progs m t = []" "p = wake_all \<or> p = SynchList_RemoveFront \<or> (\<exists>x. p = SynchList_Append x)"
  shows "points_ok (set_prog t p m)"
proof -
  have "finite {t'. progs (set_prog t p m) t' \<noteq> []}"
    by (rule finite_subset[of _ "insert t {t'. progs m t' \<noteq> []}"]) (use assms(1) in \<open>auto simp: points_ok_def set_prog_def\<close>)
  then show ?thesis using assms by (auto simp: points_ok_def set_prog_def routine_defs point.intros)
qed

lemma point_NewWaiter: "point p \<Longrightarrow> NewWaiter \<in> set p \<Longrightarrow> inside p"
  by (cases rule: point.cases) auto

lemma lock_unique: "minv m \<Longrightarrow> inside (progs m t) \<Longrightarrow> inside (progs m t') \<Longrightarrow> t' = t"
  unfolding minv_def lock_ok_def by blast

lemma exec_progs: "exec t c m = Some (Inr (p, m')) \<Longrightarrow> progs m' = progs m"
  by (cases c) (auto simp: Let_def set_val_def ASSERT_def split: option.splits if_splits list.splits)

lemmas exec_split = routine_defs Let_def ASSERT_def set_val_def

lemma step_points:
  assumes "minv m" "progs m t = c # cs" "exec t c m = Some (Inr (p, m'))"
  shows "points_ok (set_prog t (p @ cs) m')"
proof -
  have pt: "\<And>t. point (progs m t)" and fin: "finite {t. progs m t \<noteq> []}" and tk: "\<And>t. progs m t = take_end \<Longrightarrow> items m \<noteq> []"
    and nw: "\<And>t. NewWaiter \<in> set (progs m t) \<Longrightarrow> items m = []" using assms(1) unfolding minv_def points_ok_def by blast+
  have pc: "point (c # cs)" using pt[of t] assms(2) by simp
  have pm: "progs m' = progs m" by (rule exec_progs[OF assms(3)])
  have ns: "nextSem m \<noteq> 0" "0 \<notin> set (waitQueue m)" using assms(1) by (auto simp: minv_def sems_ok_def)
  have u: "\<not> inside (progs m t')" if "inside (c # cs)" "t' \<noteq> t" for t' using lock_unique[OF assms(1), of t t'] that assms(2) by auto
  have "point (p @ cs)" using pc assms(3) ns
    by (cases rule: point.cases) (auto simp: routine_defs Let_def ASSERT_def point.intros split: option.splits if_splits list.splits)
  moreover have "finite {t'. progs (set_prog t (p @ cs) m') t' \<noteq> []}"
    by (rule finite_subset[OF _ fin[THEN finite.insertI, of t]]) (auto simp: set_prog_def pm)
  moreover have "items m' \<noteq> []" if "progs (set_prog t (p @ cs) m') t' = take_end" for t'
  proof (cases "t' = t")
    case True
    show ?thesis using pc True that assms(3) by (cases rule: point.cases)
      (auto simp: set_prog_def routine_defs Let_def ASSERT_def set_val_def split: option.splits if_splits list.splits)
  next
    case False
    then have t': "progs m t' = take_end" using that by (simp add: set_prog_def pm)
    then have "\<not> inside (c # cs)" using u[OF _ False] by auto
    then have "items m' = items m" using assms(3) by (cases c) (auto simp: set_val_def split: option.splits if_splits)
    then show ?thesis using tk[OF t'] by simp
  qed
  moreover have "items m' = []" if "NewWaiter \<in> set (progs (set_prog t (p @ cs) m') t')" for t'
  proof (cases "t' = t")
    case True
    show ?thesis using pc True that assms(3) nw[of t] assms(2) by (cases rule: point.cases)
      (auto simp: set_prog_def routine_defs Let_def ASSERT_def set_val_def split: option.splits if_splits list.splits)
  next
    case False
    then have t': "NewWaiter \<in> set (progs m t')" using that by (simp add: set_prog_def pm)
    then have "\<not> inside (c # cs)" using u[OF _ False] point_NewWaiter[OF pt] by auto
    then have "items m' = items m" using assms(3) by (cases c) (auto simp: set_val_def split: option.splits if_splits)
    then show ?thesis using nw[OF t'] by simp
  qed
  ultimately show ?thesis using pt unfolding points_ok_def by (auto simp: set_prog_def pm)
qed

lemma exec_lock:
  assumes "minv m" "progs m t = c # cs" "exec t c m = Some (Inr (p, m'))"
  shows "msems m' 0 = (if inside (c # cs) = inside (p @ cs) then msems m 0 else if inside (p @ cs) then Some 0 else Some 1)"
    "inside (p @ cs) \<Longrightarrow> \<not> inside (c # cs) \<Longrightarrow> msems m 0 = Some 1"
    "lockHolder m' = (if holding (p @ cs) then Some t else if holding (c # cs) then None else lockHolder m)"
proof -
  have pc: "point (c # cs)" using assms(1,2) unfolding minv_def points_ok_def by metis
  have v: "msems m 0 = Some (if \<exists>t. inside (progs m t) then 0 else 1)" and h: "\<And>t. lockHolder m = Some t \<longleftrightarrow> holding (progs m t)"
    using assms(1) by (simp_all add: minv_def lock_ok_def)
  have v0: "inside (c # cs) \<Longrightarrow> msems m 0 = Some 0" using v assms(2) by (metis (full_types))
  have ht: "holding (c # cs) \<longleftrightarrow> lockHolder m = Some t" using h[of t] assms(2) by simp
  have w0: "\<And>w. owns w (c # cs) \<Longrightarrow> w \<noteq> 0" "nextSem m \<noteq> 0" "0 \<notin> set (waitQueue m)"
    using assms(1,2) unfolding minv_def sems_ok_def by (metis, simp, blast)
  show "msems m' 0 = (if inside (c # cs) = inside (p @ cs) then msems m 0 else if inside (p @ cs) then Some 0 else Some 1)"
    using pc assms(3) v v0 w0 by (cases rule: point.cases) (auto simp: exec_split owns_def split: option.splits if_splits list.splits)
  show "inside (p @ cs) \<Longrightarrow> \<not> inside (c # cs) \<Longrightarrow> msems m 0 = Some 1"
    using pc assms(3) v by (cases rule: point.cases) (auto simp: exec_split split: option.splits if_splits list.splits)
  show "lockHolder m' = (if holding (p @ cs) then Some t else if holding (c # cs) then None else lockHolder m)"
    using pc assms(3) ht w0 by (cases rule: point.cases) (auto simp: exec_split split: option.splits if_splits list.splits)
qed

lemma holding_inside: "holding p \<Longrightarrow> inside p"
  by (cases p rule: holding.cases) auto

lemma step_lock:
  assumes "minv m" "progs m t = c # cs" "exec t c m = Some (Inr (p, m'))"
  shows "lock_ok (set_prog t (p @ cs) m')"
proof -
  note e = exec_lock[OF assms]
  have v: "msems m 0 = Some (if \<exists>t. inside (progs m t) then 0 else 1)" and h: "\<And>t. lockHolder m = Some t \<longleftrightarrow> holding (progs m t)"
    using assms(1) by (simp_all add: minv_def lock_ok_def)
  let ?m = "set_prog t (p @ cs) m'"
  have pr: "progs ?m t' = (if t' = t then p @ cs else progs m t')" for t' using exec_progs[OF assms(3)] by (simp add: set_prog_def)
  have others: "\<not> inside (progs m t')" if "inside (c # cs) \<or> inside (p @ cs)" "t' \<noteq> t" for t'
  proof (cases "inside (c # cs)")
    case True
    then show ?thesis using lock_unique[OF assms(1), of t t'] that assms(2) by auto
  next
    case False
    then show ?thesis using e(2) that v by (auto split: if_splits)
  qed
  have "msems ?m 0 = Some (if \<exists>t'. inside (progs ?m t') then 0 else 1)"
  proof -
    have ex: "(\<exists>t'. inside (progs ?m t')) \<longleftrightarrow> inside (p @ cs) \<or> (\<exists>t'. t' \<noteq> t \<and> inside (progs m t'))" by (auto simp: pr)
    have ex0: "(\<exists>t'. inside (progs m t')) \<longleftrightarrow> inside (c # cs) \<or> (\<exists>t'. t' \<noteq> t \<and> inside (progs m t'))" using assms(2) by metis
    have ms: "msems ?m 0 = msems m' 0" by (simp add: set_prog_def)
    show ?thesis unfolding ms e(1) ex using v others unfolding ex0 by (cases "inside (c # cs)"; cases "inside (p @ cs)") auto
  qed
  moreover have "t1 = t2" if "inside (progs ?m t1)" "inside (progs ?m t2)" for t1 t2
  proof (cases "t1 = t \<or> t2 = t")
    case True
    then have "inside (p @ cs)" using that by (auto simp: pr)
    then show ?thesis using others[of t1] others[of t2] that True by (auto simp: pr split: if_splits)
  next
    case False
    then have "inside (progs m t2)" "inside (progs m t1)" using that by (simp_all add: pr)
    then show ?thesis by (rule lock_unique[OF assms(1)])
  qed
  moreover have "lockHolder ?m = Some t' \<longleftrightarrow> holding (progs ?m t')" for t'
  proof -
    have lh: "lockHolder ?m = lockHolder m'" by (simp add: set_prog_def)
    show ?thesis
    proof (cases "t' = t")
      case True
      have "lockHolder m = Some t \<Longrightarrow> holding (c # cs)" using h[of t] assms(2) by simp
      then show ?thesis using True unfolding lh e(3) pr by auto
    next
      case False
      have "\<not> holding (progs m t')" if "holding (c # cs) \<or> holding (p @ cs)" using that others[OF _ False] holding_inside by blast
      then show ?thesis using False h[of t'] unfolding lh e(3) pr by auto
    qed
  qed
  ultimately show ?thesis unfolding lock_ok_def by blast
qed

lemma sems_okD:
  assumes "sems_ok m"
  shows "0 < nextSem m" "nextSem m \<le> w \<Longrightarrow> msems m w = None" "distinct (waitQueue m)" "w \<in> set (waitQueue m) \<Longrightarrow> w \<noteq> 0"
    "w \<in> set (waitQueue m) \<Longrightarrow> msems m w = Some 0" "w \<in> set (waitQueue m) \<Longrightarrow> \<exists>t. sleeps_on w (progs m t)"
    "owns w (progs m t) \<Longrightarrow> w \<noteq> 0" "owns w (progs m t) \<Longrightarrow> msems m w \<noteq> None" "owns w (progs m t) \<Longrightarrow> owns w (progs m t') \<Longrightarrow> t = t'"
    "sleeps_on w (progs m t) \<Longrightarrow> w \<notin> set (waitQueue m) \<Longrightarrow>
      msems m w = Some 1 \<and> (\<forall>t'. \<not> signals w (progs m t')) \<or> msems m w = Some 0 \<and> (\<exists>t'. signals w (progs m t'))"
    "signals w (progs m t) \<Longrightarrow> w \<notin> set (waitQueue m)" "signals w (progs m t) \<Longrightarrow> msems m w = Some 0" "signals w (progs m t) \<Longrightarrow> \<exists>t'. sleeps_on w (progs m t')"
  using assms unfolding sems_ok_def by blast+

lemma sleeps_owns: "point p \<Longrightarrow> sleeps_on w p \<Longrightarrow> owns w p"
  by (cases rule: point.cases) (auto simp: sleeps_on_def owns_def)

lemma signals_inside: "signals w p \<Longrightarrow> inside p"
  by (cases p rule: inside.cases) auto

text \<open>A step that changes no semaphore of a waiting thread.\<close>

lemma sems_frame:
  assumes "sems_ok m" "progs m' = (progs m)(t := p)" "\<And>w. sleeps_on w p = sleeps_on w (progs m t)" "\<And>w. owns w p = owns w (progs m t)"
    "\<And>w. signals w p = signals w (progs m t)" "nextSem m' = nextSem m" "waitQueue m' = waitQueue m" "\<And>w. w \<noteq> 0 \<Longrightarrow> msems m' w = msems m w"
  shows "sems_ok m'"
proof -
  have e: "sleeps_on w (progs m' t') = sleeps_on w (progs m t')" "owns w (progs m' t') = owns w (progs m t')" "signals w (progs m' t') = signals w (progs m t')" for w t'
    using assms(2-5) by auto
  have n0: "\<And>t. \<not> sleeps_on 0 (progs m t)" "\<And>t. \<not> signals 0 (progs m t)" by (simp add: sleeps_on_def) (metis signals.elims(2))
  have sem: "msems m' w = msems m w" if "sleeps_on w (progs m t') \<or> owns w (progs m t') \<or> signals w (progs m t') \<or> w \<in> set (waitQueue m) \<or> nextSem m \<le> w" for w t'
    using that n0 sems_okD(1,4,7)[OF assms(1)] assms(8)[of w] by (metis not_less0 le_less_trans le_zero_eq neq0_conv)
  show ?thesis unfolding sems_ok_def e assms(6,7)
  proof (intro conjI allI ballI impI)
    fix t' w assume "sleeps_on w (progs m t') \<and> w \<notin> set (waitQueue m)"
    then show "msems m' w = Some 1 \<and> (\<forall>t'. \<not> signals w (progs m t')) \<or> msems m' w = Some 0 \<and> (\<exists>t'. signals w (progs m t'))"
      using sems_okD(10)[OF assms(1)] sem[of w t'] by metis
  qed (use sems_okD[OF assms(1)] sem in \<open>metis+\<close>)
qed

text \<open>A step that concerns the semaphore \<open>w\<close> of one waiting thread.\<close>

definition sem_ok :: "'a monitor \<Rightarrow> nat \<Rightarrow> bool" where
  "sem_ok m w \<longleftrightarrow> (w \<in> set (waitQueue m) \<longrightarrow> msems m w = Some 0 \<and> (\<exists>t. sleeps_on w (progs m t))) \<and>
     (\<forall>t. owns w (progs m t) \<longrightarrow> msems m w \<noteq> None) \<and> (\<forall>t t'. owns w (progs m t) \<and> owns w (progs m t') \<longrightarrow> t = t') \<and>
     (\<forall>t. sleeps_on w (progs m t) \<and> w \<notin> set (waitQueue m) \<longrightarrow>
        msems m w = Some 1 \<and> (\<forall>t'. \<not> signals w (progs m t')) \<or> msems m w = Some 0 \<and> (\<exists>t'. signals w (progs m t'))) \<and>
     (\<forall>t. signals w (progs m t) \<longrightarrow> w \<notin> set (waitQueue m) \<and> msems m w = Some 0 \<and> (\<exists>t'. sleeps_on w (progs m t')))"

lemma sems_ok_each:
  "sems_ok m \<longleftrightarrow> 0 < nextSem m \<and> (\<forall>w. nextSem m \<le> w \<longrightarrow> msems m w = None) \<and> distinct (waitQueue m) \<and> 0 \<notin> set (waitQueue m) \<and>
     (\<forall>t. \<not> owns 0 (progs m t)) \<and> (\<forall>w. w \<noteq> 0 \<longrightarrow> sem_ok m w)"
proof -
  have n0: "\<And>t. \<not> sleeps_on 0 (progs m t)" "\<And>t. \<not> signals 0 (progs m t)" by (simp add: sleeps_on_def) (metis signals.elims(2))
  show ?thesis unfolding sems_ok_def sem_ok_def using n0 by (intro iffI conjI allI ballI impI) metis+
qed

lemma sems_one:
  assumes "sems_ok m" "progs m' = (progs m)(t := p)" "nextSem m \<le> nextSem m'" "w < nextSem m'" "distinct (waitQueue m')" "0 \<notin> set (waitQueue m')" "w \<noteq> 0" "sem_ok m' w"
    "\<And>v. v \<noteq> w \<Longrightarrow> sleeps_on v p = sleeps_on v (progs m t) \<and> owns v p = owns v (progs m t) \<and> signals v p = signals v (progs m t) \<and>
      msems m' v = msems m v \<and> (v \<in> set (waitQueue m') \<longleftrightarrow> v \<in> set (waitQueue m))"
  shows "sems_ok m'"
proof -
  have e: "sleeps_on v (progs m' t') = sleeps_on v (progs m t')" "owns v (progs m' t') = owns v (progs m t')" "signals v (progs m' t') = signals v (progs m t')"
    if "v \<noteq> w" for v t' using assms(2) assms(9)[OF that] by auto
  have s: "0 < nextSem m" "\<And>w. nextSem m \<le> w \<Longrightarrow> msems m w = None" "\<And>t. \<not> owns 0 (progs m t)" "\<And>w. w \<noteq> 0 \<Longrightarrow> sem_ok m w"
    using assms(1) unfolding sems_ok_each by blast+
  have "sem_ok m' v" if "v \<noteq> 0" for v
  proof (cases "v = w")
    case False
    then show ?thesis using s(4)[OF that] assms(9)[OF False] unfolding sem_ok_def e[OF False] by simp
  qed (use assms(8) in simp)
  moreover have "msems m' v = None" if "nextSem m' \<le> v" for v using that assms(3,4) s(2)[of v] assms(9)[of v] by simp
  ultimately show ?thesis unfolding sems_ok_each using assms(3,5,6,7) s(1,3) e(2)[of 0] by auto
qed

lemma point_sleep: "point (SemP w # cs) \<Longrightarrow> w \<noteq> 0 \<Longrightarrow> cs = SemP 0 # SetHolder # DeleteSem w # TestEmpty # take_end"
  by (cases rule: point.cases) auto

lemma step_sems_P:
  assumes "minv m" "progs m t = SemP w # cs" "w \<noteq> 0" "msems m w = Some v" "v \<noteq> 0"
  shows "sems_ok (set_prog t cs (set_val w (v - 1) m))"
proof -
  have s: "sems_ok m" "point (SemP w # cs)" using assms(1,2) unfolding minv_def points_ok_def by (blast, metis)
  note cs = point_sleep[OF s(2) assms(3)]
  note D = sems_okD[OF s(1)]
  have pt: "\<And>t. point (progs m t)" using assms(1) by (simp add: minv_def points_ok_def)
  have sl: "sleeps_on w (progs m t)" "owns w (progs m t)" "owns w cs" "\<not> sleeps_on w cs" using assms(2,3) cs by (simp_all add: sleeps_on_def owns_def)
  have nq: "w \<notin> set (waitQueue m)" using D(5) assms(4,5) by auto
  have v: "v = 1" "\<And>t'. \<not> signals w (progs m t')" using D(10)[OF sl(1) nq] assms(4,5) by auto
  have ns: "\<not> sleeps_on w (progs m t')" if "t' \<noteq> t" for t' using D(9)[OF sl(2)] sleeps_owns[OF pt] that by metis
  have wn: "w < nextSem m" using D(2)[of w] assms(4) by (metis not_le option.distinct(1))
  have own: "owns w (progs m t1) \<Longrightarrow> owns w (progs m t2) \<Longrightarrow> t1 = t2" for t1 t2 using D(9) by blast
  have "sem_ok (set_prog t cs (set_val w (v - 1) m)) w"
    using nq v ns sl own cs by (auto simp: sem_ok_def set_prog_def set_val_def)
  then show ?thesis
  proof (rule sems_one[OF s(1), rotated 6])
    fix u assume "u \<noteq> w"
    then show "sleeps_on u cs = sleeps_on u (progs m t) \<and> owns u cs = owns u (progs m t) \<and> signals u cs = signals u (progs m t) \<and>
      msems (set_prog t cs (set_val w (v - 1) m)) u = msems m u \<and> (u \<in> set (waitQueue (set_prog t cs (set_val w (v - 1) m))) \<longleftrightarrow> u \<in> set (waitQueue m))"
      using assms(2) cs by (simp add: sleeps_on_def owns_def set_prog_def set_val_def)
  qed (use D(3,4) wn assms(3) in \<open>auto simp: set_prog_def set_val_def\<close>)
qed

lemma point_cases_V: "point (SemV w # cs) \<Longrightarrow> w \<noteq> 0 \<Longrightarrow> cs = rel_end \<or> cs = BroadcastTest # rel_end"
  by (cases rule: point.cases) auto

lemma step_sems_V:
  assumes "minv m" "progs m t = SemV w # cs" "w \<noteq> 0" "msems m w = Some v"
  shows "sems_ok (set_prog t cs (set_val w (v + 1) m))"
proof -
  have s: "sems_ok m" "point (SemV w # cs)" using assms(1,2) unfolding minv_def points_ok_def by (blast, metis)
  note cs = point_cases_V[OF s(2) assms(3)]
  note D = sems_okD[OF s(1)]
  have sg: "signals w (progs m t)" using assms(2,3) by simp
  then have f: "w \<notin> set (waitQueue m)" "v = 0" "\<exists>t'. sleeps_on w (progs m t')" using D(11-13) assms(4) by fastforce+
  have ns: "\<not> signals w (progs m t')" if "t' \<noteq> t" for t' using lock_unique[OF assms(1), of t t'] signals_inside that sg by blast
  have wn: "w < nextSem m" using D(2)[of w] assms(4) by (metis not_le option.distinct(1))
  have c0: "\<not> sleeps_on u cs" "\<not> owns u cs" "\<not> signals u cs" "\<not> sleeps_on u (progs m t)" "\<not> owns u (progs m t)" for u
    using cs assms(2) by (auto simp: sleeps_on_def owns_def)
  have own: "owns w (progs m t1) \<Longrightarrow> owns w (progs m t2) \<Longrightarrow> t1 = t2" for t1 t2 using D(9) by blast
  have "sem_ok (set_prog t cs (set_val w (v + 1) m)) w"
    using f ns own c0 by (auto simp: sem_ok_def set_prog_def set_val_def)
  then show ?thesis
  proof (rule sems_one[OF s(1), rotated 6])
    fix u assume "u \<noteq> w"
    then show "sleeps_on u cs = sleeps_on u (progs m t) \<and> owns u cs = owns u (progs m t) \<and> signals u cs = signals u (progs m t) \<and>
      msems (set_prog t cs (set_val w (v + 1) m)) u = msems m u \<and> (u \<in> set (waitQueue (set_prog t cs (set_val w (v + 1) m))) \<longleftrightarrow> u \<in> set (waitQueue m))"
      using assms(2) c0 by (simp add: set_prog_def set_val_def)
  qed (use D(3,4) wn assms(3) in \<open>auto simp: set_prog_def set_val_def\<close>)
qed

lemma point_cases_New: "point (NewWaiter # cs) \<Longrightarrow> cs = TestEmpty # take_end"
  by (erule point.cases) simp_all

lemma step_sems_New:
  assumes "minv m" "progs m t = NewWaiter # cs" "exec t NewWaiter m = Some (Inr (p, m'))"
  shows "sems_ok (set_prog t (p @ cs) m')"
proof -
  have s: "sems_ok m" "point (NewWaiter # cs)" using assms(1,2) unfolding minv_def points_ok_def by (blast, metis)
  note cs = point_cases_New[OF s(2)]
  note D = sems_okD[OF s(1)]
  let ?w = "nextSem m" and ?m = "set_prog t (p @ cs) m'"
  have pt: "\<And>t. point (progs m t)" using assms(1) by (simp add: minv_def points_ok_def)
  have e: "msems ?m = (msems m)(?w \<mapsto> 0)" "nextSem ?m = Suc ?w" "waitQueue ?m = waitQueue m @ [?w]" "progs ?m = (progs m)(t := p @ cs)"
    "p @ cs = ClearHolder # SemV 0 # SemP ?w # SemP 0 # SetHolder # DeleteSem ?w # TestEmpty # take_end"
    using assms(3) cs by (auto simp: Let_def routine_defs set_prog_def)
  have w0: "?w \<noteq> 0" "?w \<notin> set (waitQueue m)" "\<And>t'. \<not> owns ?w (progs m t')" "\<And>t'. \<not> signals ?w (progs m t')" using D(1,2,5,8,12) by force+
  have ns: "\<not> sleeps_on ?w (progs m t')" for t' using w0(3) sleeps_owns[OF pt] by blast
  have tp: "sleeps_on u (p @ cs) \<longleftrightarrow> u = ?w" "owns u (p @ cs) \<longleftrightarrow> u = ?w" "\<not> signals u (p @ cs)" "\<not> sleeps_on u (progs m t)" "\<not> owns u (progs m t)" "\<not> signals u (progs m t)" for u
    using w0(1) cs assms(2) unfolding e(5) by (auto simp: sleeps_on_def owns_def)
  have ex: "\<exists>t'. sleeps_on ?w (((progs m)(t := p @ cs)) t')" using tp(1) by (intro exI[of _ t]) simp
  have "sem_ok ?m ?w" unfolding sem_ok_def e(1,3,4) using w0 ns tp ex by auto
  then show ?thesis
  proof (rule sems_one[OF s(1) e(4), rotated 5])
    fix u assume "u \<noteq> ?w"
    then show "sleeps_on u (p @ cs) = sleeps_on u (progs m t) \<and> owns u (p @ cs) = owns u (progs m t) \<and> signals u (p @ cs) = signals u (progs m t) \<and>
      msems ?m u = msems m u \<and> (u \<in> set (waitQueue ?m) \<longleftrightarrow> u \<in> set (waitQueue m))" using tp unfolding e(1,3) by simp
  qed (use D(3,4) w0 in \<open>auto simp: e(1,2,3)\<close>)
qed

lemma point_cases_Delete: "point (DeleteSem w # cs) \<Longrightarrow> cs = TestEmpty # take_end"
  by (erule point.cases) simp_all

lemma step_sems_Delete:
  assumes "minv m" "progs m t = DeleteSem w # cs"
  shows "sems_ok (set_prog t cs (m\<lparr>msems := (msems m)(w := None)\<rparr>))"
proof -
  have s: "sems_ok m" "point (DeleteSem w # cs)" using assms(1,2) unfolding minv_def points_ok_def by (blast, metis)
  note cs = point_cases_Delete[OF s(2)]
  note D = sems_okD[OF s(1)]
  let ?m = "set_prog t cs (m\<lparr>msems := (msems m)(w := None)\<rparr>)"
  have pt: "\<And>t. point (progs m t)" using assms(1) by (simp add: minv_def points_ok_def)
  have own: "owns w (progs m t)" using assms(2) by (simp add: owns_def)
  have only: "\<not> owns w (progs m t')" if "t' \<noteq> t" for t' using D(9)[OF own] that by metis
  have tc: "\<not> sleeps_on u cs" "\<not> owns u cs" "\<not> signals u cs" "\<not> sleeps_on u (progs m t)" "owns u (progs m t) \<longleftrightarrow> u = w" "\<not> signals u (progs m t)" for u
    using assms(2) cs by (auto simp: sleeps_on_def owns_def)
  have ns: "\<not> sleeps_on w (progs m t')" for t' using only tc(4) sleeps_owns[OF pt] by (cases "t' = t") blast+
  have nq: "w \<notin> set (waitQueue m)" "\<And>t'. \<not> signals w (progs m t')" using ns D(6,13) by blast+
  have wn: "w < nextSem m" "w \<noteq> 0" using D(2,8)[of w] D(7) own by (metis not_le, metis)
  have "sem_ok ?m w" using ns nq only tc by (auto simp: sem_ok_def set_prog_def)
  then show ?thesis
  proof (rule sems_one[OF s(1), rotated 6])
    fix u assume "u \<noteq> w"
    then show "sleeps_on u cs = sleeps_on u (progs m t) \<and> owns u cs = owns u (progs m t) \<and> signals u cs = signals u (progs m t) \<and>
      msems ?m u = msems m u \<and> (u \<in> set (waitQueue ?m) \<longleftrightarrow> u \<in> set (waitQueue m))" using tc by (simp add: set_prog_def)
  qed (use D(3,4) wn in \<open>auto simp: set_prog_def\<close>)
qed

lemma point_cases_Signal: "point (SignalFront # cs) \<Longrightarrow> cs = rel_end \<or> cs = BroadcastTest # rel_end"
  by (erule point.cases) simp_all

lemma step_sems_Signal:
  assumes "minv m" "progs m t = SignalFront # cs" "waitQueue m = w # ws"
  shows "sems_ok (set_prog t (SemV w # cs) (m\<lparr>waitQueue := ws\<rparr>))"
proof -
  have s: "sems_ok m" "point (SignalFront # cs)" using assms(1,2) unfolding minv_def points_ok_def by (blast, metis)
  note cs = point_cases_Signal[OF s(2)]
  note D = sems_okD[OF s(1)]
  let ?m = "set_prog t (SemV w # cs) (m\<lparr>waitQueue := ws\<rparr>)"
  have w: "w \<in> set (waitQueue m)" "w \<notin> set ws" "w \<noteq> 0" "msems m w = Some 0" "\<exists>t. sleeps_on w (progs m t)" using D(3-6) assms(3) by auto
  have tc: "\<not> sleeps_on u (SemV w # cs)" "\<not> owns u (SemV w # cs)" "signals u (SemV w # cs) \<longleftrightarrow> u = w" "\<not> sleeps_on u (progs m t)" "\<not> owns u (progs m t)" "\<not> signals u (progs m t)" for u
    using assms(2) cs w(3) by (auto simp: sleeps_on_def owns_def)
  have wn: "w < nextSem m" using D(2)[of w] w(4) by (metis not_le option.distinct(1))
  have own: "owns w (progs m t1) \<Longrightarrow> owns w (progs m t2) \<Longrightarrow> t1 = t2" for t1 t2 using D(9) by blast
  obtain t0 where t0: "sleeps_on w (progs m t0)" using w(5) by blast
  then have "t0 \<noteq> t" using tc(4) by blast
  then have ex: "\<exists>t'. sleeps_on w (((progs m)(t := SemV w # cs)) t')" "\<exists>t'. signals w (((progs m)(t := SemV w # cs)) t')"
    using t0 w(3) by (intro exI[of _ t0], simp, intro exI[of _ t], simp)
  have "sem_ok ?m w" unfolding sem_ok_def set_prog_def using w own tc ex by auto
  then show ?thesis
  proof (rule sems_one[OF s(1), rotated 6])
    fix u assume "u \<noteq> w"
    then show "sleeps_on u (SemV w # cs) = sleeps_on u (progs m t) \<and> owns u (SemV w # cs) = owns u (progs m t) \<and> signals u (SemV w # cs) = signals u (progs m t) \<and>
      msems ?m u = msems m u \<and> (u \<in> set (waitQueue ?m) \<longleftrightarrow> u \<in> set (waitQueue m))" using tc assms(3) by (simp add: set_prog_def)
  qed (use D(3,4) wn w assms(3) in \<open>auto simp: set_prog_def\<close>)
qed

lemma exec_quiet:
  assumes "point (c # cs)" "exec t c m = Some (Inr (p, m'))" "c \<noteq> SignalFront \<or> waitQueue m = []"
  shows "\<not> signals w (p @ cs)"
  using assms by (cases rule: point.cases) (auto simp: exec_split split: option.splits if_splits list.splits)

lemma step_sems:
  assumes "minv m" "progs m t = c # cs" "exec t c m = Some (Inr (p, m'))"
  shows "sems_ok (set_prog t (p @ cs) m')"
proof -
  have s: "sems_ok m" and pc: "point (c # cs)" using assms(1,2) unfolding minv_def points_ok_def by (blast, metis)
  have pm: "progs (set_prog t (p @ cs) m') = (progs m)(t := p @ cs)" using exec_progs[OF assms(3)] by (simp add: set_prog_def)
  have frame: "sems_ok (set_prog t (p @ cs) m')"
    if "nextSem m' = nextSem m" "waitQueue m' = waitQueue m" "\<And>w. w \<noteq> 0 \<Longrightarrow> msems m' w = msems m w" "\<And>w. \<not> signals w (c # cs)"
      "c \<noteq> SignalFront \<or> waitQueue m = []" "\<And>w. sleeps_on w (p @ cs) = sleeps_on w (c # cs)" "\<And>w. owns w (p @ cs) = owns w (c # cs)"
  proof (rule sems_frame[OF s pm])
    fix w show "signals w (p @ cs) = signals w (progs m t)" using exec_quiet[OF pc assms(3) that(5)] that(4) assms(2) by simp
  qed (use that(1-3,6,7) assms(2) in \<open>simp_all add: set_prog_def\<close>)
  show ?thesis
  proof (cases c)
    case (SemP w)
    then obtain v where v: "msems m w = Some v" "v \<noteq> 0" "p = []" "m' = set_val w (v - 1) m" using assms(3) by (auto split: option.splits if_splits)
    show ?thesis
    proof (cases "w = 0")
      case True
      then show ?thesis using v SemP by (intro frame) (auto simp: set_val_def sleeps_on_def owns_def)
    next
      case False
      then show ?thesis using step_sems_P[OF assms(1) _ False v(1,2)] assms(2) v SemP by simp
    qed
  next
    case (SemV w)
    then obtain v where v: "msems m w = Some v" "p = []" "m' = set_val w (v + 1) m" using assms(3) by (auto split: option.splits)
    show ?thesis
    proof (cases "w = 0")
      case True
      then show ?thesis using v SemV by (intro frame) (auto simp: set_val_def sleeps_on_def owns_def)
    next
      case False
      then show ?thesis using step_sems_V[OF assms(1) _ False v(1)] assms(2) v SemV by simp
    qed
  next
    case NewWaiter
    then show ?thesis using step_sems_New[OF assms(1)] assms(2,3) by simp
  next
    case (DeleteSem w)
    then have "p = []" "m' = m\<lparr>msems := (msems m)(w := None)\<rparr>" using assms(3) by (auto split: option.splits)
    then show ?thesis using step_sems_Delete[OF assms(1)] assms(2) DeleteSem by simp
  next
    case SignalFront
    show ?thesis
    proof (cases "waitQueue m")
      case Nil
      then show ?thesis using SignalFront assms(3) by (intro frame) (auto simp: sleeps_on_def owns_def)
    next
      case (Cons w ws)
      then show ?thesis using step_sems_Signal[OF assms(1) _ Cons] assms(2,3) SignalFront by auto
    qed
  qed (use assms(3) in \<open>intro frame; auto simp: exec_split sleeps_on_def owns_def split: if_splits list.splits\<close>)+
qed

section \<open>Items and sleeping threads\<close>

lemma awake_finite: "points_ok m \<Longrightarrow> finite {t. awake m t}" "points_ok m \<Longrightarrow> finite {t. owes_signal (progs m t)}"
  by (rule finite_subset[of _ "{t. progs m t \<noteq> []}"]; auto simp: points_ok_def awake_def owes_signal_def)+

lemma items_mono:
  assumes "items_ok m" "points_ok m'" "appended m' = removed m' @ items m'" "waitQueue m' \<noteq> [] \<Longrightarrow> waitQueue m \<noteq> []"
    "length (items m') \<le> length (items m)" "\<And>t. awake m t \<Longrightarrow> awake m' t" "\<And>t. owes_signal (progs m t) \<Longrightarrow> owes_signal (progs m' t)"
  shows "items_ok m'"
proof -
  have "card {t. awake m t} \<le> card {t. awake m' t}" "card {t. owes_signal (progs m t)} \<le> card {t. owes_signal (progs m' t)}"
    using assms(6,7) awake_finite[OF assms(2)] by (auto intro!: card_mono)
  then show ?thesis using assms(1,3,4,5) unfolding items_ok_def by fastforce
qed

lemma step_items:
  assumes "minv m" "progs m t = c # cs" "exec t c m = Some (Inr (p, m'))"
  shows "items_ok (set_prog t (p @ cs) m')"
proof -
  define n where "n = set_prog t (p @ cs) m'"
  have i: "items_ok m" and pc: "point (c # cs)" using assms(1,2) unfolding minv_def points_ok_def by (blast, metis)
  have ap: "appended m = removed m @ items m" using i by (simp add: items_ok_def)
  have pm: "progs n = (progs m)(t := p @ cs)" using exec_progs[OF assms(3)] by (simp add: set_prog_def n_def)
  have po: "points_ok n" unfolding n_def by (rule step_points[OF assms])
  note fin = awake_finite[OF po]
  have po0: "points_ok m" using assms(1) by (simp add: minv_def)
  note fin0 = awake_finite[OF po0]
  have q: "items n = items m'" "waitQueue n = waitQueue m'" "appended n = appended m'" "removed n = removed m'" by (simp_all add: set_prog_def n_def)
  have "items_ok n"
  proof (cases c)
    case (AppendItem x)
    then have e: "p = []" "items m' = items m @ [x]" "appended m' = appended m @ [x]" "removed m' = removed m" "waitQueue m' = waitQueue m" using assms(3) by auto
    have cs: "cs = CheckHeld # SignalFront # rel_end" using pc AppendItem by (auto elim: point.cases)
    have A: "{t. awake n t} = {t. awake m t}" using assms(2) AppendItem cs e by (auto simp: awake_def pm q)
    have S: "{t. owes_signal (progs n t)} = insert t {t. owes_signal (progs m t)}" "\<not> owes_signal (progs m t)"
      using assms(2) AppendItem cs e by (auto simp: owes_signal_def pm)
    show ?thesis using i fin0(2) S(2) unfolding items_ok_def A S(1) q e by auto
  next
    case SignalFront
    have cs: "cs = rel_end \<or> cs = BroadcastTest # rel_end" using point_cases_Signal pc SignalFront by blast
    show ?thesis
    proof (cases "waitQueue m")
      case Nil
      then show ?thesis using SignalFront assms(3) ap by (auto simp: items_ok_def q)
    next
      case (Cons w ws)
      then have e: "p = [SemV w]" "m' = m\<lparr>waitQueue := ws\<rparr>" using SignalFront assms(3) by auto
      have sm: "sems_ok m" using assms(1) by (simp add: minv_def)
      obtain t0 where t0: "sleeps_on w (progs m t0)" using sems_okD(6)[OF sm, of w] Cons by auto
      have pt: "\<And>t. point (progs m t)" using po0 by (simp add: points_ok_def)
      have tt: "t0 \<noteq> t" using t0 assms(2) cs SignalFront by (auto simp: sleeps_on_def)
      have w: "w \<notin> set ws" using sems_okD(3)[OF sm] Cons by simp
      have sl: "RemoveItem \<in> set (progs m t0)" "SemP u \<in> set (progs m t0) \<Longrightarrow> u = w \<or> u = 0" for u
        using pt[of t0] t0 by (auto elim!: point.cases simp: sleeps_on_def)
      have z: "0 \<notin> set ws" using sems_okD(4)[OF sm, of 0] Cons by auto
      have new: "awake n t0" "\<not> awake m t0" using sl w z tt Cons t0 by (auto simp: awake_def pm q e sleeps_on_def)
      have "insert t0 {t. awake m t} \<subseteq> {t. awake n t}" using new(1) assms(2) cs SignalFront Cons by (auto simp: awake_def pm q e)
      from card_mono[OF fin(1) this] have A: "Suc (card {t. awake m t}) \<le> card {t. awake n t}"
        using card_insert_disjoint[OF fin0(1), of t0] new(2) by simp
      have "{t. owes_signal (progs m t)} \<subseteq> insert t {t. owes_signal (progs n t)}" by (auto simp: pm)
      from card_mono[OF finite.insertI[OF fin(2)] this] have "card {t. owes_signal (progs m t)} \<le> Suc (card {t. owes_signal (progs n t)})"
        by (rule order_trans) (simp add: card_insert_if[OF fin(2)])
      then show ?thesis using A i Cons unfolding items_ok_def q by (simp add: e)
    qed
  next
    case RemoveItem
    then obtain x xs where e: "items m = x # xs" "p = []" "m' = m\<lparr>items := xs, removed := removed m @ [x]\<rparr>" using assms(3) by (auto split: list.splits)
    have cs: "cs = rel_end" using pc RemoveItem by (auto elim: point.cases)
    have tA: "awake m t" "\<not> awake n t" using assms(2) RemoveItem cs by (auto simp: awake_def pm e)
    have "{t. awake m t} \<subseteq> insert t {t. awake n t}" by (auto simp: awake_def pm q e)
    from card_mono[OF finite.insertI[OF fin(1)] this] have A: "card {t. awake m t} \<le> Suc (card {t. awake n t})"
      by (rule order_trans) (simp add: card_insert_if[OF fin(1)])
    have S: "{t. owes_signal (progs n t)} = {t. owes_signal (progs m t)}" using assms(2) RemoveItem cs e by (auto simp: owes_signal_def pm)
    have "card (Collect (awake m)) \<le> Suc (card (Collect (awake n)))" using A .
    then show ?thesis using i unfolding items_ok_def S q by (auto simp: e)
  next
    case NewWaiter
    then have "items m = []" using assms(2) po0 by (simp add: points_ok_def) (metis list.set_intros(1))
    then show ?thesis using NewWaiter assms(3) ap by (auto simp: items_ok_def q Let_def)
  next
    case TestEmpty
    then show ?thesis using assms(2,3) pc ap
      by (intro items_mono[OF i po]) (auto simp: q awake_def pm owes_signal_def routine_defs split: if_splits elim: point.cases)
  qed (use assms(2,3) pc ap in \<open>intro items_mono[OF i po]; (auto simp: q awake_def pm owes_signal_def exec_split split: if_splits option.splits elim: point.cases)\<close>)+
  then show ?thesis by (simp add: n_def)
qed

lemma call_minv:
  assumes "minv m" "progs m t = []" "p = wake_all \<or> p = SynchList_RemoveFront \<or> (\<exists>x. p = SynchList_Append x)"
  shows "minv (set_prog t p m)"
proof -
  let ?m = "set_prog t p m"
  have pm: "progs ?m = (progs m)(t := p)" by (simp add: set_prog_def)
  have po: "points_ok ?m" using points_call assms unfolding minv_def by blast
  have q: "\<not> inside p" "\<not> holding p" "\<And>w. \<not> sleeps_on w p" "\<And>w. \<not> owns w p" "\<And>w. \<not> signals w p" "\<not> owes_signal p"
    using assms(3) by (auto simp: routine_defs sleeps_on_def owns_def owes_signal_def)
  have l: "lock_ok m" and s: "sems_ok m" and i: "items_ok m" using assms(1) by (simp_all add: minv_def)
  have ins: "inside (progs ?m t') = inside (progs m t')" "holding (progs ?m t') = holding (progs m t')" for t' using q assms(2) by (simp_all add: pm)
  have "lock_ok ?m" using l unfolding lock_ok_def ins by (simp add: set_prog_def)
  moreover have "sems_ok ?m" by (rule sems_frame[OF s pm]) (use q assms(2) in \<open>simp_all add: sleeps_on_def owns_def set_prog_def\<close>)
  moreover have "items_ok ?m"
    by (rule items_mono[OF i po]) (use i assms(2) in \<open>auto simp: items_ok_def awake_def owes_signal_def set_prog_def\<close>)
  ultimately show ?thesis using po by (simp add: minv_def)
qed

lemma mstep_minv:
  assumes "mstep m r" "minv m"
  shows "\<exists>m'. r = Inr m' \<and> minv m'"
  using assms(1)
proof cases
  case (call t p)
  then show ?thesis using call_minv[OF assms(2)] by blast
next
  case (run t c cs r')
  obtain p m' where r': "r' = Inr (p, m')" using no_fault[OF assms(2) run(2,3)] by blast
  then have e: "exec t c m = Some (Inr (p, m'))" using run(3) by simp
  note st = step_points[OF assms(2) run(2) e] step_lock[OF assms(2) run(2) e] step_sems[OF assms(2) run(2) e] step_items[OF assms(2) run(2) e]
  then show ?thesis using run(1) r' by (simp add: minv_def)
qed

lemma mreach_minv: "mreach m \<Longrightarrow> minv m"
proof (induction rule: mreach.induct)
  case start
  show ?case by (rule minv_start)
next
  case (step m m')
  then show ?case using mstep_minv[OF step(2)] by auto
qed

section \<open>What is proved\<close>

text \<open>The commands that read or change the list of items or the queue of waiting threads.\<close>

fun accesses :: "'a mcmd \<Rightarrow> bool" where
  "accesses (AppendItem x) = True"
| "accesses TestEmpty = True"
| "accesses RemoveItem = True"
| "accesses NewWaiter = True"
| "accesses SignalFront = True"
| "accesses BroadcastTest = True"
| "accesses _ = False"

lemma accesses_holding: "accesses c \<Longrightarrow> holding (c # cs)"
  by (cases c) auto


lemma blocked_is_P:
  assumes "exec t c m = None"
  shows "\<exists>w. c = SemP w \<and> msems m w = Some 0"
  using assms by (cases c) (auto simp: Let_def split: option.splits if_splits list.splits)


text \<open>Threads executed in a given order.\<close>

fun drive :: "nat list \<Rightarrow> 'a monitor \<Rightarrow> 'a monitor" where
  "drive [] m = m"
| "drive (t # ts) m = (case progs m t of [] \<Rightarrow> m
     | c # cs \<Rightarrow> (case exec t c m of Some (Inr (p, m')) \<Rightarrow> drive ts (set_prog t (p @ cs) m') | _ \<Rightarrow> m))"

lemma drive_reach: "mreach m \<Longrightarrow> mreach (drive ts m)"
proof (induction ts arbitrary: m)
  case (Cons t ts)
  show ?case
  proof (cases "\<exists>c cs p m'. progs m t = c # cs \<and> exec t c m = Some (Inr (p, m'))")
    case True
    then obtain c cs p m' where e: "progs m t = c # cs" "exec t c m = Some (Inr (p, m'))" by blast
    have "mstep m (Inr (set_prog t (p @ cs) m'))" using mstep.run[OF e] by simp
    from Cons.IH[OF mreach.step[OF Cons.prems this]] show ?thesis using e by simp
  next
    case False
    then show ?thesis using Cons.prems by (auto split: list.splits option.splits sum.splits)
  qed
qed simp

definition reader_asleep :: "nat monitor" where
  "reader_asleep = drive [1, 1, 1, 1, 1, 1, 1] (set_prog 1 SynchList_RemoveFront SynchList_new)"

lemma reader_asleep_reach: "mreach reader_asleep"
  unfolding reader_asleep_def by (intro drive_reach mreach.step[OF mreach.start] mstep.call) (simp_all add: SynchList_new_def)

lemma reader_asleep_eq:
  "progs reader_asleep = (\<lambda>_. [])(1 := [SemP 1, SemP 0, SetHolder, DeleteSem 1, TestEmpty, RemoveItem, ClearHolder, SemV 0])"
  "msems reader_asleep = [0 \<mapsto> 1, 1 \<mapsto> 0]"
  by (simp_all add: reader_asleep_def SynchList_new_def set_prog_def routine_defs set_val_def Let_def fun_eq_iff)



section \<open>Semaphores\<close>

text \<open>The semaphores of this theory keep to the contract of the thread system's ones.\<close>

definition mon_down :: "nat \<Rightarrow> 'a monitor \<Rightarrow> 'a monitor run" where
  "mon_down w m = (case exec 0 (SemP w) m of None \<Rightarrow> Inr m | Some r \<Rightarrow> bind_run r (\<lambda>(_, m). Inr m))"

definition mon_up :: "nat \<Rightarrow> 'a monitor \<Rightarrow> 'a monitor run" where
  "mon_up w m = (case exec 0 (SemV w) m of None \<Rightarrow> Inr m | Some r \<Rightarrow> bind_run r (\<lambda>(_, m). Inr m))"

interpretation mon_sem: counting_semaphore msems mon_down mon_up
proof
  fix w and m m' :: "'a monitor" assume "mon_down w m = Inr m'"
  then show "\<exists>v. msems m w = Some v \<and> msems m' = (if v = 0 then msems m else (msems m)(w \<mapsto> v - 1))"
    by (cases "msems m w") (auto simp: mon_down_def set_val_def split: if_splits)
next
  fix w and m m' :: "'a monitor" assume "mon_up w m = Inr m'"
  then show "\<exists>v. msems m w = Some v \<and> msems m' = (msems m)(w \<mapsto> v + 1)"
    by (cases "msems m w") (auto simp: mon_up_def set_val_def)
qed

end
