(* ===== verification/DiskDev.thy ===== *)
theory DiskDev
  imports Interrupts FileStub
begin

text \<open>
  The simulated disk (\<^verbatim>\<open>machine/disk.cc\<close>) and its synchronous interface (\<^verbatim>\<open>filesys/synchdisk.cc\<close>).

  The disk is a file of the host with a magic number in front; a request reads or writes it at once and
  schedules an interrupt for the time the device needs.  \<open>SynchDisk\<close> makes a request and waits for
  the interrupt.  The calling thread is the only one: while it waits in \<open>P\<close>, the machine idles until an interrupt
  comes, and an \<open>Acquire\<close> of a lock that is held never returns.
\<close>

section \<open>The disk\<close>

datatype disk_obj = DiskObj

record Disk =
  fileno :: int
  active :: bool
  lastSector :: int
  bufferInit :: int
  dhost :: host
  diskSem :: int
  diskLock :: bool

type_synonym dsim = "(disk_obj, Disk) sim"

definition SectorSize :: int where "SectorSize = 128"
definition SectorsPerTrack :: int where "SectorsPerTrack = 32"
definition NumTracks :: int where "NumTracks = 32"
definition NumSectors :: int where "NumSectors = SectorsPerTrack * NumTracks"
definition MagicNumber :: "32 word" where "MagicNumber = 0x456789ab"
definition MagicSize :: int where "MagicSize = 4"
definition DiskSize :: int where "DiskSize = MagicSize + NumSectors * SectorSize"

lemmas disk_consts = SectorSize_def SectorsPerTrack_def NumTracks_def NumSectors_def MagicSize_def DiskSize_def

text \<open>An \<open>int\<close> in memory, in the byte order of the host.\<close>

definition int_bytes :: "32 word \<Rightarrow> bytes" where
  "int_bytes w = map (\<lambda>i. ucast (drop_bit (8 * i) w)) [0..<4]"

definition bytes_int :: "bytes \<Rightarrow> 32 word" where
  "bytes_int bs = or (ucast (bs ! 0)) (or (push_bit 8 (ucast (bs ! 1))) (or (push_bit 16 (ucast (bs ! 2))) (push_bit 24 (ucast (bs ! 3)))))"

definition upd_host :: "host \<Rightarrow> dsim \<Rightarrow> dsim" where
  "upd_host h s = s\<lparr>dev := (dev s)\<lparr>dhost := h\<rparr>\<rparr>"

text \<open>\<open>Read\<close> of \<^verbatim>\<open>lib/sysdep.cc\<close>.\<close>

definition Read :: "int \<Rightarrow> int \<Rightarrow> host \<Rightarrow> (bytes \<times> host) run" where
  "Read fd nBytes h = (let (retVal, bs, h) = host_read fd nBytes h in ASSERT (retVal = nBytes) (Inr (bs, h)))"

definition Disk_new :: "bytes \<Rightarrow> dsim \<Rightarrow> dsim run" where
  "Disk_new diskname s =
     (let d = dev s in
      bind_run (OpenForReadWrite diskname False (dhost d)) (\<lambda>(fd, h).
      bind_run (if fd \<ge> 0 then
                  bind_run (Read fd MagicSize h) (\<lambda>(bs, h). ASSERT (bytes_int bs = MagicNumber) (Inr (fd, h)))
                else
                  bind_run (OpenForWrite diskname h) (\<lambda>(fd, h).
                  bind_run (WriteFile fd (int_bytes MagicNumber) MagicSize h) (\<lambda>h.
                  bind_run (Lseek fd (DiskSize - 4) SEEK_SET h) (\<lambda>h.
                  bind_run (WriteFile fd (int_bytes 0) 4 h) (\<lambda>h. Inr (fd, h)))))) (\<lambda>(fd, h).
      Inr (s\<lparr>dev := d\<lparr>fileno := fd, active := False, lastSector := 0, bufferInit := 0, dhost := h\<rparr>\<rparr>))))"

definition Disk_delete :: "dsim \<Rightarrow> dsim run" where
  "Disk_delete s = bind_run (Close (fileno (dev s)) (dhost (dev s))) (\<lambda>(_, h). Inr (upd_host h s))"

text \<open>How long to the track, and how long from there to the next sector boundary.\<close>

definition TimeToSeek :: "int \<Rightarrow> dsim \<Rightarrow> int \<times> int" where
  "TimeToSeek newSector s =
     (let newTrack = newSector div SectorsPerTrack; oldTrack = lastSector (dev s) div SectorsPerTrack;
          seek = \<bar>newTrack - oldTrack\<bar> * SeekTime; over = (now s + seek) mod RotationTime in
      (seek, if over > 0 then RotationTime - over else 0))"

definition ModuloDiff :: "int \<Rightarrow> int \<Rightarrow> int" where
  "ModuloDiff to fro =
     (let toOffset = to mod SectorsPerTrack; fromOffset = fro mod SectorsPerTrack in
      ((toOffset - fromOffset) + SectorsPerTrack) mod SectorsPerTrack)"

definition ComputeLatency :: "int \<Rightarrow> bool \<Rightarrow> dsim \<Rightarrow> int" where
  "ComputeLatency newSector writing s =
     (let (seek, rotation) = TimeToSeek newSector s; timeAfter = now s + seek + rotation in
      if \<not> writing \<and> seek = 0 \<and>
         (timeAfter - bufferInit (dev s)) div RotationTime > ModuloDiff newSector (bufferInit (dev s) div RotationTime)
      then RotationTime
      else seek + (rotation + ModuloDiff newSector (timeAfter div RotationTime) * RotationTime) + RotationTime)"

definition UpdateLast :: "int \<Rightarrow> dsim \<Rightarrow> dsim" where
  "UpdateLast newSector s =
     (let (seek, rotate) = TimeToSeek newSector s; d = dev s;
          d = (if seek \<noteq> 0 then d\<lparr>bufferInit := now s + seek + rotate\<rparr> else d) in
      s\<lparr>dev := d\<lparr>lastSector := newSector\<rparr>\<rparr>)"

definition ReadRequest :: "int \<Rightarrow> dsim \<Rightarrow> (bytes \<times> dsim) run" where
  "ReadRequest sectorNumber s =
     (let ticks = ComputeLatency sectorNumber False s; d = dev s in
      ASSERT (\<not> active d) (ASSERT (0 \<le> sectorNumber \<and> sectorNumber < NumSectors)
       (bind_run (Lseek (fileno d) (SectorSize * sectorNumber + MagicSize) SEEK_SET (dhost d)) (\<lambda>h.
        bind_run (Read (fileno d) SectorSize h) (\<lambda>(data, h).
        let s = UpdateLast sectorNumber (s\<lparr>dev := d\<lparr>dhost := h, active := True\<rparr>\<rparr>);
            s = s\<lparr>stats := (stats s)\<lparr>numDiskReads := numDiskReads (stats s) + 1\<rparr>\<rparr> in
        bind_run (Schedule DiskObj ticks DiskInt s) (\<lambda>s. Inr (data, s)))))))"

definition WriteRequest :: "int \<Rightarrow> bytes \<Rightarrow> dsim \<Rightarrow> dsim run" where
  "WriteRequest sectorNumber data s =
     (let ticks = ComputeLatency sectorNumber True s; d = dev s in
      ASSERT (\<not> active d) (ASSERT (0 \<le> sectorNumber \<and> sectorNumber < NumSectors)
       (bind_run (Lseek (fileno d) (SectorSize * sectorNumber + MagicSize) SEEK_SET (dhost d)) (\<lambda>h.
        bind_run (WriteFile (fileno d) data SectorSize h) (\<lambda>h.
        let s = UpdateLast sectorNumber (s\<lparr>dev := d\<lparr>dhost := h, active := True\<rparr>\<rparr>);
            s = s\<lparr>stats := (stats s)\<lparr>numDiskWrites := numDiskWrites (stats s) + 1\<rparr>\<rparr> in
        Schedule DiskObj ticks DiskInt s)))))"

section \<open>The synchronous disk\<close>

definition SynchDisk_CallBack :: "dsim \<Rightarrow> dsim" where
  "SynchDisk_CallBack s = s\<lparr>dev := (dev s)\<lparr>diskSem := diskSem (dev s) + 1\<rparr>\<rparr>"

fun Disk_CallBack :: "disk_obj \<Rightarrow> dsim \<Rightarrow> dsim run" where
  "Disk_CallBack DiskObj s = Inr (SynchDisk_CallBack (s\<lparr>dev := (dev s)\<lparr>active := False\<rparr>\<rparr>))"

text \<open>\<open>new SynchDisk\<close>; the lock is free and the semaphore zero.\<close>

definition SynchDisk_new :: "bytes \<Rightarrow> dsim \<Rightarrow> dsim run" where
  "SynchDisk_new diskname s = Disk_new diskname (s\<lparr>dev := (dev s)\<lparr>diskSem := 0, diskLock := False\<rparr>\<rparr>)"

definition disk_SetLevel :: "IntStatus \<Rightarrow> dsim \<Rightarrow> (IntStatus \<times> dsim) run" where
  "disk_SetLevel = SetLevel Disk_CallBack Inr"

definition disk_Acquire :: "dsim \<Rightarrow> dsim run" where
  "disk_Acquire s = (if diskLock (dev s) then Inl Diverges else Inr (s\<lparr>dev := (dev s)\<lparr>diskLock := True\<rparr>\<rparr>))"

definition disk_Release :: "dsim \<Rightarrow> dsim run" where
  "disk_Release s = ASSERT (diskLock (dev s)) (Inr (s\<lparr>dev := (dev s)\<lparr>diskLock := False\<rparr>\<rparr>))"

text \<open>The loop of \<open>P\<close>: the thread sleeps and the machine idles, as long as the value is zero.\<close>

fun disk_wait :: "nat \<Rightarrow> dsim \<Rightarrow> dsim run" where
  "disk_wait 0 s = Inl Diverges"
| "disk_wait (Suc n) s =
     (if diskSem (dev s) = 0 then
        bind_run (Idle Disk_CallBack s) (\<lambda>r. case r of Resumed s \<Rightarrow> disk_wait n s | Interrupts.Halted s \<Rightarrow> Inl Diverges)
      else Inr (s\<lparr>dev := (dev s)\<lparr>diskSem := diskSem (dev s) - 1\<rparr>\<rparr>))"

definition disk_P :: "dsim \<Rightarrow> dsim run" where
  "disk_P s =
     bind_run (disk_SetLevel IntOff s) (\<lambda>(oldLevel, s).
     bind_run (disk_wait (Suc (length (pending (intr s)))) s) (\<lambda>s.
     bind_run (disk_SetLevel oldLevel s) (\<lambda>(_, s). Inr s)))"

definition ReadSector :: "int \<Rightarrow> dsim \<Rightarrow> (bytes \<times> dsim) run" where
  "ReadSector sectorNumber s =
     bind_run (disk_Acquire s) (\<lambda>s.
     bind_run (ReadRequest sectorNumber s) (\<lambda>(data, s).
     bind_run (disk_P s) (\<lambda>s.
     bind_run (disk_Release s) (\<lambda>s. Inr (data, s)))))"

definition WriteSector :: "int \<Rightarrow> bytes \<Rightarrow> dsim \<Rightarrow> dsim run" where
  "WriteSector sectorNumber data s =
     bind_run (disk_Acquire s) (\<lambda>s.
     bind_run (WriteRequest sectorNumber data s) (\<lambda>s.
     bind_run (disk_P s) disk_Release))"

section \<open>Latency\<close>

lemma TimeToSeek_boundary:
  assumes "TimeToSeek n s = (seek, rotation)"
  shows "0 \<le> seek" "0 \<le> rotation" "rotation < RotationTime" "(now s + seek + rotation) mod RotationTime = 0"
proof -
  let ?o = "(now s + seek) mod RotationTime"
  have e: "seek = \<bar>n div SectorsPerTrack - lastSector (dev s) div SectorsPerTrack\<bar> * SeekTime"
    "rotation = (if ?o > 0 then RotationTime - ?o else 0)"
    using assms by (auto simp: TimeToSeek_def Let_def)
  have o: "0 \<le> ?o" "?o < RotationTime" by (simp_all add: RotationTime_def)
  show "0 \<le> seek" using e(1) by (simp add: SeekTime_def)
  show "0 \<le> rotation" "rotation < RotationTime" using o unfolding e(2) by (auto simp: RotationTime_def)
  show "(now s + seek + rotation) mod RotationTime = 0"
  proof (cases "?o > 0")
    case True
    then have "(now s + seek + rotation) mod RotationTime = (?o + rotation) mod RotationTime" by (simp add: mod_add_left_eq)
    then show ?thesis using True e(2) by simp
  next
    case False
    then show ?thesis using o e(2) by simp
  qed
qed

lemma ModuloDiff_bounds: "0 \<le> ModuloDiff a b" "ModuloDiff a b < SectorsPerTrack"
  by (simp_all add: ModuloDiff_def Let_def SectorsPerTrack_def)

lemma ModuloDiff_reaches: "(b + ModuloDiff a b) mod SectorsPerTrack = a mod SectorsPerTrack"
proof -
  have "ModuloDiff a b = (a - b) mod SectorsPerTrack" by (simp add: ModuloDiff_def Let_def mod_diff_eq)
  then show ?thesis by (simp add: mod_add_right_eq)
qed

lemma seek_bound:
  assumes "0 \<le> n" "n < NumSectors" "0 \<le> lastSector (dev s)" "lastSector (dev s) < NumSectors"
  shows "fst (TimeToSeek n s) \<le> (NumTracks - 1) * SeekTime"
proof -
  have "0 \<le> n div 32 \<and> n div 32 \<le> 31" "0 \<le> lastSector (dev s) div 32 \<and> lastSector (dev s) div 32 \<le> 31"
    using assms by (auto simp: disk_consts)
  then have "\<bar>n div 32 - lastSector (dev s) div 32\<bar> \<le> 31" by linarith
  then show ?thesis by (simp add: TimeToSeek_def Let_def disk_consts SeekTime_def)
qed

lemma latency_facts:
  assumes "0 \<le> n" "n < NumSectors" "0 \<le> lastSector (dev s)" "lastSector (dev s) < NumSectors"
  shows "RotationTime \<le> ComputeLatency n w s \<and> ComputeLatency n w s \<le> (NumTracks - 1) * SeekTime + (SectorsPerTrack + 1) * RotationTime \<and>
    (w \<or> n div SectorsPerTrack \<noteq> lastSector (dev s) div SectorsPerTrack \<or> ComputeLatency n w s \<noteq> RotationTime \<longrightarrow>
       (now s + ComputeLatency n w s) mod RotationTime = 0 \<and>
       ((now s + ComputeLatency n w s) div RotationTime - 1) mod SectorsPerTrack = n mod SectorsPerTrack \<and>
       \<bar>n div SectorsPerTrack - lastSector (dev s) div SectorsPerTrack\<bar> * SeekTime + RotationTime \<le> ComputeLatency n w s)"
proof -
  obtain seek rotation where t: "TimeToSeek n s = (seek, rotation)" by fastforce
  note b = TimeToSeek_boundary[OF t]
  have se: "seek = \<bar>n div SectorsPerTrack - lastSector (dev s) div SectorsPerTrack\<bar> * SeekTime"
    using t by (auto simp: TimeToSeek_def Let_def)
  have sb: "seek \<le> (NumTracks - 1) * SeekTime" using seek_bound[OF assms] t by simp
  define T k M where "T = now s + seek + rotation" and "k = T div RotationTime" and "M = ModuloDiff n k"
  have T: "T = RotationTime * k" using b(4) unfolding T_def k_def by (simp add: mod_0_imp_dvd)
  have M: "0 \<le> M" "M < SectorsPerTrack" using ModuloDiff_bounds unfolding M_def by auto
  let ?L = "ComputeLatency n w s"
  show ?thesis
  proof (cases "\<not> w \<and> seek = 0 \<and> (T - bufferInit (dev s)) div RotationTime > ModuloDiff n (bufferInit (dev s) div RotationTime)")
    case True
    then have L: "?L = RotationTime" using t by (auto simp: ComputeLatency_def T_def Let_def)
    have "n div SectorsPerTrack = lastSector (dev s) div SectorsPerTrack" using True se by (simp add: SeekTime_def)
    then show ?thesis using L True by (simp add: disk_consts SeekTime_def RotationTime_def)
  next
    case False
    then have L: "?L = seek + (rotation + M * RotationTime) + RotationTime"
      using t by (auto simp: ComputeLatency_def T_def M_def k_def Let_def)
    have N: "now s + ?L = RotationTime * (k + M + 1)" using T by (simp add: L T_def algebra_simps)
    have d: "(now s + ?L) div RotationTime = k + M + 1" "(now s + ?L) mod RotationTime = 0" unfolding N by (simp_all add: RotationTime_def)
    have h: "((now s + ?L) div RotationTime - 1) mod SectorsPerTrack = n mod SectorsPerTrack"
      unfolding d(1) using ModuloDiff_reaches[of k n] by (simp add: M_def)
    have "?L \<le> (NumTracks - 1) * SeekTime + (SectorsPerTrack + 1) * RotationTime" "seek + RotationTime \<le> ?L"
      using L b(2,3) sb M by (simp_all add: disk_consts SeekTime_def RotationTime_def)
    moreover have "RotationTime \<le> ?L" using L b(1,2) M by (simp add: RotationTime_def)
    ultimately show ?thesis using d(2) h se by simp
  qed
qed

lemma latency_bounds:
  assumes "0 \<le> n" "n < NumSectors" "0 \<le> lastSector (dev s)" "lastSector (dev s) < NumSectors"
  shows "RotationTime \<le> ComputeLatency n w s"
  using latency_facts[OF assms, of w] by blast

text \<open>
  The time of a request.  It is at least the transfer of one sector and at most a seek over all tracks and one turn more.  If the
  data does not come from the track buffer, the request ends exactly when the head, after the seek, has passed the whole
  sector: on a sector boundary, with the sector being the last one under the head.
\<close>

theorem ComputeLatency_correct:
  assumes "0 \<le> n" "n < NumSectors" "0 \<le> lastSector (dev s)" "lastSector (dev s) < NumSectors"
  shows "RotationTime \<le> ComputeLatency n w s \<and> ComputeLatency n w s \<le> (NumTracks - 1) * SeekTime + (SectorsPerTrack + 1) * RotationTime \<and>
    (w \<or> n div SectorsPerTrack \<noteq> lastSector (dev s) div SectorsPerTrack \<or> ComputeLatency n w s \<noteq> RotationTime \<longrightarrow>
       (now s + ComputeLatency n w s) mod RotationTime = 0 \<and>
       ((now s + ComputeLatency n w s) div RotationTime - 1) mod SectorsPerTrack = n mod SectorsPerTrack \<and>
       \<bar>n div SectorsPerTrack - lastSector (dev s) div SectorsPerTrack\<bar> * SeekTime + RotationTime \<le> ComputeLatency n w s)"
  by (rule latency_facts[OF assms])

section \<open>The synchronous disk returns\<close>

definition disk_open :: "dsim \<Rightarrow> nat \<Rightarrow> bool" where
  "disk_open s i \<longleftrightarrow> (\<exists>p \<ge> 0. fds (dhost (dev s)) (fileno (dev s)) = Some (i, p)) \<and> int (length (inode (dhost (dev s)) i)) = DiskSize \<and>
     0 \<le> lastSector (dev s) \<and> lastSector (dev s) < NumSectors"

text \<open>Between two calls nothing is pending, and the only thread runs with interrupts on.\<close>

definition disk_idle :: "dsim \<Rightarrow> bool" where
  [inv_defs]: "disk_idle s \<longleftrightarrow> level (intr s) = IntOn \<and> pending (intr s) = [] \<and> \<not> inHandler (intr s) \<and> \<not> yieldOnReturn (intr s) \<and>
     status (intr s) = SystemMode \<and> load_ok (machine s) \<and> \<not> active (dev s) \<and> diskSem (dev s) = 0 \<and> \<not> diskLock (dev s) \<and> (\<exists>i. disk_open s i)"

definition sectors :: "dsim \<Rightarrow> int \<Rightarrow> bytes" where
  "sectors s n = (case fds (dhost (dev s)) (fileno (dev s)) of None \<Rightarrow> []
     | Some (i, p) \<Rightarrow> if 0 \<le> n \<and> n < NumSectors then take 128 (drop (nat (SectorSize * n + MagicSize)) (inode (dhost (dev s)) i)) else [])"

lemma delayed_ok:
  assumes "load_ok mm"
  obtains mm' where "load_ok mm'" "\<And>s :: dsim. machine s = mm \<Longrightarrow>
    (case mm of None \<Rightarrow> Inr s | Some m \<Rightarrow> bind_run (DelayedLoad m 0 0) (\<lambda>m. Inr (s\<lparr>machine := Some m\<rparr>))) = Inr (s\<lparr>machine := mm'\<rparr>)"
proof (cases mm)
  case None
  have "s = s\<lparr>machine := None\<rparr>" if "machine s = None" for s :: dsim using that by (cases s) simp
  then show thesis using that[of None] None by (simp add: load_ok_def)
next
  case (Some m)
  have m: "uint (registers m LoadReg) < 32" using load_okD[OF assms Some] .
  then have "sint (registers m LoadReg) = uint (registers m LoadReg)" by (simp add: sint_uint small_signed)
  with m obtain m' where "DelayedLoad m 0 0 = Inr m'" "load_ok (Some m')"
    by (auto simp: DelayedLoad_def NumTotalRegs_def LoadReg_def LoadValueReg_def Let_def load_ok_def)
  then show thesis using that[of "Some m'"] Some by simp
qed

lemma disk_P_returns:
  assumes "pending (intr s) = [p]" "callOnInterrupt p = Some DiskObj" "now s < whenDue p" "level (intr s) = IntOn"
    "\<not> inHandler (intr s)" "\<not> yieldOnReturn (intr s)" "status (intr s) = SystemMode" "load_ok (machine s)" "diskSem (dev s) = 0"
  shows "\<exists>s'. disk_P s = Inr s' \<and> dev s' = (dev s)\<lparr>active := False, diskSem := 0\<rparr> \<and> intr s' = (intr s)\<lparr>pending := []\<rparr> \<and>
     now s' = whenDue p + SystemTick \<and> load_ok (machine s')"
proof -
  obtain mm where mm: "load_ok mm" "\<And>s0 :: dsim. machine s0 = machine s \<Longrightarrow>
    (case machine s of None \<Rightarrow> Inr s0 | Some m \<Rightarrow> bind_run (DelayedLoad m 0 0) (\<lambda>m. Inr (s0\<lparr>machine := Some m\<rparr>))) = Inr (s0\<lparr>machine := mm\<rparr>)"
    using delayed_ok[OF assms(8)] by blast
  show ?thesis using assms mm
    by (simp add: disk_P_def disk_SetLevel_def SetLevel_def ChangeLevel_def upd_intr_def Idle_def CheckIfDue_def setStatus_def Front_def
      RemoveFront_def OneTick_def SynchDisk_CallBack_def Let_def)
qed

lemma UpdateLast_simps:
  "intr (UpdateLast n s) = intr s" "stats (UpdateLast n s) = stats s" "machine (UpdateLast n s) = machine s"
  "fileno (dev (UpdateLast n s)) = fileno (dev s)" "dhost (dev (UpdateLast n s)) = dhost (dev s)" "active (dev (UpdateLast n s)) = active (dev s)"
  "diskSem (dev (UpdateLast n s)) = diskSem (dev s)" "diskLock (dev (UpdateLast n s)) = diskLock (dev s)" "lastSector (dev (UpdateLast n s)) = n"
  by (auto simp: UpdateLast_def Let_def split: prod.splits)

text \<open>From a request that has been scheduled to the return of the caller.\<close>

lemma finish_request:
  assumes "disk_idle s" "Schedule DiskObj ticks DiskInt s1 = Inr s2" "0 < ticks"
    "intr s1 = intr s" "now s1 = now s" "machine s1 = machine s" "diskSem (dev s1) = 0" "diskLock (dev s1)" "disk_open s1 i"
  shows "\<exists>s'. bind_run (disk_P s2) disk_Release = Inr s' \<and> disk_idle s' \<and> now s' = now s + ticks + SystemTick \<and>
     dhost (dev s') = dhost (dev s1) \<and> fileno (dev s') = fileno (dev s1)"
proof -
  have i: "pending (intr s) = []" "level (intr s) = IntOn" "\<not> inHandler (intr s)" "\<not> yieldOnReturn (intr s)" "status (intr s) = SystemMode"
    "load_ok (machine s)" using assms(1) by (simp_all add: disk_idle_def)
  have s2: "s2 = s1\<lparr>intr := (nextPid_update Suc (intr s))\<lparr>pending := [\<lparr>pid = nextPid (intr s), callOnInterrupt = Some DiskObj, whenDue = now s + ticks, inttype = DiskInt\<rparr>]\<rparr>\<rparr>"
    using assms(2-5) i(1) by (auto simp: Schedule_def upd_intr_def Insert_def Let_def)
  obtain s3 where s3: "disk_P s2 = Inr s3" "dev s3 = (dev s2)\<lparr>active := False, diskSem := 0\<rparr>" "intr s3 = (intr s2)\<lparr>pending := []\<rparr>"
    "now s3 = now s + ticks + SystemTick" "load_ok (machine s3)"
    using disk_P_returns[of s2 "\<lparr>pid = nextPid (intr s), callOnInterrupt = Some DiskObj, whenDue = now s + ticks, inttype = DiskInt\<rparr>"]
      assms(3,5-7) i by (auto simp: s2)
  let ?s = "s3\<lparr>dev := (dev s3)\<lparr>diskLock := False\<rparr>\<rparr>"
  have "disk_Release s3 = Inr ?s" using s3(2) assms(8) by (simp add: disk_Release_def s2)
  moreover have "disk_open ?s i" using assms(9) s3(2) by (simp add: disk_open_def s2)
  then have "disk_idle ?s" using s3 i by (auto simp: disk_idle_def s2)
  ultimately show ?thesis using s3 by (simp add: s2)
qed

lemma latency_pos:
  assumes "disk_idle s" "0 \<le> n" "n < NumSectors"
  shows "0 < ComputeLatency n w s"
proof -
  have "0 \<le> lastSector (dev s)" "lastSector (dev s) < NumSectors" using assms(1) by (auto simp: disk_idle_def disk_open_def)
  from latency_bounds[OF assms(2,3) this, of w] show ?thesis by (simp add: RotationTime_def)
qed

lemma sector_range:
  assumes "0 \<le> n" "n < NumSectors"
  shows "0 \<le> SectorSize * n + MagicSize" "nat (SectorSize * n + MagicSize) + 128 \<le> nat DiskSize"
  using assms by (simp_all add: disk_consts nat_le_iff nat_add_distrib nat_mult_distrib)

lemma ReadSector_ok:
  assumes "disk_idle s" "0 \<le> n" "n < NumSectors"
  shows "\<exists>s'. ReadSector n s = Inr (sectors s n, s') \<and> disk_idle s' \<and> sectors s' = sectors s \<and> length (sectors s n) = 128 \<and>
     now s' = now s + ComputeLatency n False s + SystemTick"
proof -
  let ?s0 = "s\<lparr>dev := (dev s)\<lparr>diskLock := True\<rparr>\<rparr>" and ?pos = "SectorSize * n + MagicSize"
  obtain i p where f: "fds (dhost (dev s)) (fileno (dev s)) = Some (i, p)" "0 \<le> p" "int (length (inode (dhost (dev s)) i)) = DiskSize"
    using assms(1) by (auto simp: disk_idle_def disk_open_def)
  have d: "\<not> active (dev s)" "\<not> diskLock (dev s)" "diskSem (dev s) = 0" using assms(1) by (simp_all add: disk_idle_def)
  have len: "length (sectors s n) = 128" using f sector_range[OF assms(2,3)] assms(2,3) by (simp add: sectors_def)
  define h where "h = (dhost (dev s))\<lparr>fds := (fds (dhost (dev s)))(fileno (dev s) \<mapsto> (i, ?pos + 128))\<rparr>"
  define s1 where "s1 = UpdateLast n (?s0\<lparr>dev := (dev ?s0)\<lparr>dhost := h, active := True\<rparr>\<rparr>)"
  define s2 where "s2 = s1\<lparr>stats := (stats s1)\<lparr>numDiskReads := numDiskReads (stats s1) + 1\<rparr>\<rparr>"
  have lat: "ComputeLatency n False ?s0 = ComputeLatency n False s" by (simp add: ComputeLatency_def TimeToSeek_def)
  have r: "Read (fileno (dev s)) SectorSize (h\<lparr>fds := (fds h)(fileno (dev s) \<mapsto> (i, ?pos))\<rparr>) = Inr (sectors s n, h)"
    using len f assms(2,3) by (simp add: Read_def host_read_def h_def Let_def sectors_def SectorSize_def)
  have l: "Lseek (fileno (dev s)) ?pos SEEK_SET (dhost (dev s)) = Inr (h\<lparr>fds := (fds h)(fileno (dev s) \<mapsto> (i, ?pos))\<rparr>)"
    using Lseek_eq[OF f(1) sector_range(1)[OF assms(2,3)]] by (simp add: h_def)
  obtain s3 where s3: "Schedule DiskObj (ComputeLatency n False s) DiskInt s2 = Inr s3"
    using latency_pos[OF assms, of False] assms(1) by (simp add: Schedule_def Insert_def upd_intr_def Let_def s2_def s1_def UpdateLast_simps disk_idle_def)
  have rq: "ReadRequest n ?s0 = Inr (sectors s n, s3)"
    using assms(2,3) d l r s3 lat by (simp add: ReadRequest_def Let_def s2_def s1_def)
  have o: "disk_open s2 i" using f assms(2,3) sector_range(1)[OF assms(2,3)] by (simp add: disk_open_def s2_def s1_def UpdateLast_simps h_def)
  obtain s4 where s4: "bind_run (disk_P s3) disk_Release = Inr s4" "disk_idle s4" "now s4 = now s + ComputeLatency n False s + SystemTick"
    "dhost (dev s4) = h" "fileno (dev s4) = fileno (dev s)"
    using finish_request[OF assms(1) s3 latency_pos[OF assms] _ _ _ _ _ o] d by (auto simp: s2_def s1_def UpdateLast_simps)
  have "sectors s4 = sectors s" using f by (simp add: sectors_def fun_eq_iff s4 h_def)
  moreover have "ReadSector n s = Inr (sectors s n, s4)"
    using d rq s4(1) by (auto simp: ReadSector_def disk_Acquire_def run_simps)
  ultimately show ?thesis using s4 len by blast
qed

lemma WriteSector_ok:
  assumes "disk_idle s" "0 \<le> n" "n < NumSectors" "length data = 128"
  shows "\<exists>s'. WriteSector n data s = Inr s' \<and> disk_idle s' \<and> sectors s' = (sectors s)(n := data) \<and>
     now s' = now s + ComputeLatency n True s + SystemTick"
proof -
  let ?s0 = "s\<lparr>dev := (dev s)\<lparr>diskLock := True\<rparr>\<rparr>" and ?pos = "SectorSize * n + MagicSize"
  obtain i p where f: "fds (dhost (dev s)) (fileno (dev s)) = Some (i, p)" "0 \<le> p" "int (length (inode (dhost (dev s)) i)) = DiskSize"
    using assms(1) by (auto simp: disk_idle_def disk_open_def)
  have d: "\<not> active (dev s)" "\<not> diskLock (dev s)" "diskSem (dev s) = 0" using assms(1) by (simp_all add: disk_idle_def)
  let ?c = "overwrite (inode (dhost (dev s)) i) (nat ?pos) data"
  note rg = sector_range[OF assms(2,3)]
  have lc: "length (inode (dhost (dev s)) i) = nat DiskSize" using f(3) by simp
  have len: "int (length ?c) = DiskSize" using f(3) rg(2) assms(4) lc by (simp add: length_overwrite)
  have lenc: "length ?c = nat DiskSize" using len by (metis nat_int)
  define h where "h = (dhost (dev s))\<lparr>fds := (fds (dhost (dev s)))(fileno (dev s) \<mapsto> (i, ?pos + 128)), inode := (inode (dhost (dev s)))(i := ?c)\<rparr>"
  define s1 where "s1 = UpdateLast n (?s0\<lparr>dev := (dev ?s0)\<lparr>dhost := h, active := True\<rparr>\<rparr>)"
  define s2 where "s2 = s1\<lparr>stats := (stats s1)\<lparr>numDiskWrites := numDiskWrites (stats s1) + 1\<rparr>\<rparr>"
  have lat: "ComputeLatency n True ?s0 = ComputeLatency n True s" by (simp add: ComputeLatency_def TimeToSeek_def)
  let ?h0 = "(dhost (dev s))\<lparr>fds := (fds (dhost (dev s)))(fileno (dev s) \<mapsto> (i, ?pos))\<rparr>"
  have "data \<noteq> []" using assms(4) by auto
  then have r: "WriteFile (fileno (dev s)) data SectorSize ?h0 = Inr h"
    using assms(4) by (simp add: WriteFile_def host_write_def h_def Let_def SectorSize_def)
  have l: "Lseek (fileno (dev s)) ?pos SEEK_SET (dhost (dev s)) = Inr ?h0" using Lseek_eq[OF f(1) rg(1)] by simp
  obtain s3 where s3: "Schedule DiskObj (ComputeLatency n True s) DiskInt s2 = Inr s3"
    using latency_pos[OF assms(1-3), of True] assms(1) by (simp add: Schedule_def Insert_def upd_intr_def Let_def s2_def s1_def UpdateLast_simps disk_idle_def)
  have rq: "WriteRequest n data ?s0 = Inr s3"
    using assms(2,3) d l r s3 lat by (simp add: WriteRequest_def Let_def s2_def s1_def)
  have o: "disk_open s2 i" using len assms(2,3) rg(1) by (simp add: disk_open_def s2_def s1_def UpdateLast_simps h_def)
  obtain s4 where s4: "bind_run (disk_P s3) disk_Release = Inr s4" "disk_idle s4" "now s4 = now s + ComputeLatency n True s + SystemTick"
    "dhost (dev s4) = h" "fileno (dev s4) = fileno (dev s)"
    using finish_request[OF assms(1) s3 latency_pos[OF assms(1-3)] _ _ _ _ _ o] d by (auto simp: s2_def s1_def UpdateLast_simps)
  have "sectors s4 k = (if k = n then data else sectors s k)" for k
  proof (cases "0 \<le> k \<and> k < NumSectors")
    case True
    have k4: "sectors s4 k = take 128 (drop (nat (SectorSize * k + MagicSize)) ?c)" using True by (simp add: sectors_def s4 h_def)
    show ?thesis
    proof (cases "k = n")
      case False
      have "take 128 (drop (nat (SectorSize * k + MagicSize)) ?c) = take 128 (drop (nat (SectorSize * k + MagicSize)) (inode (dhost (dev s)) i))"
      proof (rule nth_equalityI)
        fix x assume x: "x < length (take 128 (drop (nat (SectorSize * k + MagicSize)) ?c))"
        have "nat (SectorSize * k + MagicSize) + x < nat ?pos \<or> nat ?pos + 128 \<le> nat (SectorSize * k + MagicSize) + x"
        proof -
          have "nat k < nat n \<or> nat n < nat k" using True assms(2) False by linarith
          moreover have "x < 128" using x by simp
          ultimately show ?thesis using True assms(2) by (auto simp: disk_consts nat_add_distrib nat_mult_distrib)
        qed
        then show "take 128 (drop (nat (SectorSize * k + MagicSize)) ?c) ! x =
            take 128 (drop (nat (SectorSize * k + MagicSize)) (inode (dhost (dev s)) i)) ! x"
          using x overwrite_nth[of "nat (SectorSize * k + MagicSize) + x" "inode (dhost (dev s)) i" "nat ?pos" data] assms(4) len lc by auto
      qed (use lenc lc in simp)
      then show ?thesis using k4 False True f by (simp add: sectors_def)
    qed (use k4 overwrite_read[of data "nat ?pos" "inode (dhost (dev s)) i"] assms(4) in simp)
  next
    case False
    then show ?thesis using assms(2,3) f by (auto simp: sectors_def s4 h_def)
  qed
  then have "sectors s4 = (sectors s)(n := data)" by (simp add: fun_eq_iff)
  moreover have "WriteSector n data s = Inr s4"
    using d rq s4(1) by (simp add: WriteSector_def disk_Acquire_def)
  ultimately show ?thesis using s4 by blast
qed

section \<open>The contract of a store of sectors\<close>

text \<open>The loops of \<open>OpenFile\<close> over the sectors of a request: \<open>f\<close> finds the sector of a block.\<close>

fun read_blocks :: "(int \<Rightarrow> 's \<Rightarrow> (bytes \<times> 's) run) \<Rightarrow> (int \<Rightarrow> int run) \<Rightarrow> int list \<Rightarrow> 's \<Rightarrow> (bytes \<times> 's) run" where
  "read_blocks rd f [] s = Inr ([], s)"
| "read_blocks rd f (i # is) s =
     bind_run (f i) (\<lambda>n. bind_run (rd n s) (\<lambda>(b, s). bind_run (read_blocks rd f is s) (\<lambda>(bs, s). Inr (b @ bs, s))))"

fun write_blocks :: "(int \<Rightarrow> bytes \<Rightarrow> 's \<Rightarrow> 's run) \<Rightarrow> (int \<Rightarrow> int run) \<Rightarrow> int list \<Rightarrow> bytes \<Rightarrow> 's \<Rightarrow> 's run" where
  "write_blocks wr f [] buf s = Inr s"
| "write_blocks wr f (i # is) buf s =
     bind_run (f i) (\<lambda>n. bind_run (wr n (take (nat SectorSize) buf) s) (write_blocks wr f is (drop (nat SectorSize) buf)))"

locale sector_store =
  fixes ok :: "'s \<Rightarrow> bool" and secs :: "'s \<Rightarrow> int \<Rightarrow> bytes"
    and rd :: "int \<Rightarrow> 's \<Rightarrow> (bytes \<times> 's) run" and wr :: "int \<Rightarrow> bytes \<Rightarrow> 's \<Rightarrow> 's run"
  assumes rd_ok: "ok s \<Longrightarrow> 0 \<le> n \<Longrightarrow> n < NumSectors \<Longrightarrow> \<exists>s'. rd n s = Inr (secs s n, s') \<and> ok s' \<and> secs s' = secs s"
    and wr_ok: "ok s \<Longrightarrow> 0 \<le> n \<Longrightarrow> n < NumSectors \<Longrightarrow> length b = nat SectorSize \<Longrightarrow>
      \<exists>s'. wr n b s = Inr s' \<and> ok s' \<and> secs s' = (secs s)(n := b)"
    and secs_length: "ok s \<Longrightarrow> 0 \<le> n \<Longrightarrow> n < NumSectors \<Longrightarrow> length (secs s n) = nat SectorSize"
begin

lemma read_blocks_ok:
  assumes "ok s" "\<And>i. i \<in> set is \<Longrightarrow> f i = Inr (g i) \<and> 0 \<le> g i \<and> g i < NumSectors"
  shows "\<exists>s'. read_blocks rd f is s = Inr (concat (map (\<lambda>i. secs s (g i)) is), s') \<and> ok s' \<and> secs s' = secs s"
  using assms
proof (induction "is" arbitrary: s)
  case (Cons i "is")
  then have i: "f i = Inr (g i)" "0 \<le> g i" "g i < NumSectors" by simp_all
  obtain s1 where s1: "rd (g i) s = Inr (secs s (g i), s1)" "ok s1" "secs s1 = secs s" using rd_ok[OF Cons.prems(1) i(2,3)] by blast
  obtain s2 where "read_blocks rd f is s1 = Inr (concat (map (\<lambda>i. secs s1 (g i)) is), s2)" "ok s2" "secs s2 = secs s1"
    using Cons.IH[OF s1(2)] Cons.prems(2) by auto
  then show ?case using i(1) s1 by simp
qed simp

lemma write_blocks_ok:
  assumes "ok s" "\<And>i. i \<in> set is \<Longrightarrow> f i = Inr (g i) \<and> 0 \<le> g i \<and> g i < NumSectors" "distinct (map g is)"
    "length buf = length is * nat SectorSize"
  shows "\<exists>s'. write_blocks wr f is buf s = Inr s' \<and> ok s' \<and>
     (\<forall>n. n \<notin> g ` set is \<longrightarrow> secs s' n = secs s n) \<and> concat (map (\<lambda>i. secs s' (g i)) is) = buf"
  using assms
proof (induction "is" arbitrary: s buf)
  case (Cons i "is")
  then have i: "f i = Inr (g i)" "0 \<le> g i" "g i < NumSectors" by simp_all
  let ?b = "take (nat SectorSize) buf" and ?r = "drop (nat SectorSize) buf"
  have l: "length ?b = nat SectorSize" "length ?r = length is * nat SectorSize" using Cons.prems(4) by simp_all
  obtain s1 where s1: "wr (g i) ?b s = Inr s1" "ok s1" "secs s1 = (secs s)(g i := ?b)" using wr_ok[OF Cons.prems(1) i(2,3) l(1)] by blast
  obtain s2 where s2: "write_blocks wr f is ?r s1 = Inr s2" "ok s2" "\<forall>n. n \<notin> g ` set is \<longrightarrow> secs s2 n = secs s1 n"
    "concat (map (\<lambda>i. secs s2 (g i)) is) = ?r"
    using Cons.IH[OF s1(2), of ?r] Cons.prems(2,3) l(2) by auto
  have "g i \<notin> g ` set is" using Cons.prems(3) by simp
  then have "secs s2 (g i) = ?b" using s2(3) s1(3) by simp
  then show ?case using i(1) s1 s2 by (auto intro!: exI[of _ s2])
qed simp

lemma read_back:
  assumes "ok s" "0 \<le> n" "n < NumSectors" "length b = nat SectorSize"
  shows "\<exists>s1 s2. wr n b s = Inr s1 \<and> rd n s1 = Inr (b, s2) \<and> ok s2 \<and> secs s2 = (secs s)(n := b)"
proof -
  obtain s1 where s1: "wr n b s = Inr s1" "ok s1" "secs s1 = (secs s)(n := b)" using wr_ok[OF assms] by blast
  with rd_ok[OF s1(2) assms(2,3)] show ?thesis by auto
qed

end

lemma sectors_length: "disk_idle s \<Longrightarrow> 0 \<le> n \<Longrightarrow> n < NumSectors \<Longrightarrow> length (sectors s n) = nat SectorSize"
  using ReadSector_ok[of s n] by (auto simp: SectorSize_def)

interpretation disk: sector_store disk_idle sectors ReadSector WriteSector
proof
  fix s n assume "disk_idle s" "0 \<le> n" "n < NumSectors"
  then show "\<exists>s'. ReadSector n s = Inr (sectors s n, s') \<and> disk_idle s' \<and> sectors s' = sectors s" using ReadSector_ok by blast
next
  fix s n and b :: bytes assume "disk_idle s" "0 \<le> n" "n < NumSectors" "length b = nat SectorSize"
  then show "\<exists>s'. WriteSector n b s = Inr s' \<and> disk_idle s' \<and> sectors s' = (sectors s)(n := b)"
    using WriteSector_ok[of s n b] by (auto simp: SectorSize_def)
qed (rule sectors_length)

text \<open>A new disk.\<close>

definition sim_new :: dsim where
  "sim_new = \<lparr>intr = Interrupt_new\<lparr>level := IntOn\<rparr>, stats = Statistics_new, machine = None,
     dev = \<lparr>fileno = 0, active = False, lastSector = 0, bufferInit = 0, dhost = host_new, diskSem = 0, diskLock = False\<rparr>\<rparr>"

lemma SynchDisk_new_idle: "\<exists>s. SynchDisk_new n sim_new = Inr s \<and> disk_idle s"
proof -
  have l: "length (int_bytes w) = 4" for w by (simp add: int_bytes_def)
  then have ne: "int_bytes w \<noteq> []" for w by (metis list.size(3) zero_neq_numeral)
  have o: "length (overwrite (overwrite [] 0 (int_bytes v)) 131072 (int_bytes w)) = 131076" for v w by (simp add: length_overwrite l)
  show ?thesis
    by (simp add: SynchDisk_new_def Disk_new_def sim_new_def OpenForReadWrite_def host_open_def host_new_def OpenForWrite_def host_creat_def
      new_fd_def WriteFile_def host_write_def Lseek_def host_lseek_def Let_def disk_consts l ne disk_idle_def disk_open_def o
      Interrupt_new_def load_ok_def)
qed



lemma ComputeLatency_correct_witness:
  "\<exists>s. SynchDisk_new (cstr ''DISK_0'') sim_new = Inr s \<and> RotationTime \<le> ComputeLatency 700 True s \<and> (now s + ComputeLatency 700 True s) mod RotationTime = 0"
proof -
  obtain s where s: "SynchDisk_new (cstr ''DISK_0'') sim_new = Inr s" "disk_idle s" using SynchDisk_new_idle by blast
  then have "0 \<le> lastSector (dev s)" "lastSector (dev s) < NumSectors" by (auto simp: disk_idle_def disk_open_def)
  with ComputeLatency_correct[of 700 s True] s show ?thesis by (auto simp: disk_consts)
qed

end
