(* ===== verification/DiskFiles.thy ===== *)
theory DiskFiles
  imports DiskDev BitmapLib
begin

unbundle bit_operations_syntax

text \<open>
  Files on the disk: headers (\<^verbatim>\<open>filesys/filehdr.cc\<close>), the map of free sectors (\<^verbatim>\<open>filesys/pbitmap.cc\<close>) and open
  files (\<^verbatim>\<open>filesys/openfile.cc\<close>).  This is the file system that is compiled without \<^verbatim>\<open>FILESYS_STUB\<close>.

  Sizes and positions are not negative.  What \<open>new\<close> leaves in memory that the code does not set is an argument:
  \<open>junk\<close> for the rest of a header and for a buffer.
\<close>

section \<open>File headers\<close>

record FileHeader =
  numBytes :: "32 word"
  numSectors :: "32 word"
  dataSectors :: "32 word list"

definition NumDirect :: int where "NumDirect = (SectorSize - 2 * 4) div 4"
definition MaxFileSize :: int where "MaxFileSize = NumDirect * SectorSize"

text \<open>An array of words in memory.\<close>

definition words_bytes :: "32 word list \<Rightarrow> bytes" where
  "words_bytes ws = concat (map int_bytes ws)"

definition bytes_words :: "nat \<Rightarrow> bytes \<Rightarrow> 32 word list" where
  "bytes_words n bs = map (\<lambda>i. bytes_int (take 4 (drop (4 * i) bs))) [0..<n]"

definition hdr_bytes :: "FileHeader \<Rightarrow> bytes" where
  "hdr_bytes h = words_bytes (numBytes h # numSectors h # dataSectors h)"

definition bytes_hdr :: "bytes \<Rightarrow> FileHeader" where
  "bytes_hdr bs = (let ws = bytes_words 32 bs in \<lparr>numBytes = ws ! 0, numSectors = ws ! 1, dataSectors = drop 2 ws\<rparr>)"

definition FileHeader_FetchFrom :: "int \<Rightarrow> dsim \<Rightarrow> (FileHeader \<times> dsim) run" where
  "FileHeader_FetchFrom sector s = bind_run (ReadSector sector s) (\<lambda>(b, s). Inr (bytes_hdr b, s))"

definition FileHeader_WriteBack :: "FileHeader \<Rightarrow> int \<Rightarrow> dsim \<Rightarrow> dsim run" where
  "FileHeader_WriteBack h sector s = WriteSector sector (hdr_bytes h) s"

definition ByteToSector :: "FileHeader \<Rightarrow> int \<Rightarrow> int run" where
  "ByteToSector h offset = bind_run (get_at (dataSectors h) (offset div SectorSize)) (\<lambda>w. Inr (sint w))"

definition FileLength :: "FileHeader \<Rightarrow> int" where
  "FileLength h = sint (numBytes h)"

definition Allocate :: "FileHeader \<Rightarrow> Bitmap \<Rightarrow> int \<Rightarrow> (bool \<times> FileHeader \<times> Bitmap) run" where
  "Allocate h freeMap fileSize =
     (let n = divRoundUp fileSize SectorSize; h = h\<lparr>numBytes := word_of_int fileSize, numSectors := word_of_int n\<rparr> in
      bind_run (Bitmap_NumClear freeMap) (\<lambda>c.
      if c < n then Inr (False, h, freeMap)
      else bind_run (for_each (\<lambda>i (h, b).
             bind_run (Bitmap_FindAndSet b) (\<lambda>(k, b).
             bind_run (set_at (dataSectors h) i (word_of_int k)) (\<lambda>ds.
             ASSERT (k \<ge> 0) (Inr (h\<lparr>dataSectors := ds\<rparr>, b))))) (count_to n) (h, freeMap))
           (\<lambda>(h, b). Inr (True, h, b))))"

definition Deallocate :: "FileHeader \<Rightarrow> Bitmap \<Rightarrow> Bitmap run" where
  "Deallocate h freeMap =
     for_each (\<lambda>i b. bind_run (get_at (dataSectors h) i) (\<lambda>w.
       bind_run (Bitmap_Test b (sint w)) (\<lambda>t. ASSERT t (Bitmap_Clear b (sint w))))) (count_to (sint (numSectors h))) freeMap"

section \<open>Open files\<close>

record DFile =
  ftype :: int
  hdr :: FileHeader
  seekPosition :: int

text \<open>The two constructors; the first does not set \<open>type\<close>, so that it is what \<open>t\<close> says the memory held.\<close>

definition DFile_new :: "int \<Rightarrow> int \<Rightarrow> dsim \<Rightarrow> (DFile \<times> dsim) run" where
  "DFile_new t sector s = bind_run (FileHeader_FetchFrom sector s) (\<lambda>(h, s). Inr (\<lparr>ftype = t, hdr = h, seekPosition = 0\<rparr>, s))"

definition DFile_new_type :: "int \<Rightarrow> int \<Rightarrow> dsim \<Rightarrow> (DFile \<times> dsim) run" where
  "DFile_new_type sector t s = bind_run (FileHeader_FetchFrom sector s) (\<lambda>(h, s). Inr (\<lparr>ftype = t, hdr = h, seekPosition = 0\<rparr>, s))"

definition DFile_Seek :: "DFile \<Rightarrow> int \<Rightarrow> DFile" where
  "DFile_Seek f position = f\<lparr>seekPosition := position\<rparr>"

definition DFile_ReadAt :: "DFile \<Rightarrow> int \<Rightarrow> int \<Rightarrow> dsim \<Rightarrow> (int \<times> bytes \<times> dsim) run" where
  "DFile_ReadAt f n position s =
     (let fileLength = FileLength (hdr f) in
      if n \<le> 0 \<or> position \<ge> fileLength then Inr (0, [], s)
      else let n = (if position + n > fileLength then fileLength - position else n);
               firstSector = divRoundDown position SectorSize;
               lastSector = divRoundDown (position + n - 1) SectorSize in
        bind_run (read_blocks ReadSector (\<lambda>i. ByteToSector (hdr f) (i * SectorSize)) [firstSector..lastSector] s) (\<lambda>(buf, s).
        Inr (n, take (nat n) (drop (nat (position - firstSector * SectorSize)) buf), s)))"

definition DFile_WriteAt :: "(nat \<Rightarrow> 8 word) \<Rightarrow> DFile \<Rightarrow> bytes \<Rightarrow> int \<Rightarrow> int \<Rightarrow> dsim \<Rightarrow> (int \<times> dsim) run" where
  "DFile_WriteAt junk f from_buf n position s =
     (let fileLength = FileLength (hdr f) in
      if n \<le> 0 \<or> position \<ge> fileLength then Inr (0, s)
      else let n = (if position + n > fileLength then fileLength - position else n);
               firstSector = divRoundDown position SectorSize;
               lastSector = divRoundDown (position + n - 1) SectorSize;
               buf = map junk [0..<nat ((1 + lastSector - firstSector) * SectorSize)];
               firstAligned = (position = firstSector * SectorSize);
               lastAligned = (position + n = (lastSector + 1) * SectorSize) in
        bind_run (if \<not> firstAligned then
                    bind_run (DFile_ReadAt f SectorSize (firstSector * SectorSize) s) (\<lambda>(_, bs, s). Inr (overwrite buf 0 bs, s))
                  else Inr (buf, s)) (\<lambda>(buf, s).
        bind_run (if \<not> lastAligned \<and> (firstSector \<noteq> lastSector \<or> firstAligned) then
                    bind_run (DFile_ReadAt f SectorSize (lastSector * SectorSize) s) (\<lambda>(_, bs, s).
                      Inr (overwrite buf (nat ((lastSector - firstSector) * SectorSize)) bs, s))
                  else Inr (buf, s)) (\<lambda>(buf, s).
        if n > int (length from_buf) then Inl OutOfBounds
        else let buf = overwrite buf (nat (position - firstSector * SectorSize)) (take (nat n) from_buf) in
          bind_run (write_blocks WriteSector (\<lambda>i. ByteToSector (hdr f) (i * SectorSize)) [firstSector..lastSector] buf s) (\<lambda>s.
          Inr (n, s)))))"

definition DFile_Read :: "DFile \<Rightarrow> int \<Rightarrow> dsim \<Rightarrow> (int \<times> bytes \<times> DFile \<times> dsim) run" where
  "DFile_Read f n s =
     bind_run (DFile_ReadAt f n (seekPosition f) s) (\<lambda>(result, bs, s).
     Inr (result, bs, f\<lparr>seekPosition := seekPosition f + result\<rparr>, s))"

definition DFile_Write :: "(nat \<Rightarrow> 8 word) \<Rightarrow> DFile \<Rightarrow> bytes \<Rightarrow> int \<Rightarrow> dsim \<Rightarrow> (int \<times> DFile \<times> dsim) run" where
  "DFile_Write junk f from_buf n s =
     bind_run (DFile_WriteAt junk f from_buf n (seekPosition f) s) (\<lambda>(result, s).
     Inr (result, f\<lparr>seekPosition := seekPosition f + result\<rparr>, s))"

definition DFile_Length :: "DFile \<Rightarrow> int" where
  "DFile_Length f = FileLength (hdr f)"

section \<open>The persistent bitmap\<close>

definition PersistentBitmap_new :: "DFile \<Rightarrow> int \<Rightarrow> dsim \<Rightarrow> (Bitmap \<times> dsim) run" where
  "PersistentBitmap_new f numItems s =
     bind_run (Bitmap_new numItems) (\<lambda>b.
     bind_run (DFile_ReadAt f (numWords b * 4) 0 s) (\<lambda>(n, bs, s).
     Inr (b\<lparr>bmap := bytes_words (nat (numWords b)) (overwrite (words_bytes (bmap b)) 0 bs)\<rparr>, s)))"

definition PersistentBitmap_FetchFrom :: "Bitmap \<Rightarrow> DFile \<Rightarrow> dsim \<Rightarrow> (Bitmap \<times> dsim) run" where
  "PersistentBitmap_FetchFrom b f s =
     bind_run (DFile_ReadAt f (numWords b * 4) 0 s) (\<lambda>(n, bs, s).
     Inr (b\<lparr>bmap := bytes_words (nat (numWords b)) (overwrite (words_bytes (bmap b)) 0 bs)\<rparr>, s))"

definition PersistentBitmap_WriteBack :: "(nat \<Rightarrow> 8 word) \<Rightarrow> Bitmap \<Rightarrow> DFile \<Rightarrow> dsim \<Rightarrow> dsim run" where
  "PersistentBitmap_WriteBack junk b f s =
     bind_run (DFile_WriteAt junk f (words_bytes (bmap b)) (numWords b * 4) 0 s) (\<lambda>(_, s). Inr s)"

section \<open>Representation in bytes\<close>

lemma length_int_bytes [simp]: "length (int_bytes w) = 4"
  by (simp add: int_bytes_def)

lemma bytes_int_bytes [simp]: "bytes_int (int_bytes w) = w"
proof -
  have "int_bytes w = [ucast w, ucast (drop_bit 8 w), ucast (drop_bit 16 w), ucast (drop_bit 24 w)]"
    by (simp add: int_bytes_def upt_rec numeral_eq_Suc)
  note b = this
  show ?thesis
  proof (rule bit_word_eqI)
    fix n assume "n < LENGTH(32)"
    then show "bit (bytes_int (int_bytes w)) n = bit w n"
      by (cases "n < 8"; cases "n < 16"; cases "n < 24")
        (auto simp: b bytes_int_def bit_or_iff bit_push_bit_iff bit_drop_bit_eq bit_ucast_iff)
  qed
qed

lemma length_words_bytes [simp]: "length (words_bytes ws) = 4 * length ws"
  by (induction ws) (simp_all add: words_bytes_def)

lemma take_words_bytes: "i < length ws \<Longrightarrow> take 4 (drop (4 * i) (words_bytes ws)) = int_bytes (ws ! i)"
proof (induction ws arbitrary: i)
  case (Cons w ws)
  then show ?case by (cases i) (simp_all add: words_bytes_def)
qed simp

lemma bytes_words_bytes: "bytes_words (length ws) (words_bytes ws) = ws"
  by (rule nth_equalityI) (simp_all add: bytes_words_def take_words_bytes)

lemma length_hdr_bytes: "length (dataSectors h) = 30 \<Longrightarrow> length (hdr_bytes h) = 128"
  by (simp add: hdr_bytes_def)

lemma bytes_hdr_bytes: "length (dataSectors h) = 30 \<Longrightarrow> bytes_hdr (hdr_bytes h) = h"
  using bytes_words_bytes[of "numBytes h # numSectors h # dataSectors h"] by (simp add: bytes_hdr_def hdr_bytes_def)

end
