(* ===== verification/DiskArray.thy ===== *)
theory DiskArray
  imports DiskFiles
begin

text \<open>
  Reading and writing files on the disk: the content of a file is the concatenation of its sectors, cut at its length
  (\<open>file_bytes\<close>), and \<open>ReadAt\<close> and \<open>WriteAt\<close> work on it as on an array.  The lemmas follow \<open>WriteAt\<close>: which sectors a
  request touches (\<open>window_facts\<close>), what the buffer holds after the first and the last sector have been read in
  (\<open>patched_buffer\<close>), and what the sectors hold after it has been written (\<open>write_request\<close>).
\<close>

section \<open>A file on the disk is an array of bytes\<close>

lemma upto_upt: "0 \<le> a \<Longrightarrow> [a..b] = map int [nat a..<nat (b + 1)]"
  by (rule nth_equalityI) (auto simp: nth_upto)

lemma concat_blocks:
  assumes "\<And>i. i < N \<Longrightarrow> length (S i) = B" "a \<le> b" "b \<le> N"
  shows "concat (map S [a..<b]) = take ((b - a) * B) (drop (a * B) (concat (map S [0..<N])))"
proof -
  have len: "length (concat (map S [x..<y])) = (y - x) * B" if "y \<le> N" for x y
    using that
  proof (induction y)
    case (Suc y)
    then show ?case using assms(1)[of y] by (cases "x \<le> y") (simp_all add: Suc_diff_le not_le)
  qed simp
  have "[0..<N] = [0..<a] @ [a..<b] @ [b..<N]" using assms(2,3) by (metis le_add_diff_inverse upt_add_eq_append zero_le le_trans)
  then have "concat (map S [0..<N]) = concat (map S [0..<a]) @ concat (map S [a..<b]) @ concat (map S [b..<N])" by simp
  then show ?thesis using len[of a 0] len[of b a] assms(2,3) by simp
qed

lemma length_blocks: "(\<And>i. i < N \<Longrightarrow> length (S i) = B) \<Longrightarrow> length (concat (map S [0..<N])) = N * B"
  by (induction N) simp_all

lemma divRoundUp_covers: "n \<le> divRoundUp n SectorSize * 128"
proof -
  have "n \<le> (n div 128 + (if n mod 128 > 0 then 1 else 0)) * 128" by presburger
  then show ?thesis by (simp only: divRoundUp_def SectorSize_def)
qed

lemma take_window: "d + m \<le> k \<Longrightarrow> a + d = p \<Longrightarrow> take m (drop d (take k (drop a xs))) = take m (drop p xs)"
  by (auto simp: drop_take min_def add.commute)

definition nsec :: "FileHeader \<Rightarrow> nat" where
  "nsec h = nat (sint (numSectors h))"

definition secno :: "FileHeader \<Rightarrow> nat \<Rightarrow> int" where
  "secno h i = sint (dataSectors h ! i)"

definition hdr_ok :: "FileHeader \<Rightarrow> bool" where
  [inv_defs]: "hdr_ok h \<longleftrightarrow> length (dataSectors h) = 30 \<and> 0 \<le> FileLength h \<and> sint (numSectors h) = divRoundUp (FileLength h) SectorSize \<and>
     nsec h \<le> 30 \<and> (\<forall>i < nsec h. 0 \<le> secno h i \<and> secno h i < NumSectors) \<and> inj_on (secno h) {..<nsec h}"

definition raw_bytes :: "dsim \<Rightarrow> FileHeader \<Rightarrow> bytes" where
  "raw_bytes s h = concat (map (\<lambda>i. sectors s (secno h i)) [0..<nsec h])"

definition file_bytes :: "dsim \<Rightarrow> FileHeader \<Rightarrow> bytes" where
  "file_bytes s h = take (nat (FileLength h)) (raw_bytes s h)"

lemma hdr_okD:
  assumes "hdr_ok h"
  shows "length (dataSectors h) = 30" "0 \<le> FileLength h" "nat (FileLength h) \<le> nsec h * 128" "nsec h \<le> 30"
    "i < nsec h \<Longrightarrow> 0 \<le> secno h i" "i < nsec h \<Longrightarrow> secno h i < NumSectors"
proof -
  show "length (dataSectors h) = 30" "0 \<le> FileLength h" "nsec h \<le> 30" "i < nsec h \<Longrightarrow> 0 \<le> secno h i" "i < nsec h \<Longrightarrow> secno h i < NumSectors"
    using assms by (simp_all add: hdr_ok_def)
  have "FileLength h \<le> sint (numSectors h) * 128" using assms divRoundUp_covers[of "FileLength h"] by (simp add: hdr_ok_def)
  then show "nat (FileLength h) \<le> nsec h * 128" by (simp add: nsec_def nat_le_iff)
qed

lemma length_raw: "disk_idle s \<Longrightarrow> hdr_ok h \<Longrightarrow> length (raw_bytes s h) = nsec h * 128"
  unfolding raw_bytes_def using sectors_length hdr_okD(5,6) by (intro length_blocks) (simp add: SectorSize_def)

lemma length_file_bytes: "disk_idle s \<Longrightarrow> hdr_ok h \<Longrightarrow> int (length (file_bytes s h)) = FileLength h"
  using length_raw[of s h] hdr_okD(2,3)[of h] by (simp add: file_bytes_def min_absorb2)

lemma ByteToSector_block:
  assumes "hdr_ok h" "0 \<le> i" "i < int (nsec h)"
  shows "ByteToSector h (i * SectorSize) = Inr (secno h (nat i)) \<and> 0 \<le> secno h (nat i) \<and> secno h (nat i) < NumSectors"
  using assms hdr_okD[OF assms(1)] by (simp add: ByteToSector_def SectorSize_def secno_def)

text \<open>The blocks of a request that lies in the file.\<close>

lemma request_blocks:
  assumes "hdr_ok h" "0 \<le> pos" "0 < n" "pos + n \<le> FileLength h"
  shows "0 \<le> pos div 128" "pos div 128 \<le> (pos + n - 1) div 128" "(pos + n - 1) div 128 < int (nsec h)"
proof -
  show "0 \<le> pos div 128" "pos div 128 \<le> (pos + n - 1) div 128" using assms by (simp_all add: zdiv_mono1)
  have "pos + n - 1 < int (nsec h) * 128" using assms hdr_okD(2,3)[OF assms(1)] by linarith
  then show "(pos + n - 1) div 128 < int (nsec h)" by (simp add: div_less_iff_less_mult)
qed

lemma read_request:
  assumes "disk_idle s" "hdr_ok h" "0 \<le> pos" "0 < n" "pos + n \<le> FileLength h"
  shows "\<exists>s'. read_blocks ReadSector (\<lambda>i. ByteToSector h (i * SectorSize)) [pos div 128..(pos + n - 1) div 128] s =
     Inr (take (nat (((pos + n - 1) div 128 - pos div 128 + 1) * 128)) (drop (nat (pos div 128 * 128)) (raw_bytes s h)), s') \<and>
     disk_idle s' \<and> sectors s' = sectors s"
proof -
  let ?a = "pos div 128" and ?b = "(pos + n - 1) div 128"
  note b = request_blocks[OF assms(2-5)]
  have r: "\<exists>s'. read_blocks ReadSector (\<lambda>i. ByteToSector h (i * SectorSize)) [?a..?b] s =
      Inr (concat (map (\<lambda>i. sectors s (secno h (nat i))) [?a..?b]), s') \<and> disk_idle s' \<and> sectors s' = sectors s"
    by (rule disk.read_blocks_ok[OF assms(1)]) (use ByteToSector_block[OF assms(2)] b in auto)
  have e1: "concat (map (\<lambda>i. sectors s (secno h (nat i))) [?a..?b]) = concat (map (\<lambda>i. sectors s (secno h i)) [nat ?a..<nat (?b + 1)])"
    using b by (simp add: upto_upt comp_def)
  have e2: "concat (map (\<lambda>i. sectors s (secno h i)) [nat ?a..<nat (?b + 1)]) =
      take ((nat (?b + 1) - nat ?a) * 128) (drop (nat ?a * 128) (raw_bytes s h))"
    unfolding raw_bytes_def using sectors_length[OF assms(1)] hdr_okD(5,6)[OF assms(2)] b
    by (intro concat_blocks) (auto simp: SectorSize_def nat_le_iff)
  have "int ((nat (?b + 1) - nat ?a) * 128) = (?b - ?a + 1) * 128" "int (nat ?a * 128) = ?a * 128" using b by simp_all
  then have e3: "(nat (?b + 1) - nat ?a) * 128 = nat ((?b - ?a + 1) * 128)" "nat ?a * 128 = nat (?a * 128)" by (metis nat_int)+
  show ?thesis using r unfolding e1 e2 e3 .
qed

lemma DFile_ReadAt_ok:
  assumes "disk_idle s" "hdr_ok (hdr f)" "0 \<le> pos"
  shows "\<exists>s'. DFile_ReadAt f n pos s = Inr (int (length (take (nat n) (drop (nat pos) (file_bytes s (hdr f))))),
      take (nat n) (drop (nat pos) (file_bytes s (hdr f))), s') \<and> disk_idle s' \<and> sectors s' = sectors s"
proof (cases "n \<le> 0 \<or> pos \<ge> FileLength (hdr f)")
  case True
  have "take (nat n) (drop (nat pos) (file_bytes s (hdr f))) = []"
    using True length_file_bytes[OF assms(1,2)] assms(3) by auto
  then show ?thesis using True assms(1) by (auto simp: DFile_ReadAt_def)
next
  case False
  let ?h = "hdr f" and ?L = "FileLength (hdr f)"
  define m where "m = (if pos + n > ?L then ?L - pos else n)"
  have m: "0 < m" "pos + m \<le> ?L" using False by (auto simp: m_def)
  let ?a = "pos div 128"
  obtain s' where s': "read_blocks ReadSector (\<lambda>i. ByteToSector ?h (i * SectorSize)) [?a..(pos + m - 1) div 128] s =
     Inr (take (nat (((pos + m - 1) div 128 - ?a + 1) * 128)) (drop (nat (?a * 128)) (raw_bytes s ?h)), s')" "disk_idle s'" "sectors s' = sectors s"
    using read_request[OF assms(1,2,3) m] by blast
  let ?k = "nat (((pos + m - 1) div 128 - ?a + 1) * 128)"
  have k: "nat (pos - ?a * 128) + nat m \<le> ?k" "nat (?a * 128) + nat (pos - ?a * 128) = nat pos"
  proof -
    have d: "pos = ?a * 128 + pos mod 128" "0 \<le> pos mod 128" "pos + m - 1 = (pos + m - 1) div 128 * 128 + (pos + m - 1) mod 128"
      "(pos + m - 1) mod 128 < 128" by simp_all
    then have "pos - ?a * 128 + m \<le> ((pos + m - 1) div 128 - ?a + 1) * 128" by (simp add: algebra_simps)
    then show "nat (pos - ?a * 128) + nat m \<le> ?k" "nat (?a * 128) + nat (pos - ?a * 128) = nat pos"
      using d assms(3) m by (simp_all flip: nat_add_distrib)
  qed
  have t: "take (nat m) (drop (nat (pos - ?a * 128)) (take ?k (drop (nat (?a * 128)) (raw_bytes s ?h)))) = take (nat m) (drop (nat pos) (raw_bytes s ?h))"
    by (rule take_window[OF k])
  have r: "take (nat n) (drop (nat pos) (file_bytes s ?h)) = take (nat m) (drop (nat pos) (raw_bytes s ?h))"
    using assms(3) False m by (auto simp: file_bytes_def drop_take m_def nat_diff_distrib min_def)
  have l: "int (length (take (nat m) (drop (nat pos) (raw_bytes s ?h)))) = m"
    using m assms(3) length_raw[OF assms(1,2)] hdr_okD(3)[OF assms(2)] by (simp add: min_def) linarith
  have "DFile_ReadAt f n pos s = bind_run (read_blocks ReadSector (\<lambda>i. ByteToSector ?h (i * SectorSize)) [?a..(pos + m - 1) div 128] s)
      (\<lambda>(buf, s). Inr (m, take (nat m) (drop (nat (pos - ?a * 128)) buf), s))"
    unfolding DFile_ReadAt_def Let_def divRoundDown_def m_def[symmetric] if_not_P[OF False] by (simp only: SectorSize_def)
  then have "DFile_ReadAt f n pos s = Inr (m, take (nat m) (drop (nat pos) (raw_bytes s ?h)), s')"
    unfolding s'(1) bind_run_Inr prod.case t .
  then show ?thesis unfolding r l using s'(2,3) by blast
qed

section \<open>Writing\<close>

text \<open>A request in natural numbers: \<open>k\<close> bytes from \<open>p\<close>, which lie in the blocks \<open>p div 128\<close> to \<open>(p + k - 1) div 128\<close>.\<close>

definition window :: "nat \<Rightarrow> nat \<Rightarrow> nat" where
  "window p k = ((p + k - 1) div 128 - p div 128 + 1) * 128"

lemma block_sum:
  assumes "(a::nat) \<le> b"
  shows "a * 128 + (b - a + 1) * 128 = (b + 1) * 128" "a * 128 + (b - a) * 128 = b * 128"
  using assms by simp_all

lemma block_nat:
  assumes "(a::nat) \<le> b"
  shows "nat ((1 + int b - int a) * 128) = (b - a + 1) * 128" "nat ((int b - int a) * 128) = (b - a) * 128"
proof -
  have "(1 + int b - int a) * 128 = int ((b - a + 1) * 128)" "(int b - int a) * 128 = int ((b - a) * 128)" using assms by (simp_all add: of_nat_diff)
  then show "nat ((1 + int b - int a) * 128) = (b - a + 1) * 128" "nat ((int b - int a) * 128) = (b - a) * 128" by (metis nat_int)+
qed

lemma block_fits: "a * 128 \<le> p \<Longrightarrow> p + k \<le> b * 128 + 128 \<Longrightarrow> a * 128 + w = (b + 1) * 128 \<Longrightarrow> p - a * 128 + k \<le> (w::nat)"
  by simp

lemma block_of: "x div 128 * 128 \<le> x" "x < x div 128 * 128 + (128::nat)"
  using div_mult_mod_eq[of x 128] pos_mod_bound[of "128" "int x"] mod_less_divisor[of 128 x] by linarith+

lemma window_facts:
  assumes "0 < k"
  shows "p div 128 * 128 \<le> p" "p < p div 128 * 128 + 128" "p - p div 128 * 128 + k \<le> window p k"
    "p div 128 \<le> (p + k - 1) div 128" "(p + k - 1) div 128 * 128 < p + k" "p + k \<le> (p + k - 1) div 128 * 128 + 128"
    "p div 128 * 128 + window p k = ((p + k - 1) div 128 + 1) * 128"
proof -
  show 1: "p div 128 * 128 \<le> p" "p < p div 128 * 128 + 128" by (rule block_of)+
  show 2: "p div 128 \<le> (p + k - 1) div 128" using assms by (intro div_le_mono) simp
  have "(p + k - 1) div 128 * 128 \<le> p + k - 1" "p + k - 1 < (p + k - 1) div 128 * 128 + 128" by (rule block_of)+
  then show 3: "(p + k - 1) div 128 * 128 < p + k" "p + k \<le> (p + k - 1) div 128 * 128 + 128" using assms by simp_all
  show 4: "p div 128 * 128 + window p k = ((p + k - 1) div 128 + 1) * 128" unfolding window_def using 2 by (rule block_sum)
  show "p - p div 128 * 128 + k \<le> window p k" by (rule block_fits[OF 1(1) 3(2) 4])
qed

text \<open>The buffer of \<open>WriteAt\<close> has the old bytes around the request.\<close>

lemma overwrite_length: "p + length bs \<le> length c \<Longrightarrow> length (overwrite c p bs) = length c"
  by (simp add: length_overwrite max_def)

lemma overwrite_keeps:
  assumes "x < length c" "p + length bs \<le> length c"
  shows "overwrite c p bs ! x = (if p \<le> x \<and> x < p + length bs then bs ! (x - p) else c ! x)"
  using assms overwrite_nth[of x c p bs] overwrite_length[of p bs c] by simp

lemma patched_buffer:
  fixes C :: bytes
  assumes "0 < k" "p + k \<le> length C" "length buf0 = window p k"
    and b1: "buf1 = (if p \<noteq> p div 128 * 128 then overwrite buf0 0 (take 128 (drop (p div 128 * 128) C)) else buf0)"
    and b2: "buf2 = (if p + k \<noteq> ((p + k - 1) div 128 + 1) * 128 \<and> (p div 128 \<noteq> (p + k - 1) div 128 \<or> p = p div 128 * 128)
      then overwrite buf1 (((p + k - 1) div 128 - p div 128) * 128) (take 128 (drop ((p + k - 1) div 128 * 128) C)) else buf1)"
  shows "length buf2 = window p k"
    "x < window p k \<Longrightarrow> p div 128 * 128 + x < length C \<Longrightarrow> p div 128 * 128 + x < p \<or> p + k \<le> p div 128 * 128 + x \<Longrightarrow>
      buf2 ! x = C ! (p div 128 * 128 + x)"
proof -
  let ?a = "p div 128" and ?b = "(p + k - 1) div 128"
  note w = window_facts[OF assms(1), of p]
  have F: "0 + length (take 128 (drop (?a * 128) C)) \<le> length buf0" using assms(3) by (simp add: window_def le_trans[OF min.cobounded2])
  have l1: "length buf1 = window p k" using overwrite_length[OF F] assms(3) by (simp add: b1)
  have wb: "(?b - ?a) * 128 + 128 = window p k" by (simp add: window_def)
  have G: "(?b - ?a) * 128 + length (take 128 (drop (?b * 128) C)) \<le> length buf1"
    unfolding l1 wb[symmetric] by (intro add_left_mono) simp
  show "length buf2 = window p k" using overwrite_length[OF G] l1 by (simp add: b2)
  show "buf2 ! x = C ! (?a * 128 + x)"
    if x: "x < window p k" "?a * 128 + x < length C" "?a * 128 + x < p \<or> p + k \<le> ?a * 128 + x"
  proof -
    have n1: "buf1 ! x = C ! (?a * 128 + x)" if "p \<noteq> ?a * 128" "x < 128"
    proof -
      have "x < 0 + length (take 128 (drop (?a * 128) C))" using that(2) x(2) by simp
      then show ?thesis using that x(1,2) overwrite_keeps[OF _ F, of x] assms(3) by (simp add: b1)
    qed
    have ba: "?a * 128 + (?b - ?a) * 128 = ?b * 128" using w(4) by (rule block_sum)
    have g: "overwrite buf1 ((?b - ?a) * 128) (take 128 (drop (?b * 128) C)) ! x =
        (if (?b - ?a) * 128 \<le> x then C ! (?a * 128 + x) else buf1 ! x)"
    proof -
      have "take 128 (drop (?b * 128) C) ! (x - (?b - ?a) * 128) = C ! (?a * 128 + x)" if "(?b - ?a) * 128 \<le> x"
      proof -
        have "?b * 128 + (x - (?b - ?a) * 128) = ?a * 128 + x" "x - (?b - ?a) * 128 < 128" "?b * 128 \<le> length C"
          using that ba x(1,2) wb by linarith+
        then show ?thesis by simp
      qed
      moreover have "x < (?b - ?a) * 128 + length (take 128 (drop (?b * 128) C))" using x wb ba unfolding length_take length_drop by linarith
      moreover have "x < length buf1" using x(1) l1 by simp
      ultimately show ?thesis unfolding overwrite_keeps[OF \<open>x < length buf1\<close> G] by metis
    qed
    from x(3) show ?thesis
    proof
      assume lt: "?a * 128 + x < p"
      then have "p \<noteq> ?a * 128" "x < 128" using w(2) by linarith+
      then show ?thesis using n1 g by (simp add: b2)
    next
      assume ge: "p + k \<le> ?a * 128 + x"
      then have la: "p + k \<noteq> (?b + 1) * 128" using x(1) w(7) by linarith
      have bx: "(?b - ?a) * 128 \<le> x" using ge w(5) ba by linarith
      show ?thesis
      proof (cases "?a \<noteq> ?b \<or> p = ?a * 128")
        case True
        then show ?thesis using g bx la by (simp add: b2)
      next
        case False
        then have "x < 128" using x(1) by (simp add: window_def)
        then show ?thesis using False n1 by (simp add: b2)
      qed
    qed
  qed
qed


lemma raw_blocks:
  assumes "disk_idle s" "hdr_ok h" "a \<le> b" "b \<le> nsec h"
  shows "concat (map (\<lambda>i. sectors s (secno h i)) [a..<b]) = take ((b - a) * 128) (drop (a * 128) (raw_bytes s h))"
  unfolding raw_bytes_def using sectors_length[OF assms(1)] hdr_okD(5,6)[OF assms(2)] assms(3,4)
  by (intro concat_blocks) (auto simp: SectorSize_def)

lemma raw_nth:
  assumes "disk_idle s" "hdr_ok h" "y < nsec h * 128"
  shows "raw_bytes s h ! y = sectors s (secno h (y div 128)) ! (y mod 128)"
proof -
  have y: "y div 128 < nsec h" using assms(3) by (simp add: less_mult_imp_div_less)
  have "sectors s (secno h (y div 128)) = take 128 (drop (y div 128 * 128) (raw_bytes s h))"
    using raw_blocks[OF assms(1,2), of "y div 128" "Suc (y div 128)"] y by simp
  moreover have "y div 128 * 128 + y mod 128 = y" "y div 128 * 128 \<le> length (raw_bytes s h)"
    using length_raw[OF assms(1,2)] y by simp_all
  ultimately show ?thesis by simp
qed

text \<open>Writing the blocks \<open>a\<close> to \<open>b\<close> of a file.\<close>

lemma write_request:
  assumes "disk_idle s" "hdr_ok h" "a \<le> b" "b < nsec h" "length buf = (b - a + 1) * 128"
  shows "\<exists>s'. write_blocks WriteSector (\<lambda>i. ByteToSector h (i * SectorSize)) [int a..int b] buf s = Inr s' \<and> disk_idle s' \<and>
     (\<forall>q. q \<notin> secno h ` {..<nsec h} \<longrightarrow> sectors s' q = sectors s q) \<and>
     (\<forall>y < nsec h * 128. raw_bytes s' h ! y = (if a * 128 \<le> y \<and> y < (b + 1) * 128 then buf ! (y - a * 128) else raw_bytes s h ! y))"
proof -
  have set: "set [int a..int b] = int ` {a..b}" by (auto simp: image_int_atLeastAtMost)
  have ll: "length [int a..int b] = b - a + 1" using assms(3) by simp
  have inj: "inj_on (secno h) {..<nsec h}" using assms(2) by (simp add: hdr_ok_def)
  have "distinct (map (\<lambda>i. secno h (nat i)) [int a..int b])"
    unfolding distinct_map
  proof
    show "inj_on (\<lambda>i. secno h (nat i)) (set [int a..int b])"
    proof (rule inj_onI)
      fix x y assume xy: "x \<in> set [int a..int b]" "y \<in> set [int a..int b]" "secno h (nat x) = secno h (nat y)"
      then have "nat x = nat y" using inj_onD[OF inj xy(3)] assms(4) by (auto simp: nat_less_iff)
      then show "x = y" using xy(1,2) by auto
    qed
  qed simp
  then obtain s' where s': "write_blocks WriteSector (\<lambda>i. ByteToSector h (i * SectorSize)) [int a..int b] buf s = Inr s'" "disk_idle s'"
    "\<And>q. q \<notin> (\<lambda>i. secno h (nat i)) ` set [int a..int b] \<Longrightarrow> sectors s' q = sectors s q"
    "concat (map (\<lambda>i. sectors s' (secno h (nat i))) [int a..int b]) = buf"
    using disk.write_blocks_ok[OF assms(1), of "[int a..int b]" "\<lambda>i. ByteToSector h (i * SectorSize)" "\<lambda>i. secno h (nat i)" buf]
      ByteToSector_block[OF assms(2)] assms(4,5) ll by (auto simp: SectorSize_def)
  have out: "sectors s' q = sectors s q" if "q \<notin> secno h ` {a..b}" for q
    using s'(3)[of q] that unfolding set by (auto simp: image_image)
  have "concat (map (\<lambda>i. sectors s' (secno h i)) [a..<b + 1]) = buf"
    using s'(4) upto_upt[of "int a" "int b"] by (simp add: comp_def nat_add_distrib)
  then have buf: "buf = take ((b + 1 - a) * 128) (drop (a * 128) (raw_bytes s' h))"
    using raw_blocks[OF s'(2) assms(2), of a "b + 1"] assms(3,4) by simp
  have raw: "raw_bytes s' h ! y = (if a * 128 \<le> y \<and> y < (b + 1) * 128 then buf ! (y - a * 128) else raw_bytes s h ! y)"
    if y: "y < nsec h * 128" for y
  proof (cases "a * 128 \<le> y \<and> y < (b + 1) * 128")
    case True
    have "y - a * 128 < (b + 1 - a) * 128" using True assms(3) by (auto simp: diff_mult_distrib)
    moreover have "a * 128 \<le> length (raw_bytes s' h)" using length_raw[OF s'(2) assms(2)] assms(3,4) by simp
    ultimately show ?thesis unfolding buf using True by simp
  next
    case False
    have yd: "y div 128 < nsec h" using y by (simp add: less_mult_imp_div_less)
    have "y div 128 \<notin> {a..b}" using False block_of[of y] by (auto simp: not_le dest: mult_le_mono1[of _ _ 128])
    then have "secno h (y div 128) \<notin> secno h ` {a..b}" using inj_onD[OF inj] yd assms(4) by fastforce
    then show ?thesis unfolding if_not_P[OF False] using out raw_nth[OF s'(2) assms(2) y] raw_nth[OF assms(1,2) y] by simp
  qed
  have "secno h ` {a..b} \<subseteq> secno h ` {..<nsec h}" using assms(4) by auto
  then have "\<forall>q. q \<notin> secno h ` {..<nsec h} \<longrightarrow> sectors s' q = sectors s q" using out by blast
  with raw show ?thesis by (intro exI[of _ s'] conjI) (simp_all add: s'(1,2))
qed

lemma block_int:
  "(int p = int a * 128) = (p = a * 128)" "nat (int p - int a * 128) = p - a * 128" "int a * 128 = int (a * 128)"
proof -
  show e: "int a * 128 = int (a * 128)" by simp
  show "(int p = int a * 128) = (p = a * 128)" unfolding e by (rule of_nat_eq_iff)
  show "nat (int p - int a * 128) = p - a * 128" unfolding e by simp
qed

text \<open>A write that lies in the file.\<close>

lemma patched_request:
  fixes C :: bytes
  assumes "0 < k" "p + k \<le> length C" "k \<le> length fb" "length buf2 = window p k" "y < length C"
    and "\<And>x. x < window p k \<Longrightarrow> p div 128 * 128 + x < length C \<Longrightarrow> p div 128 * 128 + x < p \<or> p + k \<le> p div 128 * 128 + x \<Longrightarrow>
      buf2 ! x = C ! (p div 128 * 128 + x)"
  shows "(if p div 128 * 128 \<le> y \<and> y < ((p + k - 1) div 128 + 1) * 128
      then overwrite buf2 (p - p div 128 * 128) (take k fb) ! (y - p div 128 * 128) else C ! y) = overwrite C p (take k fb) ! y"
proof -
  let ?a = "p div 128 * 128" and ?B = "((p + k - 1) div 128 + 1) * 128"
  note w = window_facts[OF assms(1), of p]
  have l: "length (take k fb) = k" using assms(3) by simp
  have o: "overwrite C p (take k fb) ! y = (if p \<le> y \<and> y < p + k then take k fb ! (y - p) else C ! y)"
    using overwrite_keeps[of y C p "take k fb"] assms(2,5) l by simp
  show ?thesis
  proof (cases "?a \<le> y \<and> y < ?B")
    case True
    then have x: "y - ?a < window p k" "?a + (y - ?a) = y" using w(7) by linarith+
    have "overwrite buf2 (p - ?a) (take k fb) ! (y - ?a) =
        (if p - ?a \<le> y - ?a \<and> y - ?a < p - ?a + k then take k fb ! (y - ?a - (p - ?a)) else buf2 ! (y - ?a))"
      using overwrite_keeps[of "y - ?a" buf2 "p - ?a" "take k fb"] x(1) w(3) assms(4) l by simp
    moreover have "(p - ?a \<le> y - ?a \<and> y - ?a < p - ?a + k) = (p \<le> y \<and> y < p + k)" "y - ?a - (p - ?a) = y - p"
      using True w(1) by linarith+
    moreover have "buf2 ! (y - ?a) = C ! y" if "\<not> (p \<le> y \<and> y < p + k)"
      using assms(6)[OF x(1)] that x(2) assms(5) by (metis not_le)
    ultimately show ?thesis using True o by auto
  next
    case False
    then have "\<not> (p \<le> y \<and> y < p + k)" using w(1,6) by auto
    then show ?thesis using False o by auto
  qed
qed

lemma write_within:
  assumes "disk_idle s" "hdr_ok (hdr f)" "0 < k" "p + k \<le> length (file_bytes s (hdr f))" "k \<le> length fb"
  shows "\<exists>s'. DFile_WriteAt junk f fb (int k) (int p) s = Inr (int k, s') \<and> disk_idle s' \<and>
     (\<forall>q. q \<notin> secno (hdr f) ` {..<nsec (hdr f)} \<longrightarrow> sectors s' q = sectors s q) \<and>
     file_bytes s' (hdr f) = overwrite (file_bytes s (hdr f)) p (take k fb)"
proof -
  let ?h = "hdr f" and ?a = "p div 128" and ?b = "(p + k - 1) div 128"
  define C where "C = file_bytes s ?h"
  note w = window_facts[OF assms(3), of p]
  have L: "FileLength ?h = int (length C)" using length_file_bytes[OF assms(1,2)] by (simp add: C_def)
  have pk: "p + k \<le> length C" using assms(4) by (simp add: C_def)
  have fb: "file_bytes t ?h = take (length C) (raw_bytes t ?h)" for t by (simp add: file_bytes_def L)
  have CN: "length C \<le> nsec ?h * 128" using hdr_okD(3)[OF assms(2)] L by simp
  have bn: "?b < nsec ?h" using w(5) pk CN by (simp add: less_mult_imp_div_less)
  have sec: "divRoundDown (int p) SectorSize = int ?a" "divRoundDown (int p + int k - 1) SectorSize = int ?b"
    using assms(3) by (simp_all add: divRoundDown_def SectorSize_def zdiv_int of_nat_diff)
  define buf0 where "buf0 = map junk [0..<nat ((1 + int ?b - int ?a) * SectorSize)]"
  have lb0: "length buf0 = window p k" unfolding buf0_def window_def SectorSize_def by (simp only: block_nat[OF w(4)] length_map length_upt diff_zero)
  define buf1 where "buf1 = (if p \<noteq> ?a * 128 then overwrite buf0 0 (take 128 (drop (?a * 128) C)) else buf0)"
  define buf2 where "buf2 = (if p + k \<noteq> (?b + 1) * 128 \<and> (?a \<noteq> ?b \<or> p = ?a * 128)
      then overwrite buf1 ((?b - ?a) * 128) (take 128 (drop (?b * 128) C)) else buf1)"
  note pb = patched_buffer[OF assms(3) pk lb0 buf1_def buf2_def]
  have patch: "\<exists>s'. (if c then bind_run (DFile_ReadAt f 128 (int (x * 128)) t) (\<lambda>(_, bs, s). Inr (overwrite buf q bs, s)) else Inr (buf, t)) =
      Inr (if c then overwrite buf q (take 128 (drop (x * 128) C)) else buf, s') \<and> disk_idle s' \<and> sectors s' = sectors s"
    if "disk_idle t" "sectors t = sectors s" for t x c q buf
  proof -
    have "file_bytes t ?h = C" by (simp add: C_def file_bytes_def raw_bytes_def that(2))
    then have "\<exists>s'. DFile_ReadAt f 128 (int (x * 128)) t = Inr (int (length (take 128 (drop (x * 128) C))), take 128 (drop (x * 128) C), s') \<and>
      disk_idle s' \<and> sectors s' = sectors s" using DFile_ReadAt_ok[OF that(1) assms(2), of "int (x * 128)" 128] that(2) unfolding nat_int by simp
    then show ?thesis using that by (cases c) auto
  qed
  obtain s1 where s1: "(if \<not> p = ?a * 128 then bind_run (DFile_ReadAt f 128 (int (?a * 128)) s) (\<lambda>(_, bs, s). Inr (overwrite buf0 0 bs, s))
      else Inr (buf0, s)) = Inr (buf1, s1)" "disk_idle s1" "sectors s1 = sectors s"
    using patch[OF assms(1) refl] unfolding buf1_def by blast
  obtain s2 where s2: "(if p + k \<noteq> (?b + 1) * 128 \<and> (?a \<noteq> ?b \<or> p = ?a * 128)
      then bind_run (DFile_ReadAt f 128 (int (?b * 128)) s1) (\<lambda>(_, bs, s). Inr (overwrite buf1 ((?b - ?a) * 128) bs, s))
      else Inr (buf1, s1)) = Inr (buf2, s2)" "disk_idle s2" "sectors s2 = sectors s"
    using patch[OF s1(2,3)] unfolding buf2_def by blast
  define buf3 where "buf3 = overwrite buf2 (p - ?a * 128) (take k fb)"
  have l3: "length buf3 = (?b - ?a + 1) * 128"
    using overwrite_length[of "p - ?a * 128" "take k fb" buf2] pb(1) w(3) assms(5) by (simp add: buf3_def window_def)
  obtain s' where s': "write_blocks WriteSector (\<lambda>i. ByteToSector ?h (i * SectorSize)) [int ?a..int ?b] buf3 s2 = Inr s'" "disk_idle s'"
    "\<forall>q. q \<notin> secno ?h ` {..<nsec ?h} \<longrightarrow> sectors s' q = sectors s q"
    "\<And>y. y < nsec ?h * 128 \<Longrightarrow> raw_bytes s' ?h ! y = (if ?a * 128 \<le> y \<and> y < (?b + 1) * 128 then buf3 ! (y - ?a * 128) else raw_bytes s2 ?h ! y)"
    using write_request[OF s2(2) assms(2) w(4) bn l3] s2(3) by auto
  have "file_bytes s' ?h = overwrite C p (take k fb)"
  proof (rule nth_equalityI)
    show "length (file_bytes s' ?h) = length (overwrite C p (take k fb))"
      using overwrite_length[of p "take k fb" C] pk assms(5) length_file_bytes[OF s'(2) assms(2)] L by simp
    fix y assume "y < length (file_bytes s' ?h)"
    then have y: "y < length C" using length_file_bytes[OF s'(2) assms(2)] L by simp
    have "raw_bytes s2 ?h ! y = C ! y" using y by (simp add: C_def file_bytes_def raw_bytes_def s2(3))
    then have "file_bytes s' ?h ! y = (if ?a * 128 \<le> y \<and> y < (?b + 1) * 128 then buf3 ! (y - ?a * 128) else C ! y)"
      using s'(4)[of y] y CN by (simp add: fb)
    then show "file_bytes s' ?h ! y = overwrite C p (take k fb) ! y"
      unfolding buf3_def by (rule trans[OF _ patched_request[OF assms(3) pk assms(5) pb(1) y pb(2)]])
  qed
  moreover have "DFile_WriteAt junk f fb (int k) (int p) s = Inr (int k, s')"
  proof -
    note c = block_int(1,2)[of p ?a] block_int(3)[of ?a] block_int(1)[of "p + k" "?b + 1"] block_int(3)[of ?b]
    have c': "(int p + int k = (int ?b + 1) * 128) = (p + k = (?b + 1) * 128)" using c(4) unfolding of_nat_add of_nat_1 .
    have g: "\<not> (int k \<le> 0 \<or> int p \<ge> FileLength ?h)" "\<not> int p + int k > FileLength ?h" "\<not> int k > int (length fb)"
      using assms(3,5) pk L by simp_all
    show ?thesis
      unfolding DFile_WriteAt_def Let_def if_not_P[OF g(1)] if_not_P[OF g(2)] sec buf0_def[symmetric] unfolding SectorSize_def c(1) c' block_nat(2)[OF w(4)] of_nat_eq_iff
      unfolding c(2) unfolding c(3,5) s1(1) bind_run_Inr prod.case s2(1) if_not_P[OF g(3)] nat_int buf3_def[symmetric] s'(1)[unfolded SectorSize_def] ..
  qed
  ultimately show ?thesis using s'(2,3) by (auto simp: C_def)
qed

lemma overwrite_cut:
  assumes "p \<le> length c"
  shows "take (length c) (overwrite c p bs) = overwrite c p (take (length c - p) bs)"
proof (cases "length bs \<le> length c - p")
  case True
  then show ?thesis using overwrite_length[of p bs c] assms by simp
next
  case False
  then show ?thesis using assms by (simp add: overwrite_def min_def)
qed

text \<open>The request is cut at the end of the file.\<close>

lemma DFile_WriteAt_ok:
  assumes "disk_idle s" "hdr_ok (hdr f)" "0 \<le> pos" "n \<le> int (length fb)"
  shows "\<exists>s'. DFile_WriteAt junk f fb n pos s = Inr (int (length (take (nat n) (drop (nat pos) (file_bytes s (hdr f))))), s') \<and> disk_idle s' \<and>
     (\<forall>q. q \<notin> secno (hdr f) ` {..<nsec (hdr f)} \<longrightarrow> sectors s' q = sectors s q) \<and>
     file_bytes s' (hdr f) = take (length (file_bytes s (hdr f))) (overwrite (file_bytes s (hdr f)) (nat pos) (take (nat n) fb))"
proof -
  let ?C = "file_bytes s (hdr f)" and ?p = "nat pos"
  have L: "FileLength (hdr f) = int (length ?C)" using length_file_bytes[OF assms(1,2)] by simp
  show ?thesis
  proof (cases "n \<le> 0 \<or> pos \<ge> FileLength (hdr f)")
    case True
    then have e: "take (nat n) (drop ?p ?C) = []" "take (length ?C) (overwrite ?C ?p (take (nat n) fb)) = ?C"
      using assms(3) L by (auto simp: overwrite_def min_def)
    have "DFile_WriteAt junk f fb n pos s = Inr (0, s)" unfolding DFile_WriteAt_def Let_def if_P[OF True] ..
    then show ?thesis using assms(1) e by auto
  next
    case False
    define k where "k = nat (if pos + n > FileLength (hdr f) then FileLength (hdr f) - pos else n)"
    have k: "0 < k" "?p + k \<le> length ?C" "k \<le> length fb" "int ?p = pos" "k = min (nat n) (length ?C - ?p)"
      using False assms(3,4) L by (auto simp: k_def)
    have ki: "int k = (if pos + n > FileLength (hdr f) then FileLength (hdr f) - pos else n)" using False by (simp add: k_def)
    have cut: "DFile_WriteAt junk f fb n pos s = DFile_WriteAt junk f fb (int k) pos s"
    proof -
      have "\<not> (int k \<le> 0 \<or> pos \<ge> FileLength (hdr f))" "\<not> pos + int k > FileLength (hdr f)" using False by (auto simp: ki)
      then show ?thesis unfolding DFile_WriteAt_def Let_def if_not_P[OF False] ki[symmetric] by (simp only: if_False)
    qed
    have "take (length ?C) (overwrite ?C ?p (take (nat n) fb)) = overwrite ?C ?p (take k fb)"
    proof -
      have "take (length ?C) (overwrite ?C ?p (take (nat n) fb)) = overwrite ?C ?p (take (length ?C - ?p) (take (nat n) fb))"
        by (rule overwrite_cut) (use k(1,2) in simp)
      then show ?thesis unfolding take_take k(5) by (simp only: min.commute[of "nat n"])
    qed
    moreover have "length (take (nat n) (drop ?p ?C)) = k" unfolding k(5) length_take length_drop by (rule min.commute)
    ultimately show ?thesis using write_within[OF assms(1,2) k(1,2,3), of junk] unfolding k(4) cut by simp
  qed
qed

text \<open>
  C9: a file on the disk is an array of bytes of a fixed length.  \<open>ReadAt\<close> gives the bytes that are there, cut at the end of the file, and \<open>WriteAt\<close>
  replaces exactly the bytes of the request, cut at the end of the file, whatever was in its buffer before and however the request lies to the
  sector boundaries; both return the count of bytes, and no sector that does not belong to the file changes.
\<close>

theorem disk_file_is_array:
  assumes "disk_idle s" "hdr_ok (hdr f)" "0 \<le> pos" "n \<le> int (length buf)"
  shows "let C = file_bytes s (hdr f); m = int (length (take (nat n) (drop (nat pos) C))) in
     int (length C) = DFile_Length f \<and>
     (\<exists>s'. DFile_ReadAt f n pos s = Inr (m, take (nat n) (drop (nat pos) C), s') \<and> disk_idle s' \<and> sectors s' = sectors s) \<and>
     (\<exists>s'. DFile_WriteAt junk f buf n pos s = Inr (m, s') \<and> disk_idle s' \<and>
       file_bytes s' (hdr f) = take (length C) (overwrite C (nat pos) (take (nat n) buf)) \<and>
       (\<forall>q. (\<forall>i < nsec (hdr f). q \<noteq> secno (hdr f) i) \<longrightarrow> sectors s' q = sectors s q))"
proof -
  have "\<exists>s'. DFile_WriteAt junk f buf n pos s = Inr (int (length (take (nat n) (drop (nat pos) (file_bytes s (hdr f))))), s') \<and> disk_idle s' \<and>
       file_bytes s' (hdr f) = take (length (file_bytes s (hdr f))) (overwrite (file_bytes s (hdr f)) (nat pos) (take (nat n) buf)) \<and>
       (\<forall>q. (\<forall>i < nsec (hdr f). q \<noteq> secno (hdr f) i) \<longrightarrow> sectors s' q = sectors s q)"
    using DFile_WriteAt_ok[OF assms, of junk] by (elim exE conjE, intro exI conjI) auto
  then show ?thesis unfolding Let_def using DFile_ReadAt_ok[OF assms(1-3)] length_file_bytes[OF assms(1,2)] by (simp add: DFile_Length_def)
qed

definition two_sector_header :: FileHeader where
  "two_sector_header = \<lparr>numBytes = 200, numSectors = 2, dataSectors = 9 # 5 # replicate 28 0\<rparr>"

lemma two_sector_header_ok: "hdr_ok two_sector_header"
  by (auto simp: hdr_ok_def two_sector_header_def FileLength_def nsec_def secno_def divRoundUp_def disk_consts inj_on_def less_Suc_eq numeral_2_eq_2)

lemma disk_file_is_array_witness:
  "\<exists>s s'. SynchDisk_new (cstr ''DISK_0'') sim_new = Inr s \<and>
     DFile_WriteAt (\<lambda>_. 0) \<lparr>ftype = 0, hdr = two_sector_header, seekPosition = 0\<rparr> (replicate 150 7) 150 120 s = Inr (80, s')"
proof -
  obtain s where s: "SynchDisk_new (cstr ''DISK_0'') sim_new = Inr s" "disk_idle s" using SynchDisk_new_idle by blast
  let ?f = "\<lparr>ftype = 0, hdr = two_sector_header, seekPosition = 0\<rparr>"
  have "int (length (file_bytes s two_sector_header)) = 200"
    using length_file_bytes[OF s(2) two_sector_header_ok] by (simp add: FileLength_def two_sector_header_def)
  then show ?thesis using s disk_file_is_array[of s ?f 120 150 "replicate 150 7" "\<lambda>_. 0"] two_sector_header_ok by (auto simp: Let_def)
qed

end
