(* ===== verification/DiskAlloc.thy ===== *)
theory DiskAlloc
  imports DiskArray
begin

text \<open>
  Allocation of the sectors of a file (\<open>Allocate\<close> and \<open>Deallocate\<close> of \<^verbatim>\<open>filesys/filehdr.cc\<close>) from the map of free sectors.
\<close>

section \<open>Allocation of sectors\<close>

definition hsecs :: "FileHeader \<Rightarrow> nat \<Rightarrow> int set" where
  "hsecs h n = secno h ` {..<n}"

lemma sint_word_sector: "0 \<le> k \<Longrightarrow> k < NumSectors \<Longrightarrow> sint (word_of_int k :: 32 word) = k"
  by (simp add: disk_consts signed_of_int signed_take_bit_int_eq_self)

text \<open>The loop of \<open>Allocate\<close>, up to \<open>m\<close> sectors.\<close>

definition alloc_step :: "int \<Rightarrow> FileHeader \<times> Bitmap \<Rightarrow> (FileHeader \<times> Bitmap) run" where
  "alloc_step = (\<lambda>i (h, b). bind_run (Bitmap_FindAndSet b) (\<lambda>(k, b).
             bind_run (set_at (dataSectors h) i (word_of_int k)) (\<lambda>ds.
             ASSERT (k \<ge> 0) (Inr (h\<lparr>dataSectors := ds\<rparr>, b)))))"

definition alloc_inv :: "FileHeader \<Rightarrow> Bitmap \<Rightarrow> nat \<Rightarrow> FileHeader \<times> Bitmap \<Rightarrow> bool" where
  "alloc_inv h b m = (\<lambda>(h', b'). bitmap_inv b' \<and> numBits b' = NumSectors \<and> numWords b' = numWords b \<and> length (dataSectors h') = 30 \<and>
     numBytes h' = numBytes h \<and> numSectors h' = numSectors h \<and> inj_on (secno h') {..<m} \<and>
     hsecs h' m \<subseteq> free_bits b \<and> bit_used b' = (\<lambda>j. bit_used b j \<or> j \<in> hsecs h' m))"

lemma alloc_step_ok:
  assumes "alloc_inv h b m (h', b')" "m < 30" "m < card (free_bits b)" "numBits b = NumSectors"
  shows "\<exists>s'. alloc_step (int m) (h', b') = Inr s' \<and> alloc_inv h b (Suc m) s'"
proof -
  have A: "bitmap_inv b'" "numBits b' = NumSectors" "numWords b' = numWords b" "length (dataSectors h') = 30" "numBytes h' = numBytes h"
    "numSectors h' = numSectors h" "inj_on (secno h') {..<m}" "hsecs h' m \<subseteq> free_bits b" "bit_used b' = (\<lambda>j. bit_used b j \<or> j \<in> hsecs h' m)"
    using assms(1) by (simp_all add: alloc_inv_def)
  have un: "free_bits b' = free_bits b - hsecs h' m" using A(2,9) assms(4) by (auto simp: free_bits_def)
  have "card (hsecs h' m) = m" using A(7) by (simp add: hsecs_def card_image)
  then have "free_bits b' \<noteq> {}" unfolding un using assms(3) card_mono[of "hsecs h' m" "free_bits b"] A(8) finite_free_bits
    by (metis Diff_eq_empty_iff finite_subset not_le)
  then obtain k b2 where k: "Bitmap_FindAndSet b' = Inr (k, b2)" "k \<in> free_bits b'" "bitmap_inv b2" "numBits b2 = numBits b'"
    "bit_used b2 = (bit_used b')(k := True)" using bm.alloc_unused[OF A(1)] by auto
  let ?h = "h'\<lparr>dataSectors := (dataSectors h')[m := word_of_int k]\<rparr>"
  have kr: "0 \<le> k" "k < NumSectors" using k(2) A(2) by (auto simp: free_bits_def)
  have sm: "secno ?h m = k" using assms(2) A(4) sint_word_sector[OF kr] by (simp add: secno_def)
  have sl: "secno ?h i = secno h' i" if "i < m" for i using that by (simp add: secno_def)
  have hs: "hsecs ?h (Suc m) = insert k (hsecs h' m)" using sm sl by (auto simp: hsecs_def lessThan_Suc)
  have kn: "k \<notin> hsecs h' m" "k \<in> free_bits b" using k(2) un by auto
  have inj: "inj_on (secno ?h) {..<Suc m}"
    using A(7) kn(1) sm sl by (auto simp: lessThan_Suc hsecs_def inj_on_def)
  have nw: "numWords b2 = numWords b" using A(1,2,3) k(3,4) by (simp add: bitmap_inv_def)
  have "alloc_step (int m) (h', b') = Inr (?h, b2)" using k(1) kr(1) assms(2) A(4) by (simp add: alloc_step_def)
  moreover have "alloc_inv h b (Suc m) (?h, b2)"
    using A k(3,4,5) kn(2) hs inj nw by (auto simp: alloc_inv_def fun_eq_iff)
  ultimately show ?thesis by blast
qed

lemma alloc_loop:
  assumes "alloc_inv h b 0 (h, b)" "m \<le> 30" "m \<le> card (free_bits b)" "numBits b = NumSectors"
  shows "\<exists>s'. for_each alloc_step (count_to (int m)) (h, b) = Inr s' \<and> alloc_inv h b m s'"
proof -
  have "\<exists>s'. for_each alloc_step (count_to (int m)) (h, b) = Inr s' \<and> alloc_inv h b (length (count_to (int m))) s'"
  proof (rule for_each_inv)
    fix xs i ys s assume sp: "count_to (int m) = xs @ i # ys" and s: "alloc_inv h b (length xs) s"
    obtain h' b' where s': "s = (h', b')" by fastforce
    have "i = int (length xs)" "length xs < m" using count_to_split[OF sp] by auto
    then show "\<exists>s'. alloc_step i s = Inr s' \<and> alloc_inv h b (length (xs @ [i])) s'"
      using alloc_step_ok[of h b "length xs" h' b'] s assms(2-4) s' by simp
  qed (use assms(1) in simp)
  then show ?thesis by simp
qed

lemma count_to_append: "m \<le> n \<Longrightarrow> count_to (int n) = count_to (int m) @ map int [m..<n]"
  unfolding count_to_def nat_int by (metis map_append upt_add_eq_append zero_le le_add_diff_inverse)

lemma Allocate_ok:
  assumes "bitmap_inv b" "numBits b = NumSectors" "length (dataSectors h) = 30" "0 \<le> fileSize" "fileSize < 2 ^ 31"
  shows "if int (card (free_bits b)) < divRoundUp fileSize SectorSize then
      \<exists>h'. Allocate h b fileSize = Inr (False, h', b)
    else if divRoundUp fileSize SectorSize > NumDirect then Allocate h b fileSize = Inl OutOfBounds
    else \<exists>h' b'. Allocate h b fileSize = Inr (True, h', b') \<and> hdr_ok h' \<and> FileLength h' = fileSize \<and>
      bitmap_inv b' \<and> numBits b' = NumSectors \<and> hsecs h' (nsec h') \<subseteq> free_bits b \<and>
      bit_used b' = (\<lambda>j. bit_used b j \<or> j \<in> hsecs h' (nsec h'))"
proof -
  let ?n = "divRoundUp fileSize SectorSize" and ?f = "card (free_bits b)"
  let ?h = "h\<lparr>numBytes := word_of_int fileSize, numSectors := word_of_int (divRoundUp fileSize SectorSize)\<rparr>"
  define m where "m = nat ?n"
  have n0: "0 \<le> ?n" using assms(4) by (simp add: divRoundUp_def SectorSize_def)
  have n1: "?n \<le> fileSize" using assms(4) unfolding divRoundUp_def SectorSize_def by presburger
  have n: "?n = int m" using n0 by (simp add: m_def)
  have A: "Allocate h b fileSize = (if int ?f < ?n then Inr (False, ?h, b)
      else bind_run (for_each alloc_step (count_to ?n) (?h, b)) (\<lambda>(h, b). Inr (True, h, b)))"
    using Bitmap_NumClear_ok[OF assms(1)] by (simp add: Allocate_def Let_def alloc_step_def)
  have i0: "alloc_inv ?h b 0 (?h, b)" using assms(1-3) by (simp add: alloc_inv_def hsecs_def)
  consider "int ?f < ?n" | "\<not> int ?f < ?n" "?n > 30" | "\<not> int ?f < ?n" "?n \<le> 30" by linarith
  then show ?thesis
  proof cases
    case 1
    then show ?thesis using A by simp
  next
    case 2
    then have m: "30 < m" "m \<le> ?f" using n by simp_all
    obtain h' b' where l: "for_each alloc_step (count_to (int 30)) (?h, b) = Inr (h', b')" "alloc_inv ?h b 30 (h', b')"
      using alloc_loop[OF i0, of 30] m assms(2) by auto
    have ls: "bitmap_inv b'" "length (dataSectors h') = 30" using l(2) by (simp_all add: alloc_inv_def)
    obtain k b2 where "Bitmap_FindAndSet b' = Inr (k, b2)" using Bitmap_FindAndSet_cases[OF ls(1)] by metis
    then have "alloc_step (int 30) (h', b') = Inl OutOfBounds" using ls(2) by (simp add: alloc_step_def set_at_def)
    moreover have "count_to ?n = count_to (int 30) @ int 30 # map int [31..<m]"
      using count_to_append[of 30 m] m(1) unfolding n by (simp add: upt_conv_Cons)
    ultimately have "for_each alloc_step (count_to ?n) (?h, b) = Inl OutOfBounds" using l(1) by (simp add: for_each_append)
    then show ?thesis using A 2 by (simp add: NumDirect_def SectorSize_def)
  next
    case 3
    then have m: "m \<le> 30" "m \<le> ?f" using n by simp_all
    obtain h' b' where l: "for_each alloc_step (count_to ?n) (?h, b) = Inr (h', b')" "alloc_inv ?h b m (h', b')"
      using alloc_loop[OF i0 m assms(2)] unfolding n by auto
    have si: "sint (word_of_int x :: 32 word) = x" if "0 \<le> x" "x < 2 ^ 31" for x
      using that by (simp add: signed_of_int signed_take_bit_int_eq_self)
    have fl: "FileLength h' = fileSize" "sint (numSectors h') = ?n"
      using l(2) si[of fileSize] si[of ?n] assms(4,5) n0 n1 by (simp_all add: alloc_inv_def FileLength_def)
    then have ns: "nsec h' = m" by (simp add: nsec_def m_def)
    have "hsecs h' m \<subseteq> free_bits b" using l(2) by (simp add: alloc_inv_def)
    then have "\<forall>i < m. 0 \<le> secno h' i \<and> secno h' i < NumSectors" using assms(2) by (auto simp: hsecs_def free_bits_def)
    then have "hdr_ok h'" using l(2) fl ns m(1) assms(4) by (auto simp: hdr_ok_def alloc_inv_def)
    moreover have "Allocate h b fileSize = Inr (True, h', b')" using A 3 l(1) by simp
    ultimately show ?thesis using l(2) fl ns 3 by (auto simp: alloc_inv_def NumDirect_def SectorSize_def)
  qed
qed

lemma Deallocate_ok:
  assumes "bitmap_inv b" "numBits b = NumSectors" "hdr_ok h" "\<forall>j \<in> hsecs h (nsec h). bit_used b j"
  shows "\<exists>b'. Deallocate h b = Inr b' \<and> bitmap_inv b' \<and> numBits b' = NumSectors \<and> bit_used b' = (\<lambda>j. bit_used b j \<and> j \<notin> hsecs h (nsec h))"
proof -
  define n where "n = nsec h"
  have cn: "count_to (sint (numSectors h)) = count_to (int n)" by (simp add: n_def nsec_def count_to_def)
  note h = hdr_okD[OF assms(3), folded n_def]
  have inj: "inj_on (secno h) {..<n}" using assms(3) by (simp add: hdr_ok_def n_def)
  let ?P = "\<lambda>xs b'. bitmap_inv b' \<and> numBits b' = NumSectors \<and> bit_used b' = (\<lambda>j. bit_used b j \<and> j \<notin> hsecs h (length xs))"
  have "\<exists>b'. Deallocate h b = Inr b' \<and> ?P (count_to (int n)) b'"
    unfolding Deallocate_def cn
  proof (rule for_each_inv)
    show "?P [] b" using assms(1,2) by (simp add: hsecs_def)
    fix xs i ys b' assume sp: "count_to (int n) = xs @ i # ys" and P: "?P xs b'"
    have i: "i = int (length xs)" "length xs < n" using count_to_split[OF sp] by auto
    let ?k = "secno h (length xs)"
    have k: "0 \<le> ?k" "?k < numBits b'" using h(5,6)[OF i(2)] P by simp_all
    have "?k \<notin> hsecs h (length xs)" using inj_onD[OF inj, of "length xs"] i(2) by (fastforce simp: hsecs_def)
    moreover have "bit_used b ?k" using assms(4) i(2) by (auto simp: hsecs_def n_def)
    ultimately have "Bitmap_Test b' ?k = Inr True" using P Bitmap_Test_ok[of b' ?k] k by simp
    moreover obtain b2 where "Bitmap_Clear b' ?k = Inr b2" "bitmap_inv b2" "numBits b2 = numBits b'" "bit_used b2 = (bit_used b')(?k := False)"
      using Bitmap_Clear_ok[of b' ?k] P k by blast
    moreover have "hsecs h (length (xs @ [i])) = insert ?k (hsecs h (length xs))" by (simp add: hsecs_def lessThan_Suc)
    ultimately show "\<exists>s'. bind_run (get_at (dataSectors h) i) (\<lambda>w. bind_run (Bitmap_Test b' (sint w)) (\<lambda>t. ASSERT t (Bitmap_Clear b' (sint w)))) = Inr s' \<and>
        ?P (xs @ [i]) s'"
      using P i h(1,4) by (auto simp: secno_def fun_eq_iff)
  qed
  then show ?thesis by (simp add: n_def)
qed

text \<open>
  C38: \<open>Allocate\<close>.  If there are fewer free sectors than the file needs it says so and leaves the map as it is.  Else it takes as
  many free sectors as the size needs, all different, marks exactly these, and the header is that of a file of the given size; a
  later \<open>Deallocate\<close> makes exactly these free again.  But there is no check against \<open>MaxFileSize\<close>: a file of more than \<open>NumDirect\<close> sectors
  is written beyond the end of \<open>dataSectors\<close>.
\<close>

theorem Allocate_takes_free:
  assumes "bitmap_inv b" "numBits b = NumSectors" "length (dataSectors h) = 30" "0 \<le> fileSize" "fileSize < 2 ^ 31"
  shows "if int (card (free_bits b)) < divRoundUp fileSize SectorSize then \<exists>h'. Allocate h b fileSize = Inr (False, h', b)
    else if fileSize > MaxFileSize then Allocate h b fileSize = Inl OutOfBounds
    else \<exists>h' b' b''. Allocate h b fileSize = Inr (True, h', b') \<and> hdr_ok h' \<and> FileLength h' = fileSize \<and>
      hsecs h' (nsec h') \<subseteq> free_bits b \<and> int (card (hsecs h' (nsec h'))) = divRoundUp fileSize SectorSize \<and>
      bit_used b' = (\<lambda>j. bit_used b j \<or> j \<in> hsecs h' (nsec h')) \<and> Deallocate h' b' = Inr b'' \<and> bit_used b'' = bit_used b"
proof -
  let ?n = "divRoundUp fileSize SectorSize"
  have big: "(fileSize > MaxFileSize) = (?n > NumDirect)" by (simp add: MaxFileSize_def NumDirect_def divRoundUp_def SectorSize_def) presburger
  note A = Allocate_ok[OF assms]
  show ?thesis
  proof (cases "int (card (free_bits b)) < ?n \<or> ?n > NumDirect")
    case True
    then show ?thesis using A big by auto
  next
    case False
    then obtain h' b' where a: "Allocate h b fileSize = Inr (True, h', b')" "hdr_ok h'" "FileLength h' = fileSize" "bitmap_inv b'" "numBits b' = NumSectors"
      "hsecs h' (nsec h') \<subseteq> free_bits b" "bit_used b' = (\<lambda>j. bit_used b j \<or> j \<in> hsecs h' (nsec h'))" using A by auto
    obtain b'' where d: "Deallocate h' b' = Inr b''" "bit_used b'' = (\<lambda>j. bit_used b' j \<and> j \<notin> hsecs h' (nsec h'))"
      using Deallocate_ok[OF a(4,5,2)] a(7) by auto
    have "bit_used b'' = bit_used b" using d(2) a(6,7) by (auto simp: fun_eq_iff free_bits_def)
    moreover have "int (card (hsecs h' (nsec h'))) = ?n"
    proof -
      have "inj_on (secno h') {..<nsec h'}" "sint (numSectors h') = ?n" using a(2,3) by (simp_all add: hdr_ok_def)
      moreover have "0 \<le> ?n" using assms(4) by (simp add: divRoundUp_def SectorSize_def)
      ultimately show ?thesis by (simp add: hsecs_def card_image nsec_def)
    qed
    ultimately show ?thesis using False big a d by auto
  qed
qed

lemma Allocate_takes_free_witness:
  "\<exists>b h b'. Bitmap_new NumSectors = Inr b \<and> Allocate two_sector_header b 300 = Inr (True, h, b') \<and> hdr_ok h \<and> FileLength h = 300"
proof -
  obtain b where b: "Bitmap_new NumSectors = Inr b" "bitmap_inv b" "numBits b = NumSectors" "bit_used b = (\<lambda>_. False)"
    using Bitmap_new_ok[of NumSectors] by (auto simp: disk_consts)
  have "free_bits b = {0..<NumSectors}" using b(3,4) by (auto simp: free_bits_def)
  then show ?thesis using Allocate_takes_free[OF b(2,3), of two_sector_header 300] b(1)
    by (auto simp: two_sector_header_def divRoundUp_def disk_consts MaxFileSize_def NumDirect_def)
qed

end
