(* ===== verification/DiskDir.thy ===== *)
theory DiskDir
  imports DiskAlloc
begin

text \<open>
  The directory (\<^verbatim>\<open>filesys/directory.cc\<close>): a table of entries, each a name of at most nine characters and the sector of
  a file header.  A name is given as its characters; in memory it is followed by a zero (\<open>cmem\<close>).  What \<open>new\<close> leaves in memory is
  an argument (\<open>junk\<close>); the table is kept on disk with its padding.
\<close>

section \<open>The table\<close>

definition FileNameMaxLen :: nat where "FileNameMaxLen = 9"

record DirectoryEntry =
  de_inUse :: bool
  de_sector :: "32 word"
  de_name :: bytes
  de_pad :: bytes

record Directory =
  tableSize :: int
  table :: "DirectoryEntry list"

definition sizeof_entry :: nat where "sizeof_entry = 20"

definition entry_bytes :: "DirectoryEntry \<Rightarrow> bytes" where
  "entry_bytes e = (if de_inUse e then 1 else 0) # take 3 (de_pad e) @ int_bytes (de_sector e) @ de_name e @ drop 3 (de_pad e)"

definition bytes_entry :: "bytes \<Rightarrow> DirectoryEntry" where
  "bytes_entry bs = \<lparr>de_inUse = (bs ! 0 \<noteq> 0), de_sector = bytes_int (take 4 (drop 4 bs)), de_name = take 10 (drop 8 bs),
     de_pad = take 3 (drop 1 bs) @ take 2 (drop 18 bs)\<rparr>"

definition table_bytes :: "DirectoryEntry list \<Rightarrow> bytes" where
  "table_bytes es = concat (map entry_bytes es)"

definition bytes_table :: "nat \<Rightarrow> bytes \<Rightarrow> DirectoryEntry list" where
  "bytes_table n bs = map (\<lambda>i. bytes_entry (take sizeof_entry (drop (sizeof_entry * i) bs))) [0..<n]"

definition cmem :: "bytes \<Rightarrow> bytes" where
  "cmem nm = nm @ [0]"

text \<open>\<^verbatim>\<open>!strncmp(a, b, n)\<close> and the bytes that \<^verbatim>\<open>strncpy(dst, src, n)\<close> stores.\<close>

fun strncmp_eq :: "nat \<Rightarrow> bytes \<Rightarrow> bytes \<Rightarrow> bool run" where
  "strncmp_eq 0 a b = Inr True"
| "strncmp_eq (Suc n) (x # xs) (y # ys) = (if x \<noteq> y then Inr False else if x = 0 then Inr True else strncmp_eq n xs ys)"
| "strncmp_eq (Suc n) a b = Inl OutOfBounds"

fun strncpy :: "nat \<Rightarrow> bytes \<Rightarrow> bytes run" where
  "strncpy 0 src = Inr []"
| "strncpy (Suc n) (c # cs) = (if c = 0 then Inr (replicate (Suc n) 0) else bind_run (strncpy n cs) (\<lambda>r. Inr (c # r)))"
| "strncpy (Suc n) [] = Inl OutOfBounds"

definition Directory_new :: "(nat \<Rightarrow> DirectoryEntry) \<Rightarrow> int \<Rightarrow> Directory" where
  "Directory_new junk n = \<lparr>tableSize = n, table = map (\<lambda>i. (junk i)\<lparr>de_inUse := False\<rparr>) [0..<nat n]\<rparr>"

definition Directory_FetchFrom :: "Directory \<Rightarrow> DFile \<Rightarrow> dsim \<Rightarrow> (Directory \<times> dsim) run" where
  "Directory_FetchFrom d f s =
     bind_run (DFile_ReadAt f (tableSize d * int sizeof_entry) 0 s) (\<lambda>(_, bs, s).
     Inr (d\<lparr>table := bytes_table (length (table d)) (overwrite (table_bytes (table d)) 0 bs)\<rparr>, s))"

definition Directory_WriteBack :: "(nat \<Rightarrow> 8 word) \<Rightarrow> Directory \<Rightarrow> DFile \<Rightarrow> dsim \<Rightarrow> dsim run" where
  "Directory_WriteBack junk d f s =
     bind_run (DFile_WriteAt junk f (table_bytes (table d)) (tableSize d * int sizeof_entry) 0 s) (\<lambda>(_, s). Inr s)"

fun find_entry :: "Directory \<Rightarrow> bytes \<Rightarrow> int list \<Rightarrow> int run" where
  "find_entry d nm [] = Inr (-1)"
| "find_entry d nm (i # is) =
     bind_run (get_at (table d) i) (\<lambda>e.
     bind_run (if de_inUse e then strncmp_eq FileNameMaxLen (de_name e) (cmem nm) else Inr False) (\<lambda>t.
     if t then Inr i else find_entry d nm is))"

definition FindIndex :: "Directory \<Rightarrow> bytes \<Rightarrow> int run" where
  "FindIndex d nm = find_entry d nm (count_to (tableSize d))"

definition Directory_Find :: "Directory \<Rightarrow> bytes \<Rightarrow> int run" where
  "Directory_Find d nm =
     bind_run (FindIndex d nm) (\<lambda>i. if i \<noteq> -1 then bind_run (get_at (table d) i) (\<lambda>e. Inr (sint (de_sector e))) else Inr (-1))"

fun add_entry :: "Directory \<Rightarrow> bytes \<Rightarrow> int \<Rightarrow> int list \<Rightarrow> (bool \<times> Directory) run" where
  "add_entry d nm newSector [] = Inr (False, d)"
| "add_entry d nm newSector (i # is) =
     bind_run (get_at (table d) i) (\<lambda>e.
     if \<not> de_inUse e then
       bind_run (strncpy FileNameMaxLen (cmem nm)) (\<lambda>r.
       bind_run (set_at (table d) i (e\<lparr>de_inUse := True, de_name := overwrite (de_name e) 0 r, de_sector := word_of_int newSector\<rparr>)) (\<lambda>t.
       Inr (True, d\<lparr>table := t\<rparr>)))
     else add_entry d nm newSector is)"

definition Directory_Add :: "Directory \<Rightarrow> bytes \<Rightarrow> int \<Rightarrow> (bool \<times> Directory) run" where
  "Directory_Add d nm newSector =
     bind_run (FindIndex d nm) (\<lambda>i. if i \<noteq> -1 then Inr (False, d) else add_entry d nm newSector (count_to (tableSize d)))"

definition Directory_Remove :: "Directory \<Rightarrow> bytes \<Rightarrow> (bool \<times> Directory) run" where
  "Directory_Remove d nm =
     bind_run (FindIndex d nm) (\<lambda>i. if i = -1 then Inr (False, d)
       else bind_run (get_at (table d) i) (\<lambda>e. bind_run (set_at (table d) i (e\<lparr>de_inUse := False\<rparr>)) (\<lambda>t. Inr (True, d\<lparr>table := t\<rparr>))))"

text \<open>\<open>List\<close> prints the names, one in a line; \<open>printf\<close> reads each up to its zero byte.\<close>

fun cstring :: "bytes \<Rightarrow> bytes run" where
  "cstring [] = Inl OutOfBounds"
| "cstring (c # cs) = (if c = 0 then Inr [] else bind_run (cstring cs) (\<lambda>r. Inr (c # r)))"

definition Directory_List :: "Directory \<Rightarrow> bytes run" where
  "Directory_List d =
     for_each (\<lambda>i out. bind_run (get_at (table d) i) (\<lambda>e.
       if de_inUse e then bind_run (cstring (de_name e)) (\<lambda>r. Inr (out @ r @ [10])) else Inr out)) (count_to (tableSize d)) []"

section \<open>The bytes of the table\<close>

definition entry_ok :: "DirectoryEntry \<Rightarrow> bool" where
  "entry_ok e \<longleftrightarrow> length (de_name e) = 10 \<and> length (de_pad e) = 5"

lemma length_entry_bytes: "entry_ok e \<Longrightarrow> length (entry_bytes e) = sizeof_entry"
  by (simp add: entry_ok_def entry_bytes_def sizeof_entry_def)

lemma bytes_entry_bytes:
  assumes "entry_ok e"
  shows "bytes_entry (entry_bytes e) = e"
proof -
  have l: "length (take 3 (de_pad e)) = 3" "length (de_name e) = 10" "length (drop 3 (de_pad e)) = 2" using assms by (simp_all add: entry_ok_def)
  obtain a b where ab: "de_pad e = a @ b" "length a = 3" "length b = 2" using l by (metis append_take_drop_id)
  have "bytes_entry (entry_bytes e) = \<lparr>de_inUse = de_inUse e, de_sector = de_sector e, de_name = de_name e, de_pad = de_pad e\<rparr>"
    using ab l by (simp add: bytes_entry_def entry_bytes_def)
  then show ?thesis by simp
qed

lemma entry_ok_bytes: "length bs = sizeof_entry \<Longrightarrow> entry_ok (bytes_entry bs)"
  by (simp add: entry_ok_def bytes_entry_def sizeof_entry_def)

lemma take_chunk:
  assumes "\<forall>x \<in> set xs. length (f x) = k" "i < length xs"
  shows "take k (drop (k * i) (concat (map f xs))) = f (xs ! i)"
  using assms
proof (induction xs arbitrary: i)
  case (Cons x xs)
  then show ?case by (cases i) simp_all
qed simp

lemma length_table_bytes: "\<forall>e \<in> set es. entry_ok e \<Longrightarrow> length (table_bytes es) = sizeof_entry * length es"
  by (induction es) (simp_all add: table_bytes_def length_entry_bytes)

lemma bytes_table_bytes:
  assumes "\<forall>e \<in> set es. entry_ok e"
  shows "bytes_table (length es) (table_bytes es) = es"
proof (rule nth_equalityI)
  fix i assume "i < length (bytes_table (length es) (table_bytes es))"
  then have i: "i < length es" by (simp add: bytes_table_def)
  then have "take sizeof_entry (drop (sizeof_entry * i) (table_bytes es)) = entry_bytes (es ! i)"
    unfolding table_bytes_def using assms length_entry_bytes by (intro take_chunk) auto
  then show "bytes_table (length es) (table_bytes es) ! i = es ! i" using i assms by (simp add: bytes_table_def bytes_entry_bytes)
qed (simp add: bytes_table_def)

lemma bytes_table_ok:
  assumes "length bs = n * sizeof_entry" "e \<in> set (bytes_table n bs)"
  shows "entry_ok e"
proof -
  obtain i where i: "i < n" "e = bytes_entry (take sizeof_entry (drop (sizeof_entry * i) bs))" using assms(2) by (auto simp: bytes_table_def)
  have "sizeof_entry * i + sizeof_entry \<le> length bs" using i(1) assms(1) by (metis Suc_leI mult.commute mult_Suc_right add.commute mult_le_mono2)
  then show ?thesis using i(2) by (simp add: entry_ok_bytes)
qed

section \<open>The directory is a map from names of nine characters\<close>

definition stored :: "DirectoryEntry \<Rightarrow> bytes" where
  "stored e = takeWhile (\<lambda>c. c \<noteq> 0) (take FileNameMaxLen (de_name e))"

definition name_key :: "bytes \<Rightarrow> bytes" where
  "name_key nm = take FileNameMaxLen nm"

definition dir_map :: "Directory \<Rightarrow> bytes \<Rightarrow> int option" where
  "dir_map d = map_of (map (\<lambda>e. (stored e, sint (de_sector e))) (filter de_inUse (table d)))"

definition dir_ok :: "Directory \<Rightarrow> bool" where
  [inv_defs]: "dir_ok d \<longleftrightarrow> tableSize d = int (length (table d)) \<and> (\<forall>e \<in> set (table d). entry_ok e) \<and> distinct (map stored (filter de_inUse (table d)))"

lemma strncmp_ok:
  "n \<le> length a \<Longrightarrow> 0 \<notin> set nm \<Longrightarrow> strncmp_eq n a (cmem nm) = Inr (takeWhile (\<lambda>c. c \<noteq> 0) (take n a) = take n nm)"
proof (induction n arbitrary: a nm)
  case (Suc n)
  then obtain x xs where a: "a = x # xs" by (cases a) auto
  show ?case
  proof (cases nm)
    case Nil
    then show ?thesis using a by (simp add: cmem_def)
  next
    case (Cons y ys)
    then show ?thesis using Suc.IH[of xs ys] Suc.prems a by (auto simp: cmem_def)
  qed
qed simp

lemma strncpy_ok: "0 \<notin> set nm \<Longrightarrow> strncpy n (cmem nm) = Inr (take n nm @ replicate (n - length nm) 0)"
proof (induction n arbitrary: nm)
  case (Suc n)
  show ?case
  proof (cases nm)
    case (Cons y ys)
    then show ?thesis using Suc.IH[of ys] Suc.prems by (simp add: cmem_def)
  qed (simp add: cmem_def)
qed simp

text \<open>A name of nine characters is stored without a zero: \<open>List\<close> reads the byte behind it, which nobody has set.\<close>

lemma cstring_ok: "0 \<in> set bs \<Longrightarrow> cstring bs = Inr (takeWhile (\<lambda>c. c \<noteq> 0) bs)" "0 \<notin> set bs \<Longrightarrow> cstring bs = Inl OutOfBounds"
  by (induction bs) auto

lemma List_reads_behind_name:
  assumes "0 \<notin> set nm" "c \<noteq> 0"
  shows "Directory_List \<lparr>tableSize = 1, table = [\<lparr>de_inUse = True, de_sector = 5, de_name = take 9 nm @ [c], de_pad = []\<rparr>]\<rparr> = Inl OutOfBounds"
proof -
  have "0 \<notin> set (take 9 nm @ [c])" using assms in_set_takeD[of 0 9 nm] by auto
  then show ?thesis by (simp add: Directory_List_def count_to_def cstring_ok(2))
qed

text \<open>Distinct names: an entry in use is the only one of its name.\<close>

lemma distinct_names_iff:
  "distinct (map stored (filter de_inUse es)) \<longleftrightarrow> (\<forall>i < length es. \<forall>j < length es. de_inUse (es ! i) \<and> de_inUse (es ! j) \<and>
     stored (es ! i) = stored (es ! j) \<longrightarrow> i = j)"
proof (induction es)
  case (Cons e es)
  have "(\<forall>x \<in> set es. de_inUse x \<longrightarrow> stored e \<noteq> stored x) \<longleftrightarrow> (\<forall>i < length es. de_inUse (es ! i) \<longrightarrow> stored e \<noteq> stored (es ! i))"
    by (auto simp: all_set_conv_all_nth)
  then show ?case by (cases "de_inUse e") (auto simp: All_less_Suc2 Cons.IH image_iff)
qed simp

lemma dir_map_Some:
  assumes "dir_ok d"
  shows "dir_map d k = Some v \<longleftrightarrow> (\<exists>e \<in> set (table d). de_inUse e \<and> stored e = k \<and> sint (de_sector e) = v)"
proof -
  have "distinct (map fst (map (\<lambda>e. (stored e, sint (de_sector e))) (filter de_inUse (table d))))"
    using assms by (simp add: dir_ok_def comp_def)
  then show ?thesis unfolding dir_map_def by (subst map_of_eq_Some_iff) auto
qed

lemma dir_map_None: "dir_map d k = None \<longleftrightarrow> (\<forall>e \<in> set (table d). de_inUse e \<longrightarrow> stored e \<noteq> k)"
  unfolding dir_map_def by (force simp: map_of_eq_None_iff)

lemma find_entry_ok:
  assumes "\<forall>e \<in> set (table d). entry_ok e" "0 \<notin> set nm" "set is \<subseteq> {0..<int (length (table d))}"
  shows "find_entry d nm is = Inr (case find (\<lambda>i. de_inUse (table d ! nat i) \<and> stored (table d ! nat i) = name_key nm) is of Some i \<Rightarrow> i | None \<Rightarrow> -1)"
  using assms(3)
proof (induction "is")
  case (Cons i "is")
  then have i: "0 \<le> i" "i < int (length (table d))" by auto
  let ?e = "table d ! nat i"
  have "?e \<in> set (table d)" using i by simp
  then have "strncmp_eq FileNameMaxLen (de_name ?e) (cmem nm) = Inr (stored ?e = name_key nm)"
    using strncmp_ok[OF _ assms(2), of FileNameMaxLen "de_name ?e"] assms(1) by (simp add: stored_def name_key_def entry_ok_def FileNameMaxLen_def)
  then show ?case using i Cons by (cases "de_inUse ?e") simp_all
qed simp

lemma FindIndex_cases:
  assumes "dir_ok d" "0 \<notin> set nm"
  obtains (none) "dir_map d (name_key nm) = None" "FindIndex d nm = Inr (-1)"
  | (some) i where "i < length (table d)" "de_inUse (table d ! i)" "stored (table d ! i) = name_key nm" "FindIndex d nm = Inr (int i)"
      "dir_map d (name_key nm) = Some (sint (de_sector (table d ! i)))"
proof -
  let ?p = "\<lambda>i. de_inUse (table d ! nat i) \<and> stored (table d ! nat i) = name_key nm"
  have ok: "tableSize d = int (length (table d))" "\<forall>e \<in> set (table d). entry_ok e" using assms(1) by (auto simp: dir_ok_def)
  have f: "FindIndex d nm = Inr (case find ?p (count_to (tableSize d)) of Some i \<Rightarrow> i | None \<Rightarrow> -1)"
    unfolding FindIndex_def using ok by (intro find_entry_ok[OF _ assms(2)]) auto
  show thesis
  proof (cases "find ?p (count_to (tableSize d))")
    case None
    have "de_inUse e \<longrightarrow> stored e \<noteq> name_key nm" if "e \<in> set (table d)" for e
    proof -
      obtain j where j: "j < length (table d)" "e = table d ! j" using \<open>e \<in> set (table d)\<close> by (metis in_set_conv_nth)
      then have "int j \<in> set (count_to (tableSize d))" using ok by simp
      with None have "\<not> ?p (int j)" unfolding find_None_iff by blast
      then show ?thesis using j by simp
    qed
    then show thesis using none f None by (simp add: dir_map_None)
  next
    case (Some i)
    then have i: "i \<in> set (count_to (tableSize d))" "?p i" by (auto simp: find_Some_iff)
    then have n: "nat i < length (table d)" "0 \<le> i" using ok by auto
    have "dir_map d (name_key nm) = Some (sint (de_sector (table d ! nat i)))"
      using i(2) n by (subst dir_map_Some[OF assms(1)]) auto
    then show thesis using some[of "nat i"] n i f Some by simp
  qed
qed


lemma dir_map_nth:
  assumes "dir_ok d"
  shows "dir_map d k = Some v \<longleftrightarrow> (\<exists>j < length (table d). de_inUse (table d ! j) \<and> stored (table d ! j) = k \<and> sint (de_sector (table d ! j)) = v)"
  unfolding dir_map_Some[OF assms] by (metis in_set_conv_nth)

lemma map_eqI:
  assumes "\<And>k v. m k = Some v \<longleftrightarrow> m' k = Some v"
  shows "m = m'"
proof
  fix k
  show "m k = m' k"
  proof (cases "m k")
    case None
    then have "m' k \<noteq> Some v" for v using assms[of k v] by simp
    then have "m' k = None" by (metis not_None_eq)
    then show ?thesis using None by simp
  next
    case (Some v)
    then show ?thesis using assms[of k v] by simp
  qed
qed

text \<open>Replacing an entry.\<close>

lemma dir_set:
  assumes "dir_ok d" "i < length (table d)" "entry_ok e"
    and new: "\<And>j. de_inUse e \<Longrightarrow> j < length (table d) \<Longrightarrow> j \<noteq> i \<Longrightarrow> de_inUse (table d ! j) \<Longrightarrow> stored (table d ! j) \<noteq> stored e"
  shows "dir_ok (d\<lparr>table := (table d)[i := e]\<rparr>)"
    and "dir_map (d\<lparr>table := (table d)[i := e]\<rparr>) = (\<lambda>k. if de_inUse e \<and> k = stored e then Some (sint (de_sector e))
      else if de_inUse (table d ! i) \<and> k = stored (table d ! i) then None else dir_map d k)"
proof -
  let ?d = "d\<lparr>table := (table d)[i := e]\<rparr>"
  have u: "j = j'" if "j < length (table d)" "j' < length (table d)" "de_inUse (table d ! j)" "de_inUse (table d ! j')" "stored (table d ! j) = stored (table d ! j')" for j j'
    using assms(1) that unfolding dir_ok_def distinct_names_iff by blast
  have "\<forall>x \<in> set ((table d)[i := e]). entry_ok x" using assms(1,3) set_update_subset_insert[of "table d" i e] by (auto simp: dir_ok_def)
  moreover have "\<forall>j < length (table d). \<forall>j' < length (table d). de_inUse ((table d)[i := e] ! j) \<and> de_inUse ((table d)[i := e] ! j') \<and>
      stored ((table d)[i := e] ! j) = stored ((table d)[i := e] ! j') \<longrightarrow> j = j'"
    using u new assms(2) by (auto simp: nth_list_update) (metis+)
  ultimately show ok: "dir_ok ?d" using assms(1) by (simp add: dir_ok_def distinct_names_iff)
  have "dir_map ?d k = Some v \<longleftrightarrow> (if de_inUse e \<and> k = stored e then Some (sint (de_sector e))
      else if de_inUse (table d ! i) \<and> k = stored (table d ! i) then None else dir_map d k) = Some v" for k v
  proof -
    have l: "dir_map ?d k = Some v \<longleftrightarrow> (de_inUse e \<and> stored e = k \<and> sint (de_sector e) = v) \<or>
        (\<exists>j < length (table d). j \<noteq> i \<and> de_inUse (table d ! j) \<and> stored (table d ! j) = k \<and> sint (de_sector (table d ! j)) = v)"
      unfolding dir_map_nth[OF ok] using assms(2) by (auto simp: nth_list_update)
    show ?thesis unfolding l using new u assms(2) by (auto simp: dir_map_nth[OF assms(1)])
  qed
  then show "dir_map ?d = (\<lambda>k. if de_inUse e \<and> k = stored e then Some (sint (de_sector e))
      else if de_inUse (table d ! i) \<and> k = stored (table d ! i) then None else dir_map d k)"
    by (rule map_eqI)
qed

lemma Directory_Find_ok:
  assumes "dir_ok d" "0 \<notin> set nm"
  shows "Directory_Find d nm = Inr (case dir_map d (name_key nm) of Some v \<Rightarrow> v | None \<Rightarrow> -1)"
  using FindIndex_cases[OF assms] by cases (simp_all add: Directory_Find_def)

lemma Directory_Remove_ok:
  assumes "dir_ok d" "0 \<notin> set nm"
  shows "\<exists>d'. Directory_Remove d nm = Inr (dir_map d (name_key nm) \<noteq> None, d') \<and> dir_ok d' \<and> tableSize d' = tableSize d \<and>
     dir_map d' = (dir_map d)(name_key nm := None)"
proof (cases rule: FindIndex_cases[OF assms, case_names none some])
  case none
  then show ?thesis using assms(1) by (auto simp: Directory_Remove_def fun_eq_iff)
next
  case (some i)
  let ?e = "(table d ! i)\<lparr>de_inUse := False\<rparr>"
  have "entry_ok ?e" using assms(1) nth_mem[OF some(1)] by (auto simp: dir_ok_def entry_ok_def)
  note r = dir_set[OF assms(1) some(1) this]
  have "Directory_Remove d nm = Inr (True, d\<lparr>table := (table d)[i := ?e]\<rparr>)" using some by (simp add: Directory_Remove_def)
  then show ?thesis using r some by (auto simp: fun_eq_iff)
qed

lemma add_entry_ok:
  assumes "set is \<subseteq> {0..<int (length (table d))}" "0 \<notin> set nm"
  shows "add_entry d nm q is = Inr (case find (\<lambda>i. \<not> de_inUse (table d ! nat i)) is of None \<Rightarrow> (False, d)
     | Some i \<Rightarrow> (True, d\<lparr>table := (table d)[nat i := (table d ! nat i)\<lparr>de_inUse := True,
         de_name := overwrite (de_name (table d ! nat i)) 0 (take 9 nm @ replicate (9 - length nm) 0), de_sector := word_of_int q\<rparr>]\<rparr>))"
  using assms by (induction "is") (auto simp: strncpy_ok FileNameMaxLen_def)

lemma stored_copy:
  assumes "length old = 10" "0 \<notin> set nm"
  shows "takeWhile (\<lambda>c. c \<noteq> 0) (take 9 (overwrite old 0 (take 9 nm @ replicate (9 - length nm) 0))) = take 9 nm"
    "length (overwrite old 0 (take 9 nm @ replicate (9 - length nm) 0)) = 10"
proof -
  have l: "length (take 9 nm @ replicate (9 - length nm) 0) = 9" by (simp add: min_def)
  show "length (overwrite old 0 (take 9 nm @ replicate (9 - length nm) 0)) = 10" using l assms(1) by (simp only: length_overwrite)
  have "take 9 (overwrite old 0 (take 9 nm @ replicate (9 - length nm) 0)) = take 9 nm @ replicate (9 - length nm) 0"
    using l overwrite_read[of "take 9 nm @ replicate (9 - length nm) 0" 0 old] by (simp only: l drop_0)
  moreover have "takeWhile (\<lambda>c. c \<noteq> 0) (take 9 nm @ replicate (9 - length nm) 0) = take 9 nm"
    using assms(2) by (subst takeWhile_append2) (auto dest: in_set_takeD simp: takeWhile_replicate)
  ultimately show "takeWhile (\<lambda>c. c \<noteq> 0) (take 9 (overwrite old 0 (take 9 nm @ replicate (9 - length nm) 0))) = take 9 nm" by simp
qed

lemma Directory_Add_ok:
  assumes "dir_ok d" "0 \<notin> set nm" "- (2 ^ 31) \<le> q" "q < 2 ^ 31"
  shows "\<exists>d'. Directory_Add d nm q = Inr (dir_map d (name_key nm) = None \<and> (\<exists>e \<in> set (table d). \<not> de_inUse e), d') \<and> dir_ok d' \<and>
     tableSize d' = tableSize d \<and>
     dir_map d' = (if dir_map d (name_key nm) = None \<and> (\<exists>e \<in> set (table d). \<not> de_inUse e) then (dir_map d)(name_key nm \<mapsto> q) else dir_map d)"
proof (cases rule: FindIndex_cases[OF assms(1,2), case_names none some])
  case none
  have ok: "tableSize d = int (length (table d))" using assms(1) by (simp add: dir_ok_def)
  have "set (count_to (tableSize d)) \<subseteq> {0..<int (length (table d))}" using ok by simp
  note a = add_entry_ok[OF this assms(2), of q]
  show ?thesis
  proof (cases "find (\<lambda>i. \<not> de_inUse (table d ! nat i)) (count_to (tableSize d))")
    case None
    have "de_inUse e" if "e \<in> set (table d)" for e
    proof -
      obtain j where j: "j < length (table d)" "e = table d ! j" using \<open>e \<in> set (table d)\<close> by (metis in_set_conv_nth)
      then have "int j \<in> set (count_to (tableSize d))" using ok by simp
      with None have "de_inUse (table d ! nat (int j))" unfolding find_None_iff by blast
      then show ?thesis using j by simp
    qed
    then show ?thesis using a None none assms(1) by (auto simp: Directory_Add_def)
  next
    case (Some i)
    then have i: "i \<in> set (count_to (tableSize d))" "\<not> de_inUse (table d ! nat i)" by (auto simp: find_Some_iff)
    then have n: "nat i < length (table d)" using ok by auto
    let ?o = "table d ! nat i"
    let ?e = "?o\<lparr>de_inUse := True, de_name := overwrite (de_name ?o) 0 (take 9 nm @ replicate (9 - length nm) 0), de_sector := word_of_int q\<rparr>"
    have eo: "entry_ok ?o" using assms(1) nth_mem[OF n] by (auto simp: dir_ok_def)
    then have e: "entry_ok ?e" "stored ?e = name_key nm"
      using stored_copy[OF _ assms(2), of "de_name ?o"] by (simp_all add: entry_ok_def stored_def name_key_def FileNameMaxLen_def)
    have new: "stored (table d ! j) \<noteq> stored ?e" if "j < length (table d)" "de_inUse (table d ! j)" for j
      using none(1) nth_mem[OF that(1)] that(2) unfolding e(2) dir_map_None by blast
    note r = dir_set[OF assms(1) n e(1) new]
    have "sint (word_of_int q :: 32 word) = q" using assms(3,4) by (simp add: signed_of_int signed_take_bit_int_eq_self)
    then have m: "dir_map (d\<lparr>table := (table d)[nat i := ?e]\<rparr>) = (dir_map d)(name_key nm \<mapsto> q)" using r(2) i(2) e(2) by (auto simp: fun_eq_iff)
    have "Directory_Add d nm q = Inr (True, d\<lparr>table := (table d)[nat i := ?e]\<rparr>)" using a Some none(2) by (simp add: Directory_Add_def)
    moreover have "\<exists>e \<in> set (table d). \<not> de_inUse e" using i(2) nth_mem[OF n] by blast
    ultimately show ?thesis using r(1) m none(1) by simp
  qed
next
  case (some i)
  then show ?thesis using assms(1) by (simp add: Directory_Add_def)
qed

section \<open>The contract of a directory\<close>

definition dir_full :: "Directory \<Rightarrow> bool" where
  "dir_full d \<longleftrightarrow> (\<forall>e \<in> set (table d). de_inUse e)"

lemma not_dir_full: "\<not> dir_full d \<longleftrightarrow> (\<exists>e \<in> set (table d). \<not> de_inUse e)"
  by (simp add: dir_full_def)

locale name_map =
  fixes ok :: "'d \<Rightarrow> bool" and view :: "'d \<Rightarrow> bytes \<Rightarrow> int option" and full :: "'d \<Rightarrow> bool"
    and find_name :: "'d \<Rightarrow> bytes \<Rightarrow> int run" and add :: "'d \<Rightarrow> bytes \<Rightarrow> int \<Rightarrow> (bool \<times> 'd) run" and remove :: "'d \<Rightarrow> bytes \<Rightarrow> (bool \<times> 'd) run"
  assumes find_ok: "ok d \<Longrightarrow> 0 \<notin> set nm \<Longrightarrow> find_name d nm = Inr (case view d (name_key nm) of Some v \<Rightarrow> v | None \<Rightarrow> -1)"
    and add_ok: "ok d \<Longrightarrow> 0 \<notin> set nm \<Longrightarrow> - (2 ^ 31) \<le> q \<Longrightarrow> q < 2 ^ 31 \<Longrightarrow>
      \<exists>d'. add d nm q = Inr (view d (name_key nm) = None \<and> \<not> full d, d') \<and> ok d' \<and>
        view d' = (if view d (name_key nm) = None \<and> \<not> full d then (view d)(name_key nm \<mapsto> q) else view d)"
    and remove_ok: "ok d \<Longrightarrow> 0 \<notin> set nm \<Longrightarrow>
      \<exists>d'. remove d nm = Inr (view d (name_key nm) \<noteq> None, d') \<and> ok d' \<and> view d' = (view d)(name_key nm := None)"
begin

lemma find_after_add:
  assumes "ok d" "0 \<notin> set nm" "0 \<notin> set nm'" "- (2 ^ 31) \<le> q" "q < 2 ^ 31" "add d nm q = Inr (True, d')"
  shows "find_name d' nm' = (if name_key nm' = name_key nm then Inr q else find_name d nm')"
  using add_ok[OF assms(1,2,4,5)] assms(6) find_ok[OF _ assms(3)] assms(1) by auto

lemma find_after_remove:
  assumes "ok d" "0 \<notin> set nm" "0 \<notin> set nm'" "remove d nm = Inr (r, d')"
  shows "find_name d' nm' = (if name_key nm' = name_key nm then Inr (-1) else find_name d nm')"
  using remove_ok[OF assms(1,2)] assms(4) find_ok[OF _ assms(3)] assms(1) by auto

lemma remove_undoes_add:
  assumes "ok d" "0 \<notin> set nm" "- (2 ^ 31) \<le> q" "q < 2 ^ 31" "add d nm q = Inr (True, d')"
  shows "\<exists>d''. remove d' nm = Inr (True, d'') \<and> ok d'' \<and> view d'' = view d"
  using add_ok[OF assms(1-4)] assms(5) remove_ok[OF _ assms(2), of d'] by (auto simp: fun_eq_iff)

end

interpretation directory: name_map dir_ok dir_map dir_full Directory_Find Directory_Add Directory_Remove
proof
  fix d and nm :: bytes assume "dir_ok d" "0 \<notin> set nm"
  then show "Directory_Find d nm = Inr (case dir_map d (name_key nm) of Some v \<Rightarrow> v | None \<Rightarrow> -1)" by (rule Directory_Find_ok)
next
  fix d and nm :: bytes and q :: int assume "dir_ok d" "0 \<notin> set nm" "- (2 ^ 31) \<le> q" "q < 2 ^ 31"
  then show "\<exists>d'. Directory_Add d nm q = Inr (dir_map d (name_key nm) = None \<and> \<not> dir_full d, d') \<and> dir_ok d' \<and>
      dir_map d' = (if dir_map d (name_key nm) = None \<and> \<not> dir_full d then (dir_map d)(name_key nm \<mapsto> q) else dir_map d)"
    using Directory_Add_ok[of d nm q] unfolding not_dir_full by blast
next
  fix d and nm :: bytes assume "dir_ok d" "0 \<notin> set nm"
  then show "\<exists>d'. Directory_Remove d nm = Inr (dir_map d (name_key nm) \<noteq> None, d') \<and> dir_ok d' \<and> dir_map d' = (dir_map d)(name_key nm := None)"
    using Directory_Remove_ok[of d nm] by blast
qed

text \<open>
  C39: the directory is a map from names to sectors, where only the first nine characters of a name count.  \<open>Find\<close> gives the sector or \<open>-1\<close>;
  \<open>Add\<close> fails without effect if the name is there or the table is full and else adds the pair; \<open>Remove\<close> says whether the name was there and
  removes it.  No other name is affected, and no two entries in use have the same name.
\<close>

theorem Directory_is_map:
  assumes "dir_ok d" "0 \<notin> set nm" "0 \<le> q" "q < NumSectors"
  shows "let k = take 9 nm; add = dir_map d k = None \<and> (\<exists>e \<in> set (table d). \<not> de_inUse e) in
     Directory_Find d nm = Inr (case dir_map d k of Some v \<Rightarrow> v | None \<Rightarrow> -1) \<and>
     (\<exists>d'. Directory_Add d nm q = Inr (add, d') \<and> dir_ok d' \<and> dir_map d' = (if add then (dir_map d)(k \<mapsto> q) else dir_map d)) \<and>
     (\<exists>d'. Directory_Remove d nm = Inr (dir_map d k \<noteq> None, d') \<and> dir_ok d' \<and> dir_map d' = (dir_map d)(k := None))"
proof -
  have k: "name_key nm = take 9 nm" by (simp add: name_key_def FileNameMaxLen_def)
  have q: "- (2 ^ 31) \<le> q" "q < 2 ^ 31" using assms(3,4) by (simp_all add: disk_consts)
  show ?thesis unfolding Let_def
    using directory.find_ok[OF assms(1,2)] directory.add_ok[OF assms(1,2) q] directory.remove_ok[OF assms(1,2)] unfolding k not_dir_full by blast
qed

definition blank_entry :: DirectoryEntry where
  "blank_entry = \<lparr>de_inUse = False, de_sector = 0, de_name = replicate 10 0, de_pad = replicate 5 0\<rparr>"

lemma blank_directory: "dir_ok (Directory_new (\<lambda>_. blank_entry) 10)" "dir_map (Directory_new (\<lambda>_. blank_entry) 10) = Map.empty"
  by (simp_all add: dir_ok_def Directory_new_def blank_entry_def entry_ok_def dir_map_def filter_empty_conv)

lemma Directory_is_map_witness:
  "\<exists>d'. Directory_Add (Directory_new (\<lambda>_. blank_entry) 10) (cstr ''stdin'') 7 = Inr (True, d') \<and> dir_map d' = [take 9 (cstr ''stdin'') \<mapsto> 7]"
proof -
  have "0 \<notin> set (cstr ''stdin'')" by (simp add: cstr_def)
  moreover have "\<exists>e \<in> set (table (Directory_new (\<lambda>_. blank_entry) 10)). \<not> de_inUse e" by (auto simp: Directory_new_def intro!: exI[of _ 0])
  ultimately show ?thesis using Directory_is_map[OF blank_directory(1), of "cstr ''stdin''" 7] blank_directory(2) by (auto simp: Let_def disk_consts)
qed

end
