(* ===== verification/DiskFS.thy ===== *)
theory DiskFS
  imports DiskDir
begin

text \<open>
  The file system on the disk (\<^verbatim>\<open>filesys/filesys.cc\<close>, and the part of \<^verbatim>\<open>filesys/filesys.h\<close> for it).  The free map and the directory are files
  themselves; their headers are in sectors 0 and 1.  A parameter \<open>j\<close> says what the memory holds that \<open>new\<close> gives: the entries of a new directory, the
  rest of a new header, the buffers of \<open>WriteAt\<close>, the type of a new open file.
\<close>

section \<open>Operations\<close>

record FileSys =
  freeMapFile :: DFile
  directoryFile :: DFile
  fsOpen :: "DFile option list"

record memory =
  m_entries :: "nat \<Rightarrow> DirectoryEntry"
  m_header :: FileHeader
  m_buffer :: "nat \<Rightarrow> 8 word"
  m_type :: int

definition FreeMapSector :: int where "FreeMapSector = 0"
definition DirectorySector :: int where "DirectorySector = 1"
definition FreeMapFileSize :: int where "FreeMapFileSize = NumSectors div 8"
definition NumDirEntries :: int where "NumDirEntries = 10"
definition DirectoryFileSize :: int where "DirectoryFileSize = int sizeof_entry * NumDirEntries"

definition DFS_Create :: "memory \<Rightarrow> FileSys \<Rightarrow> bytes \<Rightarrow> int \<Rightarrow> dsim \<Rightarrow> (bool \<times> dsim) run" where
  "DFS_Create j fs nm initialSize s =
     bind_run (Directory_FetchFrom (Directory_new (m_entries j) NumDirEntries) (directoryFile fs) s) (\<lambda>(directory, s).
     bind_run (Directory_Find directory nm) (\<lambda>found.
     if found \<noteq> -1 then Inr (False, s)
     else
       bind_run (PersistentBitmap_new (freeMapFile fs) NumSectors s) (\<lambda>(freeMap, s).
       bind_run (Bitmap_FindAndSet freeMap) (\<lambda>(sector, freeMap).
       if sector = -1 then Inr (False, s)
       else bind_run (Directory_Add directory nm sector) (\<lambda>(added, directory).
         if \<not> added then Inr (False, s)
         else bind_run (Allocate (m_header j) freeMap initialSize) (\<lambda>(ok, h, freeMap).
           if \<not> ok then Inr (False, s)
           else
             bind_run (FileHeader_WriteBack h sector s) (\<lambda>s.
             bind_run (Directory_WriteBack (m_buffer j) directory (directoryFile fs) s) (\<lambda>s.
             bind_run (PersistentBitmap_WriteBack (m_buffer j) freeMap (freeMapFile fs) s) (\<lambda>s.
             Inr (True, s))))))))))"

definition DFS_Open :: "memory \<Rightarrow> FileSys \<Rightarrow> bytes \<Rightarrow> dsim \<Rightarrow> (DFile option \<times> dsim) run" where
  "DFS_Open j fs nm s =
     bind_run (Directory_FetchFrom (Directory_new (m_entries j) 10) (directoryFile fs) s) (\<lambda>(directory, s).
     bind_run (Directory_Find directory nm) (\<lambda>sector.
     if sector \<ge> 0 then bind_run (DFile_new (m_type j) sector s) (\<lambda>(f, s). Inr (Some f, s)) else Inr (None, s)))"

fun disk_free_slot :: "'a option list \<Rightarrow> int list \<Rightarrow> int run" where
  "disk_free_slot slots [] = Inr (-1)"
| "disk_free_slot slots (i # is) = bind_run (get_at slots i) (\<lambda>f. if f = None then Inr i else disk_free_slot slots is)"

definition DFS_findFreeSlot :: "FileSys \<Rightarrow> int run" where
  "DFS_findFreeSlot fs = disk_free_slot (fsOpen fs) [2..9]"

definition DFS_Open_type :: "memory \<Rightarrow> FileSys \<Rightarrow> bytes \<Rightarrow> int \<Rightarrow> dsim \<Rightarrow> (DFile option \<times> FileSys \<times> dsim) run" where
  "DFS_Open_type j fs nm t s =
     bind_run (DFS_findFreeSlot fs) (\<lambda>freeSlot.
     bind_run (Directory_FetchFrom (Directory_new (m_entries j) 10) (directoryFile fs) s) (\<lambda>(directory, s).
     bind_run (Directory_Find directory nm) (\<lambda>sector.
     bind_run (if sector \<ge> 0 then
         bind_run (DFile_new_type sector t s) (\<lambda>(f, s). bind_run (set_at (fsOpen fs) freeSlot (Some f)) (\<lambda>slots. Inr (fs\<lparr>fsOpen := slots\<rparr>, s)))
       else Inr (fs, s)) (\<lambda>(fs, s).
     bind_run (get_at (fsOpen fs) freeSlot) (\<lambda>f. Inr (f, fs, s))))))"

definition DFS_Remove :: "memory \<Rightarrow> FileSys \<Rightarrow> bytes \<Rightarrow> dsim \<Rightarrow> (bool \<times> dsim) run" where
  "DFS_Remove j fs nm s =
     bind_run (Directory_FetchFrom (Directory_new (m_entries j) NumDirEntries) (directoryFile fs) s) (\<lambda>(directory, s).
     bind_run (Directory_Find directory nm) (\<lambda>sector.
     if sector = -1 then Inr (False, s)
     else
       bind_run (FileHeader_FetchFrom sector s) (\<lambda>(fileHdr, s).
       bind_run (PersistentBitmap_new (freeMapFile fs) NumSectors s) (\<lambda>(freeMap, s).
       bind_run (Deallocate fileHdr freeMap) (\<lambda>freeMap.
       bind_run (Bitmap_Clear freeMap sector) (\<lambda>freeMap.
       bind_run (Directory_Remove directory nm) (\<lambda>(_, directory).
       bind_run (PersistentBitmap_WriteBack (m_buffer j) freeMap (freeMapFile fs) s) (\<lambda>s.
       bind_run (Directory_WriteBack (m_buffer j) directory (directoryFile fs) s) (\<lambda>s.
       Inr (True, s))))))))))"

definition DFS_List :: "memory \<Rightarrow> FileSys \<Rightarrow> dsim \<Rightarrow> (bytes \<times> dsim) run" where
  "DFS_List j fs s =
     bind_run (Directory_FetchFrom (Directory_new (m_entries j) NumDirEntries) (directoryFile fs) s) (\<lambda>(directory, s).
     bind_run (Directory_List directory) (\<lambda>out. Inr (out, s)))"

section \<open>What is on the disk\<close>

definition header_at :: "dsim \<Rightarrow> int \<Rightarrow> FileHeader" where
  "header_at s q = bytes_hdr (sectors s q)"

definition data_of :: "dsim \<Rightarrow> int \<Rightarrow> int set" where
  "data_of s q = hsecs (header_at s q) (nsec (header_at s q))"

definition blocks :: "dsim \<Rightarrow> int \<Rightarrow> int set" where
  "blocks s q = insert q (data_of s q)"

definition content :: "dsim \<Rightarrow> int \<Rightarrow> bytes" where
  "content s q = file_bytes s (header_at s q)"

definition disk_map :: "dsim \<Rightarrow> Bitmap" where
  "disk_map s = \<lparr>numBits = NumSectors, numWords = 32, bmap = bytes_words 32 (content s 0)\<rparr>"

definition disk_dir :: "dsim \<Rightarrow> Directory" where
  "disk_dir s = \<lparr>tableSize = 10, table = bytes_table 10 (content s 1)\<rparr>"

definition names :: "dsim \<Rightarrow> bytes \<Rightarrow> int option" where
  "names s = dir_map (disk_dir s)"

definition hdr_secs :: "dsim \<Rightarrow> int set" where
  "hdr_secs s = {0, 1} \<union> ran (names s)"

text \<open>
  A consistent disk: the files have valid headers, no sector belongs to two files (or is the header and a block of data), and the map marks exactly the
  sectors that belong to a file.
\<close>

definition files_ok :: "dsim \<Rightarrow> int set \<Rightarrow> bool" where
  "files_ok s H \<longleftrightarrow> (\<forall>q \<in> H. 0 \<le> q \<and> q < NumSectors \<and> hdr_ok (header_at s q) \<and> q \<notin> data_of s q) \<and>
     (\<forall>q \<in> H. \<forall>q' \<in> H. q \<noteq> q' \<longrightarrow> blocks s q \<inter> blocks s q' = {})"

definition fs_ok :: "FileSys \<Rightarrow> dsim \<Rightarrow> bool" where
  [inv_defs]: "fs_ok fs s \<longleftrightarrow> disk_idle s \<and> hdr (freeMapFile fs) = header_at s 0 \<and> hdr (directoryFile fs) = header_at s 1 \<and>
     FileLength (header_at s 0) = FreeMapFileSize \<and> FileLength (header_at s 1) = DirectoryFileSize \<and> dir_ok (disk_dir s) \<and>
     inj_on (names s) (dom (names s)) \<and> 0 \<notin> ran (names s) \<and> 1 \<notin> ran (names s) \<and> files_ok s (hdr_secs s) \<and>
     {i. bit_used (disk_map s) i} = \<Union> (blocks s ` hdr_secs s)"

section \<open>Frames\<close>

lemma header_cong: "sectors s' q = sectors s q \<Longrightarrow> header_at s' q = header_at s q"
  by (simp add: header_at_def)

lemma content_cong:
  assumes "\<And>i. i \<in> blocks s q \<Longrightarrow> sectors s' i = sectors s i"
  shows "header_at s' q = header_at s q" "data_of s' q = data_of s q" "blocks s' q = blocks s q" "content s' q = content s q"
proof -
  show h: "header_at s' q = header_at s q" using assms by (simp add: header_at_def blocks_def)
  show d: "data_of s' q = data_of s q" by (simp add: data_of_def h)
  then show "blocks s' q = blocks s q" by (simp add: blocks_def)
  have "sectors s' (secno (header_at s q) i) = sectors s (secno (header_at s q) i)" if "i < nsec (header_at s q)" for i
    using that assms by (auto simp: blocks_def data_of_def hsecs_def)
  then have "raw_bytes s' (header_at s q) = raw_bytes s (header_at s q)"
    unfolding raw_bytes_def by (intro arg_cong[where f = concat] map_cong) auto
  then show "content s' q = content s q" by (simp add: content_def h file_bytes_def)
qed

lemma same_sectors:
  assumes "sectors s' = sectors s"
  shows "header_at s' = header_at s" "data_of s' = data_of s" "blocks s' = blocks s" "content s' = content s" "disk_map s' = disk_map s"
    "disk_dir s' = disk_dir s" "names s' = names s" "hdr_secs s' = hdr_secs s"
proof -
  show h: "header_at s' = header_at s" unfolding header_at_def assms ..
  show d: "data_of s' = data_of s" unfolding data_of_def h ..
  show "blocks s' = blocks s" unfolding blocks_def d ..
  show c: "content s' = content s" unfolding content_def file_bytes_def raw_bytes_def h assms ..
  show "disk_map s' = disk_map s" "disk_dir s' = disk_dir s" "names s' = names s" "hdr_secs s' = hdr_secs s"
    by (simp_all add: disk_map_def disk_dir_def names_def hdr_secs_def c)
qed

lemma fs_ok_same:
  assumes "fs_ok fs s" "sectors s' = sectors s" "disk_idle s'"
  shows "fs_ok fs s'"
  using assms(1,3) by (simp add: fs_ok_def files_ok_def same_sectors[OF assms(2)])

section \<open>The map and the directory on the disk\<close>

lemma fs_okD:
  assumes "fs_ok fs s"
  shows "disk_idle s" "hdr (freeMapFile fs) = header_at s 0" "hdr (directoryFile fs) = header_at s 1" "hdr_ok (header_at s 0)" "hdr_ok (header_at s 1)"
    "length (content s 0) = 128" "length (content s 1) = 200" "dir_ok (disk_dir s)" "inj_on (names s) (dom (names s))" "0 \<notin> ran (names s)" "1 \<notin> ran (names s)"
    "files_ok s (hdr_secs s)" "{i. bit_used (disk_map s) i} = \<Union> (blocks s ` hdr_secs s)"
proof -
  show "disk_idle s" "hdr (freeMapFile fs) = header_at s 0" "hdr (directoryFile fs) = header_at s 1"
    "dir_ok (disk_dir s)" "inj_on (names s) (dom (names s))" "0 \<notin> ran (names s)" "1 \<notin> ran (names s)" "files_ok s (hdr_secs s)"
    "{i. bit_used (disk_map s) i} = \<Union> (blocks s ` hdr_secs s)" using assms unfolding fs_ok_def by blast+
  show h: "hdr_ok (header_at s 0)" "hdr_ok (header_at s 1)" using assms by (simp_all add: fs_ok_def files_ok_def hdr_secs_def)
  show "length (content s 0) = 128" "length (content s 1) = 200"
    using length_file_bytes[OF \<open>disk_idle s\<close> h(1)] length_file_bytes[OF \<open>disk_idle s\<close> h(2)] assms
    by (simp_all add: fs_ok_def content_def FreeMapFileSize_def DirectoryFileSize_def NumDirEntries_def sizeof_entry_def disk_consts)
qed

lemma overwrite_all: "length bs = length c \<Longrightarrow> overwrite c 0 bs = bs"
  by (simp add: overwrite_def)

lemma fetch_directory:
  assumes "fs_ok fs s" "\<forall>i. entry_ok (m_entries j i)"
  shows "\<exists>s'. Directory_FetchFrom (Directory_new (m_entries j) 10) (directoryFile fs) s = Inr (disk_dir s, s') \<and> fs_ok fs s' \<and> sectors s' = sectors s"
proof -
  note f = fs_okD[OF assms(1)]
  let ?d = "Directory_new (m_entries j) 10"
  have l: "length (table_bytes (table ?d)) = 200" using length_table_bytes[of "table ?d"] assms(2)
    by (simp add: Directory_new_def sizeof_entry_def entry_ok_def)
  obtain s' where s': "DFile_ReadAt (directoryFile fs) 200 0 s = Inr (200, content s 1, s')" "disk_idle s'" "sectors s' = sectors s"
    using DFile_ReadAt_ok[OF f(1), of "directoryFile fs" 0 200] f(3,5,7) by (auto simp: content_def)
  have "Directory_FetchFrom ?d (directoryFile fs) s = Inr (disk_dir s, s')"
    using s'(1) overwrite_all[of "content s 1" "table_bytes (table ?d)"] f(7) l
    by (simp add: Directory_FetchFrom_def sizeof_entry_def disk_dir_def) (simp add: Directory_new_def)
  then show ?thesis using fs_ok_same[OF assms(1) s'(3,2)] s'(3) by blast
qed

lemma fetch_map:
  assumes "fs_ok fs s"
  shows "\<exists>s'. PersistentBitmap_new (freeMapFile fs) NumSectors s = Inr (disk_map s, s') \<and> fs_ok fs s' \<and> sectors s' = sectors s"
proof -
  note f = fs_okD[OF assms(1)]
  obtain b where b: "Bitmap_new NumSectors = Inr b" "bitmap_inv b" "numBits b = NumSectors" using Bitmap_new_ok[of NumSectors] by (auto simp: disk_consts)
  have w: "numWords b = 32" "length (bmap b) = 32" using b(2,3) by (simp_all add: bitmap_inv_def divRoundUp_def BitsInWord_def disk_consts)
  obtain s' where s': "DFile_ReadAt (freeMapFile fs) 128 0 s = Inr (128, content s 0, s')" "disk_idle s'" "sectors s' = sectors s"
    using DFile_ReadAt_ok[OF f(1), of "freeMapFile fs" 0 128] f(2,4,6) by (auto simp: content_def)
  have o: "overwrite (words_bytes (bmap b)) 0 (content s 0) = content s 0" using f(6) w(2) by (intro overwrite_all) simp
  have "PersistentBitmap_new (freeMapFile fs) NumSectors s = Inr (b\<lparr>bmap := bytes_words 32 (content s 0)\<rparr>, s')"
    unfolding PersistentBitmap_new_def b(1) bind_run_Inr w(1) using s'(1) o by simp
  moreover have "b\<lparr>bmap := bytes_words 32 (content s 0)\<rparr> = disk_map s" using b(3) w(1) by (simp add: disk_map_def)
  ultimately show ?thesis using fs_ok_same[OF assms(1) s'(3,2)] s'(3) by simp
qed

lemma disk_map_inv: "bitmap_inv (disk_map s)" "numBits (disk_map s) = NumSectors"
  by (simp_all add: bitmap_inv_def disk_map_def disk_consts divRoundUp_def BitsInWord_def bytes_words_def)

text \<open>Writing them back; \<open>f\<close> is a file whose header is in sector \<open>q\<close>.\<close>

lemma write_whole:
  assumes "disk_idle s" "hdr f = header_at s q" "hdr_ok (header_at s q)" "q \<notin> data_of s q" "length bs = length (content s q)" "0 < length bs"
  shows "\<exists>s'. DFile_WriteAt junk f bs (int (length bs)) 0 s = Inr (int (length bs), s') \<and> disk_idle s' \<and>
     (\<forall>i. i \<notin> data_of s q \<longrightarrow> sectors s' i = sectors s i) \<and> header_at s' q = header_at s q \<and> content s' q = bs"
proof -
  have l: "int (length bs) \<le> int (length bs)" by simp
  obtain s' where s': "DFile_WriteAt junk f bs (int (length bs)) 0 s = Inr (int (length bs), s')" "disk_idle s'"
     "\<forall>i. i \<notin> data_of s q \<longrightarrow> sectors s' i = sectors s i" "file_bytes s' (header_at s q) = bs"
    using DFile_WriteAt_ok[OF assms(1), of f 0 "int (length bs)" bs junk] assms(2,3,5) overwrite_all[of bs "content s q"]
    by (auto simp: content_def data_of_def hsecs_def)
  have h: "header_at s' q = header_at s q" using s'(3) assms(4) by (intro header_cong) simp
  then have "content s' q = bs" using s'(4) by (simp add: content_def)
  then show ?thesis using s' h by blast
qed

lemma write_directory:
  assumes "disk_idle s" "hdr f = header_at s 1" "hdr_ok (header_at s 1)" "1 \<notin> data_of s 1" "length (content s 1) = 200" "dir_ok d" "tableSize d = 10"
  shows "\<exists>s'. Directory_WriteBack junk d f s = Inr s' \<and> disk_idle s' \<and> (\<forall>i. i \<notin> data_of s 1 \<longrightarrow> sectors s' i = sectors s i) \<and>
     header_at s' 1 = header_at s 1 \<and> disk_dir s' = d"
proof -
  have t: "length (table d) = 10" "\<forall>e \<in> set (table d). entry_ok e" using assms(6,7) by (simp_all add: dir_ok_def)
  have l: "length (table_bytes (table d)) = 200" using length_table_bytes[OF t(2)] t(1) by (simp add: sizeof_entry_def)
  obtain s' where s': "DFile_WriteAt junk f (table_bytes (table d)) 200 0 s = Inr (200, s')" "disk_idle s'"
    "\<forall>i. i \<notin> data_of s 1 \<longrightarrow> sectors s' i = sectors s i" "header_at s' 1 = header_at s 1" "content s' 1 = table_bytes (table d)"
    using write_whole[OF assms(1-4), of "table_bytes (table d)" junk] assms(5) l by auto
  have "disk_dir s' = \<lparr>tableSize = 10, table = table d\<rparr>" using bytes_table_bytes[OF t(2)] t(1) s'(5) by (simp add: disk_dir_def)
  then have "disk_dir s' = d" using assms(7) by simp
  then show ?thesis using s' assms(7) by (simp add: Directory_WriteBack_def sizeof_entry_def)
qed

lemma write_map:
  assumes "disk_idle s" "hdr f = header_at s 0" "hdr_ok (header_at s 0)" "0 \<notin> data_of s 0" "length (content s 0) = 128" "bitmap_inv b" "numBits b = NumSectors"
  shows "\<exists>s'. PersistentBitmap_WriteBack junk b f s = Inr s' \<and> disk_idle s' \<and> (\<forall>i. i \<notin> data_of s 0 \<longrightarrow> sectors s' i = sectors s i) \<and>
     header_at s' 0 = header_at s 0 \<and> disk_map s' = b"
proof -
  have w: "numWords b = 32" "length (bmap b) = 32" using assms(6,7) by (simp_all add: bitmap_inv_def divRoundUp_def BitsInWord_def disk_consts)
  obtain s' where s': "DFile_WriteAt junk f (words_bytes (bmap b)) 128 0 s = Inr (128, s')" "disk_idle s'"
    "\<forall>i. i \<notin> data_of s 0 \<longrightarrow> sectors s' i = sectors s i" "header_at s' 0 = header_at s 0" "content s' 0 = words_bytes (bmap b)"
    using write_whole[OF assms(1-4), of "words_bytes (bmap b)" junk] assms(5) w by auto
  have "disk_map s' = b" using bytes_words_bytes[of "bmap b"] w s'(5) assms(7) by (simp add: disk_map_def)
  then show ?thesis using s' w by (simp add: PersistentBitmap_WriteBack_def)
qed

end
