(* ===== verification/DiskCreate.thy ===== *)
theory DiskCreate
  imports DiskFS
begin

text \<open>
  Creating, removing and opening files keeps the disk consistent.  The lemmas of the first section say what
  remains of a consistent disk when the map and the directory are written back.
\<close>

section \<open>Writing the map and the directory back\<close>

definition outside :: "dsim \<Rightarrow> dsim \<Rightarrow> bool" where
  "outside s s' \<longleftrightarrow> (\<forall>i. i \<notin> data_of s 0 \<and> i \<notin> data_of s 1 \<longrightarrow> sectors s' i = sectors s i)"

lemma files_okD:
  assumes "files_ok s H" "q \<in> H"
  shows "0 \<le> q" "q < NumSectors" "hdr_ok (header_at s q)" "q \<notin> data_of s q" "q' \<in> H \<Longrightarrow> q \<noteq> q' \<Longrightarrow> blocks s q \<inter> blocks s q' = {}"
  using assms by (auto simp: files_ok_def)

lemma header_not_data:
  assumes "files_ok s H" "q \<in> H" "p \<in> H"
  shows "q \<notin> data_of s p"
  using assms files_okD(4,5)[OF assms(1)] by (cases "q = p") (auto simp: blocks_def)

text \<open>Headers survive, and so do the contents of the other files.\<close>

lemma outside_keeps:
  assumes "files_ok s H" "0 \<in> H" "1 \<in> H" "outside s s'" "q \<in> H"
  shows "header_at s' q = header_at s q" "data_of s' q = data_of s q" "blocks s' q = blocks s q" "q \<noteq> 0 \<Longrightarrow> q \<noteq> 1 \<Longrightarrow> content s' q = content s q"
proof -
  have q: "q \<notin> data_of s 0" "q \<notin> data_of s 1" using header_not_data[OF assms(1,5)] assms(2,3) by auto
  show h: "header_at s' q = header_at s q" using assms(4) q by (intro header_cong) (simp add: outside_def)
  show d: "data_of s' q = data_of s q" by (simp add: data_of_def h)
  show "blocks s' q = blocks s q" by (simp add: blocks_def d)
  show "content s' q = content s q" if "q \<noteq> 0" "q \<noteq> 1"
  proof (rule content_cong(4))
    fix i assume "i \<in> blocks s q"
    moreover have "blocks s q \<inter> blocks s 0 = {}" "blocks s q \<inter> blocks s 1 = {}" using files_okD(5)[OF assms(1,5)] assms(2,3) that by auto
    ultimately have "i \<notin> data_of s 0" "i \<notin> data_of s 1" by (auto simp: blocks_def)
    then show "sectors s' i = sectors s i" using assms(4) by (simp add: outside_def)
  qed
qed

text \<open>The result of writing back a map \<open>b\<close> and a directory \<open>d\<close> that agree with the files of \<open>s\<close>.\<close>

definition agrees :: "FileSys \<Rightarrow> dsim \<Rightarrow> Bitmap \<Rightarrow> Directory \<Rightarrow> bool" where
  "agrees fs s b d \<longleftrightarrow> disk_idle s \<and> hdr (freeMapFile fs) = header_at s 0 \<and> hdr (directoryFile fs) = header_at s 1 \<and>
     FileLength (header_at s 0) = FreeMapFileSize \<and> FileLength (header_at s 1) = DirectoryFileSize \<and>
     bitmap_inv b \<and> numBits b = NumSectors \<and> dir_ok d \<and> tableSize d = 10 \<and>
     inj_on (dir_map d) (dom (dir_map d)) \<and> 0 \<notin> ran (dir_map d) \<and> 1 \<notin> ran (dir_map d) \<and> files_ok s ({0, 1} \<union> ran (dir_map d)) \<and>
     {i. bit_used b i} = \<Union> (blocks s ` ({0, 1} \<union> ran (dir_map d)))"

lemma agrees_installed:
  assumes "agrees fs s b d" "disk_idle s'" "outside s s'" "disk_map s' = b" "disk_dir s' = d"
  shows "fs_ok fs s'" "names s' = dir_map d" "q \<in> ran (dir_map d) \<Longrightarrow> header_at s' q = header_at s q" "q \<in> ran (dir_map d) \<Longrightarrow> content s' q = content s q"
    "q \<in> ran (dir_map d) \<Longrightarrow> blocks s' q = blocks s q"
proof -
  let ?H = "{0, 1} \<union> ran (dir_map d)"
  have f: "files_ok s ?H" and r: "0 \<notin> ran (dir_map d)" "1 \<notin> ran (dir_map d)" using assms(1) by (simp_all add: agrees_def)
  have H: "0 \<in> ?H" "1 \<in> ?H" by simp_all
  note k = outside_keeps[OF f H assms(3)]
  show n: "names s' = dir_map d" by (simp add: names_def assms(5))
  then have hs: "hdr_secs s' = ?H" by (simp add: hdr_secs_def)
  have "files_ok s' ?H" using f k unfolding files_ok_def by (metis (no_types, lifting))
  moreover have "\<Union> (blocks s' ` ?H) = \<Union> (blocks s ` ?H)" using k(3) by (intro SUP_cong) auto
  ultimately show "fs_ok fs s'" using assms k(1)[OF H(1)] k(1)[OF H(2)] n hs by (simp add: agrees_def fs_ok_def)
  show "q \<in> ran (dir_map d) \<Longrightarrow> header_at s' q = header_at s q" "q \<in> ran (dir_map d) \<Longrightarrow> content s' q = content s q" "q \<in> ran (dir_map d) \<Longrightarrow> blocks s' q = blocks s q"
    using k(1,3,4)[of q] r by auto
qed

lemma agreesD:
  assumes "agrees fs s b d"
  shows "disk_idle s" "hdr (freeMapFile fs) = header_at s 0" "hdr (directoryFile fs) = header_at s 1" "hdr_ok (header_at s 0)" "hdr_ok (header_at s 1)"
    "0 \<notin> data_of s 0" "1 \<notin> data_of s 1" "length (content s 0) = 128" "length (content s 1) = 200" "bitmap_inv b" "numBits b = NumSectors" "dir_ok d" "tableSize d = 10"
    "blocks s 0 \<inter> blocks s 1 = {}"
proof -
  have f: "files_ok s ({0, 1} \<union> ran (dir_map d))" using assms by (simp add: agrees_def)
  show i: "disk_idle s" "hdr (freeMapFile fs) = header_at s 0" "hdr (directoryFile fs) = header_at s 1" "bitmap_inv b" "numBits b = NumSectors" "dir_ok d" "tableSize d = 10"
    using assms by (simp_all add: agrees_def)
  show h: "hdr_ok (header_at s 0)" "hdr_ok (header_at s 1)" "0 \<notin> data_of s 0" "1 \<notin> data_of s 1" "blocks s 0 \<inter> blocks s 1 = {}"
    using files_okD[OF f, of 0] files_okD[OF f, of 1] by auto
  show "length (content s 0) = 128" "length (content s 1) = 200"
    using length_file_bytes[OF i(1) h(1)] length_file_bytes[OF i(1) h(2)] assms
    by (simp_all add: agrees_def content_def FreeMapFileSize_def DirectoryFileSize_def NumDirEntries_def sizeof_entry_def disk_consts)
qed

text \<open>\<open>Create\<close> writes the directory first, \<open>Remove\<close> the map.\<close>

lemma write_both:
  assumes "agrees fs s b d"
  shows "\<exists>s1 s'. Directory_WriteBack junk d (directoryFile fs) s = Inr s1 \<and> PersistentBitmap_WriteBack junk b (freeMapFile fs) s1 = Inr s' \<and>
      disk_idle s' \<and> outside s s' \<and> disk_map s' = b \<and> disk_dir s' = d"
    and "\<exists>s1 s'. PersistentBitmap_WriteBack junk b (freeMapFile fs) s = Inr s1 \<and> Directory_WriteBack junk d (directoryFile fs) s1 = Inr s' \<and>
      disk_idle s' \<and> outside s s' \<and> disk_map s' = b \<and> disk_dir s' = d"
proof -
  note a = agreesD[OF assms]
  have d01: "i \<notin> data_of s 1" if "i \<in> blocks s 0" for i using that a(14) by (auto simp: blocks_def)
  have d10: "i \<notin> data_of s 0" if "i \<in> blocks s 1" for i using that a(14) by (auto simp: blocks_def)
  obtain s1 where s1: "Directory_WriteBack junk d (directoryFile fs) s = Inr s1" "disk_idle s1" "\<forall>i. i \<notin> data_of s 1 \<longrightarrow> sectors s1 i = sectors s i"
    "disk_dir s1 = d" "header_at s1 1 = header_at s 1" using write_directory[OF a(1,3,5,7,9,12,13)] by blast
  have c: "header_at s1 0 = header_at s 0" "data_of s1 0 = data_of s 0" "content s1 0 = content s 0" using content_cong[of s 0 s1] s1(3) d01 by auto
  have e1: "data_of s1 1 = data_of s 1" by (simp add: data_of_def s1(5))
  obtain s2 where s2: "PersistentBitmap_WriteBack junk b (freeMapFile fs) s1 = Inr s2" "disk_idle s2" "\<forall>i. i \<notin> data_of s1 0 \<longrightarrow> sectors s2 i = sectors s1 i" "disk_map s2 = b"
    using write_map[OF s1(2), of "freeMapFile fs" b junk] a c by auto
  have "content s2 1 = content s1 1" using d10 s2(3) c(2) by (intro content_cong(4)) (simp add: blocks_def e1)
  then have "disk_dir s2 = d" using s1(4) by (simp add: disk_dir_def)
  moreover have "outside s s2" using s1(3) s2(3) c(2) by (simp add: outside_def)
  ultimately show "\<exists>s1 s'. Directory_WriteBack junk d (directoryFile fs) s = Inr s1 \<and> PersistentBitmap_WriteBack junk b (freeMapFile fs) s1 = Inr s' \<and>
      disk_idle s' \<and> outside s s' \<and> disk_map s' = b \<and> disk_dir s' = d" using s1(1) s2(1,2,4) by blast
  obtain t1 where t1: "PersistentBitmap_WriteBack junk b (freeMapFile fs) s = Inr t1" "disk_idle t1" "\<forall>i. i \<notin> data_of s 0 \<longrightarrow> sectors t1 i = sectors s i"
    "disk_map t1 = b" "header_at t1 0 = header_at s 0" using write_map[OF a(1,2,4,6,8,10,11)] by blast
  have c: "header_at t1 1 = header_at s 1" "data_of t1 1 = data_of s 1" "content t1 1 = content s 1" using content_cong[of s 1 t1] t1(3) d10 by auto
  have e1: "data_of t1 0 = data_of s 0" by (simp add: data_of_def t1(5))
  obtain t2 where t2: "Directory_WriteBack junk d (directoryFile fs) t1 = Inr t2" "disk_idle t2" "\<forall>i. i \<notin> data_of t1 1 \<longrightarrow> sectors t2 i = sectors t1 i" "disk_dir t2 = d"
    using write_directory[OF t1(2), of "directoryFile fs" d junk] a c by auto
  have "content t2 0 = content t1 0" using d01 t2(3) c(2) by (intro content_cong(4)) (simp add: blocks_def e1)
  then have "disk_map t2 = b" using t1(4) by (simp add: disk_map_def)
  moreover have "outside s t2" using t1(3) t2(3) c(2) by (simp add: outside_def)
  ultimately show "\<exists>s1 s'. PersistentBitmap_WriteBack junk b (freeMapFile fs) s = Inr s1 \<and> Directory_WriteBack junk d (directoryFile fs) s1 = Inr s' \<and>
      disk_idle s' \<and> outside s s' \<and> disk_map s' = b \<and> disk_dir s' = d" using t1(1) t2(1,2,4) by blast
qed

section \<open>Create\<close>

definition mem_ok :: "memory \<Rightarrow> bool" where
  "mem_ok j \<longleftrightarrow> (\<forall>i. entry_ok (m_entries j i)) \<and> length (dataSectors (m_header j)) = 30"

lemma names_sector:
  assumes "fs_ok fs s" "names s k = Some q"
  shows "q \<in> hdr_secs s" "0 \<le> q" "q < NumSectors" "q \<noteq> 0" "q \<noteq> 1"
proof -
  have r: "q \<in> ran (names s)" using assms(2) by (auto simp: ran_def)
  then show h: "q \<in> hdr_secs s" by (simp add: hdr_secs_def)
  show "0 \<le> q" "q < NumSectors" using files_okD(1,2)[OF fs_okD(12)[OF assms(1)] h] .
  show "q \<noteq> 0" "q \<noteq> 1" using r fs_okD(10,11)[OF assms(1)] by auto
qed

lemma fs_agrees: "fs_ok fs s \<Longrightarrow> agrees fs s (disk_map s) (disk_dir s)"
  using disk_map_inv[of s] by (simp add: fs_ok_def agrees_def names_def hdr_secs_def) (simp add: disk_dir_def)

text \<open>The state in which \<open>Create\<close> writes the directory and the map back.\<close>

lemma create_agrees:
  assumes "fs_ok fs s" "names s k = None" "q \<in> free_bits (disk_map s)" "hdr_ok h"
    "hsecs h (nsec h) \<subseteq> free_bits (disk_map s)" "q \<notin> hsecs h (nsec h)"
    "disk_idle s'" "sectors s' = (sectors s)(q := hdr_bytes h)"
    "bitmap_inv b" "numBits b = NumSectors" "bit_used b = (\<lambda>i. bit_used (disk_map s) i \<or> i = q \<or> i \<in> hsecs h (nsec h))"
    "dir_ok d" "tableSize d = 10" "dir_map d = (names s)(k \<mapsto> q)"
  shows "agrees fs s' b d" "header_at s' q = h" "p \<in> hdr_secs s \<Longrightarrow> content s' p = content s p"
proof -
  note f = fs_okD[OF assms(1)]
  let ?H = "hdr_secs s"
  have free: "q \<notin> blocks s p" "hsecs h (nsec h) \<inter> blocks s p = {}" if "p \<in> ?H" for p
    using that assms(3,5) f(13) by (auto simp: free_bits_def)
  have qr: "0 \<le> q" "q < NumSectors" using assms(3) by (auto simp: free_bits_def disk_map_def)
  have "length (dataSectors h) = 30" using assms(4) by (simp add: hdr_ok_def)
  then show hq: "header_at s' q = h" by (simp add: header_at_def assms(8) bytes_hdr_bytes)
  have keep: "header_at s' p = header_at s p" "data_of s' p = data_of s p" "blocks s' p = blocks s p" "content s' p = content s p" if "p \<in> ?H" for p
  proof -
    have c: "sectors s' i = sectors s i" if "i \<in> blocks s p" for i using free(1)[OF \<open>p \<in> ?H\<close>] that assms(8) by auto
    show "header_at s' p = header_at s p" "data_of s' p = data_of s p" "blocks s' p = blocks s p" "content s' p = content s p"
      using content_cong[OF c] by auto
  qed
  then show "p \<in> ?H \<Longrightarrow> content s' p = content s p" by blast
  have bq: "data_of s' q = hsecs h (nsec h)" "blocks s' q = insert q (hsecs h (nsec h))" by (simp_all add: data_of_def blocks_def hq)
  have qH: "q \<notin> ?H" using free(1) by (auto simp: blocks_def)
  have H': "{0, 1} \<union> ran (dir_map d) = insert q ?H" using assms(2,14) by (simp add: hdr_secs_def)
  have fo: "files_ok s' (insert q ?H)"
    using f(12) keep bq hq qr assms(4,6) free unfolding files_ok_def by (auto simp: Int_commute)
  have U: "\<Union> (blocks s' ` insert q ?H) = insert q (hsecs h (nsec h)) \<union> \<Union> (blocks s ` ?H)" using keep(3) bq(2) by auto
  have inj: "inj_on (dir_map d) (dom (dir_map d))"
  proof (rule inj_onI)
    fix x y assume x: "x \<in> dom (dir_map d)" and y: "y \<in> dom (dir_map d)" and e: "dir_map d x = dir_map d y"
    have "names s z \<noteq> Some q" for z using qH by (auto simp: hdr_secs_def ran_def)
    then show "x = y" using x y e inj_onD[OF f(9), of x y] unfolding assms(14) by (auto split: if_splits)
  qed
  have r: "0 \<notin> ran (dir_map d)" "1 \<notin> ran (dir_map d)" using f(10,11) assms(2,14) qH by (auto simp: hdr_secs_def)
  have H01: "0 \<in> ?H" "1 \<in> ?H" by (simp_all add: hdr_secs_def)
  have u: "{i. bit_used b i} = \<Union> (blocks s' ` insert q ?H)" unfolding U f(13)[symmetric] using assms(11) by auto
  show "agrees fs s' b d"
    using assms(1,7,9,10,12,13) keep(1)[OF H01(1)] keep(1)[OF H01(2)] inj r fo u unfolding agrees_def H' fs_ok_def by simp
qed

lemma free_after_alloc:
  assumes "numBits b' = numBits b" "bit_used b' = (bit_used b)(q := True)"
  shows "free_bits b' = free_bits b - {q}"
  using assms by (auto simp: free_bits_def)

text \<open>\<open>Create\<close> up to the allocation.\<close>

definition create_ok :: "dsim \<Rightarrow> bytes \<Rightarrow> int \<Rightarrow> bool" where
  "create_ok s nm n \<longleftrightarrow> names s (name_key nm) = None \<and> \<not> dir_full (disk_dir s) \<and> divRoundUp n SectorSize + 1 \<le> int (card (free_bits (disk_map s)))"

lemma DFS_Create_ok:
  assumes "fs_ok fs s" "mem_ok j" "0 \<notin> set nm" "0 \<le> n" "n \<le> MaxFileSize"
  shows "\<exists>s'. DFS_Create j fs nm n s = Inr (create_ok s nm n, s') \<and> fs_ok fs s' \<and>
     (if create_ok s nm n then \<exists>q \<in> free_bits (disk_map s). names s' = (names s)(name_key nm \<mapsto> q) \<and> FileLength (header_at s' q) = n \<and>
        free_bits (disk_map s') = free_bits (disk_map s) - blocks s' q \<and> (\<forall>p \<in> ran (names s). content s' p = content s p)
      else sectors s' = sectors s)"
proof -
  have me: "\<forall>i. entry_ok (m_entries j i)" and mh: "length (dataSectors (m_header j)) = 30" using assms(2) by (simp_all add: mem_ok_def)
  obtain s1 where s1: "Directory_FetchFrom (Directory_new (m_entries j) NumDirEntries) (directoryFile fs) s = Inr (disk_dir s, s1)" "fs_ok fs s1" "sectors s1 = sectors s"
    using fetch_directory[OF assms(1) me] by (auto simp: NumDirEntries_def)
  note e1 = same_sectors[OF s1(3)]
  obtain s2 where s2: "PersistentBitmap_new (freeMapFile fs) NumSectors s1 = Inr (disk_map s, s2)" "fs_ok fs s2" "sectors s2 = sectors s"
    using fetch_map[OF s1(2)] e1 s1(3) by auto
  have dok: "dir_ok (disk_dir s)" using fs_okD(8)[OF assms(1)] .
  note find = directory.find_ok[OF dok assms(3), folded names_def]
  have n0: "0 \<le> divRoundUp n SectorSize" "divRoundUp n SectorSize \<le> NumDirect"
  proof -
    have "n \<le> 3840" using assms(5) by (simp add: MaxFileSize_def NumDirect_def SectorSize_def)
    then show "0 \<le> divRoundUp n SectorSize" "divRoundUp n SectorSize \<le> NumDirect"
      using divRoundUp_bounds[of SectorSize n] assms(4) by (simp_all add: SectorSize_def NumDirect_def)
  qed
  have n31: "n < 2 ^ 31" using assms(5) by (simp add: MaxFileSize_def NumDirect_def SectorSize_def)
  have nd: "\<not> divRoundUp n SectorSize > NumDirect" using n0(2) by simp
  show ?thesis
  proof (cases "names s (name_key nm)")
    case (Some v)
    then have "v \<noteq> -1" using names_sector(2)[OF assms(1) Some] by simp
    then have "DFS_Create j fs nm n s = Inr (False, s1)" using s1(1) find Some by (simp add: DFS_Create_def)
    then show ?thesis using Some s1(2,3) by (auto simp: create_ok_def)
  next
    case None
    have start: "DFS_Create j fs nm n s = bind_run (Bitmap_FindAndSet (disk_map s)) (\<lambda>(sector, freeMap).
       if sector = -1 then Inr (False, s2)
       else bind_run (Directory_Add (disk_dir s) nm sector) (\<lambda>(added, directory).
         if \<not> added then Inr (False, s2)
         else bind_run (Allocate (m_header j) freeMap n) (\<lambda>(ok, h, freeMap).
           if \<not> ok then Inr (False, s2)
           else
             bind_run (FileHeader_WriteBack h sector s2) (\<lambda>s.
             bind_run (Directory_WriteBack (m_buffer j) directory (directoryFile fs) s) (\<lambda>s.
             bind_run (PersistentBitmap_WriteBack (m_buffer j) freeMap (freeMapFile fs) s) (\<lambda>s.
             Inr (True, s)))))))"
      using s1(1) find None s2(1) by (simp add: DFS_Create_def)
    show ?thesis
    proof (cases rule: Bitmap_FindAndSet_cases[OF disk_map_inv(1)[of s], case_names full found])
      case full
      have "\<not> create_ok s nm n" using full(1) n0 by (simp add: create_ok_def)
      then show ?thesis using start full(2) s2(2,3) by auto
    next
      case (found q b1)
      have q: "0 \<le> q" "q < NumSectors" using found(1) disk_map_inv(2)[of s] by (auto simp: free_bits_def)
      have fb: "free_bits b1 = free_bits (disk_map s) - {q}" by (rule free_after_alloc[OF found(5,6)])
      have cb: "int (card (free_bits b1)) = int (card (free_bits (disk_map s))) - 1"
        unfolding fb using found(1) finite_free_bits[of "disk_map s"] card_gt_0_iff[of "free_bits (disk_map s)"] by (auto simp: card_Diff_singleton of_nat_diff)
      have nb: "numBits b1 = NumSectors" using found(5) disk_map_inv(2)[of s] by simp
      obtain d where d: "Directory_Add (disk_dir s) nm q = Inr (\<not> dir_full (disk_dir s), d)" "dir_ok d" "tableSize d = tableSize (disk_dir s)"
        "\<not> dir_full (disk_dir s) \<Longrightarrow> dir_map d = (names s)(name_key nm \<mapsto> q)"
        using Directory_Add_ok[OF dok assms(3), of q] q None unfolding not_dir_full[symmetric] by (auto simp: names_def disk_consts)
      note al = Allocate_ok[OF found(4) nb mh assms(4)]
      show ?thesis
      proof (cases "create_ok s nm n")
        case False
        have "DFS_Create j fs nm n s = Inr (False, s2)"
          using False start found(3) q(1) d(1) al n31 None cb by (auto simp: create_ok_def split: if_splits)
        then show ?thesis using False s2(2,3) by auto
      next
        case True
        then have nf: "\<not> dir_full (disk_dir s)" and en: "\<not> int (card (free_bits b1)) < divRoundUp n SectorSize" using cb by (auto simp: create_ok_def)
        obtain h b2 where a: "Allocate (m_header j) b1 n = Inr (True, h, b2)" "hdr_ok h" "FileLength h = n" "bitmap_inv b2" "numBits b2 = NumSectors"
          "hsecs h (nsec h) \<subseteq> free_bits b1" "bit_used b2 = (\<lambda>i. bit_used b1 i \<or> i \<in> hsecs h (nsec h))" using al n31 en nd by auto
        have "length (hdr_bytes h) = 128" using a(2) length_hdr_bytes by (simp add: hdr_ok_def)
        then obtain s3 where s3: "FileHeader_WriteBack h q s2 = Inr s3" "disk_idle s3" "sectors s3 = (sectors s)(q := hdr_bytes h)"
          using WriteSector_ok[OF fs_okD(1)[OF s2(2)] q] s2(3) by (auto simp: FileHeader_WriteBack_def)
        have g: "hsecs h (nsec h) \<subseteq> free_bits (disk_map s)" "q \<notin> hsecs h (nsec h)" using a(6) fb by auto
        have u: "bit_used b2 = (\<lambda>i. bit_used (disk_map s) i \<or> i = q \<or> i \<in> hsecs h (nsec h))" using a(7) found(6) by (auto simp: fun_eq_iff)
        have ts: "tableSize d = 10" using d(3) by (simp add: disk_dir_def)
        note ag = create_agrees[OF assms(1) None found(1) a(2) g s3(2,3) a(4,5) u d(2) ts d(4)[OF nf]]
        obtain s4 s' where s': "Directory_WriteBack (m_buffer j) d (directoryFile fs) s3 = Inr s4" "PersistentBitmap_WriteBack (m_buffer j) b2 (freeMapFile fs) s4 = Inr s'"
          "disk_idle s'" "outside s3 s'" "disk_map s' = b2" "disk_dir s' = d" using write_both(1)[OF ag(1)] by blast
        note fin = agrees_installed[OF ag(1) s'(3-6)]
        have rn: "q \<in> ran (dir_map d)" "ran (names s) \<subseteq> ran (dir_map d)" using d(4)[OF nf] None by auto
        have "DFS_Create j fs nm n s = Inr (True, s')" using start found(3) q(1) d(1) nf a(1) s3(1) s'(1,2) by simp
        moreover have "FileLength (header_at s' q) = n" using fin(3)[OF rn(1)] ag(2) a(3) by simp
        moreover have "free_bits (disk_map s') = free_bits (disk_map s) - blocks s' q"
          using fin(5)[OF rn(1)] ag(2) u s'(5) a(5) disk_map_inv(2)[of s] by (auto simp: blocks_def data_of_def free_bits_def)
        moreover have "\<forall>p \<in> ran (names s). content s' p = content s p" using fin(4) rn(2) ag(3) by (auto simp: hdr_secs_def)
        ultimately show ?thesis using True fin(1,2) d(4)[OF nf] found(1) by auto
      qed
    qed
  qed
qed

section \<open>Remove\<close>

lemma remove_agrees:
  assumes "fs_ok fs s" "names s k = Some q" "bitmap_inv b" "numBits b = NumSectors" "bit_used b = (\<lambda>i. bit_used (disk_map s) i \<and> i \<notin> blocks s q)"
    "dir_ok d" "tableSize d = 10" "dir_map d = (names s)(k := None)"
  shows "agrees fs s b d"
proof -
  note f = fs_okD[OF assms(1)]
  note q = names_sector[OF assms(1,2)]
  have ran: "ran (dir_map d) = ran (names s) - {q}"
  proof -
    have u: "x = k" if "names s x = Some q" for x using inj_onD[OF f(9), of x k] that assms(2) by auto
    show ?thesis unfolding assms(8)
    proof (intro set_eqI iffI)
      fix v assume "v \<in> ran ((names s)(k := None))"
      then obtain x where x: "x \<noteq> k" "names s x = Some v" by (auto simp: ran_def split: if_splits)
      then have "v \<noteq> q" using u by blast
      then show "v \<in> ran (names s) - {q}" using x by (auto simp: ran_def)
    next
      fix v assume "v \<in> ran (names s) - {q}"
      then obtain x where x: "names s x = Some v" "v \<noteq> q" by (auto simp: ran_def)
      then have "x \<noteq> k" using assms(2) by auto
      then show "v \<in> ran ((names s)(k := None))" using x(1) by (auto simp: ran_def)
    qed
  qed
  then have H: "{0, 1} \<union> ran (dir_map d) = hdr_secs s - {q}" using q(4,5) by (auto simp: hdr_secs_def)
  have inj: "inj_on (dir_map d) (dom (dir_map d))" using f(9) unfolding assms(8) by (auto simp: inj_on_def dom_def split: if_splits)
  have fo: "files_ok s (hdr_secs s - {q})" using f(12) by (simp add: files_ok_def)
  have "\<Union> (blocks s ` (hdr_secs s - {q})) = \<Union> (blocks s ` hdr_secs s) - blocks s q"
    using files_okD(5)[OF f(12) q(1)] by auto
  then have u: "{i. bit_used b i} = \<Union> (blocks s ` (hdr_secs s - {q}))" unfolding f(13)[symmetric] using assms(5) by auto
  show ?thesis using assms(1,3,4,6,7) ran inj fo u unfolding agrees_def H fs_ok_def by simp
qed

lemma DFS_Remove_ok:
  assumes "fs_ok fs s" "mem_ok j" "0 \<notin> set nm"
  shows "\<exists>s'. DFS_Remove j fs nm s = Inr (names s (name_key nm) \<noteq> None, s') \<and> fs_ok fs s' \<and> names s' = (names s)(name_key nm := None) \<and>
     free_bits (disk_map s') = free_bits (disk_map s) \<union> (case names s (name_key nm) of None \<Rightarrow> {} | Some q \<Rightarrow> blocks s q) \<and>
     (\<forall>p \<in> ran (names s'). content s' p = content s p)"
proof -
  have me: "\<forall>i. entry_ok (m_entries j i)" using assms(2) by (simp add: mem_ok_def)
  obtain s1 where s1: "Directory_FetchFrom (Directory_new (m_entries j) NumDirEntries) (directoryFile fs) s = Inr (disk_dir s, s1)" "fs_ok fs s1" "sectors s1 = sectors s"
    using fetch_directory[OF assms(1) me] by (auto simp: NumDirEntries_def)
  note e1 = same_sectors[OF s1(3)]
  have dok: "dir_ok (disk_dir s)" using fs_okD(8)[OF assms(1)] .
  note find = directory.find_ok[OF dok assms(3), folded names_def]
  show ?thesis
  proof (cases "names s (name_key nm)")
    case None
    then have "DFS_Remove j fs nm s = Inr (False, s1)" using s1(1) find by (simp add: DFS_Remove_def)
    then show ?thesis using None s1(2) e1 by (auto simp: fun_eq_iff)
  next
    case (Some q)
    note q = names_sector[OF assms(1) Some]
    have fo: "files_ok s (hdr_secs s)" using fs_okD(12)[OF assms(1)] .
    note hq = files_okD[OF fo q(1)]
    obtain s2 where s2: "FileHeader_FetchFrom q s1 = Inr (header_at s q, s2)" "disk_idle s2" "sectors s2 = sectors s"
      using ReadSector_ok[OF fs_okD(1)[OF s1(2)] q(2,3)] s1(3) by (auto simp: FileHeader_FetchFrom_def header_at_def)
    have f2: "fs_ok fs s2" by (rule fs_ok_same[OF assms(1) s2(3,2)])
    obtain s3 where s3: "PersistentBitmap_new (freeMapFile fs) NumSectors s2 = Inr (disk_map s, s3)" "fs_ok fs s3" "sectors s3 = sectors s"
      using fetch_map[OF f2] same_sectors(5)[OF s2(3)] s2(3) by auto
    note e3 = same_sectors[OF s3(3)]
    have u: "{i. bit_used (disk_map s) i} = \<Union> (blocks s ` hdr_secs s)" using fs_okD(13)[OF assms(1)] .
    have used: "bit_used (disk_map s) i" if "i \<in> blocks s q" for i using u that q(1) by auto
    obtain b1 where b1: "Deallocate (header_at s q) (disk_map s) = Inr b1" "bitmap_inv b1" "numBits b1 = NumSectors"
      "bit_used b1 = (\<lambda>i. bit_used (disk_map s) i \<and> i \<notin> data_of s q)"
      using Deallocate_ok[OF disk_map_inv hq(3)] used by (auto simp: blocks_def data_of_def)
    obtain b2 where b2: "Bitmap_Clear b1 q = Inr b2" "bitmap_inv b2" "numBits b2 = NumSectors" "bit_used b2 = (bit_used b1)(q := False)"
      using Bitmap_Clear_ok[OF b1(2) q(2)] q(3) b1(3) by auto
    have ub: "bit_used b2 = (\<lambda>i. bit_used (disk_map s) i \<and> i \<notin> blocks s q)" using b1(4) b2(4) by (auto simp: fun_eq_iff blocks_def)
    obtain d where d: "Directory_Remove (disk_dir s) nm = Inr (True, d)" "dir_ok d" "tableSize d = 10" "dir_map d = (names s)(name_key nm := None)"
      using Directory_Remove_ok[OF dok assms(3)] Some by (auto simp: names_def disk_dir_def)
    have ub3: "bit_used b2 = (\<lambda>i. bit_used (disk_map s3) i \<and> i \<notin> blocks s3 q)" using ub unfolding e3 .
    have d3: "names s3 (name_key nm) = Some q" "dir_map d = (names s3)(name_key nm := None)" using Some d(4) unfolding e3 by auto
    note ag = remove_agrees[OF s3(2) d3(1) b2(2,3) ub3 d(2,3) d3(2)]
    obtain s4 s' where s': "PersistentBitmap_WriteBack (m_buffer j) b2 (freeMapFile fs) s3 = Inr s4" "Directory_WriteBack (m_buffer j) d (directoryFile fs) s4 = Inr s'"
      "disk_idle s'" "outside s3 s'" "disk_map s' = b2" "disk_dir s' = d" using write_both(2)[OF ag] by blast
    note fin = agrees_installed[OF ag s'(3-6)]
    have "DFS_Remove j fs nm s = Inr (True, s')"
      using s1(1) find Some q(2) s2(1) s3(1) b1(1) b2(1) d(1) s'(1,2) by (simp add: DFS_Remove_def)
    moreover have "free_bits (disk_map s') = free_bits (disk_map s) \<union> blocks s q"
    proof -
      have "0 \<le> i \<and> i < NumSectors" if "i \<in> blocks s q" for i using used[OF that] disk_map_inv(2)[of s] by (simp add: bit_used_def)
      then show ?thesis unfolding s'(5) using ub b2(3) disk_map_inv(2)[of s] by (auto simp: free_bits_def)
    qed
    moreover have "\<forall>p \<in> ran (names s'). content s' p = content s p" using fin(2,4) e3(4) by simp
    ultimately show ?thesis using Some fin(1,2) d(4) by auto
  qed
qed

end
