(* ===== verification/DiskLife.thy ===== *)
theory DiskLife
  imports DiskCreate
begin

text \<open>
  The life of a file on the disk: \<open>Open\<close>, writing through an open file, and a formatted disk to start from.
\<close>

section \<open>Open and write\<close>

lemma DFS_Open_ok:
  assumes "fs_ok fs s" "mem_ok j" "0 \<notin> set nm"
  shows "\<exists>s'. DFS_Open j fs nm s = Inr (map_option (\<lambda>q. \<lparr>ftype = m_type j, hdr = header_at s q, seekPosition = 0\<rparr>) (names s (name_key nm)), s') \<and>
     fs_ok fs s' \<and> sectors s' = sectors s"
proof -
  have me: "\<forall>i. entry_ok (m_entries j i)" using assms(2) by (simp add: mem_ok_def)
  obtain s1 where s1: "Directory_FetchFrom (Directory_new (m_entries j) 10) (directoryFile fs) s = Inr (disk_dir s, s1)" "fs_ok fs s1" "sectors s1 = sectors s"
    using fetch_directory[OF assms(1) me] by auto
  note find = directory.find_ok[OF fs_okD(8)[OF assms(1)] assms(3), folded names_def]
  show ?thesis
  proof (cases "names s (name_key nm)")
    case None
    then show ?thesis using s1 find by (auto simp: DFS_Open_def)
  next
    case (Some q)
    note q = names_sector[OF assms(1) Some]
    obtain s2 where s2: "FileHeader_FetchFrom q s1 = Inr (header_at s q, s2)" "disk_idle s2" "sectors s2 = sectors s"
      using ReadSector_ok[OF fs_okD(1)[OF s1(2)] q(2,3)] s1(3) by (auto simp: FileHeader_FetchFrom_def header_at_def)
    have "DFS_Open j fs nm s = Inr (Some \<lparr>ftype = m_type j, hdr = header_at s q, seekPosition = 0\<rparr>, s2)"
      using s1(1) find Some q(2) s2(1) by (simp add: DFS_Open_def DFile_new_def)
    then show ?thesis using fs_ok_same[OF assms(1) s2(3,2)] s2(3) Some by auto
  qed
qed

text \<open>A write through an open file changes the content of this file only.\<close>

lemma DFS_write_ok:
  assumes "fs_ok fs s" "names s k = Some q" "hdr f = header_at s q" "0 \<le> pos" "n \<le> int (length buf)"
  shows "\<exists>s'. DFile_WriteAt junk f buf n pos s = Inr (int (length (take (nat n) (drop (nat pos) (content s q)))), s') \<and> fs_ok fs s' \<and>
     names s' = names s \<and> disk_map s' = disk_map s \<and> header_at s' q = header_at s q \<and>
     content s' q = take (length (content s q)) (overwrite (content s q) (nat pos) (take (nat n) buf)) \<and>
     (\<forall>p \<in> ran (names s) - {q}. content s' p = content s p)"
proof -
  note f = fs_okD[OF assms(1)]
  note q = names_sector[OF assms(1,2)]
  note hq = files_okD[OF f(12) q(1)]
  have ho: "hdr_ok (hdr f)" using hq(3) assms(3) by simp
  obtain s' where s': "DFile_WriteAt junk f buf n pos s = Inr (int (length (take (nat n) (drop (nat pos) (content s q)))), s')" "disk_idle s'"
    "\<And>i. i \<notin> data_of s q \<Longrightarrow> sectors s' i = sectors s i"
    "file_bytes s' (header_at s q) = take (length (content s q)) (overwrite (content s q) (nat pos) (take (nat n) buf))"
    using DFile_WriteAt_ok[OF f(1) ho assms(4,5), of junk] assms(3) by (auto simp: content_def data_of_def hsecs_def)
  have hs: "header_at s' q = header_at s q" using s'(3) hq(4) by (intro header_cong) simp
  have other: "header_at s' p = header_at s p \<and> data_of s' p = data_of s p \<and> blocks s' p = blocks s p \<and> content s' p = content s p"
    if "p \<in> hdr_secs s" "p \<noteq> q" for p
  proof -
    have c: "sectors s' i = sectors s i" if "i \<in> blocks s p" for i
      using hq(5)[OF \<open>p \<in> hdr_secs s\<close>] \<open>p \<noteq> q\<close> that by (intro s'(3)) (auto simp: blocks_def)
    show ?thesis using content_cong[OF c] by blast
  qed
  have all: "header_at s' p = header_at s p \<and> data_of s' p = data_of s p \<and> blocks s' p = blocks s p" if "p \<in> hdr_secs s" for p
  proof (cases "p = q")
    case True
    then show ?thesis by (simp add: hs data_of_def blocks_def)
  next
    case False
    then show ?thesis using other[OF that] by blast
  qed
  have H01: "0 \<in> hdr_secs s" "1 \<in> hdr_secs s" by (simp_all add: hdr_secs_def)
  have dd: "disk_dir s' = disk_dir s" "disk_map s' = disk_map s" using other[OF H01(1)] other[OF H01(2)] q(4,5) by (simp_all add: disk_dir_def disk_map_def)
  then have nm: "names s' = names s" "hdr_secs s' = hdr_secs s" by (simp_all add: names_def hdr_secs_def)
  have fo: "files_ok s' (hdr_secs s)" using f(12) all unfolding files_ok_def by metis
  have U: "\<Union> (blocks s' ` hdr_secs s) = \<Union> (blocks s ` hdr_secs s)" using all by (intro SUP_cong) auto
  have "fs_ok fs s'" using assms(1) s'(2) all[OF H01(1)] all[OF H01(2)] fo U dd nm unfolding fs_ok_def by simp
  moreover have "content s' q = take (length (content s q)) (overwrite (content s q) (nat pos) (take (nat n) buf))" using s'(4) hs by (simp add: content_def)
  moreover have "\<forall>p \<in> ran (names s) - {q}. content s' p = content s p" using other by (auto simp: hdr_secs_def)
  ultimately show ?thesis using s'(1) dd nm hs by blast
qed

section \<open>A formatted disk\<close>

definition formatted_map :: FileHeader where
  "formatted_map = \<lparr>numBytes = 128, numSectors = 1, dataSectors = 2 # replicate 29 0\<rparr>"

definition formatted_dir :: FileHeader where
  "formatted_dir = \<lparr>numBytes = 200, numSectors = 2, dataSectors = 3 # 4 # replicate 28 0\<rparr>"

definition formatted_fs :: FileSys where
  "formatted_fs = \<lparr>freeMapFile = \<lparr>ftype = 0, hdr = formatted_map, seekPosition = 0\<rparr>, directoryFile = \<lparr>ftype = 0, hdr = formatted_dir, seekPosition = 0\<rparr>,
     fsOpen = replicate 10 None\<rparr>"

definition formatted :: "int \<Rightarrow> bytes" where
  "formatted q = (if q = 0 then hdr_bytes formatted_map else if q = 1 then hdr_bytes formatted_dir
     else if q = 2 then words_bytes (31 # replicate 31 0) else replicate 128 0)"

lemma formatted_length: "length (formatted q) = 128"
  using length_hdr_bytes[of formatted_map] length_hdr_bytes[of formatted_dir] by (simp add: formatted_def formatted_map_def formatted_dir_def)

lemma write_five:
  assumes "disk_idle s"
  shows "\<exists>s'. disk_idle s' \<and> sectors s' = (sectors s)(0 := formatted 0, 1 := formatted 1, 2 := formatted 2, 3 := formatted 3, 4 := formatted 4)"
proof -
  have w: "\<exists>s'. disk_idle s' \<and> sectors s' = (sectors t)(q := formatted q)" if "disk_idle t" "0 \<le> q" "q < NumSectors" for t q
    using WriteSector_ok[OF that formatted_length[of q]] by blast
  obtain s0 where s0: "disk_idle s0" "sectors s0 = (sectors s)(0 := formatted 0)" using w[OF assms, of 0] by (auto simp: disk_consts)
  obtain s1 where s1: "disk_idle s1" "sectors s1 = (sectors s0)(1 := formatted 1)" using w[OF s0(1), of 1] by (auto simp: disk_consts)
  obtain s2 where s2: "disk_idle s2" "sectors s2 = (sectors s1)(2 := formatted 2)" using w[OF s1(1), of 2] by (auto simp: disk_consts)
  obtain s3 where s3: "disk_idle s3" "sectors s3 = (sectors s2)(3 := formatted 3)" using w[OF s2(1), of 3] by (auto simp: disk_consts)
  obtain s4 where s4: "disk_idle s4" "sectors s4 = (sectors s3)(4 := formatted 4)" using w[OF s3(1), of 4] by (auto simp: disk_consts)
  show ?thesis using s0 s1 s2 s3 s4 by auto
qed

lemma formatted_headers: "hdr_ok formatted_map" "hdr_ok formatted_dir" "hsecs formatted_map (nsec formatted_map) = {2}" "hsecs formatted_dir (nsec formatted_dir) = {3, 4}"
  by (auto simp: hdr_ok_def formatted_map_def formatted_dir_def FileLength_def nsec_def secno_def divRoundUp_def disk_consts inj_on_def hsecs_def
    less_Suc_eq numeral_2_eq_2 lessThan_Suc)

lemma first_five_bits:
  assumes "0 \<le> i" "i < NumSectors"
  shows "bit ((31 # replicate 31 0 :: 32 word list) ! nat (i div BitsInWord)) (nat (i mod BitsInWord)) \<longleftrightarrow> i < 5"
proof (cases "i < 32")
  case True
  have m: "(31 :: 32 word) = mask 5" by (simp add: mask_eq_exp_minus_1)
  have "i div 32 = 0" "i mod 32 = i" using True assms by (simp_all add: div_pos_pos_trivial)
  then show ?thesis using assms(1) True by (auto simp: BitsInWord_def m bit_mask_iff)
next
  case False
  then have "0 < i div 32" "i div 32 < 32" using assms(2) by (auto simp: disk_consts)
  then obtain j where "nat (i div 32) = Suc j" "j < 31" by (cases "nat (i div 32)") auto
  then show ?thesis using False by (simp add: BitsInWord_def)
qed

lemma formatted_ok:
  "\<exists>s. fs_ok formatted_fs s \<and> names s = Map.empty \<and> free_bits (disk_map s) = {5..<NumSectors} \<and> \<not> dir_full (disk_dir s)"
proof -
  obtain s0 where "disk_idle s0" using SynchDisk_new_idle by blast
  then obtain s where s: "disk_idle s" "sectors s = (sectors s0)(0 := formatted 0, 1 := formatted 1, 2 := formatted 2, 3 := formatted 3, 4 := formatted 4)"
    using write_five by blast
  have sec: "sectors s 0 = formatted 0" "sectors s 1 = formatted 1" "sectors s 2 = formatted 2" "sectors s 3 = formatted 3" "sectors s 4 = formatted 4"
    using s(2) by auto
  have h: "header_at s 0 = formatted_map" "header_at s 1 = formatted_dir"
    using bytes_hdr_bytes[of formatted_map] bytes_hdr_bytes[of formatted_dir] by (simp_all add: header_at_def sec formatted_def formatted_map_def formatted_dir_def)
  have d: "data_of s 0 = {2}" "data_of s 1 = {3, 4}" using formatted_headers by (simp_all add: data_of_def h)
  have c: "content s 0 = words_bytes (31 # replicate 31 0)" "content s 1 = replicate 200 0"
    by (simp_all add: content_def h file_bytes_def raw_bytes_def FileLength_def formatted_map_def formatted_dir_def nsec_def secno_def upt_rec sec formatted_def flip: replicate_add)
  have t: "\<not> de_inUse e \<and> entry_ok e" if "e \<in> set (bytes_table 10 (replicate 200 0))" for e
    using that bytes_table_ok[of "replicate 200 0" 10 e] by (auto simp: bytes_table_def bytes_entry_def sizeof_entry_def)
  have lt: "length (table (disk_dir s)) = 10" by (simp add: disk_dir_def bytes_table_def)
  have dir: "dir_ok (disk_dir s)" "dir_map (disk_dir s) = Map.empty" "\<not> dir_full (disk_dir s)"
  proof -
    have f: "filter de_inUse (table (disk_dir s)) = []" using t by (auto simp: disk_dir_def c filter_empty_conv)
    then show "dir_map (disk_dir s) = Map.empty" by (simp add: dir_map_def)
    show "dir_ok (disk_dir s)" using f t lt by (auto simp: dir_ok_def disk_dir_def c)
    have "table (disk_dir s) ! 0 \<in> set (table (disk_dir s))" using lt by (intro nth_mem) simp
    then show "\<not> dir_full (disk_dir s)" using t unfolding dir_full_def by (auto simp: disk_dir_def c)
  qed
  then have n: "names s = Map.empty" "hdr_secs s = {0, 1}" by (simp_all add: names_def hdr_secs_def)
  have map: "disk_map s = \<lparr>numBits = NumSectors, numWords = 32, bmap = 31 # replicate 31 0\<rparr>"
    using bytes_words_bytes[of "31 # replicate 31 0"] by (simp add: disk_map_def c)
  have u: "bit_used (disk_map s) i \<longleftrightarrow> 0 \<le> i \<and> i < 5" for i
  proof -
    have "bit_used (disk_map s) i \<longleftrightarrow> 0 \<le> i \<and> i < NumSectors \<and> bit ((31 # replicate 31 0 :: 32 word list) ! nat (i div BitsInWord)) (nat (i mod BitsInWord))"
      by (simp only: map bit_used_def Bitmap.simps)
    then show ?thesis using first_five_bits[of i] by (auto simp: disk_consts simp del: nth_Cons' nth_replicate)
  qed
  have fo: "files_ok s {0, 1}" using formatted_headers by (auto simp: files_ok_def h d blocks_def disk_consts)
  have "(0 \<le> i \<and> i < 5) = (i = 0 \<or> i = 1 \<or> i = 2 \<or> i = 3 \<or> i = (4 :: int))" for i by arith
  then have U: "{i. bit_used (disk_map s) i} = \<Union> (blocks s ` {0, 1})" by (auto simp: u blocks_def d)
  have L: "FileLength formatted_map = FreeMapFileSize" "FileLength formatted_dir = DirectoryFileSize"
    by (simp_all add: FileLength_def formatted_map_def formatted_dir_def FreeMapFileSize_def DirectoryFileSize_def NumDirEntries_def sizeof_entry_def disk_consts)
  have F: "hdr (freeMapFile formatted_fs) = formatted_map" "hdr (directoryFile formatted_fs) = formatted_dir" by (simp_all add: formatted_fs_def)
  have "fs_ok formatted_fs s" unfolding fs_ok_def n h F L by (intro conjI refl s(1) dir(1) fo U) simp_all
  moreover have "free_bits (disk_map s) = {5..<NumSectors}" by (auto simp: free_bits_def u disk_map_inv(2))
  ultimately show ?thesis using n(1) dir(3) by blast
qed

definition blank_memory :: memory where
  "blank_memory = \<lparr>m_entries = (\<lambda>_. blank_entry), m_header = formatted_map, m_buffer = (\<lambda>_. 0), m_type = 0\<rparr>"

lemma blank_memory_ok: "mem_ok blank_memory"
  by (simp add: mem_ok_def blank_memory_def entry_ok_def blank_entry_def formatted_map_def)

section \<open>The file system\<close>

text \<open>
  C8: \<open>Create\<close> on a consistent disk, for a size up to \<open>MaxFileSize\<close>.  It succeeds exactly if the name is new, the directory has a free entry and there are enough free
  sectors for the header and the data.  Then the name stands for a header in a sector that was free, of a file of the given size, exactly the sectors
  of the file are no longer free, and the other files have their contents; else the disk is as before.  In both cases the disk is consistent: valid
  headers, no sector in two files, and a map that marks exactly the sectors in use.
\<close>

theorem Create_correct:
  assumes "fs_ok fs s" "mem_ok j" "0 \<notin> set nm" "0 \<le> n" "n \<le> MaxFileSize"
  shows "let ok = names s (take 9 nm) = None \<and> (\<exists>e \<in> set (table (disk_dir s)). \<not> de_inUse e) \<and>
       divRoundUp n SectorSize + 1 \<le> int (card (free_bits (disk_map s))) in
     \<exists>s'. DFS_Create j fs nm n s = Inr (ok, s') \<and> fs_ok fs s' \<and>
       (if ok then \<exists>q \<in> free_bits (disk_map s). names s' = (names s)(take 9 nm \<mapsto> q) \<and> FileLength (header_at s' q) = n \<and>
          free_bits (disk_map s') = free_bits (disk_map s) - blocks s' q \<and> (\<forall>p \<in> ran (names s). content s' p = content s p)
        else sectors s' = sectors s)"
  using DFS_Create_ok[OF assms] unfolding Let_def create_ok_def not_dir_full name_key_def FileNameMaxLen_def .

theorem Create_correct_witness:
  "\<exists>s s' q. fs_ok formatted_fs s \<and> DFS_Create blank_memory formatted_fs (cstr ''notes'') 300 s = Inr (True, s') \<and> fs_ok formatted_fs s' \<and>
     names s' = [take 9 (cstr ''notes'') \<mapsto> q] \<and> FileLength (header_at s' q) = 300"
proof -
  obtain s where s: "fs_ok formatted_fs s" "names s = Map.empty" "free_bits (disk_map s) = {5..<NumSectors}" "\<not> dir_full (disk_dir s)" using formatted_ok by blast
  have "0 \<notin> set (cstr ''notes'')" by (simp add: cstr_def)
  with Create_correct[OF s(1) blank_memory_ok, of "cstr ''notes''" 300] s show ?thesis
    by (auto simp: Let_def MaxFileSize_def NumDirect_def not_dir_full divRoundUp_def disk_consts)
qed

text \<open>
  C10: \<open>Remove\<close> on a consistent disk.  It says whether the name was in the directory; the name is gone afterwards, exactly the sectors of its file have
  become free, all other files keep their names and contents, and the disk is consistent.
\<close>

theorem Remove_correct:
  assumes "fs_ok fs s" "mem_ok j" "0 \<notin> set nm"
  shows "\<exists>s'. DFS_Remove j fs nm s = Inr (names s (take 9 nm) \<noteq> None, s') \<and> fs_ok fs s' \<and> names s' = (names s)(take 9 nm := None) \<and>
     free_bits (disk_map s') = free_bits (disk_map s) \<union> (case names s (take 9 nm) of None \<Rightarrow> {} | Some q \<Rightarrow> blocks s q) \<and>
     (\<forall>p \<in> ran (names s'). content s' p = content s p)"
  using DFS_Remove_ok[OF assms] unfolding name_key_def FileNameMaxLen_def .

theorem Remove_correct_witness:
  "\<exists>s s1 s2. fs_ok formatted_fs s \<and> DFS_Create blank_memory formatted_fs (cstr ''notes'') 300 s = Inr (True, s1) \<and>
     DFS_Remove blank_memory formatted_fs (cstr ''notes'') s1 = Inr (True, s2) \<and> names s2 = Map.empty"
proof -
  obtain s where s: "fs_ok formatted_fs s" "names s = Map.empty" "free_bits (disk_map s) = {5..<NumSectors}" "\<not> dir_full (disk_dir s)" using formatted_ok by blast
  have z: "0 \<notin> set (cstr ''notes'')" by (simp add: cstr_def)
  have "create_ok s (cstr ''notes'') 300" using s by (simp add: create_ok_def divRoundUp_def disk_consts)
  then obtain s1 q where s1: "DFS_Create blank_memory formatted_fs (cstr ''notes'') 300 s = Inr (True, s1)" "fs_ok formatted_fs s1" "names s1 = [take 9 (cstr ''notes'') \<mapsto> q]"
    using DFS_Create_ok[OF s(1) blank_memory_ok z, of 300] s(2) by (auto simp: MaxFileSize_def NumDirect_def disk_consts name_key_def FileNameMaxLen_def)
  with Remove_correct[OF s1(2) blank_memory_ok z] s(1) show ?thesis by auto
qed

text \<open>
  From \<open>Create\<close> to \<open>Read\<close>.  When \<open>Create\<close> has succeeded, \<open>Open\<close> of the name gives a file of the given size; what is written to it is
  read back through a file that is opened later under the name; no other file changes, and the disk stays consistent.
\<close>

theorem file_written_is_read:
  assumes "fs_ok fs s" "mem_ok j" "0 \<notin> set nm" "n \<le> MaxFileSize" "DFS_Create j fs nm n s = Inr (True, s1)" "0 \<le> pos" "pos + int (length buf) \<le> n"
  shows "\<exists>f s2 s3 f' s4 s5. DFS_Open j fs nm s1 = Inr (Some f, s2) \<and> DFile_Length f = n \<and>
     DFile_WriteAt (m_buffer j) f buf (int (length buf)) pos s2 = Inr (int (length buf), s3) \<and>
     DFS_Open j fs nm s3 = Inr (Some f', s4) \<and> DFile_ReadAt f' (int (length buf)) pos s4 = Inr (int (length buf), buf, s5) \<and>
     fs_ok fs s5 \<and> (\<forall>p \<in> ran (names s). content s5 p = content s p)"
proof -
  have n0: "0 \<le> n" using assms(6,7) by simp
  let ?k = "name_key nm"
  obtain q where c: "create_ok s nm n" "fs_ok fs s1" "q \<in> free_bits (disk_map s)" "names s1 = (names s)(?k \<mapsto> q)" "FileLength (header_at s1 q) = n"
    "\<forall>p \<in> ran (names s). content s1 p = content s p" using DFS_Create_ok[OF assms(1,2,3) n0 assms(4)] assms(5) by (auto split: if_splits)
  have k1: "names s1 ?k = Some q" using c(4) by simp
  have qr: "q \<notin> ran (names s)" using c(3) fs_okD(13)[OF assms(1)] by (auto simp: free_bits_def hdr_secs_def blocks_def)
  obtain s2 where s2: "DFS_Open j fs nm s1 = Inr (Some \<lparr>ftype = m_type j, hdr = header_at s1 q, seekPosition = 0\<rparr>, s2)" "fs_ok fs s2" "sectors s2 = sectors s1"
    using DFS_Open_ok[OF c(2) assms(2,3)] k1 by auto
  note e2 = same_sectors[OF s2(3)]
  let ?f = "\<lparr>ftype = m_type j, hdr = header_at s1 q, seekPosition = 0\<rparr>" and ?C = "content s2 q"
  have k2: "names s2 ?k = Some q" "hdr ?f = header_at s2 q" using k1 by (simp_all add: e2)
  have ho: "hdr_ok (header_at s1 q)" using files_okD(3)[OF fs_okD(12)[OF c(2)] names_sector(1)[OF c(2) k1]] .
  have lC: "int (length ?C) = n" using length_file_bytes[OF fs_okD(1)[OF s2(2)] ho] c(5) by (simp only: content_def e2(1))
  have fit: "nat pos + length buf \<le> length ?C" using assms(6,7) lC by linarith
  have cut: "length (take (length buf) (drop (nat pos) ?C)) = length buf" using fit by simp
  obtain s3 where s3: "DFile_WriteAt (m_buffer j) ?f buf (int (length buf)) pos s2 = Inr (int (length buf), s3)" "fs_ok fs s3" "names s3 = names s2"
    "header_at s3 q = header_at s2 q" "content s3 q = take (length ?C) (overwrite ?C (nat pos) buf)" "\<forall>p \<in> ran (names s2) - {q}. content s3 p = content s2 p"
    using DFS_write_ok[OF s2(2) k2 assms(6), of "int (length buf)" buf "m_buffer j"] cut by auto
  have c3: "content s3 q = overwrite ?C (nat pos) buf" using s3(5) overwrite_length[OF fit] by simp
  obtain s4 where s4: "DFS_Open j fs nm s3 = Inr (Some \<lparr>ftype = m_type j, hdr = header_at s3 q, seekPosition = 0\<rparr>, s4)" "fs_ok fs s4" "sectors s4 = sectors s3"
    using DFS_Open_ok[OF s3(2) assms(2,3)] k2 s3(3) by auto
  let ?g = "\<lparr>ftype = m_type j, hdr = header_at s3 q, seekPosition = 0\<rparr>"
  have hg: "hdr_ok (hdr ?g)" "file_bytes s4 (hdr ?g) = overwrite ?C (nat pos) buf"
  proof -
    show "hdr_ok (hdr ?g)" using ho s3(4) by (simp add: e2(1))
    have "content s4 q = overwrite ?C (nat pos) buf" using c3 same_sectors(4)[OF s4(3)] by simp
    then show "file_bytes s4 (hdr ?g) = overwrite ?C (nat pos) buf" using same_sectors(1)[OF s4(3)] by (simp add: content_def)
  qed
  obtain s5 where s5: "DFile_ReadAt ?g (int (length buf)) pos s4 = Inr (int (length buf), buf, s5)" "disk_idle s5" "sectors s5 = sectors s4"
    using DFile_ReadAt_ok[OF fs_okD(1)[OF s4(2)] hg(1) assms(6), of "int (length buf)"] overwrite_read[of buf "nat pos" ?C] unfolding hg(2) by auto
  have "fs_ok fs s5" by (rule fs_ok_same[OF s4(2) s5(3,2)])
  moreover have "\<forall>p \<in> ran (names s). content s5 p = content s p"
  proof
    fix p assume p: "p \<in> ran (names s)"
    then have "p \<in> ran (names s2) - {q}" using qr c(1,4) by (auto simp: e2 create_ok_def)
    then show "content s5 p = content s p" using s3(6) c(6) p by (simp add: same_sectors[OF s5(3)] same_sectors[OF s4(3)] e2)
  qed
  moreover have "DFile_Length ?f = n" using c(5) by (simp add: DFile_Length_def)
  ultimately show ?thesis using s2(1) s3(1) s4(1) s5(1) by blast
qed

end
