(* ===== verification/CopyPrint.thy ===== *)
theory CopyPrint
  imports DiskLife
begin

text \<open>
  \<open>Copy\<close> and \<open>Print\<close> of \<^verbatim>\<open>threads/main.cc\<close>: the commands \<^verbatim>\<open>nachos -cp\<close> and \<^verbatim>\<open>nachos -p\<close>, which bring a file of the host to the disk and show
  a file of the disk.  Their loops have a number of rounds as an argument; a number above the length of the file is enough, as is proved.
\<close>

section \<open>Operations\<close>

definition TransferSize :: int where "TransferSize = 128"

fun copy_loop :: "nat \<Rightarrow> (nat \<Rightarrow> 8 word) \<Rightarrow> int \<Rightarrow> DFile \<Rightarrow> host \<Rightarrow> dsim \<Rightarrow> (host \<times> dsim) run" where
  "copy_loop 0 junk fd f h s = Inl Diverges"
| "copy_loop (Suc n) junk fd f h s =
     (let (amountRead, buffer, h) = ReadPartial fd TransferSize h in
      if amountRead > 0 then bind_run (DFile_Write junk f buffer amountRead s) (\<lambda>(_, f, s). copy_loop n junk fd f h s)
      else Inr (h, s))"

definition Copy :: "nat \<Rightarrow> memory \<Rightarrow> FileSys \<Rightarrow> bytes \<Rightarrow> bytes \<Rightarrow> host \<Rightarrow> dsim \<Rightarrow> (host \<times> dsim) run" where
  "Copy n j fs from to h s =
     bind_run (OpenForReadWrite from False h) (\<lambda>(fd, h).
     if fd < 0 then Inr (h, s)
     else
       bind_run (Lseek fd 0 SEEK_END h) (\<lambda>h.
       let (fileLength, h) = Tell fd h in
       bind_run (Lseek fd 0 SEEK_SET h) (\<lambda>h.
       bind_run (DFS_Create j fs to fileLength s) (\<lambda>(created, s).
       if \<not> created then bind_run (Close fd h) (\<lambda>(_, h). Inr (h, s))
       else
         bind_run (DFS_Open j fs to s) (\<lambda>(openFile, s).
         case openFile of None \<Rightarrow> Inl AssertFail
         | Some f \<Rightarrow>
             bind_run (copy_loop n (m_buffer j) fd f h s) (\<lambda>(h, s).
             bind_run (Close fd h) (\<lambda>(_, h). Inr (h, s))))))))"

fun print_loop :: "nat \<Rightarrow> DFile \<Rightarrow> dsim \<Rightarrow> (bytes \<times> dsim) run" where
  "print_loop 0 f s = Inl Diverges"
| "print_loop (Suc n) f s =
     bind_run (DFile_Read f TransferSize s) (\<lambda>(amountRead, buffer, f, s).
     if amountRead > 0 then bind_run (print_loop n f s) (\<lambda>(out, s). Inr (buffer @ out, s)) else Inr ([], s))"

text \<open>The bytes printed; \<open>None\<close> stands for the message that the file can not be opened.\<close>

definition Print :: "nat \<Rightarrow> memory \<Rightarrow> FileSys \<Rightarrow> bytes \<Rightarrow> dsim \<Rightarrow> (bytes option \<times> dsim) run" where
  "Print n j fs name s =
     bind_run (DFS_Open j fs name s) (\<lambda>(openFile, s).
     case openFile of None \<Rightarrow> Inr (None, s) | Some f \<Rightarrow> bind_run (print_loop n f s) (\<lambda>(out, s). Inr (Some out, s)))"

section \<open>The loops\<close>

lemma overwrite_inside: "p + length bs \<le> length c \<Longrightarrow> overwrite c p bs = take p c @ bs @ drop (p + length bs) c"
  by (simp add: overwrite_def)

lemma chunk_cut: "take (length (take n xs)) xs = take n xs" "drop (length (take n xs)) xs = drop n xs"
  by (simp_all add: min_def)

lemma chunk_rest: "take n (drop p xs) @ drop (p + length (take n (drop p xs))) xs = drop p xs"
  by (metis add.commute append_take_drop_id chunk_cut(2) drop_drop)

lemma next_chunk:
  assumes "length c = length F" "take p c = take p F" "p \<le> length F"
  defines "bs \<equiv> take 128 (drop p F)"
  shows "p + length bs \<le> length c" "take (p + length bs) (overwrite c p bs) = take (p + length bs) F"
proof -
  show fit: "p + length bs \<le> length c" using assms(1,3) by (simp add: bs_def)
  have "take (length bs) (drop p F) = bs" unfolding bs_def by (rule chunk_cut)
  then have "take p F @ bs = take (p + length bs) F" by (simp add: take_add)
  moreover have "length (take p F @ bs) = p + length bs" using assms(3) by simp
  ultimately show "take (p + length bs) (overwrite c p bs) = take (p + length bs) F"
    unfolding overwrite_inside[OF fit] assms(2) append_assoc[symmetric] by (metis append_eq_conv_conj)
qed

lemma copy_loop_ok:
  assumes "fs_ok fs s" "names s k = Some q" "hdr f = header_at s q" "seekPosition f = int p" "fds h fd = Some (i, int p)" "inode h i = F"
    "length (content s q) = length F" "take p (content s q) = take p F" "p \<le> length F" "length F - p < n"
  shows "\<exists>h' s'. copy_loop n junk fd f h s = Inr (h', s') \<and> fs_ok fs s' \<and> names s' = names s \<and> header_at s' q = header_at s q \<and> content s' q = F \<and>
     (\<forall>p \<in> ran (names s) - {q}. content s' p = content s p) \<and> inode h' = inode h \<and> fds h' fd \<noteq> None"
  using assms
proof (induction n arbitrary: f h s p)
  case (Suc n)
  define bs where "bs = take 128 (drop p F)"
  let ?h = "h\<lparr>fds := (fds h)(fd \<mapsto> (i, int p + int (length bs)))\<rparr>"
  have rd: "ReadPartial fd TransferSize h = (int (length bs), bs, ?h)"
    using Suc.prems(5,6) by (simp add: ReadPartial_def host_read_def TransferSize_def bs_def Let_def)
  show ?case
  proof (cases "bs = []")
    case True
    then have "p = length F" using Suc.prems(9) by (simp add: bs_def)
    then have "content s q = F" using Suc.prems(7,8) by simp
    then show ?thesis using True rd Suc.prems(1) by simp
  next
    case False
    note nc = next_chunk[OF Suc.prems(7,8,9), folded bs_def]
    let ?f = "f\<lparr>seekPosition := int (p + length bs)\<rparr>"
    have pos: "0 \<le> seekPosition f" using Suc.prems(4) by simp
    have cut: "length (take (length bs) (drop p (content s q))) = length bs" using nc(1) by simp
    obtain s1 where s1: "DFile_WriteAt junk f bs (int (length bs)) (seekPosition f) s = Inr (int (length bs), s1)" "fs_ok fs s1" "names s1 = names s"
      "header_at s1 q = header_at s q" "content s1 q = take (length (content s q)) (overwrite (content s q) p bs)"
      "\<forall>p \<in> ran (names s) - {q}. content s1 p = content s p"
      using DFS_write_ok[OF Suc.prems(1-3) pos, of "int (length bs)" bs junk] cut Suc.prems(4) by auto
    have c1: "content s1 q = overwrite (content s q) p bs" "length (content s1 q) = length F"
      using s1(5) overwrite_length[OF nc(1)] Suc.prems(7) by simp_all
    have l: "length F - (p + length bs) < n" using Suc.prems(9,10) False nc(1) Suc.prems(7) by (cases bs) auto
    have "\<exists>h' s'. copy_loop n junk fd ?f ?h s1 = Inr (h', s') \<and> fs_ok fs s' \<and> names s' = names s1 \<and> header_at s' q = header_at s1 q \<and> content s' q = F \<and>
       (\<forall>p \<in> ran (names s1) - {q}. content s' p = content s1 p) \<and> inode h' = inode ?h \<and> fds h' fd \<noteq> None"
      by (rule Suc.IH[of s1 ?f "p + length bs" ?h]) (use s1 c1 nc l Suc.prems in \<open>simp_all\<close>)
    moreover have "copy_loop (Suc n) junk fd f h s = copy_loop n junk fd ?f ?h s1"
      using rd False s1(1) Suc.prems(4) by (simp add: DFile_Write_def)
    ultimately show ?thesis using s1(3,4,6) by auto
  qed
qed simp

lemma print_loop_ok:
  assumes "disk_idle s" "hdr_ok (hdr f)" "seekPosition f = int p" "length (file_bytes s (hdr f)) - p < n"
  shows "\<exists>s'. print_loop n f s = Inr (drop p (file_bytes s (hdr f)), s') \<and> disk_idle s' \<and> sectors s' = sectors s"
  using assms
proof (induction n arbitrary: f s p)
  case (Suc n)
  define bs where "bs = take 128 (drop p (file_bytes s (hdr f)))"
  obtain s1 where s1: "DFile_ReadAt f TransferSize (seekPosition f) s = Inr (int (length bs), bs, s1)" "disk_idle s1" "sectors s1 = sectors s"
    using DFile_ReadAt_ok[OF Suc.prems(1,2), of "seekPosition f" TransferSize] Suc.prems(3) by (auto simp: TransferSize_def bs_def)
  let ?f = "f\<lparr>seekPosition := int (p + length bs)\<rparr>"
  show ?case
  proof (cases "bs = []")
    case True
    then show ?thesis using s1 by (simp add: DFile_Read_def bs_def)
  next
    case False
    have e: "file_bytes s1 (hdr ?f) = file_bytes s (hdr f)" using s1(3) by (simp add: file_bytes_def raw_bytes_def)
    have l: "length (file_bytes s1 (hdr ?f)) - (p + length bs) < n" using Suc.prems(4) False unfolding e by (cases bs) (auto simp: bs_def)
    have "bs @ drop (p + length bs) (file_bytes s (hdr f)) = drop p (file_bytes s (hdr f))"
      unfolding bs_def by (rule chunk_rest)
    then show ?thesis using Suc.IH[of s1 ?f "p + length bs", OF s1(2) _ _ l] Suc.prems(2,3) s1 False e by (auto simp: DFile_Read_def)
  qed
qed simp

section \<open>Copy and Print\<close>

lemma Copy_ok:
  assumes "fs_ok fs s" "mem_ok j" "0 \<notin> set to" "dir h from = Some i" "inode h i = F" "0 \<le> nextFd h" "int (length F) \<le> MaxFileSize"
    "create_ok s to (int (length F))" "length F < n"
  shows "\<exists>h' s' q. Copy n j fs from to h s = Inr (h', s') \<and> fs_ok fs s' \<and> names s' = (names s)(name_key to \<mapsto> q) \<and> content s' q = F \<and>
     (\<forall>p \<in> ran (names s). content s' p = content s p) \<and> inode h' = inode h \<and> fds h' (nextFd h) = None"
proof -
  let ?k = "name_key to" and ?fd = "nextFd h"
  let ?h = "h\<lparr>nextFd := ?fd + 1, fds := (fds h)(?fd \<mapsto> (i, 0))\<rparr>"
  obtain s1 q where c: "DFS_Create j fs to (int (length F)) s = Inr (True, s1)" "fs_ok fs s1" "q \<in> free_bits (disk_map s)" "names s1 = (names s)(?k \<mapsto> q)"
    "FileLength (header_at s1 q) = int (length F)" "\<forall>p \<in> ran (names s). content s1 p = content s p"
    using DFS_Create_ok[OF assms(1-3) _ assms(7)] assms(8) by auto
  have k1: "names s1 ?k = Some q" using c(4) by simp
  obtain s2 where s2: "DFS_Open j fs to s1 = Inr (Some \<lparr>ftype = m_type j, hdr = header_at s1 q, seekPosition = 0\<rparr>, s2)" "fs_ok fs s2" "sectors s2 = sectors s1"
    using DFS_Open_ok[OF c(2) assms(2,3)] k1 by auto
  note e2 = same_sectors[OF s2(3)]
  have ho: "hdr_ok (header_at s1 q)" using files_okD(3)[OF fs_okD(12)[OF c(2)] names_sector(1)[OF c(2) k1]] .
  have lC: "length (content s2 q) = length F" using length_file_bytes[OF fs_okD(1)[OF s2(2)] ho] c(5) by (simp only: content_def e2(1))
  have qr: "q \<notin> ran (names s)" using c(3) fs_okD(13)[OF assms(1)] by (auto simp: free_bits_def hdr_secs_def blocks_def)
  let ?f = "\<lparr>ftype = m_type j, hdr = header_at s1 q, seekPosition = 0\<rparr>"
  obtain h' s3 where l: "copy_loop n (m_buffer j) ?fd ?f ?h s2 = Inr (h', s3)" "fs_ok fs s3" "names s3 = names s2" "content s3 q = F"
    "\<forall>p \<in> ran (names s2) - {q}. content s3 p = content s2 p" "inode h' = inode h" "fds h' ?fd \<noteq> None"
    using copy_loop_ok[OF s2(2), of ?k q ?f 0 ?h ?fd i F n "m_buffer j"] k1 lC assms(5,9) by (auto simp: e2)
  have "Copy n j fs from to h s = Inr (h'\<lparr>fds := (fds h')(?fd := None)\<rparr>, s3)"
    using assms(4-6) c(1) s2(1) l(1,7)
    by (simp add: Copy_def OpenForReadWrite_def host_open_def new_fd_def Lseek_def Tell_def host_lseek_def Close_def host_close_def Let_def)
  moreover have "\<forall>p \<in> ran (names s). content s3 p = content s p"
  proof
    fix p assume p: "p \<in> ran (names s)"
    then have "p \<in> ran (names s2) - {q}" using qr c(4) assms(8) by (auto simp: e2 create_ok_def)
    then show "content s3 p = content s p" using l(5) c(6) p by (simp add: e2)
  qed
  ultimately show ?thesis using l c(4) by (auto simp: e2)
qed

lemma Print_ok:
  assumes "fs_ok fs s" "mem_ok j" "0 \<notin> set nm" "names s (name_key nm) = Some q" "length (content s q) < n"
  shows "\<exists>s'. Print n j fs nm s = Inr (Some (content s q), s') \<and> fs_ok fs s' \<and> sectors s' = sectors s"
proof -
  let ?f = "\<lparr>ftype = m_type j, hdr = header_at s q, seekPosition = 0\<rparr>"
  obtain s1 where s1: "DFS_Open j fs nm s = Inr (Some ?f, s1)" "fs_ok fs s1" "sectors s1 = sectors s"
    using DFS_Open_ok[OF assms(1-3)] assms(4) by auto
  have ho: "hdr_ok (hdr ?f)" using files_okD(3)[OF fs_okD(12)[OF assms(1)] names_sector(1)[OF assms(1,4)]] by simp
  have fb: "file_bytes s1 (hdr ?f) = content s q" using fun_cong[OF same_sectors(4)[OF s1(3)], of q] fun_cong[OF same_sectors(1)[OF s1(3)], of q] by (simp add: content_def)
  have ln: "length (file_bytes s1 (hdr ?f)) - 0 < n" unfolding fb using assms(5) by simp
  obtain s2 where s2: "print_loop n ?f s1 = Inr (content s q, s2)" "disk_idle s2" "sectors s2 = sectors s1"
    using print_loop_ok[OF fs_okD(1)[OF s1(2)] ho _ ln] unfolding fb by auto
  then show ?thesis using s1(1,3) fs_ok_same[OF s1(2) s2(3,2)] by (simp add: Print_def)
qed

text \<open>
  C12: \<open>nachos -cp\<close> followed by \<open>nachos -p\<close>.  A file of the host that is not larger than \<open>MaxFileSize\<close> is copied to a name that is new on a consistent disk, with a free entry and
  enough free sectors.  \<open>Copy\<close> ends, with as many rounds as the file has bytes or fewer; the host's file is closed and unchanged, no other file of the disk changes and the disk is consistent.  \<open>Print\<close> of the new name then
  ends and prints exactly the bytes of the host's file.
\<close>

theorem Copy_Print:
  assumes "fs_ok fs s" "mem_ok j" "0 \<notin> set to" "dir h from = Some i" "0 \<le> nextFd h" "int (length (inode h i)) \<le> MaxFileSize"
    "names s (take 9 to) = None" "\<exists>e \<in> set (table (disk_dir s)). \<not> de_inUse e"
    "divRoundUp (int (length (inode h i))) SectorSize + 1 \<le> int (card (free_bits (disk_map s)))" "length (inode h i) < n"
  shows "\<exists>h' s' s''. Copy n j fs from to h s = Inr (h', s') \<and> inode h' = inode h \<and> fds h' (nextFd h) = None \<and> fs_ok fs s' \<and>
     (\<forall>p \<in> ran (names s). content s' p = content s p) \<and> Print n j fs to s' = Inr (Some (inode h i), s'')"
proof -
  have "create_ok s to (int (length (inode h i)))" using assms(7-9) by (simp add: create_ok_def not_dir_full name_key_def FileNameMaxLen_def)
  then obtain h' s' q where c: "Copy n j fs from to h s = Inr (h', s')" "fs_ok fs s'" "names s' = (names s)(name_key to \<mapsto> q)" "content s' q = inode h i"
    "\<forall>p \<in> ran (names s). content s' p = content s p" "inode h' = inode h" "fds h' (nextFd h) = None"
    using Copy_ok[OF assms(1-4) refl assms(5,6) _ assms(10)] by auto
  then show ?thesis using Print_ok[OF c(2) assms(2,3), of q n] assms(10) by auto
qed

definition a_host_file :: host where
  "a_host_file = host_new\<lparr>dir := [cstr ''a'' \<mapsto> 0], inode := (\<lambda>_. replicate 300 7)\<rparr>"

theorem Copy_Print_witness:
  "\<exists>s h' s' s''. fs_ok formatted_fs s \<and> Copy 301 blank_memory formatted_fs (cstr ''a'') (cstr ''notes'') a_host_file s = Inr (h', s') \<and>
     Print 301 blank_memory formatted_fs (cstr ''notes'') s' = Inr (Some (replicate 300 7), s'')"
proof -
  obtain s where s: "fs_ok formatted_fs s" "names s = Map.empty" "free_bits (disk_map s) = {5..<NumSectors}" "\<not> dir_full (disk_dir s)" using formatted_ok by blast
  have z: "0 \<notin> set (cstr ''notes'')" by (simp add: cstr_def)
  have "\<exists>e \<in> set (table (disk_dir s)). \<not> de_inUse e" using s(4) by (simp add: not_dir_full)
  then show ?thesis using Copy_Print[OF s(1) blank_memory_ok z, of a_host_file "cstr ''a''" 0 301] s
    by (auto simp: a_host_file_def host_new_def MaxFileSize_def NumDirect_def divRoundUp_def disk_consts)
qed

end
