(* ===== verification/AddrSpaces.thy ===== *)
theory AddrSpaces
  imports BitmapLib MachineMem FileStub
begin

text \<open>
  Address spaces of user programs (\<^verbatim>\<open>userprog/addrspace.cc\<close>): loading a program from an object file in
  NOFF format (\<^verbatim>\<open>noff.h\<close>), the initial registers, switching page tables and the kernel's own address
  translation.

  The state is the machine, the bitmap of physical frames \<open>gPhysPageBitMap\<close>, the value of the semaphore
  \<open>addrLock\<close> and the host's files.  \<open>Load\<close> is one run of one thread: where it would sleep in
  \<open>addrLock->P()\<close> the result is the fault \<open>Diverges\<close>, and the properties show that it leaves the lock as
  it found it.  Writes to \<open>mainMemory\<close> outside the array are the fault \<open>OutOfBounds\<close>.
\<close>

unbundle bit_operations_syntax

section \<open>State\<close>

definition NOFFMAGIC :: "32 word" where "NOFFMAGIC = 0xbadfad"
definition UserStackSize :: "32 word" where "UserStackSize = 1024"

record Segment =
  virtualAddr :: "32 word"
  inFileAddr :: "32 word"
  segSize :: "32 word"

record NoffHeader =
  noffMagic :: "32 word"
  codeSeg :: Segment
  initData :: Segment
  readonlyData :: Segment
  uninitData :: Segment

record AddrSpace =
  asPageTable :: "TranslationEntry list option"
  asNumPages :: "32 word option"

record vm =
  vmMachine :: Machine
  gPhysPageBitMap :: Bitmap
  addrLock :: int
  vmHost :: host

section \<open>The object file\<close>

text \<open>The header is 13 words; a shorter file leaves the rest of the variable \<open>noffH\<close> unset.\<close>

definition le32 :: "bytes \<Rightarrow> nat \<Rightarrow> 32 word" where
  "le32 bs k = load32 (\<lambda>i. bs ! i) k"

definition segment_at :: "bytes \<Rightarrow> nat \<Rightarrow> Segment" where
  "segment_at bs k = \<lparr>virtualAddr = le32 bs k, inFileAddr = le32 bs (k + 4), segSize = le32 bs (k + 8)\<rparr>"

definition header_at :: "bytes \<Rightarrow> NoffHeader" where
  "header_at bs = \<lparr>noffMagic = le32 bs 0, codeSeg = segment_at bs 4, initData = segment_at bs 16,
     readonlyData = segment_at bs 28, uninitData = segment_at bs 40\<rparr>"

definition SwapSegment :: "Segment \<Rightarrow> Segment" where
  "SwapSegment s = \<lparr>virtualAddr = WordToHost (virtualAddr s), inFileAddr = WordToHost (inFileAddr s), segSize = WordToHost (segSize s)\<rparr>"

definition SwapHeader :: "NoffHeader \<Rightarrow> NoffHeader" where
  "SwapHeader h = \<lparr>noffMagic = WordToHost (noffMagic h), codeSeg = SwapSegment (codeSeg h), initData = SwapSegment (initData h),
     readonlyData = SwapSegment (readonlyData h), uninitData = SwapSegment (uninitData h)\<rparr>"

definition read_header :: "bytes \<Rightarrow> NoffHeader run" where
  "read_header bs =
     (if length bs < 4 then Inl Uninitialised
      else if le32 bs 0 \<noteq> NOFFMAGIC \<and> WordToHost (le32 bs 0) \<noteq> NOFFMAGIC then Inl AssertFail
      else if length bs < 52 then Inl Uninitialised
      else let noffH = header_at bs;
               noffH = (if noffMagic noffH \<noteq> NOFFMAGIC \<and> WordToHost (noffMagic noffH) = NOFFMAGIC then SwapHeader noffH else noffH) in
        ASSERT (noffMagic noffH = NOFFMAGIC) (Inr noffH))"

section \<open>Loading a program\<close>

definition program_size :: "NoffHeader \<Rightarrow> 32 word" where
  "program_size h = segSize (codeSeg h) + segSize (readonlyData h) + segSize (initData h) + segSize (uninitData h) + UserStackSize"

definition addrLock_P :: "vm \<Rightarrow> vm run" where
  "addrLock_P v = (if addrLock v = 0 then Inl Diverges else Inr (v\<lparr>addrLock := addrLock v - 1\<rparr>))"

definition addrLock_V :: "vm \<Rightarrow> vm" where
  "addrLock_V v = v\<lparr>addrLock := addrLock v + 1\<rparr>"

text \<open>\<^verbatim>\<open>memcpy\<close> and \<^verbatim>\<open>bzero\<close> into \<open>mainMemory\<close>.\<close>

definition put_bytes :: "int \<Rightarrow> bytes \<Rightarrow> Machine \<Rightarrow> Machine run" where
  "put_bytes a bs m =
     (if bs = [] then Inr m
      else if a < 0 \<or> a + int (length bs) > MemorySize then Inl OutOfBounds
      else Inr (m\<lparr>mainMemory := (\<lambda>k. if nat a \<le> k \<and> k < nat a + length bs then bs ! (k - nat a) else mainMemory m k)\<rparr>))"

definition fresh_entry :: "int \<Rightarrow> int \<Rightarrow> TranslationEntry" where
  "fresh_entry i frame = \<lparr>virtualPage = word_of_int i, physicalPage = word_of_int frame, valid = True, readOnly = False,
     useBit = False, dirty = False\<rparr>"

definition new_page :: "int \<Rightarrow> TranslationEntry list \<times> vm \<Rightarrow> (TranslationEntry list \<times> vm) run" where
  "new_page i = (\<lambda>(pt, v).
     bind_run (Bitmap_FindAndSet (gPhysPageBitMap v)) (\<lambda>(frame, bm).
     bind_run (put_bytes (frame * PageSize) (replicate (nat PageSize) 0) (vmMachine v)) (\<lambda>m.
     Inr (pt @ [fresh_entry i frame], v\<lparr>gPhysPageBitMap := bm, vmMachine := m\<rparr>))))"

definition load_page :: "OpenFile \<Rightarrow> TranslationEntry list \<Rightarrow> Segment \<Rightarrow> int \<Rightarrow> vm \<Rightarrow> vm run" where
  "load_page executable pt sg i v =
     bind_run (get_at pt i) (\<lambda>e.
     bind_run (ReadAt executable PageSize (sint (inFileAddr sg + word_of_int (i * PageSize))) (vmHost v)) (\<lambda>(_, bs, h).
     bind_run (put_bytes (sint (virtualAddr sg) + sint (physicalPage e) * PageSize) bs (vmMachine v)) (\<lambda>m.
     Inr (v\<lparr>vmHost := h, vmMachine := m\<rparr>))))"

definition load_segment :: "OpenFile \<Rightarrow> TranslationEntry list \<Rightarrow> int \<Rightarrow> Segment \<Rightarrow> vm \<Rightarrow> vm run" where
  "load_segment executable pt n sg v =
     (if sint (segSize sg) > 0 then for_each (load_page executable pt sg) (count_to n) v else Inr v)"

text \<open>\<open>Load\<close> from the computation of the size on, with the lock held.\<close>

definition load_pages :: "AddrSpace \<Rightarrow> OpenFile \<Rightarrow> NoffHeader \<Rightarrow> vm \<Rightarrow> (bool \<times> AddrSpace \<times> vm) run" where
  "load_pages sp executable noffH v =
     (let numPages = divRoundUp (uint (program_size noffH)) PageSize in
      bind_run (Bitmap_NumClear (gPhysPageBitMap v)) (\<lambda>numclear.
      if numPages > numclear then
        bind_run (OpenFile_delete executable (vmHost v)) (\<lambda>h.
        Inr (False, sp\<lparr>asNumPages := Some 0\<rparr>, addrLock_V (v\<lparr>vmHost := h\<rparr>)))
      else
        bind_run (for_each new_page (count_to numPages) ([], v)) (\<lambda>(pt, v).
        let sp = sp\<lparr>asPageTable := Some pt, asNumPages := Some (word_of_int numPages)\<rparr>; v = addrLock_V v in
        bind_run (load_segment executable pt numPages (codeSeg noffH) v) (\<lambda>v.
        bind_run (load_segment executable pt numPages (initData noffH) v) (\<lambda>v.
        bind_run (load_segment executable pt numPages (readonlyData noffH) v) (\<lambda>v.
        bind_run (OpenFile_delete executable (vmHost v)) (\<lambda>h.
        Inr (True, sp, v\<lparr>vmHost := h\<rparr>))))))))"

definition Load :: "AddrSpace \<Rightarrow> bytes \<Rightarrow> vm \<Rightarrow> (bool \<times> AddrSpace \<times> vm) run" where
  "Load sp fileName v =
     bind_run (FS_Open fileName (vmHost v)) (\<lambda>(ex, h).
     case ex of None \<Rightarrow> Inr (False, sp, v\<lparr>vmHost := h\<rparr>)
     | Some executable \<Rightarrow>
         bind_run (ReadAt executable 52 0 h) (\<lambda>(_, bs, h).
         bind_run (read_header bs) (\<lambda>noffH.
         bind_run (addrLock_P (v\<lparr>vmHost := h\<rparr>)) (load_pages sp executable noffH))))"

text \<open>
  The constructors: without a file an identity page table over all frames, with the size left unset;
  with a file the same steps as \<open>Load\<close>, without its result.  The destructor frees the page table, and
  the frames stay marked.
\<close>

definition AddrSpace_new :: "vm \<Rightarrow> AddrSpace \<times> vm" where
  "AddrSpace_new v =
     (\<lparr>asPageTable = Some (map (\<lambda>i. fresh_entry i i) (count_to NumPhysPages)), asNumPages = None\<rparr>,
      v\<lparr>vmMachine := (vmMachine v)\<lparr>mainMemory := (\<lambda>k. if k < nat MemorySize then 0 else mainMemory (vmMachine v) k)\<rparr>\<rparr>)"

definition AddrSpace_file :: "bytes \<Rightarrow> vm \<Rightarrow> (AddrSpace \<times> vm) run" where
  "AddrSpace_file filename v =
     bind_run (Load \<lparr>asPageTable = None, asNumPages = None\<rparr> filename v) (\<lambda>(_, sp, v). Inr (sp, v))"

definition AddrSpace_delete :: "AddrSpace \<Rightarrow> AddrSpace" where
  "AddrSpace_delete sp = sp\<lparr>asPageTable := None\<rparr>"

section \<open>Running a program\<close>

definition unset :: "'a option \<Rightarrow> 'a run" where
  "unset x = (case x of None \<Rightarrow> Inl Uninitialised | Some y \<Rightarrow> Inr y)"

definition InitRegisters :: "AddrSpace \<Rightarrow> Machine \<Rightarrow> Machine run" where
  "InitRegisters sp m =
     bind_run (for_each (\<lambda>i m. WriteRegister m i 0) (count_to (int NumTotalRegs)) m) (\<lambda>m.
     bind_run (WriteRegister m (int PCReg) 0) (\<lambda>m.
     bind_run (WriteRegister m (int NextPCReg) 4) (\<lambda>m.
     bind_run (unset (asNumPages sp)) (\<lambda>n.
     WriteRegister m (int StackReg) (n * word_of_int PageSize - 16)))))"

definition RestoreState :: "AddrSpace \<Rightarrow> Machine \<Rightarrow> Machine run" where
  "RestoreState sp m =
     bind_run (unset (asNumPages sp)) (\<lambda>n. Inr (m\<lparr>pageTable := asPageTable sp, pageTableSize := n\<rparr>))"

text \<open>\<open>Execute\<close> up to \<open>machine->Run()\<close>.\<close>

definition Execute :: "AddrSpace \<Rightarrow> Machine \<Rightarrow> Machine run" where
  "Execute sp m = bind_run (InitRegisters sp m) (RestoreState sp)"

definition AddrSpace_Translate :: "AddrSpace \<Rightarrow> 32 word \<Rightarrow> bool \<Rightarrow> (ExceptionType \<times> 32 word \<times> AddrSpace) run" where
  "AddrSpace_Translate sp vaddr isReadWrite =
     (let vpn = vaddr div word_of_int PageSize; offset = vaddr mod word_of_int PageSize in
      bind_run (unset (asNumPages sp)) (\<lambda>n.
      if vpn \<ge> n then Inr (AddressErrorException, 0, sp)
      else bind_run (unset (asPageTable sp)) (\<lambda>pt.
        bind_run (get_at pt (uint vpn)) (\<lambda>pte.
        if isReadWrite \<and> readOnly pte then Inr (ReadOnlyException, 0, sp)
        else let pfn = physicalPage pte in
          if sint pfn \<ge> NumPhysPages then Inr (BusErrorException, 0, sp)
          else bind_run (set_at pt (uint vpn) (pte\<lparr>useBit := True, dirty := dirty pte \<or> isReadWrite\<rparr>)) (\<lambda>pt.
            let paddr = pfn * word_of_int PageSize + offset in
            ASSERT (uint paddr < MemorySize) (Inr (NoException, paddr, sp\<lparr>asPageTable := Some pt\<rparr>)))))))"

section \<open>Frames\<close>

text \<open>\<open>zeroed f m\<close>: the machine with frame \<open>f\<close> cleared.\<close>

definition zeroed :: "int \<Rightarrow> Machine \<Rightarrow> Machine" where
  "zeroed f m = m\<lparr>mainMemory := (\<lambda>k. if nat f * 128 \<le> k \<and> k < nat f * 128 + 128 then 0 else mainMemory m k)\<rparr>"

lemma put_zeros:
  "put_bytes (f * PageSize) (replicate (nat PageSize) 0) m = (if 0 \<le> f \<and> f < 128 then Inr (zeroed f m) else Inl OutOfBounds)"
  by (auto simp: put_bytes_def size_defs zeroed_def nat_mult_distrib fun_eq_iff intro!: Machine.equality)

lemma put_bytes_nat:
  assumes "bs \<noteq> [] \<Longrightarrow> a + length bs \<le> 16384"
  shows "put_bytes (int a) bs m =
    Inr (m\<lparr>mainMemory := (\<lambda>x. if a \<le> x \<and> x < a + length bs then bs ! (x - a) else mainMemory m x)\<rparr>)"
proof (cases "bs = []")
  case True
  then have "mainMemory m = (\<lambda>x. if a \<le> x \<and> x < a + length bs then bs ! (x - a) else mainMemory m x)" by (intro ext) auto
  then show ?thesis using True by (simp add: put_bytes_def)
next
  case False
  then show ?thesis using assms by (simp add: put_bytes_def size_defs cong: if_cong)
qed

lemma new_page_cases:
  assumes "bitmap_inv (gPhysPageBitMap v)"
  obtains (full) "free_bits (gPhysPageBitMap v) = {}" "new_page i (pt, v) = Inl OutOfBounds"
  | (found) f bm where "f \<in> free_bits (gPhysPageBitMap v)" "\<forall>j. 0 \<le> j \<and> j < f \<longrightarrow> bit_used (gPhysPageBitMap v) j"
      "new_page i (pt, v) = (if f < 128 then Inr (pt @ [fresh_entry i f], v\<lparr>gPhysPageBitMap := bm, vmMachine := zeroed f (vmMachine v)\<rparr>)
                             else Inl OutOfBounds)"
      "bitmap_inv bm" "numBits bm = numBits (gPhysPageBitMap v)" "bit_used bm = (bit_used (gPhysPageBitMap v))(f := True)"
  using assms
proof (cases rule: Bitmap_FindAndSet_cases)
  case full
  then show thesis using that(1) by (simp add: new_page_def put_zeros)
next
  case (found f bm)
  then have "0 \<le> f" by (simp add: free_bits_def)
  then show thesis using that(2)[OF found(1,2) _ found(4-6)] found(3) by (simp add: new_page_def put_zeros)
qed

text \<open>The frames a run of \<open>new_page\<close> hands out.\<close>

definition got_frames :: "int list \<Rightarrow> int list \<Rightarrow> vm \<Rightarrow> vm \<Rightarrow> bool" where
  "got_frames is fs v v' \<longleftrightarrow> length fs = length is \<and> distinct fs \<and>
     (\<forall>f \<in> set fs. 0 \<le> f \<and> f < 128 \<and> \<not> bit_used (gPhysPageBitMap v) f) \<and>
     bitmap_inv (gPhysPageBitMap v') \<and> numBits (gPhysPageBitMap v') = numBits (gPhysPageBitMap v) \<and>
     bit_used (gPhysPageBitMap v') = (\<lambda>j. bit_used (gPhysPageBitMap v) j \<or> j \<in> set fs) \<and>
     addrLock v' = addrLock v \<and> vmHost v' = vmHost v"

lemma new_pages_frames:
  assumes "bitmap_inv (gPhysPageBitMap v)" "for_each new_page is (pt, v) = Inr (pt', v')"
  shows "\<exists>fs. pt' = pt @ map2 fresh_entry is fs \<and> got_frames is fs v v'"
  using assms
proof (induction "is" arbitrary: pt v)
  case Nil
  then show ?case by (simp add: got_frames_def)
next
  case (Cons i "is")
  from Cons.prems(1) show ?case
  proof (cases rule: new_page_cases[where i = i and pt = pt])
    case full
    then show ?thesis using Cons.prems(2) by simp
  next
    case (found f bm)
    let ?v = "v\<lparr>gPhysPageBitMap := bm, vmMachine := zeroed f (vmMachine v)\<rparr>"
    have f: "f < 128" "for_each new_page is (pt @ [fresh_entry i f], ?v) = Inr (pt', v')"
      using Cons.prems(2) found(3) by (simp_all split: if_splits)
    have "bitmap_inv (gPhysPageBitMap ?v)" using found(4) by simp
    from Cons.IH[OF this f(2)] obtain fs where fs: "pt' = (pt @ [fresh_entry i f]) @ map2 fresh_entry is fs" "got_frames is fs ?v v'"
      by blast
    have "got_frames (i # is) (f # fs) v v'"
      using fs(2) found f(1) by (auto simp: got_frames_def free_bits_def split: if_splits)
    with fs(1) show ?thesis by (intro exI[of _ "f # fs"]) simp
  qed
qed

lemma small_word: "0 \<le> f \<Longrightarrow> f < 128 \<Longrightarrow> uint (word_of_int f :: 32 word) = f"
  by (simp add: uint_word_of_int)

lemma frames_fresh:
  assumes "length fs = length is" "\<forall>f \<in> set fs. 0 \<le> f \<and> f < 128"
  shows "frames (map2 fresh_entry is fs) = set fs"
proof -
  have "frames (map2 fresh_entry is fs) = (\<lambda>(i, f). uint (word_of_int f :: 32 word)) ` set (zip is fs)"
  proof -
    have "frames pt = (\<lambda>e. uint (physicalPage e)) ` {e \<in> set pt. valid e}" for pt by (auto simp: frames_def)
    moreover have "{e \<in> set (map2 fresh_entry is fs). valid e} = (\<lambda>(i, f). fresh_entry i f) ` set (zip is fs)"
      by (auto simp: fresh_entry_def)
    ultimately show ?thesis by (simp add: image_image case_prod_beta fresh_entry_def)
  qed
  also have "\<dots> = snd ` set (zip is fs)"
    by (rule image_cong[OF refl]) (use assms(2) small_word in \<open>auto dest: set_zip_rightD\<close>)
  also have "\<dots> = set fs" using assms(1) by (metis map_snd_zip set_map)
  finally show ?thesis .
qed

lemma load_page_frame:
  "load_page ex pt sg i v = Inr v' \<Longrightarrow> gPhysPageBitMap v' = gPhysPageBitMap v \<and> addrLock v' = addrLock v"
  by (auto simp: load_page_def run_simps)

lemma load_segment_frame:
  "load_segment ex pt n sg v = Inr v' \<Longrightarrow> gPhysPageBitMap v' = gPhysPageBitMap v \<and> addrLock v' = addrLock v"
proof -
  have "for_each (load_page ex pt sg) is v = Inr v' \<Longrightarrow> gPhysPageBitMap v' = gPhysPageBitMap v \<and> addrLock v' = addrLock v" for "is" v v'
    by (induction "is" arbitrary: v) (auto simp: run_simps dest: load_page_frame)
  then show "load_segment ex pt n sg v = Inr v' \<Longrightarrow> gPhysPageBitMap v' = gPhysPageBitMap v \<and> addrLock v' = addrLock v"
    by (auto simp: load_segment_def split: if_splits)
qed

section \<open>What loading a program does\<close>

lemma pages_nonneg: "0 \<le> divRoundUp (uint (w :: 32 word)) PageSize"
proof -
  have "0 \<le> uint w div 128" by (simp add: pos_imp_zdiv_nonneg_iff)
  then show ?thesis by (simp add: divRoundUp_def PageSize_def)
qed

lemma Load_cases:
  assumes "Load sp fileName v = Inr (ok, sp', v')"
  obtains (failed) "\<not> ok" "gPhysPageBitMap v' = gPhysPageBitMap v" "vmMachine v' = vmMachine v" "addrLock v' = addrLock v"
  | (loaded) n pt w v1 where "ok" "0 \<le> n" "for_each new_page (count_to n) ([], w) = Inr (pt, v1)"
      "gPhysPageBitMap w = gPhysPageBitMap v" "vmMachine w = vmMachine v" "addrLock w = addrLock v - 1"
      "sp' = sp\<lparr>asPageTable := Some pt, asNumPages := Some (word_of_int n)\<rparr>"
      "gPhysPageBitMap v' = gPhysPageBitMap v1" "addrLock v' = addrLock v1 + 1"
proof -
  from assms obtain ex h where o: "FS_Open fileName (vmHost v) = Inr (ex, h)" by (auto simp: Load_def run_simps)
  show thesis
  proof (cases ex)
    case None
    then show thesis using assms o that(1) by (auto simp: Load_def)
  next
    case (Some f)
    from assms o Some obtain nr bs h2 hd w nc where
      r: "ReadAt f 52 0 h = Inr (nr, bs, h2)" "read_header bs = Inr hd" "addrLock_P (v\<lparr>vmHost := h2\<rparr>) = Inr w"
        "Bitmap_NumClear (gPhysPageBitMap w) = Inr nc" by (auto simp: Load_def load_pages_def run_simps Let_def)
    let ?n = "divRoundUp (uint (program_size hd)) PageSize"
    have w: "gPhysPageBitMap w = gPhysPageBitMap v" "vmMachine w = vmMachine v" "addrLock w = addrLock v - 1"
      using r(3) by (auto simp: addrLock_P_def split: if_splits)
    show thesis
    proof (cases "?n > nc")
      case True
      then have "\<not> ok \<and> gPhysPageBitMap v' = gPhysPageBitMap w \<and> vmMachine v' = vmMachine w \<and> addrLock v' = addrLock w + 1"
        using assms o Some r by (auto simp: Load_def load_pages_def run_simps Let_def addrLock_V_def)
      then show thesis using that(1) w by simp
    next
      case False
      from assms o Some r False obtain pt v1 v2 v3 v4 h5 where
        l: "for_each new_page (count_to ?n) ([], w) = Inr (pt, v1)"
          "load_segment f pt ?n (codeSeg hd) (addrLock_V v1) = Inr v2" "load_segment f pt ?n (initData hd) v2 = Inr v3"
          "load_segment f pt ?n (readonlyData hd) v3 = Inr v4" "v' = v4\<lparr>vmHost := h5\<rparr>" "ok"
          "sp' = sp\<lparr>asPageTable := Some pt, asNumPages := Some (word_of_int ?n)\<rparr>"
        by (auto simp: Load_def load_pages_def run_simps Let_def)
      have "0 \<le> ?n" by (rule pages_nonneg)
      moreover have "gPhysPageBitMap v' = gPhysPageBitMap v1" "addrLock v' = addrLock v1 + 1"
        using l(5) load_segment_frame[OF l(2)] load_segment_frame[OF l(3)] load_segment_frame[OF l(4)] by (simp_all add: addrLock_V_def)
      ultimately show thesis using that(2)[OF l(6) _ l(1) w l(7)] by simp
    qed
  qed
qed

lemma Load_frames:
  assumes "bitmap_inv (gPhysPageBitMap v)" "Load sp fileName v = Inr (ok, sp', v')"
  shows "bitmap_inv (gPhysPageBitMap v') \<and> addrLock v' = addrLock v \<and>
    (if ok then \<exists>pt. asPageTable sp' = Some pt \<and> asNumPages sp' = Some (word_of_int (int (length pt))) \<and>
        (\<forall>e \<in> set pt. valid e \<and> \<not> readOnly e) \<and> frames pt \<subseteq> {0..<NumPhysPages} \<and> card (frames pt) = length pt \<and>
        (\<forall>f \<in> frames pt. \<not> bit_used (gPhysPageBitMap v) f) \<and>
        bit_used (gPhysPageBitMap v') = (\<lambda>f. bit_used (gPhysPageBitMap v) f \<or> f \<in> frames pt)
     else gPhysPageBitMap v' = gPhysPageBitMap v \<and> vmMachine v' = vmMachine v)"
  using assms(2)
proof (cases rule: Load_cases)
  case failed
  then show ?thesis using assms(1) by simp
next
  case (loaded n pt w v1)
  have "bitmap_inv (gPhysPageBitMap w)" using assms(1) loaded(4) by simp
  from new_pages_frames[OF this loaded(3)] obtain fs where
    fs: "pt = map2 fresh_entry (count_to n) fs" "got_frames (count_to n) fs w v1" by auto
  have len: "length fs = nat n" "length pt = nat n" using fs by (simp_all add: got_frames_def)
  have fr: "frames pt = set fs" unfolding fs(1) by (rule frames_fresh) (use fs(2) in \<open>auto simp: got_frames_def\<close>)
  have "\<forall>e \<in> set pt. valid e \<and> \<not> readOnly e" by (auto simp: fs(1) fresh_entry_def)
  moreover have "card (frames pt) = length pt" using fs(2) len by (simp add: fr got_frames_def distinct_card)
  moreover have "frames pt \<subseteq> {0..<NumPhysPages}" using fs(2) by (auto simp: fr got_frames_def NumPhysPages_def)
  ultimately show ?thesis using loaded fs(2) len fr by (simp add: got_frames_def)
qed

section \<open>The memory image of a loaded program\<close>

text \<open>
  The frames of the pages are consecutive from \<open>f0\<close> on when the free frames are; since frames are never
  returned, that is always so.
\<close>

lemma new_pages_consecutive:
  assumes b: "bitmap_inv (gPhysPageBitMap v)" and free: "free_bits (gPhysPageBitMap v) = {f0..<N}" and f0: "0 \<le> f0"
    and n: "0 \<le> n" "f0 + n \<le> 128" "f0 + n \<le> N"
  shows "\<exists>v'. for_each new_page (count_to n) ([], v) = Inr (map (\<lambda>i. fresh_entry i (f0 + i)) (count_to n), v') \<and>
    bitmap_inv (gPhysPageBitMap v') \<and> addrLock v' = addrLock v \<and> vmHost v' = vmHost v \<and>
    (\<forall>x. mainMemory (vmMachine v') x = (if nat f0 * 128 \<le> x \<and> x < nat (f0 + n) * 128 then 0 else mainMemory (vmMachine v) x))"
proof -
  let ?P = "\<lambda>xs (pt, v' :: vm). pt = map (\<lambda>i. fresh_entry i (f0 + i)) xs \<and> bitmap_inv (gPhysPageBitMap v') \<and>
     free_bits (gPhysPageBitMap v') = {f0 + int (length xs)..<N} \<and> addrLock v' = addrLock v \<and> vmHost v' = vmHost v \<and>
     (\<forall>x. mainMemory (vmMachine v') x = (if nat f0 * 128 \<le> x \<and> x < (nat f0 + length xs) * 128 then 0 else mainMemory (vmMachine v) x))"
  have "\<exists>s'. for_each new_page (count_to n) ([], v) = Inr s' \<and> ?P (count_to n) s'"
  proof (rule for_each_inv[where P = ?P])
    show "?P [] ([], v)" using b free by auto
    fix xs i ys and s :: "TranslationEntry list \<times> vm"
    assume split: "count_to n = xs @ i # ys" and P: "?P xs s"
    obtain pt v1 where s: "s = (pt, v1)" by (cases s)
    have i: "i = int (length xs)" "i < n" using count_to_split[OF split] by auto
    have b1: "bitmap_inv (gPhysPageBitMap v1)" and fr: "free_bits (gPhysPageBitMap v1) = {f0 + i..<N}"
      using P s i by auto
    from b1 show "\<exists>s'. new_page i s = Inr s' \<and> ?P (xs @ [i]) s'"
    proof (cases rule: new_page_cases[where i = i and pt = pt])
      case full
      then have False using fr i n by auto
      then show ?thesis ..
    next
      case (found f bm)
      have "f = f0 + i"
      proof (rule ccontr)
        assume "f \<noteq> f0 + i"
        then have "f0 + i < f" using found(1) fr by auto
        moreover have "f0 + i \<in> free_bits (gPhysPageBitMap v1)" using fr i n by simp
        ultimately show False using found(2) f0 i by (auto simp: free_bits_def)
      qed
      moreover have "free_bits bm = free_bits (gPhysPageBitMap v1) - {f}" using found(5,6) by (auto simp: free_bits_def)
      moreover have "nat (f0 + i) = nat f0 + length xs" using f0 i by simp
      ultimately show ?thesis using found(3,4) P s fr i n by (auto simp: zeroed_def)
    qed
  qed
  then show ?thesis using n f0 by (auto simp: nat_add_distrib)
qed

text \<open>
  The layout that \<^verbatim>\<open>coff2noff\<close> produces for a program linked at address zero: the segments follow each
  other in the file as they do in memory, \<open>delta\<close> bytes later, and what the file holds fits into the pages.
\<close>

definition laid_out :: "bytes \<Rightarrow> NoffHeader \<Rightarrow> nat \<Rightarrow> nat \<Rightarrow> bool" where
  "laid_out file nh delta n \<longleftrightarrow> sint (segSize (codeSeg nh)) > 0 \<and> sint (virtualAddr (codeSeg nh)) = 0 \<and>
     (\<forall>sg \<in> {codeSeg nh, initData nh, readonlyData nh}. sint (segSize sg) > 0 \<longrightarrow>
        0 \<le> sint (virtualAddr sg) \<and> sint (inFileAddr sg) = sint (virtualAddr sg) + int delta \<and> sint (inFileAddr sg) < 2 ^ 30) \<and>
     length file \<le> delta + n * 128"

definition file_image :: "bytes \<Rightarrow> nat \<Rightarrow> nat \<Rightarrow> 8 word" where
  "file_image file delta k = (if delta + k < length file then file ! (delta + k) else 0)"

lemma sint_of_small: "0 \<le> x \<Longrightarrow> x < 2 ^ 31 \<Longrightarrow> sint (word_of_int x :: 32 word) = x"
  by (simp add: signed_of_int small_signed)

lemma sint_plus_small:
  assumes "0 \<le> sint (a :: 32 word)" "sint a < 2 ^ 30" "0 \<le> x" "x < 2 ^ 30"
  shows "sint (a + word_of_int x) = sint a + x"
proof -
  have "a + word_of_int x = word_of_int (sint a + x)" by simp
  then show ?thesis using sint_of_small[of "sint a + x"] assms by simp
qed

text \<open>One pass over the pages copies the rest of the file from the segment on.\<close>

lemma load_segment_image:
  assumes r: "refers (vmHost v) f i" and fl: "inode (vmHost v) i = file"
    and f0: "0 \<le> f0" "f0 + int n \<le> 128"
    and sg: "sint (segSize sg) > 0" "sint (virtualAddr sg) = int va" "sint (inFileAddr sg) = int (va + delta)" "va + delta < 2 ^ 30"
    and fits: "length file \<le> delta + n * 128"
  shows "\<exists>v'. load_segment f (map (\<lambda>i. fresh_entry i (f0 + i)) (count_to (int n))) (int n) sg v = Inr v' \<and>
    refers (vmHost v') f i \<and> inode (vmHost v') = inode (vmHost v) \<and>
    (\<forall>x. mainMemory (vmMachine v') x =
      (if nat f0 * 128 + va \<le> x \<and> x < nat f0 * 128 + va + n * 128 \<and> delta + (x - nat f0 * 128) < length file
       then file ! (delta + (x - nat f0 * 128)) else mainMemory (vmMachine v) x))"
proof -
  let ?pt = "map (\<lambda>i. fresh_entry i (f0 + i)) (count_to (int n))" and ?F = "nat f0 * 128"
  let ?P = "\<lambda>xs (v' :: vm). refers (vmHost v') f i \<and> inode (vmHost v') = inode (vmHost v) \<and>
    (\<forall>x. mainMemory (vmMachine v') x =
      (if ?F + va \<le> x \<and> x < ?F + va + length xs * 128 \<and> delta + (x - ?F) < length file
       then file ! (delta + (x - ?F)) else mainMemory (vmMachine v) x))"
  have "\<exists>v'. for_each (load_page f ?pt sg) (count_to (int n)) v = Inr v' \<and> ?P (count_to (int n)) v'"
  proof (rule for_each_inv[where P = ?P])
    show "?P [] v" using r by auto
    fix xs j ys v1
    assume split: "count_to (int n) = xs @ j # ys" and P: "?P xs v1"
    let ?k = "length xs"
    have j: "j = int ?k" "?k < n" using count_to_split[OF split] by auto
    have e: "get_at ?pt j = Inr (fresh_entry j (f0 + j))" using j by (simp add: get_at_def)
    have small: "?k * 128 < 2 ^ 14" "f0 + j < 128" "0 \<le> f0 + j" using j f0 by auto
    have "sint (word_of_int (f0 + j) :: 32 word) = f0 + j" by (rule sint_of_small) (use small in simp_all)
    then have ph: "sint (physicalPage (fresh_entry j (f0 + j))) = f0 + j" by (simp add: fresh_entry_def del: of_int_add)
    define K where "K = delta + va + ?k * 128"
    have pos: "sint (inFileAddr sg + word_of_int (j * PageSize)) = int K" unfolding K_def
      using sint_plus_small[of "inFileAddr sg" "int (?k * 128)"] sg(3,4) small j by (simp add: PageSize_def)
    define bs where "bs = take 128 (drop K file)"
    have "refers (vmHost v1) f i" "inode (vmHost v1) i = file" using P fl by auto
    from ReadAt_eq[OF this(1), of PageSize "int K"] this obtain q where
      rd: "ReadAt f PageSize (sint (inFileAddr sg + word_of_int (j * PageSize))) (vmHost v1) =
        Inr (int (length bs), bs, (vmHost v1)\<lparr>fds := (fds (vmHost v1))(fileFd f \<mapsto> (i, q))\<rparr>)" "0 \<le> q"
      unfolding pos by (auto simp: PageSize_def bs_def)
    have a: "sint (virtualAddr sg) + sint (physicalPage (fresh_entry j (f0 + j))) * PageSize = int (?F + va + ?k * 128)"
      using sg(2) ph f0 j by (simp add: PageSize_def algebra_simps)
    have bs: "bs \<noteq> [] \<Longrightarrow> va + ?k * 128 + length bs \<le> n * 128" using fits by (auto simp: bs_def K_def)
    have "nat f0 * 128 + n * 128 \<le> 16384" using f0 by linarith
    then have "put_bytes (int (?F + va + ?k * 128)) bs m =
        Inr (m\<lparr>mainMemory := (\<lambda>x. if ?F + va + ?k * 128 \<le> x \<and> x < ?F + va + ?k * 128 + length bs then bs ! (x - (?F + va + ?k * 128)) else mainMemory m x)\<rparr>)" for m
      using bs by (intro put_bytes_nat) linarith
    then have pb: "load_page f ?pt sg j v1 = Inr (v1\<lparr>vmHost := (vmHost v1)\<lparr>fds := (fds (vmHost v1))(fileFd f \<mapsto> (i, q))\<rparr>,
        vmMachine := (vmMachine v1)\<lparr>mainMemory := (\<lambda>x. if ?F + va + ?k * 128 \<le> x \<and> x < ?F + va + ?k * 128 + length bs
          then bs ! (x - (?F + va + ?k * 128)) else mainMemory (vmMachine v1) x)\<rparr>\<rparr>)"
      using e rd(1) unfolding load_page_def a[symmetric] by simp
    have "(if ?F + va + ?k * 128 \<le> x \<and> x < ?F + va + ?k * 128 + length bs then bs ! (x - (?F + va + ?k * 128)) else g x) =
        (if ?F + va + ?k * 128 \<le> x \<and> x < ?F + va + ?k * 128 + 128 \<and> delta + (x - ?F) < length file
         then file ! (delta + (x - ?F)) else g x)" for x and g :: "nat \<Rightarrow> 8 word"
      by (auto simp: bs_def K_def min_def algebra_simps)
    then have pb': "load_page f ?pt sg j v1 = Inr (v1\<lparr>vmHost := (vmHost v1)\<lparr>fds := (fds (vmHost v1))(fileFd f \<mapsto> (i, q))\<rparr>,
        vmMachine := (vmMachine v1)\<lparr>mainMemory := (\<lambda>x. if ?F + va + ?k * 128 \<le> x \<and> x < ?F + va + ?k * 128 + 128 \<and> delta + (x - ?F) < length file
         then file ! (delta + (x - ?F)) else mainMemory (vmMachine v1) x)\<rparr>\<rparr>)" (is "_ = Inr ?v'")
      using pb by simp
    have "?P (xs @ [j]) ?v'" using P rd(2) by (auto simp: refers_def)
    with pb' show "\<exists>s'. load_page f ?pt sg j v1 = Inr s' \<and> ?P (xs @ [j]) s'" by blast
  qed
  then show ?thesis using sg(1) by (simp add: load_segment_def)
qed

lemma FS_Open_eq:
  assumes "dir h name = Some i" "0 \<le> nextFd h"
  shows "FS_Open name h = Inr (Some (OpenFile_new (nextFd h)), h\<lparr>fds := (fds h)(nextFd h \<mapsto> (i, 0)), nextFd := nextFd h + 1\<rparr>)"
  using assms by (simp add: FS_Open_def OpenForReadWrite_def host_open_def new_fd_def)

lemma OpenFile_delete_eq: "refers h f i \<Longrightarrow> OpenFile_delete f h = Inr (h\<lparr>fds := (fds h)(fileFd f := None)\<rparr>)"
  by (auto simp: OpenFile_delete_def Close_def host_close_def refers_def)

lemma read_header_eq:
  "52 \<le> length file \<Longrightarrow> le32 file 0 = NOFFMAGIC \<Longrightarrow> read_header (take 52 file) = Inr (header_at file)"
  by (simp add: read_header_def header_at_def segment_at_def le32_def load32_def)

lemma load_segment_image_or_skip:
  assumes r: "refers (vmHost v) f i" and fl: "inode (vmHost v) i = file" and f0: "0 \<le> f0" "f0 + int n \<le> 128"
    and sg: "sint (segSize sg) > 0 \<longrightarrow> 0 \<le> sint (virtualAddr sg) \<and> sint (inFileAddr sg) = sint (virtualAddr sg) + int delta \<and> sint (inFileAddr sg) < 2 ^ 30"
    and fits: "length file \<le> delta + n * 128"
    and mem: "\<forall>x. mainMemory (vmMachine v) x = (if nat f0 * 128 \<le> x \<and> x < nat f0 * 128 + n * 128 then file_image file delta (x - nat f0 * 128) else old x)"
  shows "\<exists>v'. load_segment f (map (\<lambda>i. fresh_entry i (f0 + i)) (count_to (int n))) (int n) sg v = Inr v' \<and>
    refers (vmHost v') f i \<and> inode (vmHost v') = inode (vmHost v) \<and>
    (\<forall>x. mainMemory (vmMachine v') x = (if nat f0 * 128 \<le> x \<and> x < nat f0 * 128 + n * 128 then file_image file delta (x - nat f0 * 128) else old x))"
proof (cases "sint (segSize sg) > 0")
  case False
  then show ?thesis using r mem by (simp add: load_segment_def)
next
  case True
  define va where "va = nat (sint (virtualAddr sg))"
  have va: "sint (virtualAddr sg) = int va" "sint (inFileAddr sg) = int (va + delta)" "va + delta < 2 ^ 30"
    using sg True by (auto simp: va_def)
  from load_segment_image[OF r fl f0 True va fits] obtain v' where
    v': "load_segment f (map (\<lambda>i. fresh_entry i (f0 + i)) (count_to (int n))) (int n) sg v = Inr v'"
      "refers (vmHost v') f i" "inode (vmHost v') = inode (vmHost v)"
      "\<And>x. mainMemory (vmMachine v') x =
        (if nat f0 * 128 + va \<le> x \<and> x < nat f0 * 128 + va + n * 128 \<and> delta + (x - nat f0 * 128) < length file
         then file ! (delta + (x - nat f0 * 128)) else mainMemory (vmMachine v) x)" by blast
  have "mainMemory (vmMachine v') x = (if nat f0 * 128 \<le> x \<and> x < nat f0 * 128 + n * 128 then file_image file delta (x - nat f0 * 128) else old x)" for x
    using v'(4)[of x] mem fits by (auto simp: file_image_def)
  then show ?thesis using v'(1-3) by blast
qed

lemma load_code_image:
  assumes r: "refers (vmHost v) f i" and fl: "inode (vmHost v) i = file" and f0: "0 \<le> f0" "f0 + int n \<le> 128"
    and sg: "sint (segSize sg) > 0" "sint (virtualAddr sg) = 0" "sint (inFileAddr sg) = int delta" "delta < 2 ^ 30"
    and fits: "length file \<le> delta + n * 128"
    and mem: "\<forall>x. mainMemory (vmMachine v) x = (if nat f0 * 128 \<le> x \<and> x < nat f0 * 128 + n * 128 then 0 else old x)"
  shows "\<exists>v'. load_segment f (map (\<lambda>i. fresh_entry i (f0 + i)) (count_to (int n))) (int n) sg v = Inr v' \<and>
    refers (vmHost v') f i \<and> inode (vmHost v') = inode (vmHost v) \<and>
    (\<forall>x. mainMemory (vmMachine v') x = (if nat f0 * 128 \<le> x \<and> x < nat f0 * 128 + n * 128 then file_image file delta (x - nat f0 * 128) else old x))"
proof -
  from load_segment_image[OF r fl f0 sg(1), of 0 delta] sg fits obtain v' where
    v': "load_segment f (map (\<lambda>i. fresh_entry i (f0 + i)) (count_to (int n))) (int n) sg v = Inr v'"
      "refers (vmHost v') f i" "inode (vmHost v') = inode (vmHost v)"
      "\<And>x. mainMemory (vmMachine v') x =
        (if nat f0 * 128 \<le> x \<and> x < nat f0 * 128 + n * 128 \<and> delta + (x - nat f0 * 128) < length file
         then file ! (delta + (x - nat f0 * 128)) else mainMemory (vmMachine v) x)" by auto
  have "mainMemory (vmMachine v') x = (if nat f0 * 128 \<le> x \<and> x < nat f0 * 128 + n * 128 then file_image file delta (x - nat f0 * 128) else old x)" for x
    using v'(4)[of x] mem by (auto simp: file_image_def)
  then show ?thesis using v'(1-3) by blast
qed

lemma Load_image:
  assumes name: "dir (vmHost v) fileName = Some i" "inode (vmHost v) i = file" "0 \<le> nextFd (vmHost v)"
    and hdr: "52 \<le> length file" "le32 file 0 = NOFFMAGIC" "laid_out file (header_at file) delta n"
      "int n = divRoundUp (uint (program_size (header_at file))) PageSize"
    and bm: "bitmap_inv (gPhysPageBitMap v)" "free_bits (gPhysPageBitMap v) = {f0..<N}" "0 \<le> f0" "f0 + int n \<le> N" "f0 + int n \<le> 128"
    and lock: "0 < addrLock v"
  shows "\<exists>pt v'. Load sp fileName v = Inr (True, sp\<lparr>asPageTable := Some pt, asNumPages := Some (word_of_int (int n))\<rparr>, v') \<and>
    pt = map (\<lambda>i. fresh_entry i (f0 + i)) (count_to (int n)) \<and> length pt = n \<and>
    (\<forall>k < n * 128. \<exists>pa. vm_translate pt (word_of_int (int k)) 1 True = Inr pa \<and> mainMemory (vmMachine v') (nat pa) = file_image file delta k) \<and>
    (\<forall>x. int x div 128 \<notin> frames pt \<longrightarrow> mainMemory (vmMachine v') x = mainMemory (vmMachine v) x)"
proof -
  let ?nh = "header_at file" and ?f = "OpenFile_new (nextFd (vmHost v))"
  let ?pt = "map (\<lambda>i. fresh_entry i (f0 + i)) (count_to (int n))"
  let ?h = "(vmHost v)\<lparr>fds := (fds (vmHost v))(nextFd (vmHost v) \<mapsto> (i, 0)), nextFd := nextFd (vmHost v) + 1\<rparr>"
  have open_eq: "FS_Open fileName (vmHost v) = Inr (Some ?f, ?h)" using FS_Open_eq name by blast
  have rf: "refers ?h ?f i" by (simp add: refers_def OpenFile_new_def)
  obtain q where rd: "ReadAt ?f 52 0 ?h = Inr (int (length (take 52 file)), take 52 file, ?h\<lparr>fds := (fds ?h)(fileFd ?f \<mapsto> (i, q))\<rparr>)" "0 \<le> q"
    using ReadAt_eq[OF rf, of 52 0] name(2) by auto
  define h where "h = ?h\<lparr>fds := (fds ?h)(fileFd ?f \<mapsto> (i, q))\<rparr>"
  define w where "w = v\<lparr>vmHost := h, addrLock := addrLock v - 1\<rparr>"
  have wP: "addrLock_P (v\<lparr>vmHost := h\<rparr>) = Inr w" using lock by (simp add: addrLock_P_def w_def)
  have rh: "refers h ?f i" "inode h i = file" using rd(2) name(2) by (auto simp: h_def refers_def)
  have bw: "bitmap_inv (gPhysPageBitMap w)" "free_bits (gPhysPageBitMap w) = {f0..<N}" using bm by (simp_all add: w_def)
  have nc: "Bitmap_NumClear (gPhysPageBitMap w) = Inr (int (nat (N - f0)))"
    using Bitmap_NumClear_ok[OF bw(1)] by (simp add: bw(2))
  from new_pages_consecutive[OF bw bm(3) _ bm(5,4)] obtain v1 where
    v1: "for_each new_page (count_to (int n)) ([], w) = Inr (?pt, v1)" "vmHost v1 = h"
      "\<And>x. mainMemory (vmMachine v1) x = (if nat f0 * 128 \<le> x \<and> x < nat (f0 + int n) * 128 then 0 else mainMemory (vmMachine v) x)"
    by (auto simp: w_def)
  let ?img = "\<lambda>x. if nat f0 * 128 \<le> x \<and> x < nat f0 * 128 + n * 128 then file_image file delta (x - nat f0 * 128) else mainMemory (vmMachine v) x"
  have lo: "sint (segSize (codeSeg ?nh)) > 0" "sint (virtualAddr (codeSeg ?nh)) = 0" "sint (inFileAddr (codeSeg ?nh)) = int delta" "delta < 2 ^ 30"
    "length file \<le> delta + n * 128" using hdr(3) by (auto simp: laid_out_def)
  have m1: "\<forall>x. mainMemory (vmMachine (addrLock_V v1)) x = (if nat f0 * 128 \<le> x \<and> x < nat f0 * 128 + n * 128 then 0 else mainMemory (vmMachine v) x)"
    using v1(3) bm(3) by (simp add: addrLock_V_def nat_add_distrib algebra_simps)
  have r1: "refers (vmHost (addrLock_V v1)) ?f i" "inode (vmHost (addrLock_V v1)) i = file" using v1(2) rh by (simp_all add: addrLock_V_def)
  obtain v2 where v2: "load_segment ?f ?pt (int n) (codeSeg ?nh) (addrLock_V v1) = Inr v2" "refers (vmHost v2) ?f i" "inode (vmHost v2) i = file"
      "\<forall>x. mainMemory (vmMachine v2) x = ?img x"
    using load_code_image[OF r1 bm(3,5) lo m1] r1(2) by auto
  obtain v3 where v3: "load_segment ?f ?pt (int n) (initData ?nh) v2 = Inr v3" "refers (vmHost v3) ?f i" "inode (vmHost v3) i = file"
      "\<forall>x. mainMemory (vmMachine v3) x = ?img x"
    using load_segment_image_or_skip[OF v2(2,3) bm(3,5) _ lo(5) v2(4), of "initData ?nh"] hdr(3) v2(3) by (auto simp: laid_out_def)
  obtain v4 where v4: "load_segment ?f ?pt (int n) (readonlyData ?nh) v3 = Inr v4" "refers (vmHost v4) ?f i"
      "\<forall>x. mainMemory (vmMachine v4) x = ?img x"
    using load_segment_image_or_skip[OF v3(2,3) bm(3,5) _ lo(5) v3(4), of "readonlyData ?nh"] hdr(3) by (auto simp: laid_out_def)
  define v' where "v' = v4\<lparr>vmHost := (vmHost v4)\<lparr>fds := (fds (vmHost v4))(fileFd ?f := None)\<rparr>\<rparr>"
  have "\<not> int n > int (nat (N - f0))" using bm(4) by simp
  then have "load_pages sp ?f ?nh w = Inr (True, sp\<lparr>asPageTable := Some ?pt, asNumPages := Some (word_of_int (int n))\<rparr>, v')"
    using nc v1(1) v2(1) v3(1) v4(1) OpenFile_delete_eq[OF v4(2)] unfolding load_pages_def hdr(4)[symmetric] v'_def Let_def by simp
  then have load: "Load sp fileName v = Inr (True, sp\<lparr>asPageTable := Some ?pt, asNumPages := Some (word_of_int (int n))\<rparr>, v')"
    by (simp only: Load_def open_eq rd(1)[folded h_def] read_header_eq[OF hdr(1,2)] wP bind_run_Inr prod.case option.case)
  have mem: "mainMemory (vmMachine v') x = ?img x" for x using v4(3) by (simp add: v'_def)
  have pg: "uint (physicalPage (?pt ! p)) = f0 + int p" "valid (?pt ! p)" "\<not> readOnly (?pt ! p)" if "p < n" for p
    using small_word[of "f0 + int p"] that bm(3,5) by (simp_all add: fresh_entry_def del: of_int_add)
  have "\<exists>pa. vm_translate ?pt (word_of_int (int k)) 1 True = Inr pa \<and> mainMemory (vmMachine v') (nat pa) = file_image file delta k" if k: "k < n * 128" for k
  proof -
    have u: "uint (word_of_int (int k) :: 32 word) = int k" using k bm(3,5) by (simp add: uint_word_of_int del: of_int_of_nat_eq)
    have p: "k div 128 < n" using k by (simp add: div_less_iff_less_mult)
    have md: "int k mod 128 = int (k mod 128)" "nat (int k div 128) = k div 128" by (simp_all add: zmod_int zdiv_int nat_div_distrib)
    have "vm_translate ?pt (word_of_int (int k)) 1 True = Inr ((f0 + int (k div 128)) * 128 + int (k mod 128))"
      using pg[OF p] p u bm(3,5)
      by (simp add: vm_translate_def Let_def aligned_def NumPhysPages_def md del: of_int_of_nat_eq nth_map)
    moreover have "(f0 + int (k div 128)) * 128 + int (k mod 128) = int (nat f0 * 128 + k)"
      using arg_cong[OF mod_mult_div_eq[of k 128], of int, unfolded of_nat_add of_nat_mult of_nat_numeral] bm(3) by (simp add: algebra_simps)
    moreover have "mainMemory (vmMachine v') (nat f0 * 128 + k) = file_image file delta k" using mem[of "nat f0 * 128 + k"] k by simp
    ultimately show ?thesis by (metis nat_int)
  qed
  moreover have "mainMemory (vmMachine v') x = mainMemory (vmMachine v) x" if x: "int x div 128 \<notin> frames ?pt" for x
  proof -
    have "\<not> (nat f0 * 128 \<le> x \<and> x < nat f0 * 128 + n * 128)"
    proof
      assume a: "nat f0 * 128 \<le> x \<and> x < nat f0 * 128 + n * 128"
      let ?p = "x div 128 - nat f0"
      have p: "?p < n" "nat f0 \<le> x div 128" using a by (auto simp: div_less_iff_less_mult less_diff_conv2)
      then have "f0 + int ?p = int x div 128" using bm(3) by (simp add: zdiv_int)
      moreover have "?pt ! ?p \<in> set ?pt" using p(1) by (intro nth_mem) simp
      then have "f0 + int ?p \<in> frames ?pt" using pg(1,2)[OF p(1)] unfolding frames_def by (metis (mono_tags, lifting) mem_Collect_eq)
      ultimately show False using x by metis
    qed
    then show ?thesis using mem by auto
  qed
  ultimately show ?thesis using load by (intro exI[of _ ?pt] exI[of _ v']) simp
qed

text \<open>A small program, used as a concrete case: four bytes of code behind the header.\<close>

definition tiny_program :: bytes where
  "tiny_program = [0xad, 0xdf, 0xba, 0,  0, 0, 0, 0, 52, 0, 0, 0, 4, 0, 0, 0,  0, 0, 0, 0, 0, 0, 0, 0, 0, 0, 0, 0,
     0, 0, 0, 0, 0, 0, 0, 0, 0, 0, 0, 0,  0, 0, 0, 0, 0, 0, 0, 0, 0, 0, 0, 0,  12, 34, 56, 78]"

definition tiny_host :: host where
  "tiny_host = host_new\<lparr>dir := [cstr ''a'' \<mapsto> 0], inode := (\<lambda>_. tiny_program), nextInode := 1\<rparr>"

lemma tiny_header:
  "length tiny_program = 56" "le32 tiny_program 0 = NOFFMAGIC"
  "header_at tiny_program = \<lparr>noffMagic = NOFFMAGIC, codeSeg = \<lparr>virtualAddr = 0, inFileAddr = 52, segSize = 4\<rparr>,
     initData = \<lparr>virtualAddr = 0, inFileAddr = 0, segSize = 0\<rparr>, readonlyData = \<lparr>virtualAddr = 0, inFileAddr = 0, segSize = 0\<rparr>,
     uninitData = \<lparr>virtualAddr = 0, inFileAddr = 0, segSize = 0\<rparr>\<rparr>"
  by (simp_all add: tiny_program_def le32_def load32_def NOFFMAGIC_def header_at_def segment_at_def)

lemma tiny_pages: "divRoundUp (uint (program_size (header_at tiny_program))) PageSize = 9"
  by (simp add: tiny_header program_size_def UserStackSize_def divRoundUp_def PageSize_def)

definition no_space :: AddrSpace where
  "no_space = \<lparr>asPageTable = None, asNumPages = None\<rparr>"

definition tiny_vm :: "Bitmap \<Rightarrow> vm" where
  "tiny_vm b = \<lparr>vmMachine = Machine_new False 0, gPhysPageBitMap = b, addrLock = 1, vmHost = tiny_host\<rparr>"

lemma tiny_simps [simp]:
  "dir (vmHost (tiny_vm b)) (cstr ''a'') = Some 0" "inode (vmHost (tiny_vm b)) i = tiny_program"
  "0 \<le> nextFd (vmHost (tiny_vm b))" "gPhysPageBitMap (tiny_vm b) = b" "addrLock (tiny_vm b) = 1"
  by (simp_all add: tiny_vm_def tiny_host_def host_new_def)

lemma tiny_laid_out: "laid_out tiny_program (header_at tiny_program) 52 9"
  by (auto simp: laid_out_def tiny_header)

lemma tiny_bitmap: "\<exists>b. Bitmap_new 256 = Inr b \<and> bitmap_inv b \<and> free_bits b = {0..<256}"
proof -
  obtain b where "Bitmap_new 256 = Inr b" "bitmap_inv b" "numBits b = 256" "bit_used b = (\<lambda>_. False)"
    using Bitmap_new_ok[of 256] by auto
  then show ?thesis by (auto simp: free_bits_def)
qed

lemma full_bitmap: "\<exists>b. bitmap_inv b \<and> bit_used b = (\<lambda>f. 0 \<le> f \<and> f < 128) \<and> free_bits b = {128..<256}"
proof -
  obtain b where b: "bitmap_inv b" "numBits b = 256" "bit_used b = (\<lambda>_. False)" using Bitmap_new_ok[of 256] by auto
  then obtain b' where "bitmap_inv b'" "numBits b' = 256" "bit_used b' = (\<lambda>j. j \<in> {0..<128})"
    using Bitmap_Mark_loop[of b 128] by auto
  then show ?thesis by (auto simp: free_bits_def)
qed

section \<open>Properties\<close>

text \<open>
  C6: loading a program takes only free frames, and gives every page of the program a frame of its own.
  On success the page table has as many entries as the size says, all valid and
  writable, with distinct frames inside physical memory that were free before and are marked now; on
  failure (no such file, not enough frames) frames and memory are as before.  The lock is released on
  every path.
\<close>

theorem Load_takes_free_frames:
  assumes "bitmap_inv (gPhysPageBitMap v)" "Load sp fileName v = Inr (ok, sp', v')"
  shows "bitmap_inv (gPhysPageBitMap v') \<and> addrLock v' = addrLock v \<and>
    (if ok then \<exists>pt. asPageTable sp' = Some pt \<and> asNumPages sp' = Some (word_of_int (int (length pt))) \<and>
        (\<forall>e \<in> set pt. valid e \<and> \<not> readOnly e) \<and> frames pt \<subseteq> {0..<NumPhysPages} \<and> card (frames pt) = length pt \<and>
        (\<forall>f \<in> frames pt. \<not> bit_used (gPhysPageBitMap v) f) \<and>
        bit_used (gPhysPageBitMap v') = (\<lambda>f. bit_used (gPhysPageBitMap v) f \<or> f \<in> frames pt)
     else gPhysPageBitMap v' = gPhysPageBitMap v \<and> vmMachine v' = vmMachine v)"
  by (rule Load_frames[OF assms])

theorem Load_takes_free_frames_witness:
  "\<exists>b sp' v' pt. Bitmap_new 256 = Inr b \<and> Load no_space (cstr ''a'') (tiny_vm b) = Inr (True, sp', v') \<and> addrLock v' = 1 \<and>
     asPageTable sp' = Some pt \<and> card (frames pt) = length pt \<and> bit_used (gPhysPageBitMap v') = (\<lambda>f. bit_used b f \<or> f \<in> frames pt)"
proof -
  obtain b where b: "Bitmap_new 256 = Inr b" "bitmap_inv b" "free_bits b = {0..<256}" using tiny_bitmap by blast
  obtain sp' v' where l: "Load no_space (cstr ''a'') (tiny_vm b) = Inr (True, sp', v')"
    using Load_image[of "tiny_vm b" "cstr ''a''" 0 tiny_program 52 9 0 256 no_space] b tiny_header tiny_laid_out tiny_pages by auto
  show ?thesis using Load_takes_free_frames[OF _ l] b l by auto
qed

text \<open>
  C7: a program whose file is laid out as the linker and \<^verbatim>\<open>coff2noff\<close> lay it out, and for which there are
  frames, is loaded: \<open>Load\<close> succeeds, every virtual address of the program translates, and the byte found there
  is that of the file, or zero behind its end (uninitialised data and stack); memory
  outside the program's frames is unchanged.
\<close>

theorem Load_places_program:
  assumes name: "dir (vmHost v) fileName = Some i" "inode (vmHost v) i = file" "0 \<le> nextFd (vmHost v)"
    and hdr: "52 \<le> length file" "le32 file 0 = NOFFMAGIC" "laid_out file (header_at file) delta n"
      "int n = divRoundUp (uint (program_size (header_at file))) PageSize"
    and bm: "bitmap_inv (gPhysPageBitMap v)" "free_bits (gPhysPageBitMap v) = {f0..<N}" "0 \<le> f0" "f0 + int n \<le> N" "f0 + int n \<le> 128"
    and lock: "0 < addrLock v"
  shows "\<exists>pt v'. Load sp fileName v = Inr (True, sp\<lparr>asPageTable := Some pt, asNumPages := Some (word_of_int (int n))\<rparr>, v') \<and> length pt = n \<and>
    (\<forall>k < n * 128. \<exists>pa. vm_translate pt (word_of_int (int k)) 1 True = Inr pa \<and> mainMemory (vmMachine v') (nat pa) = file_image file delta k) \<and>
    (\<forall>x. int x div 128 \<notin> frames pt \<longrightarrow> mainMemory (vmMachine v') x = mainMemory (vmMachine v) x)"
  using Load_image[OF assms, where sp = sp] by (elim exE conjE) (intro exI conjI, assumption+)

theorem Load_places_program_witness:
  "\<exists>b pt sp' v'. Bitmap_new 256 = Inr b \<and> Load no_space (cstr ''a'') (tiny_vm b) = Inr (True, sp', v') \<and> length pt = 9 \<and>
     (\<forall>k < 9 * 128. \<exists>pa. vm_translate pt (word_of_int (int k)) 1 True = Inr pa \<and> mainMemory (vmMachine v') (nat pa) = file_image tiny_program 52 k)"
proof -
  obtain b where b: "Bitmap_new 256 = Inr b" "bitmap_inv b" "free_bits b = {0..<256}" using tiny_bitmap by blast
  show ?thesis
    using Load_places_program[of "tiny_vm b" "cstr ''a''" 0 tiny_program 52 9 0 256 no_space] b tiny_header tiny_laid_out tiny_pages by auto
qed

text \<open>
  C31: \<open>gPhysPageBitMap\<close> has 256 bits for 128 frames (\<^verbatim>\<open>threads/kernel.cc\<close>), so memory running out goes unnoticed:
  once all frames of the machine are taken, \<open>Load\<close> of a proper program file still finds free bits, and
  clears memory behind the end of \<open>mainMemory\<close> instead of returning FALSE.
\<close>

theorem Load_leaves_memory:
  assumes "dir (vmHost v) fileName = Some i" "inode (vmHost v) i = file" "0 \<le> nextFd (vmHost v)"
    and "52 \<le> length file" "le32 file 0 = NOFFMAGIC" "0 < addrLock v" "bitmap_inv (gPhysPageBitMap v)"
    and "\<forall>f. 0 \<le> f \<and> f < NumPhysPages \<longrightarrow> bit_used (gPhysPageBitMap v) f"
    and "0 < divRoundUp (uint (program_size (header_at file))) PageSize"
      "divRoundUp (uint (program_size (header_at file))) PageSize \<le> int (card (free_bits (gPhysPageBitMap v)))"
  shows "Load sp fileName v = Inl OutOfBounds"
proof -
  let ?f = "OpenFile_new (nextFd (vmHost v))" and ?n = "divRoundUp (uint (program_size (header_at file))) PageSize"
  let ?h = "(vmHost v)\<lparr>fds := (fds (vmHost v))(nextFd (vmHost v) \<mapsto> (i, 0)), nextFd := nextFd (vmHost v) + 1\<rparr>"
  have open_eq: "FS_Open fileName (vmHost v) = Inr (Some ?f, ?h)" using FS_Open_eq assms(1,3) by blast
  have rf: "refers ?h ?f i" by (simp add: refers_def OpenFile_new_def)
  obtain h where rd: "ReadAt ?f 52 0 ?h = Inr (int (length (take 52 file)), take 52 file, h)"
    using ReadAt_eq[OF rf, of 52 0] assms(2) by auto
  define w where "w = v\<lparr>vmHost := h, addrLock := addrLock v - 1\<rparr>"
  have wP: "addrLock_P (v\<lparr>vmHost := h\<rparr>) = Inr w" using assms(6) by (simp add: addrLock_P_def w_def)
  have bw: "bitmap_inv (gPhysPageBitMap w)" using assms(7) by (simp add: w_def)
  have nc: "Bitmap_NumClear (gPhysPageBitMap w) = Inr (int (card (free_bits (gPhysPageBitMap v))))"
    using Bitmap_NumClear_ok[OF bw] by (simp add: w_def)
  from bw have first: "new_page 0 ([], w) = Inl OutOfBounds"
  proof (cases rule: new_page_cases[where i = 0 and pt = "[]"])
    case (found f bm)
    then have "\<not> f < 128" using assms(8) by (auto simp: w_def free_bits_def NumPhysPages_def)
    then show ?thesis using found(3) by simp
  qed
  have "nat ?n \<noteq> 0" using assms(9) by simp
  then obtain m where "nat ?n = Suc m" using not0_implies_Suc by blast
  then have "count_to ?n = 0 # tl (count_to ?n)" by (simp add: count_to_def upt_rec[of 0 "Suc m"] del: upt_Suc)
  then have "for_each new_page (count_to ?n) ([], w) = Inl OutOfBounds"
    using first by (metis bind_run_Inl for_each.simps(2))
  then have "load_pages sp ?f (header_at file) w = Inl OutOfBounds"
    using nc assms(10) unfolding load_pages_def Let_def by simp
  then show ?thesis
    by (simp only: Load_def open_eq rd read_header_eq[OF assms(4,5)] wP bind_run_Inr prod.case option.case)
qed

theorem Load_leaves_memory_witness:
  "\<exists>b. bitmap_inv b \<and> free_bits b = {128..<256} \<and> Load no_space (cstr ''a'') (tiny_vm b) = Inl OutOfBounds"
proof -
  obtain b where b: "bitmap_inv b" "bit_used b = (\<lambda>f. 0 \<le> f \<and> f < 128)" "free_bits b = {128..<256}" using full_bitmap by blast
  show ?thesis
    using Load_leaves_memory[of "tiny_vm b" "cstr ''a''" 0 tiny_program no_space] b tiny_header tiny_pages by (auto simp: NumPhysPages_def)
qed

text \<open>
  The kernel's own translation (\<open>AddrSpace::Translate\<close>) agrees with the machine's on the page table of a
  loaded program: the same exception or the same physical address, with use and dirty bits set alike.
\<close>

theorem AddrSpace_Translate_agrees:
  assumes "asPageTable sp = Some pt" "asNumPages sp = Some (word_of_int (int (length pt)))" "length pt < 2 ^ 32"
    and "\<forall>e \<in> set pt. valid e \<and> uint (physicalPage e) < 2 ^ 31"
  shows "case vm_translate pt vaddr 1 w of
      Inl ex \<Rightarrow> AddrSpace_Translate sp vaddr w = Inr (ex, 0, sp)
    | Inr pa \<Rightarrow> AddrSpace_Translate sp vaddr w = Inr (NoException, word_of_int pa, sp\<lparr>asPageTable := Some (touch_page w vaddr pt)\<rparr>)"
proof -
  let ?p = "nat (uint vaddr div 128)"
  have vpn: "uint (vaddr div 128) = uint vaddr div 128" "uint (vaddr mod 128) = uint vaddr mod 128"
    by (simp_all add: uint_div uint_mod)
  have n: "uint (word_of_int (int (length pt)) :: 32 word) = int (length pt)" using assms(3) by (simp add: uint_word_of_int del: of_int_of_nat_eq)
  have al: "aligned vaddr 1" by (simp add: aligned_def)
  have nn: "0 \<le> uint vaddr div 128" by (simp add: pos_imp_zdiv_nonneg_iff)
  show ?thesis
  proof (cases "?p < length pt")
    case False
    then have "word_of_int (int (length pt)) \<le> vaddr div 128" using n vpn nn by (simp add: word_le_def del: of_int_of_nat_eq)
    then show ?thesis using False al assms(2) by (simp add: vm_translate_def AddrSpace_Translate_def unset_def PageSize_def Let_def)
  next
    case True
    let ?e = "pt ! ?p"
    have e: "valid ?e" "uint (physicalPage ?e) < 2 ^ 31" using assms(4) True by simp_all
    have s: "sint (physicalPage ?e) = uint (physicalPage ?e)" using e(2) by (simp add: sint_uint small_signed)
    have lt: "vaddr div 128 < word_of_int (int (length pt))" using True n vpn nn by (simp add: word_less_def nat_less_iff del: of_int_of_nat_eq)
    have g: "get_at pt (uint (vaddr div 128)) = Inr ?e" "\<And>x. set_at pt (uint (vaddr div 128)) x = Inr (pt[?p := x])"
      using True vpn nn by (auto simp: get_at_def set_at_def nat_less_iff)
    show ?thesis
    proof (cases "w \<and> readOnly ?e \<or> uint (physicalPage ?e) \<ge> 128")
      case True
      then show ?thesis using \<open>?p < length pt\<close> al e lt g s assms(1,2)
        by (auto simp: vm_translate_def AddrSpace_Translate_def unset_def PageSize_def NumPhysPages_def Let_def)
    next
      case False
      let ?pa = "uint (physicalPage ?e) * 128 + uint vaddr mod 128"
      have b: "0 \<le> ?pa" "?pa < 16384" using False by auto
      define q where "q = (word_of_int ?pa :: 32 word)"
      have pe: "physicalPage ?e * word_of_int PageSize + vaddr mod word_of_int PageSize = q"
        by (simp add: PageSize_def q_def flip: vpn(2))
      have pu: "uint q < MemorySize" unfolding q_def using b by (simp add: uint_word_of_int size_defs del: of_int_add of_int_mult)
      have no: "\<not> (w \<and> readOnly ?e)" "\<not> sint (physicalPage ?e) \<ge> NumPhysPages" "\<not> word_of_int (int (length pt)) \<le> vaddr div word_of_int PageSize"
        using False s lt by (auto simp: NumPhysPages_def PageSize_def)
      have "vm_translate pt vaddr 1 w = Inr ?pa"
        using False \<open>?p < length pt\<close> al e(1) by (auto simp: vm_translate_def NumPhysPages_def Let_def)
      moreover have g': "get_at pt (uint (vaddr div word_of_int PageSize)) = Inr ?e"
          "\<And>x. set_at pt (uint (vaddr div word_of_int PageSize)) x = Inr (pt[?p := x])" using g by (simp_all add: PageSize_def)
      moreover have "AddrSpace_Translate sp vaddr w = Inr (NoException, q, sp\<lparr>asPageTable := Some (touch_page w vaddr pt)\<rparr>)"
        unfolding AddrSpace_Translate_def Let_def assms(1,2) unset_def option.case bind_run_Inr if_not_P[OF no(3)]
        using g' no(1,2) pu pe by (simp add: touch_page_def touch_def)
      ultimately show ?thesis by (simp only: sum.case q_def)
    qed
  qed
qed

lemma Execute_paged:
  assumes "asPageTable sp = Some pt" "asNumPages sp = Some (word_of_int (int (length pt)))" "length pt < 2 ^ 25" "tlb m = None"
  shows "\<exists>m'. Execute sp m = Inr m' \<and> paged m' pt \<and> mainMemory m' = mainMemory m \<and>
    (\<forall>r < NumTotalRegs. registers m' r = (if r = NextPCReg then 4 else if r = StackReg then word_of_int (int (length pt) * 128 - 16) else 0))"
proof -
  let ?P = "\<lambda>xs m'. \<exists>rg. m' = m\<lparr>registers := rg\<rparr> \<and> (\<forall>r < length xs. rg r = 0)"
  have "\<exists>m'. for_each (\<lambda>i m. WriteRegister m i 0) (count_to (int NumTotalRegs)) m = Inr m' \<and> ?P (count_to (int NumTotalRegs)) m'"
  proof (rule for_each_inv[where P = ?P])
    show "?P [] m" by (intro exI[of _ "registers m"]) simp
    fix xs i ys m1
    assume split: "count_to (int NumTotalRegs) = xs @ i # ys" and P: "?P xs m1"
    then show "\<exists>m'. WriteRegister m1 i 0 = Inr m' \<and> ?P (xs @ [i]) m'"
      using count_to_split[OF split] by (auto simp: WriteRegister_def less_Suc_eq)
  qed
  then obtain rg where rg: "for_each (\<lambda>i m. WriteRegister m i 0) (count_to (int NumTotalRegs)) m = Inr (m\<lparr>registers := rg\<rparr>)"
    "\<forall>r < NumTotalRegs. rg r = 0" by auto
  have n: "uint (word_of_int (int (length pt)) :: 32 word) = int (length pt)" using assms(3) by (simp add: uint_word_of_int del: of_int_of_nat_eq)
  have "(word_of_int (int (length pt)) :: 32 word) * 128 - 16 = word_of_int (int (length pt) * 128 - 16)" by simp
  then have "Execute sp m = Inr (m\<lparr>registers := rg(PCReg := 0, NextPCReg := 4, StackReg := word_of_int (int (length pt) * 128 - 16)),
      pageTable := Some pt, pageTableSize := word_of_int (int (length pt))\<rparr>)"
    using rg(1) assms(1,2) unfolding Execute_def InitRegisters_def RestoreState_def
    by (simp add: unset_def WriteRegister_def PageSize_def reg_defs)
  then show ?thesis using rg(2) assms(4) n by (auto simp: paged_def reg_defs)
qed

text \<open>
  \<open>Execute\<close> starts a program with its own page table installed, all registers zero but the second
  program counter, which is 4, and the stack pointer, which is 16 bytes below the end of the address space.
\<close>

theorem Execute_prepares:
  assumes "asPageTable sp = Some pt" "asNumPages sp = Some (word_of_int (int (length pt)))" "length pt < 2 ^ 25" "tlb m = None"
  shows "\<exists>m'. Execute sp m = Inr m' \<and> paged m' pt \<and> mainMemory m' = mainMemory m \<and>
    (\<forall>r < NumTotalRegs. registers m' r = (if r = NextPCReg then 4 else if r = StackReg then word_of_int (int (length pt) * 128 - 16) else 0))"
  by (rule Execute_paged[OF assms])

end
