(* ===== verification/Syscalls.thy ===== *)
theory Syscalls
  imports AddrSpaces "HOL-Library.Signed_Division"
begin

text \<open>
  The system calls for numbers, characters, strings and files (\<^verbatim>\<open>userprog/ksyscall.h\<close>) and the entry into
  the kernel (\<^verbatim>\<open>userprog/exception.cc\<close>).

  A kernel buffer is the list of its bytes, \<open>None\<close> where nothing has been written since \<open>new\<close>.  The console input
  is the list of the characters that will still be typed; waiting for more than that is \<open>Diverges\<close>.  An
  exception raised while the kernel copies from or to user memory enters \<open>ExceptionHandler\<close>, which halts
  the machine: a routine that ends so has the result \<open>None\<close>.
\<close>

section \<open>State\<close>

record sys =
  sysMachine :: Machine
  conIn :: bytes
  conOut :: bytes
  sysFs :: FileSystem
  sysHost :: host
  curPid :: "32 word"
  clockTime :: "32 word"
  sysTicks :: "32 word"

type_synonym kbuf = "8 word option list"
type_synonym 'a kres = "'a option run"

definition bind_k :: "'a kres \<Rightarrow> ('a \<Rightarrow> 'b kres) \<Rightarrow> 'b kres" where
  "bind_k m f = bind_run m (\<lambda>x. case x of None \<Rightarrow> Inr None | Some y \<Rightarrow> f y)"

definition ret_k :: "'a \<Rightarrow> 'a kres" where
  "ret_k x = Inr (Some x)"

definition lift_k :: "'a run \<Rightarrow> 'a kres" where
  "lift_k m = bind_run m ret_k"

definition arg :: "nat \<Rightarrow> sys \<Rightarrow> 32 word" where
  "arg r s = registers (sysMachine s) r"

definition MAX_LENGTH :: int where "MAX_LENGTH = 1000"

section \<open>Kernel buffers\<close>

definition new_buf :: "int \<Rightarrow> kbuf run" where
  "new_buf n = (if n < 0 \<or> n \<ge> 2 ^ 31 then Inl BadAlloc else Inr (replicate (nat n) None))"

definition buf_at :: "kbuf \<Rightarrow> int \<Rightarrow> 8 word run" where
  "buf_at b i = bind_run (get_at b i) (\<lambda>x. case x of None \<Rightarrow> Inl Uninitialised | Some c \<Rightarrow> Inr c)"

text \<open>A use of the buffer as a string: up to the first NUL.\<close>

fun c_string :: "kbuf \<Rightarrow> bytes run" where
  "c_string [] = Inl OutOfBounds"
| "c_string (None # b) = Inl Uninitialised"
| "c_string (Some c # b) = (if c = 0 then Inr [] else bind_run (c_string b) (\<lambda>s. Inr (c # s)))"

text \<open>\<^verbatim>\<open>strcmp(buffer, literal) == 0\<close>; it stops at the first difference.\<close>

fun c_streq :: "kbuf \<Rightarrow> bytes \<Rightarrow> bool run" where
  "c_streq [] l = Inl OutOfBounds"
| "c_streq (None # b) l = Inl Uninitialised"
| "c_streq (Some c # b) [] = Inr (c = 0)"
| "c_streq (Some c # b) (x # l) = (if c = x then c_streq b l else Inr False)"

section \<open>Copying between user and kernel memory\<close>

fun copy_in :: "32 word \<Rightarrow> nat \<Rightarrow> nat \<Rightarrow> kbuf \<Rightarrow> sys \<Rightarrow> (kbuf \<times> sys) kres" where
  "copy_in virtAddr i 0 b s = ret_k (b, s)"
| "copy_in virtAddr i (Suc n) b s =
     bind_run (ReadMem (sysMachine s) (virtAddr + word_of_int (int i)) 1) (\<lambda>(ex, oneChar, m).
     let s = s\<lparr>sysMachine := m\<rparr> in
     if ex \<noteq> NoException then Inr None
     else let b = b[i := Some (ucast oneChar)] in
       if oneChar = 0 then ret_k (b, s) else copy_in virtAddr (Suc i) n b s)"

definition User2System :: "32 word \<Rightarrow> int \<Rightarrow> sys \<Rightarrow> (kbuf \<times> sys) kres" where
  "User2System virtAddr limit s =
     bind_run (new_buf (limit + 1)) (\<lambda>kernelBuf. copy_in virtAddr 0 (nat limit) kernelBuf s)"

fun copy_out :: "32 word \<Rightarrow> nat \<Rightarrow> nat \<Rightarrow> kbuf \<Rightarrow> sys \<Rightarrow> (int \<times> sys) kres" where
  "copy_out virtAddr i 0 b s = ret_k (int i, s)"
| "copy_out virtAddr i (Suc n) b s =
     bind_run (buf_at b (int i)) (\<lambda>c.
     bind_run (WriteMem (sysMachine s) (virtAddr + word_of_int (int i)) 1 (scast c)) (\<lambda>(ex, m).
     let s = s\<lparr>sysMachine := m\<rparr> in
     if ex \<noteq> NoException then Inr None
     else if c = 0 then ret_k (int (Suc i), s) else copy_out virtAddr (Suc i) n b s))"

definition System2User :: "32 word \<Rightarrow> int \<Rightarrow> kbuf \<Rightarrow> sys \<Rightarrow> (int \<times> sys) kres" where
  "System2User virtAddr len buffer s =
     (if len < 0 then ret_k (-1, s) else if len = 0 then ret_k (len, s)
      else copy_out virtAddr 0 (nat len) buffer s)"

section \<open>Console\<close>

definition GetChar :: "sys \<Rightarrow> (8 word \<times> sys) run" where
  "GetChar s = (case conIn s of [] \<Rightarrow> Inl Diverges | c # cs \<Rightarrow> Inr (c, s\<lparr>conIn := cs\<rparr>))"

definition PutChar :: "8 word \<Rightarrow> sys \<Rightarrow> sys" where
  "PutChar c s = s\<lparr>conOut := conOut s @ [c]\<rparr>"

definition isdigit :: "8 word \<Rightarrow> bool" where
  "isdigit c \<longleftrightarrow> 48 \<le> sint c \<and> sint c \<le> 57"

text \<open>Skipping newlines, and the loop of \<open>SysReadNum\<close> over the remaining characters.\<close>

fun skip_newlines :: "bytes \<Rightarrow> (8 word \<times> bytes) run" where
  "skip_newlines [] = Inl Diverges"
| "skip_newlines (c # cs) = (if c = 10 then skip_newlines cs else Inr (c, cs))"

fun read_digits :: "32 word \<Rightarrow> bool \<Rightarrow> bytes \<Rightarrow> (32 word \<times> bytes) run" where
  "read_digits result ok [] = Inl Diverges"
| "read_digits result ok (c # cs) =
     (if isdigit c \<and> ok then read_digits (result * 10 + scast c - 48) ok cs
      else if c \<noteq> 10 then read_digits 0 False cs
      else Inr (result, cs))"

definition SysReadNum :: "sys \<Rightarrow> (32 word \<times> sys) run" where
  "SysReadNum s =
     bind_run (skip_newlines (conIn s)) (\<lambda>(c, cs).
     let negative = (c = 45);
         result = (if \<not> negative \<and> isdigit c then scast c - 48 else 0);
         ok = (negative \<or> isdigit c) in
     bind_run (read_digits result ok cs) (\<lambda>(result, cs).
     Inr (if negative then result * -1 else result, s\<lparr>conIn := cs\<rparr>)))"

text \<open>The digits of a number, least significant first, with C's division towards zero.\<close>

function num_digits :: "int \<Rightarrow> int list" where
  "num_digits number =
     (let digit = number smod 10; number = number sdiv 10 in
      if number = 0 then [digit] else digit # num_digits number)"
  by pat_completeness auto
termination
proof (relation "measure (\<lambda>n. nat \<bar>n\<bar>)")
  fix number digit q :: int
  assume q: "q = number sdiv 10" "q \<noteq> 0"
  have "\<bar>q\<bar> = \<bar>number\<bar> div 10" by (simp add: q(1) signed_divide_int_def abs_mult sgn_if)
  then have "\<bar>q\<bar> < \<bar>number\<bar>" using q(2) by arith
  then show "(q, number) \<in> measure (\<lambda>n. nat \<bar>n\<bar>)" by simp
qed simp

declare num_digits.simps [simp del]

definition SysPrintNum :: "sys \<Rightarrow> sys" where
  "SysPrintNum s =
     (let number = sint (arg 4 s); negative = (number < 0);
          number = (if negative then sint (- arg 4 s) else number);
          arr = map (\<lambda>d. word_of_int (d + 48)) (num_digits number) @ (if negative then [45] else []) in
      s\<lparr>conOut := conOut s @ rev arr\<rparr>)"

fun skip_line :: "bytes \<Rightarrow> bytes run" where
  "skip_line [] = Inl Diverges"
| "skip_line (c # cs) = (if c = 10 then Inr cs else skip_line cs)"

definition SysReadChar :: "sys \<Rightarrow> (8 word \<times> sys) run" where
  "SysReadChar s =
     bind_run (skip_newlines (conIn s)) (\<lambda>(c, cs). bind_run (skip_line cs) (\<lambda>cs. Inr (c, s\<lparr>conIn := cs\<rparr>)))"

definition SysPrintChar :: "sys \<Rightarrow> sys" where
  "SysPrintChar s = PutChar (ucast (arg 4 s)) s"

definition SysAdd :: "32 word \<Rightarrow> 32 word \<Rightarrow> 32 word" where
  "SysAdd op1 op2 = op1 + op2"

text \<open>Up to \<open>n\<close> characters of a line, into the buffer from index \<open>idx\<close> on.\<close>

fun read_line :: "nat \<Rightarrow> nat \<Rightarrow> kbuf \<Rightarrow> bytes \<Rightarrow> (nat \<times> kbuf \<times> bytes) run" where
  "read_line idx 0 b cs = Inr (idx, b, cs)"
| "read_line idx (Suc n) b [] = Inl Diverges"
| "read_line idx (Suc n) b (c # cs) =
     (if c = 10 \<or> c = 0 then Inr (idx, b[idx := Some 0], cs)
      else read_line (Suc idx) n (b[idx := Some c]) cs)"

definition read_console :: "32 word \<Rightarrow> int \<Rightarrow> sys \<Rightarrow> (int \<times> sys) kres" where
  "read_console addr len s =
     bind_run (new_buf (len + 1)) (\<lambda>b.
     bind_run (read_line 0 (nat len) b (conIn s)) (\<lambda>(idx, b, cs).
     bind_run (set_at b (int idx) (Some 0)) (\<lambda>b.
     bind_k (System2User addr len b (s\<lparr>conIn := cs\<rparr>)) (\<lambda>(_, s). ret_k (int idx, s)))))"

definition SysReadString :: "sys \<Rightarrow> sys kres" where
  "SysReadString s = bind_k (read_console (arg 4 s) (sint (arg 5 s)) s) (\<lambda>(_, s). ret_k s)"

fun print_buf :: "nat \<Rightarrow> kbuf \<Rightarrow> sys \<Rightarrow> (nat \<times> sys) run" where
  "print_buf 0 b s = Inr (0, s)"
| "print_buf (Suc n) [] s = Inl OutOfBounds"
| "print_buf (Suc n) (None # b) s = Inl Uninitialised"
| "print_buf (Suc n) (Some c # b) s =
     (if c \<noteq> 0 then bind_run (print_buf n b (PutChar c s)) (\<lambda>(k, s). Inr (Suc k, s)) else Inr (0, s))"

definition SysPrintString :: "sys \<Rightarrow> sys kres" where
  "SysPrintString s =
     bind_k (User2System (arg 4 s) MAX_LENGTH s) (\<lambda>(b, s).
     lift_k (bind_run (print_buf (nat MAX_LENGTH) b s) (\<lambda>(_, s). Inr s)))"

section \<open>Files\<close>

definition SysCreateFile :: "sys \<Rightarrow> (int \<times> sys) kres" where
  "SysCreateFile s =
     bind_k (User2System (arg 4 s) MAX_LENGTH s) (\<lambda>(b, s).
     bind_run (c_string b) (\<lambda>name.
     if length name = 0 then ret_k (-1, s)
     else bind_run (FS_Create name (sysHost s)) (\<lambda>(code, h).
       ret_k (if code then 0 else -1, s\<lparr>sysHost := h\<rparr>))))"

text \<open>Opening into a free slot; with the types 0 and 1 only, the results for types 2 and 3 are never reached.\<close>

definition open_slot :: "kbuf \<Rightarrow> int \<Rightarrow> int \<Rightarrow> sys \<Rightarrow> (int \<times> sys) kres" where
  "open_slot b type freeSlot s =
     bind_run (set_at (ftype (sysFs s)) freeSlot type) (\<lambda>ty.
     let s = s\<lparr>sysFs := (sysFs s)\<lparr>ftype := ty\<rparr>\<rparr> in
     if type = 0 \<or> type = 1 then
       bind_run (c_string b) (\<lambda>name.
       bind_run (FS_Open name (sysHost s)) (\<lambda>(f, h).
       bind_run (set_at (openFiles (sysFs s)) freeSlot f) (\<lambda>os.
       let s = s\<lparr>sysFs := (sysFs s)\<lparr>openFiles := os\<rparr>, sysHost := h\<rparr> in
       if f \<noteq> None then ret_k (freeSlot, s)
       else if type = 2 then ret_k (0, s) else if type = 3 then ret_k (1, s) else ret_k (-1, s))))
     else ret_k (-1, s))"

definition SysOpen :: "sys \<Rightarrow> (int \<times> sys) kres" where
  "SysOpen s =
     (let type = sint (arg 5 s) in
      bind_k (User2System (arg 4 s) 256 s) (\<lambda>(b, s).
      bind_run (c_streq b (cstr ''stdin'')) (\<lambda>is_in.
      if is_in then ret_k (0, s)
      else bind_run (c_streq b (cstr ''stdout'')) (\<lambda>is_out.
      if is_out then ret_k (1, s)
      else bind_run (findFreeSlot (sysFs s)) (\<lambda>freeSlot.
      if freeSlot \<noteq> -1 then open_slot b type freeSlot s else ret_k (-1, s))))))"

definition SysClose :: "sys \<Rightarrow> (int \<times> sys) run" where
  "SysClose s =
     (let fileid = sint (arg 4 s); fs = sysFs s in
      if fileid \<ge> 0 \<and> fileid \<le> 9 then
        bind_run (get_at (openFiles fs) fileid) (\<lambda>f.
        case f of
          Some f \<Rightarrow> bind_run (OpenFile_delete f (sysHost s)) (\<lambda>h.
            bind_run (set_at (openFiles fs) fileid None) (\<lambda>os.
            Inr (0, s\<lparr>sysFs := fs\<lparr>openFiles := os\<rparr>, sysHost := h\<rparr>)))
        | None \<Rightarrow> Inr (-1, s))
      else Inr (-1, s))"

definition fill_buf :: "bytes \<Rightarrow> kbuf \<Rightarrow> kbuf" where
  "fill_buf bs b = map Some bs @ drop (length bs) b"

definition SysRead :: "sys \<Rightarrow> (int \<times> sys) kres" where
  "SysRead s =
     (let virtualAddr = arg 4 s; charcount = sint (arg 5 s); openFileId = sint (arg 6 s); fs = sysFs s in
      if openFileId > 9 \<or> openFileId < 0 then ret_k (-1, s)
      else bind_run (get_at (openFiles fs) openFileId) (\<lambda>f.
      case f of None \<Rightarrow> ret_k (-4, s)
      | Some f \<Rightarrow>
          if openFileId = 0 then read_console virtualAddr charcount s
          else bind_run (new_buf (charcount + 1)) (\<lambda>b.
            if openFileId = 1 then ret_k (-2, s)
            else bind_run (OpenFile_Read f charcount (sysHost s)) (\<lambda>(sz, bs, f, h).
              bind_run (set_at (openFiles fs) openFileId (Some f)) (\<lambda>os.
              let s = s\<lparr>sysFs := fs\<lparr>openFiles := os\<rparr>, sysHost := h\<rparr> in
              if sz > 0 then bind_k (System2User virtualAddr sz (fill_buf bs b) s) (\<lambda>(_, s). ret_k (sz, s))
              else ret_k (-3, s))))))"

text \<open>\<open>Write\<close> passes the first \<open>charcount\<close> bytes of the buffer to the host.\<close>

fun buf_bytes :: "nat \<Rightarrow> kbuf \<Rightarrow> bytes run" where
  "buf_bytes 0 b = Inr []"
| "buf_bytes (Suc n) [] = Inl OutOfBounds"
| "buf_bytes (Suc n) (None # b) = Inl Uninitialised"
| "buf_bytes (Suc n) (Some c # b) = bind_run (buf_bytes n b) (\<lambda>bs. Inr (c # bs))"

definition SysWrite :: "sys \<Rightarrow> (int \<times> sys) kres" where
  "SysWrite s =
     (let virtualAddr = arg 4 s; charcount = arg 5 s; openFileId = sint (arg 6 s); fs = sysFs s in
      if openFileId > 9 \<or> openFileId < 0 then ret_k (-1, s)
      else bind_run (get_at (openFiles fs) openFileId) (\<lambda>f.
      case f of None \<Rightarrow> ret_k (-4, s)
      | Some f \<Rightarrow>
          bind_run (get_at (ftype fs) openFileId) (\<lambda>ty.
          if ty = 1 then ret_k (-2, s)
          else bind_k (User2System virtualAddr (sint (charcount + 1)) s) (\<lambda>(b, s).
            if openFileId = 1 then lift_k (bind_run (print_buf (nat MAX_LENGTH) b s) (\<lambda>(i, s). Inr (int i, s)))
            else if openFileId = 0 then ret_k (-2, s)
            else bind_run (buf_bytes (nat (sint charcount)) b) (\<lambda>bs.
              bind_run (OpenFile_Write f bs (sint charcount) (sysHost s)) (\<lambda>(sz, f, h).
              bind_run (set_at (openFiles fs) openFileId (Some f)) (\<lambda>os.
              ret_k (sz, s\<lparr>sysFs := fs\<lparr>openFiles := os\<rparr>, sysHost := h\<rparr>))))))))"

definition SysSeek :: "sys \<Rightarrow> (int \<times> sys) run" where
  "SysSeek s =
     (let pos = sint (arg 4 s); id = sint (arg 5 s); fs = sysFs s in
      if id < 0 \<or> id > 14 then Inr (-1, s)
      else bind_run (get_at (openFiles fs) id) (\<lambda>f.
      case f of None \<Rightarrow> Inr (-1, s)
      | Some f \<Rightarrow>
          if id = 0 \<or> id = 1 then Inr (-1, s)
          else bind_run (if pos = -1 then OpenFile_Length f (sysHost s) else Inr (pos, sysHost s)) (\<lambda>(pos, h).
            bind_run (OpenFile_Length f h) (\<lambda>(len, h).
            if pos > len \<or> pos < 0 then Inr (-1, s\<lparr>sysHost := h\<rparr>)
            else bind_run (OpenFile_Seek f pos h) (\<lambda>(_, f, h).
              bind_run (set_at (openFiles fs) id (Some f)) (\<lambda>os.
              Inr (pos, s\<lparr>sysFs := fs\<lparr>openFiles := os\<rparr>, sysHost := h\<rparr>)))))))"

definition SysGetPID :: "sys \<Rightarrow> 32 word" where
  "SysGetPID s = curPid s"

text \<open>\<open>rand\<close> of the C library, as a function of the seed.\<close>

definition SysRandomNum :: "(32 word \<Rightarrow> 32 word) \<Rightarrow> sys \<Rightarrow> 32 word" where
  "SysRandomNum rnd s = rnd (clockTime s + sysTicks s)"

section \<open>Entry into the kernel\<close>

definition SC_Halt :: "32 word" where "SC_Halt = 0"
definition SC_Exit :: "32 word" where "SC_Exit = 1"
definition SC_Exec :: "32 word" where "SC_Exec = 2"
definition SC_Join :: "32 word" where "SC_Join = 3"
definition SC_Seek :: "32 word" where "SC_Seek = 9"
definition SC_Add :: "32 word" where "SC_Add = 42"
definition SC_ReadNum :: "32 word" where "SC_ReadNum = 43"
definition SC_PrintNum :: "32 word" where "SC_PrintNum = 44"
definition SC_ReadChar :: "32 word" where "SC_ReadChar = 45"
definition SC_PrintChar :: "32 word" where "SC_PrintChar = 46"
definition SC_RandomNum :: "32 word" where "SC_RandomNum = 47"
definition SC_ReadString :: "32 word" where "SC_ReadString = 48"
definition SC_PrintString :: "32 word" where "SC_PrintString = 49"
definition SC_CreateFile :: "32 word" where "SC_CreateFile = 50"
definition SC_OpenFile :: "32 word" where "SC_OpenFile = 51"
definition SC_CloseFile :: "32 word" where "SC_CloseFile = 52"
definition SC_ReadFile :: "32 word" where "SC_ReadFile = 53"
definition SC_WriteFile :: "32 word" where "SC_WriteFile = 54"
definition SC_CreateSemaphore :: "32 word" where "SC_CreateSemaphore = 55"
definition SC_Wait :: "32 word" where "SC_Wait = 56"
definition SC_Signal :: "32 word" where "SC_Signal = 57"
definition SC_GetPID :: "32 word" where "SC_GetPID = 58"

lemmas sc_defs = SC_Halt_def SC_Exit_def SC_Exec_def SC_Join_def SC_Seek_def SC_Add_def SC_ReadNum_def
  SC_PrintNum_def SC_ReadChar_def SC_PrintChar_def SC_RandomNum_def SC_ReadString_def SC_PrintString_def
  SC_CreateFile_def SC_OpenFile_def SC_CloseFile_def SC_ReadFile_def SC_WriteFile_def SC_CreateSemaphore_def
  SC_Wait_def SC_Signal_def SC_GetPID_def

definition ModifyReturnPoint :: "Machine \<Rightarrow> Machine run" where
  "ModifyReturnPoint m =
     bind_run (ReadRegister m (int PCReg)) (\<lambda>pc.
     bind_run (WriteRegister m (int PrevPCReg) pc) (\<lambda>m.
     bind_run (ReadRegister m (int PCReg)) (\<lambda>pc.
     bind_run (WriteRegister m (int PCReg) (pc + 4)) (\<lambda>m.
     bind_run (ReadRegister m (int PCReg)) (\<lambda>pc. WriteRegister m (int NextPCReg) (pc + 4))))))"

text \<open>
  A handler ends by returning to the user program, by halting the machine, or (the calls on processes and
  semaphores, which may suspend the thread) by entering the process layer with the call's code.
\<close>

datatype handled = Returned sys | Halted | ProcessCall "32 word" sys

definition no_result :: "sys \<Rightarrow> handled kres" where
  "no_result s = bind_run (ModifyReturnPoint (sysMachine s)) (\<lambda>m. ret_k (Returned (s\<lparr>sysMachine := m\<rparr>)))"

definition with_result :: "32 word \<Rightarrow> sys \<Rightarrow> handled kres" where
  "with_result r s = bind_run (WriteRegister (sysMachine s) 2 r) (\<lambda>m. no_result (s\<lparr>sysMachine := m\<rparr>))"

text \<open>The cases of the handler's switch, in groups: processes and the default, files, console and arithmetic.\<close>

definition file_result :: "(int \<times> sys) kres \<Rightarrow> handled kres" where
  "file_result call = bind_k call (\<lambda>(r, s). with_result (word_of_int r) s)"

definition process_handler :: "32 word \<Rightarrow> sys \<Rightarrow> handled kres" where
  "process_handler type s =
     (if type \<in> {SC_Exec, SC_Join, SC_Exit, SC_CreateSemaphore, SC_Wait, SC_Signal} then ret_k (ProcessCall type s)
      else if type = SC_Seek then file_result (lift_k (SysSeek s))
      else if type = SC_GetPID then with_result (SysGetPID s) s
      else Inl AssertFail)"

definition file_handler :: "32 word \<Rightarrow> sys \<Rightarrow> handled kres" where
  "file_handler type s =
     (if type = SC_CreateFile then file_result (SysCreateFile s)
      else if type = SC_OpenFile then file_result (SysOpen s)
      else if type = SC_CloseFile then file_result (lift_k (SysClose s))
      else if type = SC_ReadFile then file_result (SysRead s)
      else if type = SC_WriteFile then file_result (SysWrite s)
      else process_handler type s)"

definition syscall_handler :: "(32 word \<Rightarrow> 32 word) \<Rightarrow> 32 word \<Rightarrow> sys \<Rightarrow> handled kres" where
  "syscall_handler rnd type s =
     (if type = SC_Halt then ret_k Halted
      else if type = SC_Add then with_result (SysAdd (arg 4 s) (arg 5 s)) s
      else if type = SC_ReadNum then bind_run (SysReadNum s) (\<lambda>(r, s). with_result r s)
      else if type = SC_PrintNum then no_result (SysPrintNum s)
      else if type = SC_ReadChar then bind_run (SysReadChar s) (\<lambda>(c, s). with_result (scast c) s)
      else if type = SC_PrintChar then no_result (SysPrintChar s)
      else if type = SC_RandomNum then with_result (SysRandomNum rnd s) s
      else if type = SC_ReadString then bind_k (SysReadString s) no_result
      else if type = SC_PrintString then bind_k (SysPrintString s) no_result
      else file_handler type s)"

lemmas handler_defs = syscall_handler_def file_handler_def process_handler_def file_result_def

text \<open>An exception other than a system call halts the machine; so does one inside a system call.\<close>

definition ExceptionHandler :: "(32 word \<Rightarrow> 32 word) \<Rightarrow> ExceptionType \<Rightarrow> sys \<Rightarrow> handled run" where
  "ExceptionHandler rnd which s =
     (case which of
        SyscallException \<Rightarrow>
          bind_run (syscall_handler rnd (arg 2 s) s) (\<lambda>r. Inr (case r of None \<Rightarrow> Halted | Some h \<Rightarrow> h))
      | NoException \<Rightarrow> Inr (Returned s)
      | _ \<Rightarrow> Inr Halted)"

section \<open>Numbers\<close>

lemma num_digits_nat:
  assumes "0 \<le> n"
  shows "num_digits n = (if n < 10 then [n] else n mod 10 # num_digits (n div 10))"
proof -
  have "n smod 10 = n mod 10" "n sdiv 10 = n div 10"
    using assms by (simp_all add: signed_modulo_int_def signed_divide_int_def sgn_if)
  moreover have "n div 10 = 0 \<longleftrightarrow> n < 10" using assms by arith
  ultimately show ?thesis using assms by (subst num_digits.simps) (simp add: Let_def)
qed

definition digit_char :: "int \<Rightarrow> 8 word" where
  "digit_char d = word_of_int (d + 48)"

lemma digit_char:
  assumes "0 \<le> d" "d < 10"
  shows "sint (digit_char d) = d + 48" "isdigit (digit_char d)" "digit_char d \<noteq> 10" "digit_char d \<noteq> 45"
    "(scast (digit_char d) :: 32 word) - 48 = word_of_int d"
proof -
  show s: "sint (digit_char d) = d + 48"
    using assms by (simp add: digit_char_def sint_sbintrunc' signed_take_bit_int_eq_self_iff del: of_int_add)
  show "isdigit (digit_char d)" using s assms by (simp add: isdigit_def)
  show "digit_char d \<noteq> 10" "digit_char d \<noteq> 45" using s assms by auto
  have "(scast (digit_char d) :: 32 word) = word_of_int (d + 48)" using s by (simp add: scast_eq)
  then show "(scast (digit_char d) :: 32 word) - 48 = word_of_int d" by simp
qed

lemma num_digits_range: "0 \<le> n \<Longrightarrow> d \<in> set (num_digits n) \<Longrightarrow> 0 \<le> d \<and> d < 10"
proof (induction n rule: num_digits.induct)
  case (1 n)
  have "n sdiv 10 = n div 10" "n div 10 = 0 \<longleftrightarrow> n < 10"
    using 1(2) by (simp_all add: signed_divide_int_def sgn_if) arith
  then show ?case using 1 by (auto simp: num_digits_nat[of n] split: if_splits)
qed

definition digits_value :: "int list \<Rightarrow> 32 word" where
  "digits_value ds = foldl (\<lambda>r d. r * 10 + word_of_int d) 0 ds"

lemma num_digits_value: "0 \<le> n \<Longrightarrow> digits_value (rev (num_digits n)) = word_of_int n"
proof (induction n rule: num_digits.induct)
  case (1 n)
  have d: "n sdiv 10 = n div 10" "n div 10 = 0 \<longleftrightarrow> n < 10"
    using 1(2) by (simp_all add: signed_divide_int_def sgn_if) arith
  show ?case
  proof (cases "n < 10")
    case True
    then show ?thesis using 1(2) by (simp add: num_digits_nat[of n] digits_value_def)
  next
    case False
    then have "digits_value (rev (num_digits (n div 10))) = word_of_int (n div 10)" using 1 d by simp
    moreover have "word_of_int n = (word_of_int (n div 10) * 10 + word_of_int (n mod 10) :: 32 word)"
      by (metis div_mult_mod_eq of_int_add of_int_mult of_int_numeral)
    ultimately show ?thesis using False 1(2) by (simp add: num_digits_nat[of n] digits_value_def)
  qed
qed

lemma read_digits_eq:
  assumes "\<forall>d \<in> set ds. 0 \<le> d \<and> d < 10"
  shows "read_digits r True (map digit_char ds @ 10 # cs) = Inr (foldl (\<lambda>r d. r * 10 + word_of_int d) r ds, cs)"
  using assms
proof (induction ds arbitrary: r)
  case Nil
  have "\<not> isdigit 10" by (simp add: isdigit_def)
  then show ?case by simp
next
  case (Cons d ds)
  have d: "r * 10 + scast (digit_char d) - 48 = r * 10 + word_of_int d" using Cons(2) digit_char(5)[of d] by (simp add: algebra_simps)
  show ?case using Cons digit_char(2)[of d] by (simp add: d)
qed

lemma num_digits_nonempty: "num_digits n \<noteq> []"
  by (subst num_digits.simps) (simp add: Let_def)

lemma SysReadNum_digits:
  assumes "\<forall>d \<in> set ds. 0 \<le> d \<and> d < 10" "ds \<noteq> []"
  shows "conIn s = map digit_char ds @ 10 # cs \<Longrightarrow> SysReadNum s = Inr (digits_value ds, s\<lparr>conIn := cs\<rparr>)"
    "conIn s = 45 # map digit_char ds @ 10 # cs \<Longrightarrow> SysReadNum s = Inr (- digits_value ds, s\<lparr>conIn := cs\<rparr>)"
proof -
  obtain d es where ds: "ds = d # es" using assms(2) by (cases ds) auto
  have d: "0 \<le> d" "d < 10" and es: "\<forall>d \<in> set es. 0 \<le> d \<and> d < 10" using assms ds by auto
  show "SysReadNum s = Inr (digits_value ds, s\<lparr>conIn := cs\<rparr>)" if "conIn s = map digit_char ds @ 10 # cs"
    using that digit_char(2-5)[OF d] by (simp add: SysReadNum_def ds read_digits_eq[OF es] digits_value_def Let_def)
  show "SysReadNum s = Inr (- digits_value ds, s\<lparr>conIn := cs\<rparr>)" if "conIn s = 45 # map digit_char ds @ 10 # cs"
    using that by (simp add: SysReadNum_def read_digits_eq[OF assms(1)] digits_value_def)
qed

lemma word_minint: "word_of_int (- (2 ^ 31)) = (0x80000000 :: 32 word)"
  by simp

lemma SysPrintNum_out:
  assumes "arg 4 s \<noteq> 0x80000000"
  shows "conOut (SysPrintNum s) = conOut s @ (if sint (arg 4 s) < 0 then [45] else []) @
     map digit_char (rev (num_digits \<bar>sint (arg 4 s)\<bar>))"
proof -
  have "sint (- arg 4 s) = - sint (arg 4 s)" if "sint (arg 4 s) < 0"
  proof -
    have "arg 4 s = word_of_int (sint (arg 4 s))" by simp
    then have "sint (arg 4 s) \<noteq> - (2 ^ 31)" using assms by (metis word_minint)
    moreover have "- (2 ^ 31) \<le> sint (arg 4 s)" using sint_greater_eq[of "arg 4 s"] by simp
    ultimately show ?thesis using that sint_word_ariths(4)[of "arg 4 s"] by (simp add: signed_take_bit_int_eq_self_iff)
  qed
  then show ?thesis
    by (simp add: SysPrintNum_def Let_def rev_map digit_char_def[abs_def] abs_if)
qed

text \<open>
  C32: what \<open>PrintNum\<close> prints, typed back with a newline behind it, is read as the same number by \<open>ReadNum\<close>: for every
  32-bit number but the smallest one, and whatever newlines were typed before it.
\<close>

theorem PrintNum_ReadNum:
  assumes "arg 4 s \<noteq> 0x80000000" "conOut (SysPrintNum s) = conOut s @ out"
    "conIn s' = replicate n 10 @ out @ 10 # rest"
  shows "SysReadNum s' = Inr (arg 4 s, s'\<lparr>conIn := rest\<rparr>)"
proof -
  have skip: "skip_newlines (replicate n 10 @ cs) = skip_newlines cs" for cs by (induction n) simp_all
  define a where "a = \<bar>sint (arg 4 s)\<bar>"
  define ds where "ds = rev (num_digits a)"
  have ds: "\<forall>d \<in> set ds. 0 \<le> d \<and> d < 10" "ds \<noteq> []" "digits_value ds = word_of_int a"
    using num_digits_range[of a] num_digits_nonempty[of a] num_digits_value[of a] by (simp_all add: ds_def a_def)
  have out: "out = (if sint (arg 4 s) < 0 then [45] else []) @ map digit_char ds"
    using SysPrintNum_out[OF assms(1)] assms(2) by (simp add: ds_def a_def)
  have v: "(if sint (arg 4 s) < 0 then - digits_value ds else digits_value ds) = arg 4 s"
    by (simp add: ds(3) a_def)
  have "SysReadNum s' = SysReadNum (s'\<lparr>conIn := out @ 10 # rest\<rparr>)" (is "_ = SysReadNum ?s")
    by (simp add: SysReadNum_def assms(3) skip)
  also have "\<dots> = Inr (arg 4 s, ?s\<lparr>conIn := rest\<rparr>)"
    using SysReadNum_digits[OF ds(1,2), of ?s rest] v by (cases "sint (arg 4 s) < 0") (simp_all add: out)
  finally show ?thesis by simp
qed

theorem PrintNum_ReadNum_witness:
  "\<exists>s s'. arg 4 s = -205 \<and> conOut (SysPrintNum s) = [45, 50, 48, 53] \<and> conIn s' = [10, 45, 50, 48, 53, 10] \<and>
     SysReadNum s' = Inr (-205, s'\<lparr>conIn := []\<rparr>)"
proof -
  define s0 :: sys where "s0 = undefined"
  define s where "s = s0\<lparr>sysMachine := (sysMachine s0)\<lparr>registers := (\<lambda>_. -205)\<rparr>, conOut := [], conIn := [10, 45, 50, 48, 53, 10]\<rparr>"
  have a: "arg 4 s = -205" by (simp add: s_def arg_def)
  have d: "num_digits 205 = [5, 0, 2]" by (simp add: num_digits_nat)
  have o: "conOut (SysPrintNum s) = conOut s @ [45, 50, 48, 53]"
    by (subst SysPrintNum_out) (simp_all add: a d digit_char_def)
  have "SysReadNum s = Inr (arg 4 s, s\<lparr>conIn := []\<rparr>)"
    by (rule PrintNum_ReadNum[where s = s and out = "[45, 50, 48, 53]" and n = 1]) (use a o in \<open>simp_all add: s_def\<close>)
  with a o show ?thesis by (intro exI[of _ s]) (simp add: s_def)
qed

section \<open>Strings in user memory\<close>

text \<open>The physical address of a byte of the user program, and the bytes of a string put at a virtual address.\<close>

definition phys :: "TranslationEntry list \<Rightarrow> 32 word \<Rightarrow> nat" where
  "phys pt v = (case vm_translate pt v 1 False of Inl _ \<Rightarrow> 0 | Inr pa \<Rightarrow> nat pa)"

fun put_string :: "TranslationEntry list \<Rightarrow> 32 word \<Rightarrow> bytes \<Rightarrow> (nat \<Rightarrow> 8 word) \<Rightarrow> nat \<Rightarrow> 8 word" where
  "put_string pt v [] mem = mem"
| "put_string pt v (c # cs) mem = put_string pt (v + 1) cs (mem(phys pt v := c))"

definition accessible :: "bool \<Rightarrow> TranslationEntry list \<Rightarrow> 32 word \<Rightarrow> nat \<Rightarrow> bool" where
  "accessible writing pt v n \<longleftrightarrow> (\<forall>j < n. \<exists>pa. vm_translate pt (v + of_nat j) 1 writing = Inr pa)"

text \<open>No two pages share a frame.\<close>

definition own_frames :: "TranslationEntry list \<Rightarrow> bool" where
  "own_frames pt \<longleftrightarrow> (\<forall>i < length pt. \<forall>j < length pt. i \<noteq> j \<longrightarrow> valid (pt ! i) \<longrightarrow> valid (pt ! j) \<longrightarrow>
     physicalPage (pt ! i) \<noteq> physicalPage (pt ! j))"

text \<open>A state that differs only in user memory and in the use and dirty bits of the page table.\<close>

definition touched :: "TranslationEntry list \<Rightarrow> (nat \<Rightarrow> 8 word) \<Rightarrow> sys \<Rightarrow> sys \<Rightarrow> bool" where
  "touched pt mem s s' \<longleftrightarrow> (\<exists>pt'. length pt' = length pt \<and> vm_translate pt' = vm_translate pt \<and>
     s' = s\<lparr>sysMachine := (sysMachine s)\<lparr>pageTable := Some pt', mainMemory := mem\<rparr>\<rparr>)"

lemma vm_translate_write: "vm_translate pt v 1 True = Inr pa \<Longrightarrow> vm_translate pt v 1 False = Inr pa"
  by (auto simp: vm_translate_def Let_def split: if_splits)

lemma accessible_write: "accessible True pt v n \<Longrightarrow> accessible w pt v n"
  unfolding accessible_def using vm_translate_write by (cases w) (simp_all, blast)

lemma touched_refl: "paged (sysMachine s) pt \<Longrightarrow> touched pt (mainMemory (sysMachine s)) s s"
  by (auto simp: touched_def paged_def intro!: exI[of _ pt])

lemma touched_trans: "touched pt mem s s' \<Longrightarrow> vm_translate pt' = vm_translate pt \<Longrightarrow> length pt' = length pt \<Longrightarrow>
    touched pt' mem' s' s'' \<Longrightarrow> touched pt mem' s s''"
  by (auto simp: touched_def)

lemma accessible_Suc:
  "accessible w pt v (Suc n) \<longleftrightarrow> (\<exists>pa. vm_translate pt v 1 w = Inr pa) \<and> accessible w pt (v + 1) n"
  by (simp add: accessible_def All_less_Suc2 add_ac)

lemma put_string_cong: "vm_translate pt' = vm_translate pt \<Longrightarrow> put_string pt' v cs mem = put_string pt v cs mem"
  by (induction cs arbitrary: v mem) (simp_all add: phys_def)

lemma touch_same: "vm_translate (touch_page w v pt) = vm_translate pt"
  by (simp add: fun_eq_iff)

text \<open>One byte through the page table.\<close>

lemma write_byte:
  assumes "paged m pt" "vm_translate pt v 1 True = Inr pa"
  shows "WriteMem m v 1 (scast (c :: 8 word)) = Inr (NoException,
     m\<lparr>pageTable := Some (touch_page True v pt), mainMemory := (mainMemory m)(phys pt v := c)\<rparr>)"
proof -
  have "ucast (scast c :: 32 word) = c" by (rule bit_word_eqI) (auto simp: bit_simps)
  then show ?thesis using assms by (simp add: WriteMem_paged write_bytes_def phys_def vm_translate_write)
qed

lemma read_byte:
  assumes "paged m pt" "vm_translate pt v 1 False = Inr pa"
  shows "ReadMem m v 1 = Inr (NoException, scast (mainMemory m (phys pt v)), m\<lparr>pageTable := Some (touch_page False v pt)\<rparr>)"
  using assms by (simp add: ReadMem_paged read_bytes_def phys_def)

lemma scast_byte_0: "(scast (c :: 8 word) :: 32 word) = 0 \<longleftrightarrow> c = 0"
proof
  have "ucast (scast c :: 32 word) = c" by (rule bit_word_eqI) (auto simp: bit_simps)
  moreover assume "(scast c :: 32 word) = 0"
  ultimately show "c = 0" by (metis ucast_0)
qed simp

text \<open>\<open>chunk n w\<close>: a copy of at most \<open>n\<close> bytes that stops behind a NUL moves exactly \<open>w\<close>.\<close>

definition chunk :: "nat \<Rightarrow> bytes \<Rightarrow> bool" where
  "chunk n w \<longleftrightarrow> 0 \<notin> set (butlast w) \<and> length w \<le> n \<and> (w \<noteq> [] \<and> last w = 0 \<or> length w = n)"

lemma chunk_Cons: "chunk (Suc n) (c # w) \<longleftrightarrow> (if c = 0 then w = [] else chunk n w \<and> (w = [] \<longrightarrow> n = 0))"
  by (cases w) (auto simp: chunk_def)

lemma copy_out_eq:
  assumes "paged (sysMachine s) pt" "accessible True pt (a + of_nat i) (length w)" "chunk n w"
    "i + length w \<le> length b" "take (length w) (drop i b) = map Some w"
  shows "\<exists>s'. copy_out a i n b s = ret_k (int (i + length w), s') \<and>
     touched pt (put_string pt (a + of_nat i) w (mainMemory (sysMachine s))) s s'"
  using assms
proof (induction w arbitrary: s pt i n)
  case Nil
  then have "n = 0" by (simp add: chunk_def)
  then show ?case using Nil(1) touched_refl by auto
next
  case (Cons c w)
  then obtain k where n: "n = Suc k" by (cases n) (auto simp: chunk_def)
  obtain pa where pa: "vm_translate pt (a + of_nat i) 1 True = Inr pa" and wr: "accessible True pt (a + of_nat i + 1) (length w)"
    using Cons(3) by (auto simp: accessible_Suc)
  have bi: "b ! i = Some c" "i < length b"
    using Cons(5,6) by (auto simp flip: Cons_nth_drop_Suc)
  have rest: "take (length w) (drop (Suc i) b) = map Some w"
    using Cons(6) bi(2) by (simp add: Cons_nth_drop_Suc[symmetric])
  let ?pt = "touch_page True (a + of_nat i) pt" and ?mem = "(mainMemory (sysMachine s))(phys pt (a + of_nat i) := c)"
  define s1 where "s1 = s\<lparr>sysMachine := (sysMachine s)\<lparr>pageTable := Some ?pt, mainMemory := ?mem\<rparr>\<rparr>"
  have step: "copy_out a i n b s = (if c = 0 then ret_k (int (Suc i), s1) else copy_out a (Suc i) k b s1)"
    unfolding n s1_def using write_byte[OF Cons(2) pa, of c] bi by (simp add: buf_at_def)
  have t: "touched pt ?mem s s1" unfolding touched_def s1_def by (intro exI[of _ ?pt]) (simp add: touch_same)
  have p: "paged (sysMachine s1) ?pt" and m: "mainMemory (sysMachine s1) = ?mem" using Cons(2) by (simp_all add: s1_def paged_def)
  show ?case
  proof (cases "c = 0")
    case True
    then have "w = []" using Cons(4) by (simp add: n chunk_Cons)
    then have e: "put_string pt (a + of_nat i) (c # w) (mainMemory (sysMachine s)) = ?mem" by (simp only: put_string.simps)
    have "copy_out a i n b s = ret_k (int (i + length (c # w)), s1)" using step True \<open>w = []\<close> by simp
    with t show ?thesis unfolding e by blast
  next
    case False
    have k: "chunk k w" using Cons(4) False by (simp add: n chunk_Cons)
    have acc: "accessible True ?pt (a + of_nat (Suc i)) (length w)" using wr by (simp add: accessible_def add_ac)
    have "Suc i + length w \<le> length b" using Cons(5) by simp
    from Cons(1)[OF p acc k this rest, unfolded m] obtain s' where "copy_out a (Suc i) k b s1 = ret_k (int (Suc i + length w), s')"
      "touched ?pt (put_string ?pt (a + of_nat (Suc i)) w ?mem) s1 s'"
      by blast
    moreover have "put_string ?pt (a + of_nat (Suc i)) w ?mem = put_string pt (a + of_nat i) (c # w) (mainMemory (sysMachine s))"
      by (simp add: put_string_cong[OF touch_same] add_ac)
    moreover have "copy_out a i n b s = copy_out a (Suc i) k b s1" using step False by simp
    ultimately show ?thesis
      using touched_trans[OF t touch_same] by (metis add_Suc_right add_Suc length_Cons touch_page_same(1))
  qed
qed

lemma copy_in_eq:
  assumes "paged (sysMachine s) pt" "accessible False pt (a + of_nat i) (length w)" "chunk n w"
    "i + length w \<le> length b" "\<forall>j < length w. mainMemory (sysMachine s) (phys pt (a + of_nat (i + j))) = w ! j"
  shows "\<exists>s'. copy_in a i n b s = ret_k (take i b @ map Some w @ drop (i + length w) b, s') \<and>
     touched pt (mainMemory (sysMachine s)) s s'"
  using assms
proof (induction w arbitrary: s pt i n b)
  case Nil
  then have "n = 0" by (simp add: chunk_def)
  then show ?case using Nil(1) touched_refl by auto
next
  case (Cons c w)
  then obtain k where n: "n = Suc k" by (cases n) (auto simp: chunk_def)
  obtain pa where pa: "vm_translate pt (a + of_nat i) 1 False = Inr pa" and rd: "accessible False pt (a + of_nat i + 1) (length w)"
    using Cons(3) by (auto simp: accessible_Suc)
  let ?pt = "touch_page False (a + of_nat i) pt" and ?b = "b[i := Some c]"
  let ?s = "s\<lparr>sysMachine := (sysMachine s)\<lparr>pageTable := Some ?pt\<rparr>\<rparr>"
  have c: "mainMemory (sysMachine s) (phys pt (a + of_nat i)) = c" using Cons(6) by force
  have uc: "ucast (scast c :: 32 word) = c" by (rule bit_word_eqI) (auto simp: bit_simps)
  have step: "copy_in a i n b s = (if c = 0 then ret_k (?b, ?s) else copy_in a (Suc i) k ?b ?s)"
    unfolding n using read_byte[OF Cons(2) pa] by (simp add: c uc Let_def scast_byte_0)
  have t: "touched pt (mainMemory (sysMachine s)) s ?s" unfolding touched_def by (intro exI[of _ ?pt]) (simp add: touch_same)
  have p: "paged (sysMachine ?s) ?pt" using Cons(2) by (simp add: paged_def)
  have b: "?b = take i b @ Some c # drop (Suc i) b" using Cons(5) by (simp add: upd_conv_take_nth_drop)
  show ?case
  proof (cases "c = 0")
    case True
    then have "w = []" using Cons(4) by (simp add: n chunk_Cons)
    then show ?thesis using step True t b by auto
  next
    case False
    have "chunk k w" using Cons(4) False by (simp add: n chunk_Cons)
    moreover have "accessible False ?pt (a + of_nat (Suc i)) (length w)" using rd by (simp add: accessible_def add_ac)
    moreover have "\<forall>j < length w. mainMemory (sysMachine ?s) (phys ?pt (a + of_nat (Suc i + j))) = w ! j"
    proof (intro allI impI)
      fix j assume "j < length w"
      then have "mainMemory (sysMachine s) (phys pt (a + of_nat (i + Suc j))) = w ! j" using Cons(6)[rule_format, of "Suc j"] by simp
      then show "mainMemory (sysMachine ?s) (phys ?pt (a + of_nat (Suc i + j))) = w ! j" by (simp add: phys_def)
    qed
    ultimately obtain s' where "copy_in a (Suc i) k ?b ?s = ret_k (take (Suc i) ?b @ map Some w @ drop (Suc i + length w) ?b, s')"
      "touched ?pt (mainMemory (sysMachine s)) ?s s'"
      using Cons(1)[OF p, of "Suc i" k ?b] Cons(5) by auto
    moreover have "take (Suc i) ?b @ map Some w @ drop (Suc i + length w) ?b = take i b @ map Some (c # w) @ drop (i + length (c # w)) b"
      using Cons(5) by (simp add: take_Suc_conv_app_nth)
    ultimately show ?thesis using step False touched_trans[OF t, of ?pt] by (auto simp: touch_same)
  qed
qed

lemma phys_inj:
  assumes "own_frames pt" "vm_translate pt v 1 False = Inr pa" "vm_translate pt v' 1 False = Inr pb" "phys pt v = phys pt v'"
  shows "v = v'"
proof -
  let ?i = "nat (uint v div 128)" and ?j = "nat (uint v' div 128)"
  note r = vm_translate_range[OF assms(2), simplified] and r' = vm_translate_range[OF assms(3), simplified]
  have "pa = pb" using assms(4) r(1) r'(1) by (simp add: phys_def assms(2,3))
  then have f: "physicalPage (pt ! ?i) = physicalPage (pt ! ?j)" and o: "uint v mod 128 = uint v' mod 128"
    using r(3,8) r'(3,8) by (simp_all add: word_uint_eq_iff)
  have "?i = ?j" using assms(1) f r(5,6) r'(5,6) unfolding own_frames_def by metis
  moreover have "0 \<le> uint v div 128" "0 \<le> uint v' div 128" by (simp_all add: pos_imp_zdiv_nonneg_iff)
  ultimately have "uint v div 128 = uint v' div 128" by linarith
  then have "uint v = uint v'" using o by (metis div_mult_mod_eq)
  then show ?thesis by (simp add: word_uint_eq_iff)
qed

lemma put_string_other: "\<forall>j < length cs. p \<noteq> phys pt (v + of_nat j) \<Longrightarrow> put_string pt v cs mem p = mem p"
  by (induction cs arbitrary: v mem) (simp_all add: All_less_Suc2 add_ac)

lemma put_string_at:
  assumes "own_frames pt" "accessible False pt v (length cs)" "length cs \<le> 2 ^ 32" "j < length cs"
  shows "put_string pt v cs mem (phys pt (v + of_nat j)) = cs ! j"
  using assms(2-4)
proof (induction cs arbitrary: v mem j)
  case (Cons c cs)
  show ?case
  proof (cases j)
    case 0
    have "phys pt v \<noteq> phys pt (v + 1 + of_nat i)" if i: "i < length cs" for i
    proof
      assume e: "phys pt v = phys pt (v + 1 + of_nat i)"
      have "\<exists>pa. vm_translate pt v 1 False = Inr pa" "accessible False pt (v + 1) (length cs)"
        using Cons(2) by (simp_all add: accessible_Suc)
      then obtain pa pb where "vm_translate pt v 1 False = Inr pa" "vm_translate pt (v + 1 + of_nat i) 1 False = Inr pb"
        using i unfolding accessible_def by blast
      from phys_inj[OF assms(1) this e] have "(of_nat (Suc i) :: 32 word) = 0" by simp
      moreover have "unat (of_nat (Suc i) :: 32 word) = Suc i" using i Cons(3) by (simp add: unat_of_nat del: of_nat_Suc)
      ultimately show False by simp
    qed
    then show ?thesis using 0 put_string_other[of cs "phys pt v" pt "v + 1"] by simp
  next
    case (Suc i)
    have "phys pt (v + of_nat j) = phys pt (v + 1 + of_nat i)" using Suc by (simp add: add_ac)
    then show ?thesis using Suc Cons by (simp add: accessible_Suc)
  qed
qed simp

lemma c_string_eq: "0 \<notin> set str \<Longrightarrow> c_string (map Some (str @ [0]) @ b) = Inr str"
  by (induction str) auto

lemma touched_facts:
  assumes "touched pt mem s s'" "paged (sysMachine s) pt"
  shows "\<exists>pt'. paged (sysMachine s') pt' \<and> vm_translate pt' = vm_translate pt" "mainMemory (sysMachine s') = mem"
    "registers (sysMachine s') = registers (sysMachine s)" "s'\<lparr>sysMachine := sysMachine s\<rparr> = s"
  using assms by (auto simp: touched_def paged_def)

text \<open>
  A string that the kernel writes into a buffer of the user program is read back unchanged.  \<open>System2User\<close> copies
  the string with its NUL and reports its length, \<open>User2System\<close> then gives a kernel buffer with the same
  string, and nothing but the buffer's bytes has changed in memory.
\<close>

theorem string_round_trip:
  assumes "paged (sysMachine s) pt" "own_frames pt" "accessible True pt a (length str + 1)" "0 \<notin> set str"
    "int (length str) < len" "int (length str) < limit" "limit < 2 ^ 31 - 1" "take (length str + 1) buf = map Some (str @ [0])"
  shows "\<exists>s1 buf' s2. System2User a len buf s = ret_k (int (length str) + 1, s1) \<and>
     User2System a limit s1 = ret_k (buf', s2) \<and> c_string buf' = Inr str \<and>
     (\<forall>p. (\<forall>j \<le> length str. p \<noteq> phys pt (a + of_nat j)) \<longrightarrow> mainMemory (sysMachine s2) p = mainMemory (sysMachine s) p) \<and>
     s2\<lparr>sysMachine := sysMachine s\<rparr> = s"
proof -
  let ?w = "str @ [0]"
  have len: "length ?w \<le> length buf" using arg_cong[OF assms(8), of length] by simp
  have chunk: "chunk n ?w" if "int (length str) < int n" for n using that assms(4) by (simp add: chunk_def)
  obtain s1 where out: "copy_out a 0 (nat len) buf s = ret_k (int (length ?w), s1)"
    and t1: "touched pt (put_string pt a ?w (mainMemory (sysMachine s))) s s1"
    using copy_out_eq[OF assms(1), of a 0 ?w "nat len" buf] assms(3,5,8) len chunk[of "nat len"] by auto
  obtain pt' where pt': "paged (sysMachine s1) pt'" "vm_translate pt' = vm_translate pt" using touched_facts(1)[OF t1 assms(1)] by auto
  have mem1: "mainMemory (sysMachine s1) = put_string pt a ?w (mainMemory (sysMachine s))" using touched_facts(2)[OF t1 assms(1)] .
  have acc: "accessible False pt a (length ?w)" using accessible_write assms(3) by simp
  have "\<forall>j < length ?w. mainMemory (sysMachine s1) (phys pt' (a + of_nat (0 + j))) = ?w ! j"
    using put_string_at[OF assms(2) acc] assms(6,7) by (simp add: mem1 phys_def pt'(2))
  moreover have "accessible False pt' (a + of_nat 0) (length ?w)" using acc by (simp add: accessible_def pt'(2))
  moreover have "length ?w \<le> nat (limit + 1)" using assms(6) by simp
  ultimately obtain s2 where inn: "copy_in a 0 (nat limit) (replicate (nat (limit + 1)) None) s1 =
      ret_k (map Some ?w @ drop (length ?w) (replicate (nat (limit + 1)) None), s2)"
    and t2: "touched pt' (mainMemory (sysMachine s1)) s1 s2"
    using copy_in_eq[OF pt'(1), of a 0 ?w "nat limit" "replicate (nat (limit + 1)) None"] assms(6) chunk[of "nat limit"] by auto
  have "System2User a len buf s = ret_k (int (length str) + 1, s1)"
    using out assms(5) by (simp add: System2User_def add.commute)
  moreover have "User2System a limit s1 = ret_k (map Some ?w @ drop (length ?w) (replicate (nat (limit + 1)) None), s2)"
    using inn assms(6,7) by (simp add: User2System_def new_buf_def)
  moreover have "mainMemory (sysMachine s2) p = mainMemory (sysMachine s) p" if "\<forall>j \<le> length str. p \<noteq> phys pt (a + of_nat j)" for p
    using that touched_facts(2)[OF t2 pt'(1)] put_string_other[of ?w p pt a] by (simp add: mem1 less_Suc_eq_le)
  moreover have "s2\<lparr>sysMachine := sysMachine s\<rparr> = s" using t1 t2 by (auto simp: touched_def)
  ultimately show ?thesis using c_string_eq[OF assms(4)] by blast
qed

end
