(* ===== verification/SyscallFiles.thy ===== *)
theory SyscallFiles
  imports Syscalls
begin

text \<open>
  What the system calls guarantee: a call returns to the instruction behind it and keeps the table of open files in order;
  what \<open>Read\<close> and \<open>Write\<close> do to the file and to the user's memory; and two ways in which a user program can
  make the kernel fail.
\<close>

section \<open>What a system call leaves alone\<close>

definition after_call :: "32 word \<Rightarrow> sys \<Rightarrow> sys" where
  "after_call r s = s\<lparr>sysMachine := (sysMachine s)\<lparr>registers := (registers (sysMachine s))
     (2 := r, PrevPCReg := arg PCReg s, PCReg := arg PCReg s + 4, NextPCReg := arg PCReg s + 8)\<rparr>\<rparr>"

lemma ModifyReturnPoint_eq: "ModifyReturnPoint m = Inr (m\<lparr>registers := (registers m)(PrevPCReg := registers m PCReg,
    PCReg := registers m PCReg + 4, NextPCReg := registers m PCReg + 8)\<rparr>)"
  by (simp add: ModifyReturnPoint_def ReadRegister_def WriteRegister_def reg_defs add.commute)

lemma no_result_eq: "no_result s = ret_k (Returned (after_call (arg 2 s) s))"
  unfolding no_result_def ModifyReturnPoint_eq after_call_def arg_def by simp

lemma with_result_eq: "with_result r s = ret_k (Returned (after_call r s))"
  by (simp add: with_result_def no_result_def ModifyReturnPoint_eq WriteRegister_def after_call_def arg_def reg_defs)

lemma ret_k_simps [simp]: "ret_k x = Inr (Some y) \<longleftrightarrow> x = y" "bind_k (ret_k x) f = f x" "ret_k x \<noteq> Inl e" "ret_k x \<noteq> Inr None"
  by (simp_all add: ret_k_def bind_k_def)

lemma bind_k_eq_Some: "bind_k m f = Inr (Some y) \<longleftrightarrow> (\<exists>x. m = Inr (Some x) \<and> f x = Inr (Some y))"
  by (auto simp: bind_k_def run_simps split: option.splits)

lemma lift_k_eq_Some: "lift_k m = Inr (Some y) \<longleftrightarrow> m = Inr y"
  by (auto simp: lift_k_def run_simps)

lemmas k_simps = bind_k_eq_Some lift_k_eq_Some run_simps

text \<open>The calls that end in a result, by the state they leave.\<close>

definition called :: "sys \<Rightarrow> sys \<Rightarrow> bool" where
  "called s s1 \<longleftrightarrow> s1 = s \<or> (\<exists>r. SysReadNum s = Inr (r, s1)) \<or> s1 = SysPrintNum s \<or> (\<exists>c. SysReadChar s = Inr (c, s1)) \<or>
     s1 = SysPrintChar s \<or> SysReadString s = Inr (Some s1) \<or> SysPrintString s = Inr (Some s1) \<or>
     (\<exists>r. SysCreateFile s = Inr (Some (r, s1)) \<or> SysOpen s = Inr (Some (r, s1)) \<or> SysClose s = Inr (r, s1) \<or>
        arg 2 s = SC_ReadFile \<and> SysRead s = Inr (Some (r, s1)) \<or> arg 2 s = SC_WriteFile \<and> SysWrite s = Inr (Some (r, s1)) \<or>
        SysSeek s = Inr (r, s1))"

lemma handler_called:
  assumes "ExceptionHandler rnd SyscallException s = Inr (Returned s')"
  shows "\<exists>s1 r. called s s1 \<and> s' = after_call r s1"
proof -
  have "syscall_handler rnd (arg 2 s) s = Inr (Some (Returned s'))"
    using assms by (auto simp: ExceptionHandler_def run_simps split: option.splits)
  then show ?thesis
    unfolding handler_defs called_def
    by (simp only: no_result_eq with_result_eq split: if_splits) (auto simp: k_simps no_result_eq with_result_eq)
qed

text \<open>Access to user memory leaves registers, files and console alone.\<close>

definition same_regs :: "sys \<Rightarrow> sys \<Rightarrow> bool" where
  "same_regs s s1 \<longleftrightarrow> registers (sysMachine s1) = registers (sysMachine s)"

definition only_memory :: "sys \<Rightarrow> sys \<Rightarrow> bool" where
  "only_memory s s1 \<longleftrightarrow> same_regs s s1 \<and> s1\<lparr>sysMachine := sysMachine s\<rparr> = s"

lemma translate_entry_regs:
  assumes "translate_entry m e put off sz w = Inr (NoException, pa, m1)" "\<And>e m1. put e = Inr m1 \<Longrightarrow> registers m1 = registers m"
  shows "registers m1 = registers m"
  using assms by (auto simp: translate_entry_def Let_def run_simps split: if_splits)

lemma Translate_regs: "Translate m v sz w = Inr (NoException, pa, m1) \<Longrightarrow> registers m1 = registers m"
  unfolding Translate_def
  by (auto simp: Let_def run_simps split: if_splits option.splits elim!: translate_entry_regs)

lemma ReadMem_regs: "ReadMem m v sz = Inr (NoException, x, m1) \<Longrightarrow> registers m1 = registers m"
  by (auto simp: ReadMem_def Let_def run_simps split: if_splits dest!: Translate_regs)

lemma WriteMem_regs: "WriteMem m v sz x = Inr (NoException, m1) \<Longrightarrow> registers m1 = registers m"
  by (auto simp: WriteMem_def Let_def run_simps split: if_splits dest!: Translate_regs)

lemma only_memory_refl [simp]: "only_memory s s"
  by (simp add: only_memory_def same_regs_def)

lemma only_memory_step:
  "registers m1 = registers (sysMachine s) \<Longrightarrow> only_memory (s\<lparr>sysMachine := m1\<rparr>) s2 \<Longrightarrow> only_memory s s2"
  unfolding only_memory_def same_regs_def by (metis (no_types, lifting) sys.select_convs(1) sys.surjective sys.update_convs(1))

lemma copy_in_only_memory: "copy_in a i n b s = Inr (Some (b1, s1)) \<Longrightarrow> only_memory s s1"
proof (induction n arbitrary: i b s)
  case (Suc n)
  then obtain x m1 where "ReadMem (sysMachine s) (a + word_of_int (int i)) 1 = Inr (NoException, x, m1)"
    and r: "s1 = s\<lparr>sysMachine := m1\<rparr> \<or> (\<exists>b. copy_in a (Suc i) n b (s\<lparr>sysMachine := m1\<rparr>) = Inr (Some (b1, s1)))"
    by (auto simp: run_simps Let_def split: if_splits)
  then show ?case using only_memory_step[OF ReadMem_regs] Suc.IH by (metis only_memory_refl)
qed simp

lemma copy_out_only_memory: "copy_out a i n b s = Inr (Some (k, s1)) \<Longrightarrow> only_memory s s1"
proof (induction n arbitrary: i s)
  case (Suc n)
  then obtain x m1 where "WriteMem (sysMachine s) (a + word_of_int (int i)) 1 x = Inr (NoException, m1)"
    and r: "s1 = s\<lparr>sysMachine := m1\<rparr> \<or> copy_out a (Suc i) n b (s\<lparr>sysMachine := m1\<rparr>) = Inr (Some (k, s1))"
    by (auto simp: run_simps Let_def split: if_splits)
  then show ?case using only_memory_step[OF WriteMem_regs] Suc.IH by (metis only_memory_refl)
qed simp

lemma User2System_only_memory: "User2System a n s = Inr (Some (b, s1)) \<Longrightarrow> only_memory s s1"
  by (auto simp: User2System_def run_simps dest: copy_in_only_memory)

lemma System2User_only_memory: "System2User a n b s = Inr (Some (k, s1)) \<Longrightarrow> only_memory s s1"
  by (auto simp: System2User_def dest: copy_out_only_memory split: if_splits)

lemma only_memory_keeps: "only_memory s s1 \<Longrightarrow> same_regs s s1 \<and> sysFs s1 = sysFs s \<and> sysHost s1 = sysHost s \<and> (\<forall>r. arg r s1 = arg r s)"
  unfolding only_memory_def same_regs_def arg_def by (metis sys.select_convs(4,5) sys.surjective sys.update_convs(1))

lemma read_console_regs: "read_console a n s = Inr (Some (k, s1)) \<Longrightarrow> same_regs s s1 \<and> sysFs s1 = sysFs s \<and> sysHost s1 = sysHost s"
proof -
  assume "read_console a n s = Inr (Some (k, s1))"
  then obtain b cs k' where "System2User a n b (s\<lparr>conIn := cs\<rparr>) = Inr (Some (k', s1))"
    by (auto simp: read_console_def k_simps)
  then have "only_memory (s\<lparr>conIn := cs\<rparr>) s1" by (rule System2User_only_memory)
  from only_memory_keeps[OF this] show ?thesis by (simp add: same_regs_def)
qed

lemma print_buf_keeps: "print_buf n b s = Inr (k, s1) \<Longrightarrow> same_regs s s1 \<and> sysFs s1 = sysFs s \<and> sysHost s1 = sysHost s"
proof (induction n b s arbitrary: k rule: print_buf.induct)
  case (4 n c b s)
  show ?case
  proof (cases "c = 0")
    case False
    then obtain k' where "print_buf n b (PutChar c s) = Inr (k', s1)" using 4(2) by (auto simp: run_simps)
    from 4(1)[OF False this] show ?thesis by (simp add: PutChar_def same_regs_def)
  qed (use 4 in \<open>simp add: same_regs_def\<close>)
qed (auto simp: same_regs_def)

lemmas keeps_dests = only_memory_keeps[OF User2System_only_memory] only_memory_keeps[OF System2User_only_memory]
  print_buf_keeps read_console_regs

lemma open_slot_cases:
  assumes "open_slot b type k s = Inr (Some (r, s1))"
  obtains ty where "set_at (ftype (sysFs s)) k type = Inr ty" "s1 = s\<lparr>sysFs := (sysFs s)\<lparr>ftype := ty\<rparr>\<rparr>"
  | ty name f h os where "set_at (ftype (sysFs s)) k type = Inr ty" "FS_Open name (sysHost s) = Inr (f, h)"
      "set_at (openFiles (sysFs s)) k f = Inr os" "s1 = s\<lparr>sysFs := (sysFs s)\<lparr>ftype := ty, openFiles := os\<rparr>, sysHost := h\<rparr>"
proof -
  obtain ty where ty: "set_at (ftype (sysFs s)) k type = Inr ty" using assms by (auto simp: open_slot_def run_simps)
  show thesis
  proof (cases "type = 0 \<or> type = 1")
    case True
    with assms ty obtain name f h os where "FS_Open name (sysHost s) = Inr (f, h)" "set_at (openFiles (sysFs s)) k f = Inr os"
      "s1 = s\<lparr>sysFs := (sysFs s)\<lparr>ftype := ty, openFiles := os\<rparr>, sysHost := h\<rparr>"
      by (fastforce simp: open_slot_def bind_run_eq_Inr_iff Let_def split: if_splits)
    with ty that(2) show thesis by blast
  next
    case False
    with assms ty that(1) show thesis by (simp add: open_slot_def)
  qed
qed

lemma SysOpen_cases:
  assumes "SysOpen s = Inr (Some (r, s1))"
  obtains b s0 where "User2System (arg 4 s) 256 s = Inr (Some (b, s0))" "s1 = s0"
  | b s0 k where "User2System (arg 4 s) 256 s = Inr (Some (b, s0))" "findFreeSlot (sysFs s0) = Inr k" "k \<noteq> -1"
      "open_slot b (sint (arg 5 s)) k s0 = Inr (Some (r, s1))"
  using assms unfolding SysOpen_def Let_def by (auto simp: bind_k_eq_Some bind_run_eq_Inr_iff split: if_splits)

lemma called_regs:
  assumes "called s s1"
  shows "same_regs s s1"
proof -
  have num: "same_regs s s1" if "SysReadNum s = Inr (r, s1)" for r
    using that by (auto simp: SysReadNum_def Let_def run_simps same_regs_def split: if_splits)
  have char: "same_regs s s1" if "SysReadChar s = Inr (c, s1)" for c
    using that by (auto simp: SysReadChar_def run_simps same_regs_def)
  have str: "same_regs s s1" if "SysReadString s = Inr (Some s1)"
    using that by (auto simp: SysReadString_def k_simps dest: keeps_dests)
  have pstr: "same_regs s s1" if "SysPrintString s = Inr (Some s1)"
    using that by (auto simp: SysPrintString_def k_simps same_regs_def dest!: keeps_dests)
  have create: "same_regs s s1" if "SysCreateFile s = Inr (Some (r, s1))" for r
    using that by (auto simp: SysCreateFile_def k_simps same_regs_def dest!: keeps_dests split: if_splits)
  have op: "same_regs s s1" if "SysOpen s = Inr (Some (r, s1))" for r
    using that by (rule SysOpen_cases) (auto simp: same_regs_def elim!: open_slot_cases dest!: keeps_dests)
  have close: "same_regs s s1" if "SysClose s = Inr (r, s1)" for r
    using that by (auto simp: SysClose_def Let_def run_simps same_regs_def split: if_splits option.splits)
  have rd: "same_regs s s1" if "SysRead s = Inr (Some (r, s1))" for r
    using that by (auto simp: SysRead_def Let_def k_simps same_regs_def dest!: keeps_dests split: if_splits option.splits)
  have wr: "same_regs s s1" if "SysWrite s = Inr (Some (r, s1))" for r
    using that by (auto simp: SysWrite_def Let_def k_simps same_regs_def dest!: keeps_dests split: if_splits option.splits)
  have seek: "same_regs s s1" if "SysSeek s = Inr (r, s1)" for r
    using that by (auto simp: SysSeek_def Let_def run_simps same_regs_def split: if_splits option.splits)
  have triv: "same_regs s s" "same_regs s (SysPrintNum s)" "same_regs s (SysPrintChar s)"
    by (simp_all add: same_regs_def SysPrintNum_def SysPrintChar_def PutChar_def Let_def)
  show ?thesis
    using assms unfolding called_def by (elim disjE exE conjE) (use triv num char str pstr create op close rd wr seek in blast)+
qed



section \<open>The table of open files\<close>

text \<open>Every used slot has a descriptor of its own that is open on some file, at a position inside the file's range.\<close>

definition files_ok :: "FileSystem \<Rightarrow> host \<Rightarrow> bool" where
  [inv_defs]: "files_ok fs h \<longleftrightarrow> fs_ok fs h \<and> 0 \<le> nextFd h \<and> (\<forall>fd. fds h fd \<noteq> None \<longrightarrow> fd < nextFd h) \<and>
     (\<forall>i < 10. \<forall>j < 10. \<forall>x y. openFiles fs ! i = Some x \<longrightarrow> openFiles fs ! j = Some y \<longrightarrow> fileFd x = fileFd y \<longrightarrow> i = j)"

lemma files_ok_slot:
  assumes "files_ok fs h" "i < 10" "openFiles fs ! i = Some f"
  shows "(\<exists>n. refers h f n) \<and> 0 \<le> currentOffset f"
  using assms nth_mem[of i "openFiles fs"] by (force simp: files_ok_def fs_ok_def)

lemma files_okI:
  assumes "length (openFiles fs) = 10" "length (ftype fs) = 10" "0 \<le> nextFd h" "\<forall>fd. fds h fd \<noteq> None \<longrightarrow> fd < nextFd h"
    "\<And>i f. i < 10 \<Longrightarrow> openFiles fs ! i = Some f \<Longrightarrow> (\<exists>n. refers h f n) \<and> 0 \<le> currentOffset f"
    "\<And>i j x y. i < 10 \<Longrightarrow> j < 10 \<Longrightarrow> openFiles fs ! i = Some x \<Longrightarrow> openFiles fs ! j = Some y \<Longrightarrow> fileFd x = fileFd y \<Longrightarrow> i = j"
  shows "files_ok fs h"
  unfolding files_ok_def fs_ok_def using assms by (auto simp: in_set_conv_nth)

lemma files_ok_lengths: "files_ok fs h \<Longrightarrow> length (openFiles fs) = 10 \<and> length (ftype fs) = 10"
  by (simp add: files_ok_def fs_ok_def)

lemma files_ok_fd: "files_ok fs h \<Longrightarrow> fds h fd \<noteq> None \<Longrightarrow> fd < nextFd h"
  unfolding files_ok_def by blast

text \<open>Moving a descriptor, storing back a moved file, changing a type.\<close>

lemma files_ok_move:
  assumes "files_ok fs h" "fds h fd = Some (n, q)" "0 \<le> p" "fds h' = (fds h)(fd \<mapsto> (n, p))" "nextFd h' = nextFd h"
  shows "files_ok fs h'"
proof (rule files_okI)
  show "(\<exists>n. refers h' f n) \<and> 0 \<le> currentOffset f" if "i < 10" "openFiles fs ! i = Some f" for i f
    using files_ok_slot[OF assms(1) that] assms(2-4) by (auto simp: refers_def)
qed (use assms in \<open>auto simp: files_ok_def fs_ok_def split: if_splits\<close>)

lemma files_ok_store:
  assumes "files_ok fs h" "i < 10" "openFiles fs ! i = Some f" "fileFd f' = fileFd f" "0 \<le> currentOffset f'"
  shows "files_ok (fs\<lparr>openFiles := (openFiles fs)[i := Some f']\<rparr>) h"
proof (rule files_okI)
  let ?fs = "fs\<lparr>openFiles := (openFiles fs)[i := Some f']\<rparr>"
  have l: "length (openFiles fs) = 10" using files_ok_lengths[OF assms(1)] by simp
  show "(\<exists>n. refers h g n) \<and> 0 \<le> currentOffset g" if "j < 10" "openFiles ?fs ! j = Some g" for j g
    using that files_ok_slot[OF assms(1), of j g] files_ok_slot[OF assms(1-3)] assms(2,4,5) l
    by (cases "j = i") (auto simp: refers_def)
  have old: "\<exists>x'. openFiles fs ! j = Some x' \<and> fileFd x' = fileFd x" if "j < 10" "openFiles ?fs ! j = Some x" for j x
    using that assms(2-4) l by (cases "j = i") auto
  show "j = k" if "j < 10" "k < 10" "openFiles ?fs ! j = Some x" "openFiles ?fs ! k = Some y" "fileFd x = fileFd y" for j k x y
    using old[OF that(1,3)] old[OF that(2,4)] that assms(1) unfolding files_ok_def by metis
qed (use assms files_ok_lengths in \<open>auto simp: files_ok_def\<close>)

lemma files_ok_ftype: "files_ok fs h \<Longrightarrow> length ty = 10 \<Longrightarrow> files_ok (fs\<lparr>ftype := ty\<rparr>) h"
  by (simp add: files_ok_def fs_ok_def)

lemma files_ok_open:
  assumes "files_ok fs h" "i < 10" "openFiles fs ! i = None" "FS_Open name h = Inr (f, h')"
  shows "files_ok (fs\<lparr>openFiles := (openFiles fs)[i := f]\<rparr>) h'"
proof (cases "dir h name")
  case None
  then have e: "f = None" "h' = h" using assms(4) by (auto simp: FS_Open_def OpenForReadWrite_def host_open_def)
  have "(openFiles fs)[i := None] = openFiles fs" using assms(3) by (metis list_update_id)
  then show ?thesis using e assms(1) by simp
next
  case (Some n)
  have n: "0 \<le> nextFd h" and l: "length (openFiles fs) = 10" using assms(1) by (simp_all add: files_ok_def fs_ok_def)
  have f: "f = Some (OpenFile_new (nextFd h))" and h': "h' = h\<lparr>fds := (fds h)(nextFd h \<mapsto> (n, 0)), nextFd := nextFd h + 1\<rparr>"
    using assms(4) FS_Open_eq[OF Some n] by auto
  let ?fs = "fs\<lparr>openFiles := (openFiles fs)[i := f]\<rparr>"
  have below: "fileFd x < nextFd h" if "j < 10" "openFiles fs ! j = Some x" for j x
    using files_ok_slot[OF assms(1) that] assms(1) by (auto simp: refers_def files_ok_def)
  have new: "(j = i \<and> x = OpenFile_new (nextFd h)) \<or> (j \<noteq> i \<and> openFiles fs ! j = Some x)" if "openFiles ?fs ! j = Some x" "j < 10" for j x
    using that f l assms(2) by (auto simp: nth_list_update split: if_splits)
  show ?thesis
  proof (rule files_okI)
    show "(\<exists>n. refers h' x n) \<and> 0 \<le> currentOffset x" if "j < 10" "openFiles ?fs ! j = Some x" for j x
      using new[OF that(2,1)] files_ok_slot[OF assms(1) that(1)] by (auto simp: h' refers_def OpenFile_new_def)
    show "j = k" if "j < 10" "k < 10" "openFiles ?fs ! j = Some x" "openFiles ?fs ! k = Some y" "fileFd x = fileFd y" for j k x y
    proof -
      have "openFiles fs ! j = Some x \<Longrightarrow> openFiles fs ! k = Some y \<Longrightarrow> j = k" using that assms(1) unfolding files_ok_def by metis
      then show ?thesis using new[OF that(3,1)] new[OF that(4,2)] below that(1,2,5) by (force simp: OpenFile_new_def)
    qed
    show "\<forall>fd. fds h' fd \<noteq> None \<longrightarrow> fd < nextFd h'"
    proof (intro allI impI)
      fix fd assume "fds h' fd \<noteq> None"
      then have "fd = nextFd h \<or> fds h fd \<noteq> None" by (auto simp: h' split: if_splits)
      then show "fd < nextFd h'" using files_ok_fd[OF assms(1), of fd] by (auto simp: h')
    qed
  qed (use assms(1) in \<open>auto simp: files_ok_def fs_ok_def h'\<close>)
qed

lemma files_ok_close:
  assumes "files_ok fs h" "i < 10" "openFiles fs ! i = Some f" "OpenFile_delete f h = Inr h'"
  shows "files_ok (fs\<lparr>openFiles := (openFiles fs)[i := None]\<rparr>) h'"
proof -
  let ?fs = "fs\<lparr>openFiles := (openFiles fs)[i := None]\<rparr>"
  obtain n where "refers h f n" using files_ok_slot[OF assms(1-3)] by blast
  then have h': "h' = h\<lparr>fds := (fds h)(fileFd f := None)\<rparr>" using OpenFile_delete_eq assms(4) by force
  have l: "length (openFiles fs) = 10" using files_ok_lengths[OF assms(1)] by simp
  have other: "j \<noteq> i \<and> openFiles fs ! j = Some x" if "j < 10" "openFiles ?fs ! j = Some x" for j x
    using that assms(2) l by (auto simp: nth_list_update split: if_splits)
  show ?thesis
  proof (rule files_okI)
    show "(\<exists>n. refers h' x n) \<and> 0 \<le> currentOffset x" if j: "j < 10" "openFiles ?fs ! j = Some x" for j x
    proof -
      have o: "j \<noteq> i" "openFiles fs ! j = Some x" using other[OF j] by auto
      then have "fileFd x \<noteq> fileFd f" using assms(1-3) j(1) unfolding files_ok_def by metis
      then show ?thesis using files_ok_slot[OF assms(1) j(1) o(2)] by (auto simp: h' refers_def)
    qed
    show "j = k" if "j < 10" "k < 10" "openFiles ?fs ! j = Some x" "openFiles ?fs ! k = Some y" "fileFd x = fileFd y" for j k x y
      using other[OF that(1,3)] other[OF that(2,4)] that assms(1) unfolding files_ok_def by metis
  qed (use assms(1) in \<open>auto simp: files_ok_def fs_ok_def h'\<close>)
qed

lemma files_ok_create:
  assumes "files_ok fs h" "FS_Create name h = Inr (c, h')"
  shows "files_ok fs h'"
proof -
  have n: "0 \<le> nextFd h" "fds h (nextFd h) = None"
    using assms(1) files_ok_fd[OF assms(1), of "nextFd h"] by (simp add: files_ok_def, blast)
  have d: "fds h' = fds h" "nextFd h' = nextFd h + 1"
    using assms(2) n
    by (auto simp: FS_Create_def OpenForWrite_def host_creat_def new_fd_def Close_def host_close_def Let_def run_simps fun_upd_idem
        split: option.splits if_splits)
  then have "refers h' = refers h" by (simp add: refers_def fun_eq_iff)
  moreover have "fd < nextFd h'" if "fds h' fd \<noteq> None" for fd using files_ok_fd[OF assms(1), of fd] that d by simp
  ultimately show ?thesis using assms(1) d(2) unfolding files_ok_def fs_ok_def by simp
qed

text \<open>The operations of an open file.\<close>

lemma OpenFile_Length_eq:
  assumes "refers h f n"
  shows "OpenFile_Length f h = Inr (int (length (inode h n)), h\<lparr>fds := (fds h)(fileFd f \<mapsto> (n, int (length (inode h n))))\<rparr>)"
  using assms by (auto simp: refers_def OpenFile_Length_def Lseek_def host_lseek_def Tell_def Let_def)

lemma OpenFile_Seek_eq:
  assumes "refers h f n" "0 \<le> pos"
  shows "OpenFile_Seek f pos h = Inr (pos, f\<lparr>currentOffset := pos\<rparr>, h\<lparr>fds := (fds h)(fileFd f \<mapsto> (n, pos))\<rparr>)"
  using assms by (auto simp: refers_def OpenFile_Seek_def Lseek_def host_lseek_def Tell_def Let_def)

lemma buf_bytes_length: "buf_bytes n b = Inr bs \<Longrightarrow> length bs = n"
  by (induction n b arbitrary: bs rule: buf_bytes.induct) (auto simp: run_simps)

definition sys_files_ok :: "sys \<Rightarrow> bool" where
  "sys_files_ok s \<longleftrightarrow> files_ok (sysFs s) (sysHost s)"

lemma refers_fds: "refers h f n \<Longrightarrow> \<exists>q. fds h (fileFd f) = Some (n, q)"
  by (auto simp: refers_def)

lemma files_ok_moved_store:
  assumes "files_ok fs h" "i < 10" "openFiles fs ! i = Some f" "refers h f n" "0 \<le> p"
    "fds h' = (fds h)(fileFd f \<mapsto> (n, p))" "nextFd h' = nextFd h" "fileFd f' = fileFd f" "0 \<le> currentOffset f'"
  shows "files_ok (fs\<lparr>openFiles := (openFiles fs)[i := Some f']\<rparr>) h'"
  using files_ok_store[OF files_ok_move[OF assms(1)], of "fileFd f" n _ p h' i f f'] refers_fds[OF assms(4)] assms(2-9) by metis

lemma SysOpen_files:
  assumes "sys_files_ok s" "SysOpen s = Inr (Some (r, s1))"
  shows "sys_files_ok s1"
  using assms(2)
proof (rule SysOpen_cases)
  fix b s0 assume "User2System (arg 4 s) 256 s = Inr (Some (b, s0))" "s1 = s0"
  then show ?thesis using assms(1) by (auto simp: sys_files_ok_def dest: keeps_dests)
next
  fix b s0 k
  assume u: "User2System (arg 4 s) 256 s = Inr (Some (b, s0))" and k: "findFreeSlot (sysFs s0) = Inr k" "k \<noteq> -1"
    and o: "open_slot b (sint (arg 5 s)) k s0 = Inr (Some (r, s1))"
  have ok: "files_ok (sysFs s0) (sysHost s0)" using assms(1) u by (auto simp: sys_files_ok_def dest: keeps_dests)
  obtain i where i: "i < 10" "k = int i" "openFiles (sysFs s0) ! i = None"
    using findFreeSlot_cases[of "sysFs s0" "sysHost s0"] ok k by (auto simp: files_ok_def)
  from o show ?thesis
  proof (rule open_slot_cases)
    fix ty assume "set_at (ftype (sysFs s0)) k (sint (arg 5 s)) = Inr ty" "s1 = s0\<lparr>sysFs := (sysFs s0)\<lparr>ftype := ty\<rparr>\<rparr>"
    then show ?thesis using ok files_ok_ftype files_ok_lengths[OF ok] by (auto simp: sys_files_ok_def set_at_eq_Inr_iff)
  next
    fix ty name f h os
    assume *: "set_at (ftype (sysFs s0)) k (sint (arg 5 s)) = Inr ty" "FS_Open name (sysHost s0) = Inr (f, h)"
      "set_at (openFiles (sysFs s0)) k f = Inr os"
      "s1 = s0\<lparr>sysFs := (sysFs s0)\<lparr>ftype := ty, openFiles := os\<rparr>, sysHost := h\<rparr>"
    have ty: "length ty = 10" and os: "os = (openFiles (sysFs s0))[i := f]"
      using *(1,3) files_ok_lengths[OF ok] i(2) by (auto simp: set_at_eq_Inr_iff)
    show ?thesis using files_ok_ftype[OF files_ok_open[OF ok i(1,3) *(2)] ty] *(4) os by (simp add: sys_files_ok_def files_ok_def fs_ok_def)
  qed
qed

lemma SysClose_files:
  assumes "sys_files_ok s" "SysClose s = Inr (r, s1)"
  shows "sys_files_ok s1"
proof -
  have ok: "files_ok (sysFs s) (sysHost s)" using assms(1) by (simp add: sys_files_ok_def)
  show ?thesis
    using assms files_ok_lengths[OF ok] files_ok_close[OF ok, of "nat (sint (arg 4 s))"]
    by (auto simp: SysClose_def Let_def run_simps sys_files_ok_def split: if_splits option.splits)
qed

lemma SysRead_files:
  assumes "sys_files_ok s" "0 \<le> sint (arg 5 s)" "SysRead s = Inr (Some (r, s1))"
  shows "sys_files_ok s1"
proof -
  let ?fs = "sysFs s" and ?h = "sysHost s" and ?i = "nat (sint (arg 6 s))"
  have ok: "files_ok ?fs ?h" using assms(1) by (simp add: sys_files_ok_def)
  from assms(3) consider "sysFs s1 = ?fs" "sysHost s1 = ?h"
    | f sz bs f' h' os where "0 \<le> sint (arg 6 s)" "sint (arg 6 s) \<le> 9" "get_at (openFiles ?fs) (sint (arg 6 s)) = Inr (Some f)"
      "OpenFile_Read f (sint (arg 5 s)) ?h = Inr (sz, bs, f', h')" "set_at (openFiles ?fs) (sint (arg 6 s)) (Some f') = Inr os"
      "sysFs s1 = ?fs\<lparr>openFiles := os\<rparr>" "sysHost s1 = h'"
    by (fastforce simp: SysRead_def Let_def bind_k_eq_Some bind_run_eq_Inr_iff split: if_splits option.splits dest: keeps_dests)
  then show ?thesis
  proof cases
    case 1
    then show ?thesis using ok by (simp add: sys_files_ok_def)
  next
    case (2 f sz bs f' h' os)
    have i: "?i < 10" "openFiles ?fs ! ?i = Some f" using 2(1-3) files_ok_lengths[OF ok] by (auto simp: get_at_eq_Inr_iff)
    have os: "os = (openFiles ?fs)[?i := Some f']" using 2(5) by (auto simp: set_at_eq_Inr_iff)
    obtain n where n: "refers ?h f n" "0 \<le> currentOffset f" using files_ok_slot[OF ok i] by blast
    obtain p where "h' = ?h\<lparr>fds := (fds ?h)(fileFd f \<mapsto> (n, p))\<rparr>" "0 \<le> p" "fileFd f' = fileFd f" "0 \<le> currentOffset f'"
      using ReadAt_eq[OF n(1) assms(2) n(2)] 2(4) n(2) by (auto simp: OpenFile_Read_def)
    then show ?thesis using files_ok_moved_store[OF ok i n(1), of p h' f'] 2(6,7) os by (simp add: sys_files_ok_def)
  qed
qed

lemma SysWrite_files:
  assumes "sys_files_ok s" "0 \<le> sint (arg 5 s)" "SysWrite s = Inr (Some (r, s1))"
  shows "sys_files_ok s1"
proof -
  let ?fs = "sysFs s" and ?h = "sysHost s" and ?i = "nat (sint (arg 6 s))"
  have ok: "files_ok ?fs ?h" using assms(1) by (simp add: sys_files_ok_def)
  from assms(3) consider "sysFs s1 = ?fs" "sysHost s1 = ?h"
    | f b bs sz f' h' os where "0 \<le> sint (arg 6 s)" "sint (arg 6 s) \<le> 9" "get_at (openFiles ?fs) (sint (arg 6 s)) = Inr (Some f)"
      "buf_bytes (nat (sint (arg 5 s))) b = Inr bs"
      "OpenFile_Write f bs (sint (arg 5 s)) ?h = Inr (sz, f', h')" "set_at (openFiles ?fs) (sint (arg 6 s)) (Some f') = Inr os"
      "sysFs s1 = ?fs\<lparr>openFiles := os\<rparr>" "sysHost s1 = h'"
    by (fastforce simp: SysWrite_def Let_def bind_k_eq_Some lift_k_eq_Some bind_run_eq_Inr_iff split: if_splits option.splits dest: keeps_dests)
  then show ?thesis
  proof cases
    case 1
    then show ?thesis using ok by (simp add: sys_files_ok_def)
  next
    case (2 f b bs sz f' h' os)
    have i: "?i < 10" "openFiles ?fs ! ?i = Some f" using 2(1-3) files_ok_lengths[OF ok] by (auto simp: get_at_eq_Inr_iff)
    have os: "os = (openFiles ?fs)[?i := Some f']" using 2(6) by (auto simp: set_at_eq_Inr_iff)
    have l: "sint (arg 5 s) \<le> int (length bs)" using buf_bytes_length[OF 2(4)] by simp
    obtain n where n: "refers ?h f n" "0 \<le> currentOffset f" using files_ok_slot[OF ok i] by blast
    obtain p where "fds h' = (fds ?h)(fileFd f \<mapsto> (n, p))" "nextFd h' = nextFd ?h" "0 \<le> p" "fileFd f' = fileFd f" "0 \<le> currentOffset f'"
      using WriteAt_eq[OF n(1) assms(2) l n(2)] 2(5) n(2) assms(2) by (auto simp: OpenFile_Write_def)
    then show ?thesis using files_ok_moved_store[OF ok i n(1), of p h' f'] 2(7,8) os by (simp add: sys_files_ok_def)
  qed
qed

lemma SysSeek_files:
  assumes "sys_files_ok s" "SysSeek s = Inr (r, s1)"
  shows "sys_files_ok s1"
proof -
  let ?fs = "sysFs s" and ?h = "sysHost s" and ?i = "nat (sint (arg 5 s))"
  have ok: "files_ok ?fs ?h" using assms(1) by (simp add: sys_files_ok_def)
  show ?thesis
  proof (cases "0 \<le> sint (arg 5 s) \<and> sint (arg 5 s) < 10 \<and> openFiles ?fs ! ?i \<noteq> None \<and> sint (arg 5 s) \<noteq> 0 \<and> sint (arg 5 s) \<noteq> 1")
    case False
    then have "s1 = s" using assms(2) files_ok_lengths[OF ok]
      by (auto simp: SysSeek_def Let_def get_at_def split: if_splits option.splits)
    then show ?thesis using assms(1) by simp
  next
    case True
    then obtain f where f: "openFiles ?fs ! ?i = Some f" and i: "?i < 10" by auto
    obtain n where n: "refers ?h f n" using files_ok_slot[OF ok i f] by blast
    define len where "len = int (length (inode ?h n))"
    define h1 where "h1 = ?h\<lparr>fds := (fds ?h)(fileFd f \<mapsto> (n, len))\<rparr>"
    define pos where "pos = (if sint (arg 4 s) = -1 then len else sint (arg 4 s))"
    have n1: "refers h1 f n" "inode h1 = inode ?h" and len: "0 \<le> len" by (simp_all add: refers_def h1_def len_def)
    have l: "OpenFile_Length f ?h = Inr (len, h1)" "OpenFile_Length f h1 = Inr (len, h1)"
      using OpenFile_Length_eq[OF n] OpenFile_Length_eq[OF n1(1)] by (simp_all add: n1(2) len_def[symmetric] h1_def)
    have g: "get_at (openFiles ?fs) (sint (arg 5 s)) = Inr (Some f)" "length (openFiles ?fs) = 10"
      using f True files_ok_lengths[OF ok] by (simp_all add: get_at_def)
    have "s1 = s\<lparr>sysHost := h1\<rparr> \<or> (0 \<le> pos \<and> s1 = s\<lparr>sysFs := ?fs\<lparr>openFiles := (openFiles ?fs)[?i := Some (f\<lparr>currentOffset := pos\<rparr>)]\<rparr>,
       sysHost := h1\<lparr>fds := (fds h1)(fileFd f \<mapsto> (n, pos))\<rparr>\<rparr>)"
      using assms(2) True OpenFile_Seek_eq[OF n1(1), of pos] g
      by (auto simp: SysSeek_def Let_def l pos_def set_at_def split: if_splits)
    moreover have "files_ok ?fs h1" using files_ok_move[OF ok, of "fileFd f" n _ len h1] refers_fds[OF n] len by (auto simp: h1_def)
    ultimately show ?thesis
      using files_ok_moved_store[of ?fs h1 ?i f n pos _ "f\<lparr>currentOffset := pos\<rparr>"] n1(1) i f by (auto simp: sys_files_ok_def)
  qed
qed

lemma SysCreateFile_files:
  assumes "sys_files_ok s" "SysCreateFile s = Inr (Some (r, s1))"
  shows "sys_files_ok s1"
proof -
  obtain b s0 where u: "User2System (arg 4 s) MAX_LENGTH s = Inr (Some (b, s0))"
    and r: "s1 = s0 \<or> (\<exists>name c h. FS_Create name (sysHost s0) = Inr (c, h) \<and> s1 = s0\<lparr>sysHost := h\<rparr>)"
    using assms(2) by (fastforce simp: SysCreateFile_def bind_k_eq_Some bind_run_eq_Inr_iff split: if_splits)
  have "files_ok (sysFs s0) (sysHost s0)" using assms(1) keeps_dests(1)[OF u] by (simp add: sys_files_ok_def)
  then show ?thesis using r files_ok_create by (auto simp: sys_files_ok_def)
qed


text \<open>A system state with the console only, made by the constructor of the file system.\<close>

definition boot_sys :: "(nat \<Rightarrow> 32 word) \<Rightarrow> FileSystem \<Rightarrow> host \<Rightarrow> sys" where
  "boot_sys r fs h = \<lparr>sysMachine = (one_page_machine 5)\<lparr>registers := r\<rparr>, conIn = [], conOut = [], sysFs = fs, sysHost = h,
     curPid = 0, clockTime = 0, sysTicks = 0\<rparr>"

lemma FileSystem_new_ok: "\<exists>fs h. FileSystem_new host_new = Inr (fs, h) \<and> files_ok fs h \<and>
    openFiles fs ! 0 \<noteq> None \<and> openFiles fs ! 1 \<noteq> None \<and> ftype fs = [0, 1, 0, 0, 0, 0, 0, 0, 0, 0]"
proof -
  have ne: "cstr ''stdin'' \<noteq> cstr ''stdout''" by code_simp
  define h1 where "h1 = \<lparr>dir = [cstr ''stdin'' \<mapsto> 0], inode = (\<lambda>_. []), fds = Map.empty, nextInode = 1, nextFd = 4\<rparr>"
  define h2 where "h2 = h1\<lparr>dir := (dir h1)(cstr ''stdout'' \<mapsto> 1), nextInode := 2, nextFd := 5\<rparr>"
  define h3 where "h3 = h2\<lparr>fds := [5 \<mapsto> (0, 0)], nextFd := 6\<rparr>"
  define h4 where "h4 = h3\<lparr>fds := [5 \<mapsto> (0, 0), 6 \<mapsto> (1, 0)], nextFd := 7\<rparr>"
  have c0: "FS_Create (cstr ''stdin'') host_new = Inr (True, h1)"
    by (auto simp: FS_Create_def OpenForWrite_def host_creat_def host_new_def new_fd_def Close_def host_close_def fun_upd_def h1_def)
  have c1: "FS_Create (cstr ''stdout'') h1 = Inr (True, h2)"
    using ne by (auto simp: FS_Create_def OpenForWrite_def host_creat_def new_fd_def Close_def host_close_def fun_upd_def h1_def h2_def)
  have o0: "FS_Open (cstr ''stdin'') h2 = Inr (Some (OpenFile_new 5), h3)"
    using ne by (simp add: FS_Open_eq[where i = 0] h1_def h2_def h3_def)
  have o1: "FS_Open (cstr ''stdout'') h3 = Inr (Some (OpenFile_new 6), h4)"
    by (simp add: FS_Open_eq[where i = 1] h1_def h2_def h3_def h4_def)
  define os where "os = Some (OpenFile_new 5) # Some (OpenFile_new 6) # replicate 8 None"
  have new: "FileSystem_new host_new = Inr (\<lparr>openFiles = os, ftype = [0, 1, 0, 0, 0, 0, 0, 0, 0, 0], fsIdx = 2\<rparr>, h4)"
    by (simp add: FileSystem_new_def c0 c1 o0 o1 set_at_def numeral_eq_Suc os_def)
  have slots: "os ! i = Some f \<Longrightarrow> i = 0 \<and> f = OpenFile_new 5 \<or> i = 1 \<and> f = OpenFile_new 6" if "i < 10" for i f
    using that by (cases "i < 2") (auto simp: os_def nth_Cons' less_2_cases_iff split: if_splits)
  have "files_ok \<lparr>openFiles = os, ftype = [0, 1, 0, 0, 0, 0, 0, 0, 0, 0], fsIdx = 2\<rparr> h4"
  proof (rule files_okI)
    show "(\<exists>n. refers h4 f n) \<and> 0 \<le> currentOffset f" if "i < 10" "openFiles \<lparr>openFiles = os, ftype = [0, 1, 0, 0, 0, 0, 0, 0, 0, 0], fsIdx = 2\<rparr> ! i = Some f" for i f
      using slots[OF that(1), of f] that(2) by (auto simp: refers_def OpenFile_new_def h4_def)
    show "i = j" if "i < 10" "j < 10" "openFiles \<lparr>openFiles = os, ftype = [0, 1, 0, 0, 0, 0, 0, 0, 0, 0], fsIdx = 2\<rparr> ! i = Some x"
      "openFiles \<lparr>openFiles = os, ftype = [0, 1, 0, 0, 0, 0, 0, 0, 0, 0], fsIdx = 2\<rparr> ! j = Some y" "fileFd x = fileFd y" for i j x y
      using slots[OF that(1), of x] slots[OF that(2), of y] that(3-5) by (auto simp: OpenFile_new_def)
  qed (auto simp: os_def h4_def split: if_splits)
  with new show ?thesis by (intro exI[of _ "\<lparr>openFiles = os, ftype = [0, 1, 0, 0, 0, 0, 0, 0, 0, 0], fsIdx = 2\<rparr>"] exI[of _ h4]) (simp add: os_def)
qed


section \<open>Reading and writing files\<close>

definition upto_nul :: "bytes \<Rightarrow> bytes" where
  "upto_nul bs = takeWhile (\<lambda>c. c \<noteq> 0) bs @ (if 0 \<in> set bs then [0] else [])"

lemma upto_nul_prefix: "\<exists>r. bs = upto_nul bs @ r"
proof (cases "0 \<in> set bs")
  case True
  then have "dropWhile (\<lambda>c. c \<noteq> 0) bs \<noteq> []" "hd (dropWhile (\<lambda>c. c \<noteq> 0) bs) = 0"
    using hd_dropWhile[of "\<lambda>c. c \<noteq> 0" bs] by (auto simp: dropWhile_eq_Nil_conv)
  then have "bs = takeWhile (\<lambda>c. c \<noteq> 0) bs @ 0 # tl (dropWhile (\<lambda>c. c \<noteq> 0) bs)"
    by (metis list.collapse takeWhile_dropWhile_id)
  then show ?thesis using True by (auto simp: upto_nul_def)
next
  case False
  then show ?thesis by (simp add: upto_nul_def exI[of _ "dropWhile (\<lambda>c. c \<noteq> 0) bs"])
qed

lemma chunk_upto_nul: "chunk (length bs) (upto_nul bs)"
proof -
  obtain r where "bs = upto_nul bs @ r" using upto_nul_prefix by blast
  then have "length (upto_nul bs) \<le> length bs" by (metis length_append le_add1)
  moreover have "0 \<notin> set (butlast (upto_nul bs))"
    by (auto simp: upto_nul_def butlast_append dest!: in_set_butlastD set_takeWhileD)
  moreover have "upto_nul bs \<noteq> [] \<and> last (upto_nul bs) = 0 \<or> length (upto_nul bs) = length bs"
  proof (cases "0 \<in> set bs")
    case False
    then have "\<forall>x \<in> set bs. x \<noteq> 0" by auto
    then have "upto_nul bs = bs" using False by (simp only: upto_nul_def takeWhile_eq_all_conv[THEN iffD2] if_False append_Nil2)
    then show ?thesis by simp
  qed (simp add: upto_nul_def)
  ultimately show ?thesis by (simp add: chunk_def)
qed

text \<open>
  C33: \<open>Read\<close> on an open file.  The position moves behind the bytes that are there, at most as many as asked for, and their
  number is the result, or -3 if there are none; the file is not changed.  The user's buffer gets these bytes only up
  to and including the first zero byte.
\<close>

theorem SysRead_spec:
  assumes "sys_files_ok s" "paged (sysMachine s) pt" "2 \<le> sint (arg 6 s)" "sint (arg 6 s) \<le> 9"
    "openFiles (sysFs s) ! nat (sint (arg 6 s)) = Some f" "refers (sysHost s) f n" "0 \<le> sint (arg 5 s)" "sint (arg 5 s) < 2 ^ 31 - 1"
    "bs = take (nat (sint (arg 5 s))) (drop (nat (currentOffset f)) (inode (sysHost s) n))"
    "accessible True pt (arg 4 s) (length (upto_nul bs))"
  shows "\<exists>s'. SysRead s = ret_k (if bs = [] then -3 else int (length bs), s') \<and>
     mainMemory (sysMachine s') = put_string pt (arg 4 s) (upto_nul bs) (mainMemory (sysMachine s)) \<and>
     openFiles (sysFs s') = (openFiles (sysFs s))[nat (sint (arg 6 s)) := Some (f\<lparr>currentOffset := currentOffset f + int (length bs)\<rparr>)] \<and>
     inode (sysHost s') = inode (sysHost s)"
proof -
  let ?c = "sint (arg 5 s)" and ?id = "sint (arg 6 s)" and ?h = "sysHost s" and ?fs = "sysFs s"
  have ok: "files_ok ?fs ?h" using assms(1) by (simp add: sys_files_ok_def)
  have l: "length (openFiles ?fs) = 10" using files_ok_lengths[OF ok] by simp
  have "nat ?id < 10" using assms(3,4) by simp
  then have off: "0 \<le> currentOffset f" using files_ok_slot[OF ok _ assms(5)] by blast
  obtain p where rd: "ReadAt f ?c (currentOffset f) ?h = Inr (int (length bs), bs, ?h\<lparr>fds := (fds ?h)(fileFd f \<mapsto> (n, p))\<rparr>)"
    using ReadAt_eq[OF assms(6,7) off] assms(9) by auto
  define f' where "f' = f\<lparr>currentOffset := currentOffset f + int (length bs)\<rparr>"
  define s1 where "s1 = s\<lparr>sysFs := ?fs\<lparr>openFiles := (openFiles ?fs)[nat ?id := Some f']\<rparr>, sysHost := ?h\<lparr>fds := (fds ?h)(fileFd f \<mapsto> (n, p))\<rparr>\<rparr>"
  define b where "b = fill_buf bs (replicate (nat (?c + 1)) None)"
  have eq: "SysRead s = (if length bs > 0
      then bind_k (System2User (arg 4 s) (int (length bs)) b s1) (\<lambda>(_, s). ret_k (int (length bs), s)) else ret_k (-3, s1))"
    using assms(3-5,7,8) l rd
    by (simp add: SysRead_def Let_def get_at_def set_at_def new_buf_def OpenFile_Read_def f'_def[symmetric] s1_def b_def)
  show ?thesis
  proof (cases "bs = []")
    case True
    then show ?thesis using eq by (intro exI[of _ s1]) (simp add: s1_def f'_def upto_nul_def)
  next
    case False
    let ?w = "upto_nul bs"
    obtain r where r: "bs = ?w @ r" using upto_nul_prefix by blast
    have "take (length ?w) bs = ?w" using r by (metis append_eq_conv_conj)
    moreover have le: "length ?w \<le> length bs" using r by (metis length_append le_add1)
    ultimately have w: "take (length ?w) (drop 0 b) = map Some ?w" by (simp add: b_def fill_buf_def take_map)
    have lb: "0 + length ?w \<le> length b" using le by (simp add: b_def fill_buf_def)
    have p1: "paged (sysMachine s1) pt" using assms(2) by (simp add: s1_def)
    have acc: "accessible True pt (arg 4 s + of_nat 0) (length ?w)" using assms(10) by simp
    from copy_out_eq[OF p1 acc chunk_upto_nul lb w] obtain s' where
      s': "copy_out (arg 4 s) 0 (length bs) b s1 = ret_k (int (0 + length ?w), s')"
      "touched pt (put_string pt (arg 4 s + of_nat 0) ?w (mainMemory (sysMachine s1))) s1 s'"
      by blast
    have "SysRead s = ret_k (int (length bs), s')" using eq s'(1) False by (simp add: System2User_def)
    moreover have "mainMemory (sysMachine s') = put_string pt (arg 4 s) ?w (mainMemory (sysMachine s))" "sysFs s' = sysFs s1" "sysHost s' = sysHost s1"
      using touched_facts(2)[OF s'(2) p1] s'(2) by (simp_all add: s1_def) (auto simp: touched_def)
    ultimately show ?thesis using False by (intro exI[of _ s']) (simp add: s1_def f'_def)
  qed
qed

lemma buf_bytes_eq: "buf_bytes (length bs) (map Some bs @ r) = Inr bs"
  by (induction bs) simp_all

lemma buf_bytes_short: "length w < n \<Longrightarrow> buf_bytes n (map Some w @ None # r) = Inl Uninitialised"
  by (induction w arbitrary: n) (case_tac n; simp)+

text \<open>The copy that \<open>SysWrite\<close> makes of the user's buffer, when the bytes \<open>w\<close> are what it meets.\<close>

lemma SysWrite_copies:
  assumes "sys_files_ok s" "paged (sysMachine s) pt" "2 \<le> sint (arg 6 s)" "sint (arg 6 s) \<le> 9"
    "openFiles (sysFs s) ! nat (sint (arg 6 s)) = Some f" "ftype (sysFs s) ! nat (sint (arg 6 s)) \<noteq> 1"
    "0 \<le> sint (arg 5 s)" "sint (arg 5 s) < 2 ^ 31 - 2"
    "accessible False pt (arg 4 s) (length w)" "chunk (Suc (nat (sint (arg 5 s)))) w"
    "\<forall>j < length w. mainMemory (sysMachine s) (phys pt (arg 4 s + of_nat j)) = w ! j"
  shows "\<exists>s1. touched pt (mainMemory (sysMachine s)) s s1 \<and> SysWrite s =
     bind_run (buf_bytes (nat (sint (arg 5 s))) (map Some w @ replicate (nat (sint (arg 5 s)) + 2 - length w) None)) (\<lambda>bs.
       bind_run (OpenFile_Write f bs (sint (arg 5 s)) (sysHost s)) (\<lambda>(sz, f, h).
       ret_k (sz, s1\<lparr>sysFs := (sysFs s)\<lparr>openFiles := (openFiles (sysFs s))[nat (sint (arg 6 s)) := Some f]\<rparr>, sysHost := h\<rparr>)))"
proof -
  let ?c = "sint (arg 5 s)" and ?id = "sint (arg 6 s)" and ?fs = "sysFs s"
  have ok: "files_ok ?fs (sysHost s)" using assms(1) by (simp add: sys_files_ok_def)
  have l: "length (openFiles ?fs) = 10" "length (ftype ?fs) = 10" using files_ok_lengths[OF ok] by simp_all
  have lim: "sint (arg 5 s + 1) = ?c + 1"
    using assms(7,8) sint_word_ariths(1)[of "arg 5 s" 1] by (simp add: signed_take_bit_int_eq_self_iff)
  have len: "length w \<le> Suc (nat ?c)" using assms(10) by (simp add: chunk_def)
  define N where "N = nat ?c + 2"
  define M where "M = Suc (nat ?c)"
  have "\<exists>s1. copy_in (arg 4 s) 0 M (replicate N None) s =
      ret_k (take 0 (replicate N None) @ map Some w @ drop (0 + length w) (replicate N None), s1) \<and>
      touched pt (mainMemory (sysMachine s)) s s1"
    by (rule copy_in_eq[OF assms(2)]) (use assms(9-11) len in \<open>simp_all add: N_def M_def\<close>)
  then have "\<exists>s1. copy_in (arg 4 s) 0 M (replicate N None) s = ret_k (map Some w @ replicate (N - length w) None, s1) \<and>
      touched pt (mainMemory (sysMachine s)) s s1"
    by (simp only: take_0 append_Nil add_0 drop_replicate)
  then obtain s1 where c: "copy_in (arg 4 s) 0 (Suc (nat ?c)) (replicate (nat ?c + 2) None) s =
      ret_k (map Some w @ replicate (nat ?c + 2 - length w) None, s1)" and t: "touched pt (mainMemory (sysMachine s)) s s1"
    unfolding N_def M_def by blast
  have n: "nat (?c + 1) = Suc (nat ?c)" "nat (2 + ?c) = nat ?c + 2" using assms(7) by simp_all
  have u: "User2System (arg 4 s) (sint (arg 5 s + 1)) s = ret_k (map Some w @ replicate (nat ?c + 2 - length w) None, s1)"
    using c assms(7,8) by (simp add: User2System_def new_buf_def lim n del: copy_in.simps replicate.simps add_2_eq_Suc')
  have h1: "sysHost s1 = sysHost s" using t by (auto simp: touched_def)
  have "SysWrite s = bind_run (buf_bytes (nat ?c) (map Some w @ replicate (nat ?c + 2 - length w) None)) (\<lambda>bs.
       bind_run (OpenFile_Write f bs ?c (sysHost s1)) (\<lambda>(sz, f, h).
       ret_k (sz, s1\<lparr>sysFs := ?fs\<lparr>openFiles := (openFiles ?fs)[nat ?id := Some f]\<rparr>, sysHost := h\<rparr>)))"
    using assms(3-6) l by (simp add: SysWrite_def Let_def u get_at_def set_at_def case_prod_unfold del: replicate.simps)
  with t h1 show ?thesis by auto
qed

text \<open>
  \<open>Write\<close> on a file that is open for writing.  If none of the \<open>c\<close> bytes in the user's buffer is zero, they are put at the
  position, as \<open>overwrite\<close> describes, the position moves behind them, and the result is \<open>c\<close>.  User memory is not changed.
\<close>

theorem SysWrite_spec:
  assumes "sys_files_ok s" "paged (sysMachine s) pt" "2 \<le> sint (arg 6 s)" "sint (arg 6 s) \<le> 9"
    "openFiles (sysFs s) ! nat (sint (arg 6 s)) = Some f" "ftype (sysFs s) ! nat (sint (arg 6 s)) \<noteq> 1" "refers (sysHost s) f n"
    "0 < sint (arg 5 s)" "sint (arg 5 s) < 2 ^ 31 - 2" "accessible False pt (arg 4 s) (Suc (length bs))" "length bs = nat (sint (arg 5 s))"
    "\<forall>j < length bs. mainMemory (sysMachine s) (phys pt (arg 4 s + of_nat j)) = bs ! j" "0 \<notin> set bs"
  shows "\<exists>s'. SysWrite s = ret_k (sint (arg 5 s), s') \<and> mainMemory (sysMachine s') = mainMemory (sysMachine s) \<and>
     openFiles (sysFs s') = (openFiles (sysFs s))[nat (sint (arg 6 s)) := Some (f\<lparr>currentOffset := currentOffset f + int (length bs)\<rparr>)] \<and>
     inode (sysHost s') = (inode (sysHost s))(n := overwrite (inode (sysHost s) n) (nat (currentOffset f)) bs)"
proof -
  let ?c = "sint (arg 5 s)" and ?h = "sysHost s"
  define x where "x = mainMemory (sysMachine s) (phys pt (arg 4 s + of_nat (length bs)))"
  have mem: "\<forall>j < length (bs @ [x]). mainMemory (sysMachine s) (phys pt (arg 4 s + of_nat j)) = (bs @ [x]) ! j"
    using assms(12) by (auto simp: nth_append x_def less_Suc_eq)
  have "chunk (Suc (nat ?c)) (bs @ [x])" using assms(11,13) by (simp add: chunk_def)
  with SysWrite_copies[OF assms(1-6) less_imp_le[OF assms(8)] assms(9), of "bs @ [x]"] assms(10) mem
  obtain s1 where t: "touched pt (mainMemory (sysMachine s)) s s1" and w: "SysWrite s =
     bind_run (buf_bytes (nat ?c) (map Some (bs @ [x]) @ replicate (nat ?c + 2 - length (bs @ [x])) None)) (\<lambda>bs.
       bind_run (OpenFile_Write f bs ?c ?h) (\<lambda>(sz, f, h).
       ret_k (sz, s1\<lparr>sysFs := (sysFs s)\<lparr>openFiles := (openFiles (sysFs s))[nat (sint (arg 6 s)) := Some f]\<rparr>, sysHost := h\<rparr>)))"
    by auto
  have bb: "buf_bytes (nat ?c) (map Some (bs @ [x]) @ r) = Inr bs" for r using buf_bytes_eq[of bs "Some x # r"] assms(11) by simp
  have "0 \<le> currentOffset f"
    using assms(1,3-5) files_ok_slot[of "sysFs s" ?h "nat (sint (arg 6 s))" f] by (simp add: sys_files_ok_def)
  from WriteAt_eq[OF assms(7), of ?c bs, OF _ _ this] assms(8,11) obtain p where
    "WriteAt f bs ?c (currentOffset f) ?h = Inr (?c, ?h\<lparr>fds := (fds ?h)(fileFd f \<mapsto> (n, p)),
      inode := (inode ?h)(n := overwrite (inode ?h n) (nat (currentOffset f)) bs)\<rparr>)" by auto
  then show ?thesis using w t touched_facts(2)[OF t assms(2)] assms(8,11) unfolding bb by (auto simp: OpenFile_Write_def)
qed

text \<open>
  A zero byte in the user's buffer ends the kernel's copy of it, but \<open>Write\<close> still passes on as many bytes as asked for: the rest is
  uninitialised memory of the kernel.
\<close>

theorem SysWrite_leaks:
  assumes "sys_files_ok s" "paged (sysMachine s) pt" "2 \<le> sint (arg 6 s)" "sint (arg 6 s) \<le> 9"
    "openFiles (sysFs s) ! nat (sint (arg 6 s)) = Some f" "ftype (sysFs s) ! nat (sint (arg 6 s)) \<noteq> 1"
    "sint (arg 5 s) < 2 ^ 31 - 2" "accessible False pt (arg 4 s) (Suc (length str))" "int (length str) + 1 < sint (arg 5 s)"
    "\<forall>j \<le> length str. mainMemory (sysMachine s) (phys pt (arg 4 s + of_nat j)) = (str @ [0]) ! j" "0 \<notin> set str"
  shows "SysWrite s = Inl Uninitialised"
proof -
  let ?c = "sint (arg 5 s)" and ?w = "str @ [0]"
  have c: "0 \<le> ?c" using assms(9) by simp
  have ch: "chunk (Suc (nat ?c)) ?w" using assms(9,11) by (simp add: chunk_def)
  have mem: "\<forall>j < length ?w. mainMemory (sysMachine s) (phys pt (arg 4 s + of_nat j)) = ?w ! j"
    using assms(10) by (simp add: less_Suc_eq_le)
  have acc: "accessible False pt (arg 4 s) (length ?w)" using assms(8) by simp
  obtain k where k: "nat ?c + 2 - length ?w = Suc k" using assms(9) by (cases "nat ?c + 2 - length ?w") auto
  have "length ?w < nat ?c" using assms(9) by simp
  then have "buf_bytes (nat ?c) (map Some ?w @ replicate (nat ?c + 2 - length ?w) None) = Inl Uninitialised"
    unfolding k replicate_Suc by (rule buf_bytes_short)
  then show ?thesis using SysWrite_copies[OF assms(1-6) c assms(7) acc ch mem] by auto
qed

text \<open>
  A size of -1 passed to \<open>Read\<close> at the start of a file is not refused: the call reports that nothing was read, but the position is
  now -1, and the next \<open>Read\<close> on the file, whatever its size, aborts the kernel.
\<close>

theorem negative_Read_aborts_later:
  assumes "sys_files_ok s" "2 \<le> sint (arg 6 s)" "sint (arg 6 s) \<le> 9" "openFiles (sysFs s) ! nat (sint (arg 6 s)) = Some f"
    "currentOffset f = 0" "arg 5 s = -1"
  shows "\<exists>s1. SysRead s = ret_k (-3, s1) \<and> (\<forall>s2. sysFs s2 = sysFs s1 \<longrightarrow> sysHost s2 = sysHost s1 \<longrightarrow> arg 6 s2 = arg 6 s \<longrightarrow>
     0 \<le> sint (arg 5 s2) \<longrightarrow> sint (arg 5 s2) < 2 ^ 31 - 1 \<longrightarrow> SysRead s2 = Inl AssertFail)"
proof -
  let ?id = "sint (arg 6 s)" and ?h = "sysHost s" and ?fs = "sysFs s"
  have ok: "files_ok ?fs ?h" using assms(1) by (simp add: sys_files_ok_def)
  have l: "length (openFiles ?fs) = 10" using files_ok_lengths[OF ok] by simp
  have "nat ?id < 10" using assms(2,3) by simp
  from files_ok_slot[OF ok this assms(4)] obtain n q where n: "fds ?h (fileFd f) = Some (n, q)" by (auto simp: refers_def)
  define h1 where "h1 = ?h\<lparr>fds := (fds ?h)(fileFd f \<mapsto> (n, 0))\<rparr>"
  have rd: "ReadAt f (-1) 0 ?h = Inr (-1, [], h1)"
    using n by (simp add: ReadAt_def Lseek_eq ReadPartial_def host_read_def h1_def)
  define f1 where "f1 = f\<lparr>currentOffset := -1\<rparr>"
  define s1 where "s1 = s\<lparr>sysFs := ?fs\<lparr>openFiles := (openFiles ?fs)[nat ?id := Some f1]\<rparr>, sysHost := h1\<rparr>"
  have "SysRead s = ret_k (-3, s1)"
    using assms(2-6) l rd by (simp add: SysRead_def Let_def get_at_def set_at_def new_buf_def OpenFile_Read_def f1_def s1_def)
  moreover have "SysRead s2 = Inl AssertFail" if "sysFs s2 = sysFs s1" "sysHost s2 = sysHost s1" "arg 6 s2 = arg 6 s"
    "0 \<le> sint (arg 5 s2)" "sint (arg 5 s2) < 2 ^ 31 - 1" for s2
  proof -
    have "OpenFile_Read f1 c h1 = Inl AssertFail" for c
      by (simp add: OpenFile_Read_def ReadAt_def Lseek_def host_lseek_def f1_def h1_def)
    then show ?thesis using that assms(2,3) l
      by (simp add: SysRead_def Let_def get_at_def new_buf_def s1_def)
  qed
  ultimately show ?thesis by blast
qed

text \<open>A state with one open file of two bytes, in slot 2, and a program with one page.\<close>

definition demo_fs :: FileSystem where
  "demo_fs = \<lparr>openFiles = [None, None, Some \<lparr>fileFd = 3, currentOffset = 0\<rparr>, None, None, None, None, None, None, None],
     ftype = replicate 10 0, fsIdx = 2\<rparr>"

definition demo_host :: host where
  "demo_host = \<lparr>dir = Map.empty, inode = (\<lambda>_. [104, 105]), fds = [3 \<mapsto> (0, 0)], nextInode = 1, nextFd = 4\<rparr>"

definition demo_sys :: "32 word \<Rightarrow> bytes \<Rightarrow> sys" where
  "demo_sys c bs = (let s = boot_sys ((\<lambda>_. 0)(4 := 8, 5 := c, 6 := 2)) demo_fs demo_host in
     s\<lparr>sysMachine := (sysMachine s)\<lparr>mainMemory := (\<lambda>p. if 648 \<le> p \<and> p < 648 + length bs then bs ! (p - 648) else 0)\<rparr>\<rparr>)"

lemma demo_ok: "sys_files_ok (demo_sys c bs)"
proof -
  have slot: "i = 2 \<and> f = \<lparr>fileFd = 3, currentOffset = 0\<rparr>" if "i < 10" "openFiles demo_fs ! i = Some f" for i f
    using that by (auto simp: demo_fs_def numeral_eq_Suc less_Suc_eq)
  have "files_ok demo_fs demo_host"
  proof (rule files_okI)
    show "(\<exists>n. refers demo_host f n) \<and> 0 \<le> currentOffset f" if "i < 10" "openFiles demo_fs ! i = Some f" for i f
      using slot[OF that] by (simp add: refers_def demo_host_def)
    show "i = j" if "i < 10" "j < 10" "openFiles demo_fs ! i = Some x" "openFiles demo_fs ! j = Some y" "fileFd x = fileFd y" for i j x y
      using slot[OF that(1,3)] slot[OF that(2,4)] by simp
  qed (auto simp: demo_fs_def demo_host_def split: if_splits)
  then show ?thesis by (simp add: sys_files_ok_def demo_sys_def boot_sys_def Let_def)
qed

lemma demo_page: "j < 120 \<Longrightarrow> vm_translate (one_page 5) (8 + of_nat j) 1 w = Inr (648 + int j)"
proof -
  assume j: "j < 120"
  then have "take_bit 32 j = j" by (simp add: take_bit_nat_eq_self_iff)
  with j have "uint (8 + of_nat j :: 32 word) = 8 + int j" by (simp add: uint_word_ariths unsigned_of_nat)
  with j show ?thesis by (simp add: vm_translate_def one_page_def aligned_def NumPhysPages_def)
qed

lemma demo_phys: "j < 120 \<Longrightarrow> phys (one_page 5) (8 + of_nat j) = 648 + j"
  by (simp add: phys_def demo_page)

lemma demo_facts:
  "paged (sysMachine (demo_sys c bs)) (one_page 5)" "arg 4 (demo_sys c bs) = 8" "arg 5 (demo_sys c bs) = c" "arg 6 (demo_sys c bs) = 2"
  "sysFs (demo_sys c bs) = demo_fs" "sysHost (demo_sys c bs) = demo_host" "openFiles demo_fs ! 2 = Some \<lparr>fileFd = 3, currentOffset = 0\<rparr>"
  "ftype demo_fs ! 2 = 0" "refers demo_host \<lparr>fileFd = 3, currentOffset = 0\<rparr> 0" "n \<le> 120 \<Longrightarrow> accessible w (one_page 5) 8 n"
  "j < 120 \<Longrightarrow> mainMemory (sysMachine (demo_sys c bs)) (phys (one_page 5) (8 + of_nat j)) = (if j < length bs then bs ! j else 0)"
  using paged_one_page[of 5]
  by (auto simp: demo_sys_def boot_sys_def Let_def paged_def arg_def demo_fs_def demo_host_def refers_def accessible_def demo_page demo_phys)

lemma demo_inode: "inode demo_host = (\<lambda>_. [104, 105])"
  by (simp add: demo_host_def)

theorem SysRead_spec_witness:
  "\<exists>s'. SysRead (demo_sys 10 []) = ret_k (2, s') \<and> mainMemory (sysMachine s') 648 = 104 \<and> mainMemory (sysMachine s') 649 = 105"
proof -
  let ?s = "demo_sys 10 []"
  have u: "upto_nul [104, 105] = [104, 105]" by (simp add: upto_nul_def)
  have "\<exists>s'. SysRead ?s = ret_k (if [104, 105 :: 8 word] = [] then -3 else int (length [104, 105 :: 8 word]), s') \<and>
     mainMemory (sysMachine s') = put_string (one_page 5) (arg 4 ?s) (upto_nul [104, 105]) (mainMemory (sysMachine ?s)) \<and>
     openFiles (sysFs s') = (openFiles (sysFs ?s))[nat (sint (arg 6 ?s)) := Some (\<lparr>fileFd = 3, currentOffset = 0\<rparr>\<lparr>currentOffset := 0 + int (length [104, 105 :: 8 word])\<rparr>)] \<and>
     inode (sysHost s') = inode (sysHost ?s)"
    using SysRead_spec[of ?s "one_page 5" "\<lparr>fileFd = 3, currentOffset = 0\<rparr>" 0 "[104, 105]"] demo_ok[of 10 "[]"]
    by (simp add: demo_facts u demo_inode)
  moreover have "phys (one_page 5) 8 = 648" "phys (one_page 5) 9 = 649" using demo_phys[of 0] demo_phys[of 1] by simp_all
  ultimately show ?thesis by (auto simp: u demo_facts)
qed

end
