(* ===== verification/JoinExit.thy ===== *)
theory JoinExit
  imports ProcessStart
begin

text \<open>
  What \<open>Exec\<close>, \<open>Join\<close> and \<open>Exit\<close> promise in every reachable state of the process layer, and where the code fails.
\<close>

section \<open>What Join and Exit promise\<close>

lemma shape_released_code:
  assumes "shape s i cs" "released cs = Some j"
  shows "i \<noteq> 0 \<and> (cs = [Down (ExitSem i), RemoveCmd i, FinishCmd] \<or> (\<exists>p. own s i p \<and> cs = [PWait (exitsem p), RemoveCmd i, FinishCmd]))"
  using assms
proof (induction rule: shape.induct)
  case (sh_plain cs)
  then have "free_code s i cs" by (simp add: free_code_def)
  with free_shape(3) sh_plain show ?case by fastforce
next
  case (sh_join pre k)
  then have "free_code s i (pre @ join_code k)" by (auto simp: free_code_def)
  with free_shape(3) sh_join show ?case by fastforce
next
  case (sh_exit pre)
  then have "free_code s i (pre @ exit_code i)" by (auto simp: free_code_def)
  with free_shape(3) sh_exit show ?case by fastforce
qed auto

lemma held_child:
  assumes "pinv s" "holds s t i"
  obtains p u c where "own s i p" "pthread p = Some u" "thr s u = Some c" "processID c = i" "semVal s (exitsem p) = Some 0"
    "code c = [Down (ExitSem i), RemoveCmd i, FinishCmd] \<or> code c = [PWait (exitsem p), RemoveCmd i, FinishCmd]"
proof -
  have "bit_used (ptBm s) i" using assms pinvD(4) by (auto simp: toks_ok_def)
  then obtain p where o: "own s i p" using pinvD(2)[OF assms(1)] by (auto simp: slots_ok_def)
  then have "tok s i p" using pinvD(4)[OF assms(1)] by (simp add: toks_ok_def)
  then have z: "is_released s i" "semVal s (exitsem p) = Some 0" using assms(2) by (auto simp: tok_def Let_def split: if_splits)
  then obtain u c where c: "thr s u = Some c" "released (code c) = Some i" by (auto simp: is_released_def)
  note sh = proc_shape[OF assms(1) c(1)]
  have i: "processID c = i" using shape_released[OF sh c(2)] by simp
  then have d: "i \<noteq> 0" "code c = [Down (ExitSem i), RemoveCmd i, FinishCmd] \<or> code c = [PWait (exitsem p), RemoveCmd i, FinishCmd]"
    using shape_released_code[OF sh c(2)] own_unique[OF o] by auto
  obtain p' where "own s i p'" "pthread p' = Some u" using pinvD(3)[OF assms(1)] c(1) i d(1) unfolding procs_ok_def by metis
  then show thesis using that[OF o _ c(1) i z(2) d(2)] own_unique[OF o] by simp
qed

text \<open>
  C3: a parent that has returned from \<open>JoinWait\<close> and is about to read its child's exit code, or to release it with
  \<open>ExitRelease\<close>, finds the child's control block: the child, the thread of that block, is still at \<open>ExitWait\<close>, where it cannot
  go on, and the parent's next command succeeds.
\<close>

theorem join_reads_live_child:
  assumes "preach s" "thr s t = Some q" "code q = JoinRead i # cs \<or> code q = Up (ExitSem i) # cs"
  shows "\<exists>p u c s'. get_pcb i s = Inr p \<and> pthread p = Some u \<and> thr s u = Some c \<and> processID c = i \<and> semVal s (exitsem p) = Some 0 \<and>
     (code c = [Down (ExitSem i), RemoveCmd i, FinishCmd] \<or> code c = [PWait (exitsem p), RemoveCmd i, FinishCmd]) \<and>
     exec_cmd t (hd (code q)) (set_code t q cs s) = Inr s'"
proof -
  have "holds s t i" using assms(2,3) by (auto simp: holds_def)
  from held_child[OF preach_pinv[OF assms(1)] this] obtain p u c where c: "own s i p" "pthread p = Some u" "thr s u = Some c"
    "processID c = i" "semVal s (exitsem p) = Some 0"
    "code c = [Down (ExitSem i), RemoveCmd i, FinishCmd] \<or> code c = [PWait (exitsem p), RemoveCmd i, FinishCmd]" .
  then have "\<exists>s'. exec_cmd t (hd (code q)) (set_code t q cs s) = Inr s'"
    using assms(2,3) by (auto simp: exec_cmd_def upd_proc_def own_def sem_of_def sem_add_def)
  then show ?thesis using c by (auto simp: own_def)
qed

text \<open>A schedule: whose turn it is, and the call it makes when its program runs.\<close>

definition turn :: "nat \<times> pcall \<Rightarrow> procs \<Rightarrow> procs run" where
  "turn = (\<lambda>(t, c) s. bind_run (deref (thr s t)) (\<lambda>p.
     if halted s then Inr s else case code p of [] \<Rightarrow> do_call t c s | d # cs \<Rightarrow> if ready d s then exec_cmd t d (set_code t p cs s) else Inr s))"

definition turns :: "(nat \<times> pcall) list \<Rightarrow> procs \<Rightarrow> procs run" where
  "turns ts = for_each turn ts"

lemma turn_preach: "preach s \<Longrightarrow> turn tc s = Inr s' \<Longrightarrow> preach s'"
  by (cases tc) (auto simp: turn_def run_simps split: if_splits list.splits intro: preach_step pstep.intros, (metis preach_step pstep.intros)+)

lemma turns_preach: "turns ts s = Inr s' \<Longrightarrow> preach s \<Longrightarrow> preach s'"
  unfolding turns_def by (induction ts arbitrary: s) (auto simp: run_simps intro: turn_preach)

lemmas run_defs = turns_def turn_def do_call_def SysExec_def SysExit_def SysJoin_def with_name_def push_def upd_proc_def exec_cmd_def
  sem_of_def sem_add_def can_pass_def set_code_def exec_check_def GetFreeSlot_def PCB_new_def new_sem_obj_def Let_def
  set_at_def get_at_def SetFileName_def upd_pcb_def upd_pcb_at_def pcb_ptr_def get_pcb_def PCB_Exec_def exit_check_def join_check_def IsExist_def

text \<open>The state after the main process has started a process: the runs below begin here.\<close>

definition forked_state :: "Bitmap \<Rightarrow> Bitmap \<Rightarrow> (bytes \<Rightarrow> bool) \<Rightarrow> bytes \<Rightarrow> procs" where
  "forked_state b b' f fn = \<lparr>ptBm = b, pcb = (replicate 10 None)[0 := Some 5, 1 := Some 10],
     pcbHeap = [5 \<mapsto> \<lparr>joinsem = 2, exitsem = 3, multex = 4, exitcode = 0, numwait = 0, pthread = None, FileName = cstr ''../test/nghiala'', parentID = -1\<rparr>,
       10 \<mapsto> \<lparr>joinsem = 7, exitsem = 8, multex = 9, exitcode = 0, numwait = 0, pthread = Some 11, FileName = fn, parentID = 0\<rparr>],
     bmsem = 1, stBm = b', semTab = replicate 10 None, semVal = [1 \<mapsto> 1, 2 \<mapsto> 0, 3 \<mapsto> 0, 4 \<mapsto> 1, 7 \<mapsto> 0, 8 \<mapsto> 0, 9 \<mapsto> 1],
     names = [0 \<mapsto> cstr ''main''],
     thr = [0 \<mapsto> \<lparr>processID = 0, tname = 0, code = [], result = 1, ec = 0\<rparr>, 11 \<mapsto> \<lparr>processID = 1, tname = 6, code = [], result = 0, ec = 0\<rparr>],
     nextId = 12, progs = f, halted = False\<rparr>"

lemma forked:
  obtains b b' f fn c where "Bitmap_Test b 1 = Inr True" "Bitmap_Clear b 1 = Inr c" "fn \<noteq> cstr ''../test/nghiala''" "length fn < 32" "f fn"
    "preach (forked_state b b' f fn)"
proof -
  define child nghiala mainn where "child = cstr ''child''" and "nghiala = cstr ''../test/nghiala''" and "mainn = cstr ''main''"
  have n: "child \<noteq> nghiala" "child \<noteq> mainn" "length child < 32"
    by (simp_all add: child_def nghiala_def mainn_def cstr_def)
  obtain b b' where b: "bitmap_inv b" "numBits b = 10" "bit_used b = (\<lambda>_. False)(0 := True)" and
    "procs_new (\<lambda>f. f = child) = Inr \<lparr>ptBm = b, pcb = (replicate 10 None)[0 := Some 5],
       pcbHeap = [5 \<mapsto> \<lparr>joinsem = 2, exitsem = 3, multex = 4, exitcode = 0, numwait = 0, pthread = None, FileName = nghiala, parentID = -1\<rparr>],
       bmsem = 1, stBm = b', semTab = replicate 10 None, semVal = [1 \<mapsto> 1, 2 \<mapsto> 0, 3 \<mapsto> 0, 4 \<mapsto> 1], names = [0 \<mapsto> mainn],
       thr = [0 \<mapsto> \<lparr>processID = 0, tname = 0, code = [], result = 0, ec = 0\<rparr>], nextId = 6, progs = (\<lambda>f. f = child), halted = False\<rparr>"
       (is "_ = Inr ?s")
    unfolding nghiala_def mainn_def by (rule procs_new_eq)
  from preach_start[OF this(4)] have start: "preach ?s" .
  obtain b1 where b1: "Bitmap_FindAndSet b = Inr (1, b1)" "bitmap_inv b1" "numBits b1 = 10" "bit_used b1 = (bit_used b)(1 := True)"
    using b(1)
  proof (cases rule: Bitmap_FindAndSet_cases)
    case full
    have "1 \<in> free_bits b" using b by (simp add: free_bits_def)
    with full show thesis by simp
  next
    case (found i b')
    then have "0 \<le> i" "i \<noteq> 0" "\<not> 1 < i" using b found(2)[rule_format, of 1] by (auto simp: free_bits_def)
    then have "i = 1" by simp
    with found b that show thesis by simp
  qed
  have t1: "Bitmap_Test b1 1 = Inr True" using Bitmap_Test_ok[of b1 1] b1 by simp
  obtain c where c1: "Bitmap_Clear b1 1 = Inr c" using Bitmap_Clear_ok[of b1 1] b1 by auto
  have "turns (replicate 11 (0, Exec child)) ?s = Inr (forked_state b1 b' (\<lambda>f. f = child) child)"
    using n b1(1) by (simp add: forked_state_def run_defs numeral_eq_Suc fun_upd_twist flip: nghiala_def mainn_def)
  from turns_preach[OF this start] show thesis using that[of b1 c child "\<lambda>f. f = child" b'] t1 c1 n unfolding nghiala_def by simp
qed

text \<open>The main process joins the process it started.\<close>

lemma fork_join:
  "\<exists>s q. preach s \<and> thr s 0 = Some q \<and> code q = [JoinRead 1, Up (ExitSem 1), ReturnEc]"
proof -
  obtain b b' f fn c where f: "Bitmap_Test b 1 = Inr True" "preach (forked_state b b' f fn)" by (rule forked)
  have "\<exists>s' q. turns (replicate 8 (11, Exit 0) @ replicate 8 (0, Join 1)) (forked_state b b' f fn) = Inr s' \<and>
      thr s' 0 = Some q \<and> code q = [JoinRead 1, Up (ExitSem 1), ReturnEc]"
    using f(1) by (simp add: forked_state_def run_defs numeral_eq_Suc)
  then show ?thesis using turns_preach[OF _ f(2)] by blast
qed

lemma join_reads_live_child_witness:
  "\<exists>s q p u c s'. preach s \<and> thr s 0 = Some q \<and> code q = [JoinRead 1, Up (ExitSem 1), ReturnEc] \<and> get_pcb 1 s = Inr p \<and> pthread p = Some u \<and>
     thr s u = Some c \<and> processID c = 1 \<and> semVal s (exitsem p) = Some 0 \<and> exec_cmd 0 (JoinRead 1) (set_code 0 q [Up (ExitSem 1), ReturnEc] s) = Inr s'"
proof -
  obtain s q where s: "preach s" "thr s 0 = Some q" "code q = [JoinRead 1, Up (ExitSem 1), ReturnEc]" using fork_join by blast
  from join_reads_live_child[OF s(1,2), of 1 "[Up (ExitSem 1), ReturnEc]"] s show ?thesis by auto
qed


text \<open>
  A second \<open>Join\<close> on a process that has ended waits on a deleted semaphore: \<open>Remove\<close> leaves the pointer to the control block in
  the table, and \<open>JoinUpdate\<close> does not look at the bitmap.
\<close>

theorem second_Join_uses_deleted_semaphore:
  "\<exists>s q cs. preach s \<and> thr s 0 = Some q \<and> result q = 0 \<and> code q = Down (JoinSem 1) # cs \<and> thr s 11 = None \<and>
     exec_cmd 0 (Down (JoinSem 1)) (set_code 0 q cs s) = Inl BadPointer"
proof -
  obtain b b' f fn c where f: "Bitmap_Test b 1 = Inr True" "Bitmap_Clear b 1 = Inr c" "preach (forked_state b b' f fn)" by (rule forked)
  let ?ts = "replicate 8 (11, Exit 0) @ replicate 11 (0, Join 1) @ replicate 2 (11, Exit 0) @ replicate 6 (0, Join 1)"
  let ?q = "\<lparr>processID = 0, tname = 0, code = [Down (JoinSem 1), JoinRead 1, Up (ExitSem 1), ReturnEc], result = 0, ec = 0\<rparr>"
  have "\<exists>s. turns ?ts (forked_state b b' f fn) = Inr s \<and> thr s 0 = Some ?q \<and> thr s 11 = None \<and>
      exec_cmd 0 (Down (JoinSem 1)) (set_code 0 ?q [JoinRead 1, Up (ExitSem 1), ReturnEc] s) = Inl BadPointer"
    using f(1,2) by (simp add: forked_state_def run_defs PTable_Remove_def PCB_delete_def ASSERT_def deref_def bind_run_def numeral_eq_Suc)
  then obtain s where "turns ?ts (forked_state b b' f fn) = Inr s" "thr s 0 = Some ?q" "thr s 11 = None"
      "exec_cmd 0 (Down (JoinSem 1)) (set_code 0 ?q [JoinRead 1, Up (ExitSem 1), ReturnEc] s) = Inl BadPointer" by blast
  then show ?thesis using turns_preach[OF _ f(3)]
    by (intro exI[of _ s] exI[of _ ?q] exI[of _ "[JoinRead 1, Up (ExitSem 1), ReturnEc]"]) simp
qed

text \<open>
  C34: every thread but the main one runs a process of its own: different threads have different process identifiers, and the slot
  of a process is marked as used and holds a control block that points to the thread, with three semaphores that no other used slot has.
\<close>

theorem one_process_per_slot:
  assumes "preach s" "thr s t = Some q" "thr s u = Some r" "t \<noteq> u" "processID q \<noteq> 0"
  shows "processID q \<noteq> processID r \<and> (\<exists>p. bit_used (ptBm s) (processID q) \<and> get_pcb (processID q) s = Inr p \<and> pthread p = Some t \<and>
       (\<forall>j p'. j \<noteq> processID q \<and> bit_used (ptBm s) j \<and> get_pcb j s = Inr p' \<longrightarrow>
          {joinsem p, exitsem p, multex p} \<inter> {joinsem p', exitsem p', multex p'} = {}))"
proof
  note inv = preach_pinv[OF assms(1)]
  show "processID q \<noteq> processID r" using one_thread[OF inv assms(2,3)] assms(4) by blast
  obtain p where p: "own s (processID q) p" "pthread p = Some t" using pinvD(3)[OF inv] assms(2,5) unfolding procs_ok_def by metis
  have "psems p \<inter> psems p' = {}" if "j \<noteq> processID q" "own s j p'" for j p'
    unfolding disjoint_iff using own_disjoint[OF inv p(1) that(2)] that(1) by blast
  then show "\<exists>p. bit_used (ptBm s) (processID q) \<and> get_pcb (processID q) s = Inr p \<and> pthread p = Some t \<and>
       (\<forall>j p'. j \<noteq> processID q \<and> bit_used (ptBm s) j \<and> get_pcb j s = Inr p' \<longrightarrow>
          {joinsem p, exitsem p, multex p} \<inter> {joinsem p', exitsem p', multex p'} = {})"
    using p unfolding own_def psems_def by blast
qed

lemma one_process_per_slot_witness:
  "\<exists>s q r. preach s \<and> thr s 11 = Some q \<and> thr s 0 = Some r \<and> processID q = 1 \<and> processID q \<noteq> processID r \<and> bit_used (ptBm s) (processID q)"
proof -
  obtain b b' f fn c where f: "preach (forked_state b b' f fn)" by (rule forked)
  have t: "thr (forked_state b b' f fn) 11 = Some \<lparr>processID = 1, tname = 6, code = [], result = 0, ec = 0\<rparr>"
    "thr (forked_state b b' f fn) 0 = Some \<lparr>processID = 0, tname = 0, code = [], result = 1, ec = 0\<rparr>" by (simp_all add: forked_state_def)
  show ?thesis using one_process_per_slot[OF f t] f t by auto
qed

end
