(* ===== verification/ConsoleDev.thy ===== *)
theory ConsoleDev
  imports Prelude
begin

text \<open>
  The console device (\<open>ConsoleInput\<close> and \<open>ConsoleOutput\<close> of \<^verbatim>\<open>machine/console.cc\<close>) and the synchronised console
  (\<^verbatim>\<open>userprog/synchconsole.cc\<close>), through which several threads read the keyboard and write the display.

  The keyboard is the queue of the characters typed and not yet read by the simulation, and it may come to its end.  \<open>readInts\<close> and
  \<open>writeInts\<close> count the pending interrupts of the two devices.  The routines are cut where another thread or an interrupt may come in: a holder
  of a lock is a thread together with whether it has passed its \<open>P\<close>.  The system calls see the console as two
  streams of characters; the properties of this theory justify that view and say where it ends.
\<close>

section \<open>The devices\<close>

text \<open>\<open>incoming\<close> is a \<open>char\<close>, and so is the \<open>EOF\<close> stored in it.\<close>

definition EOF_char :: "8 word" where "EOF_char = -1"

record condev =
  keyboard :: "8 word list"
  closed :: bool
  incoming :: "8 word"
  readInts :: nat
  charsRead :: int
  inWaitFor :: int
  inLock :: "(nat \<times> bool) option"
  display :: "8 word list"
  putBusy :: bool
  writeInts :: nat
  charsWritten :: int
  outWaitFor :: int
  outLock :: "(nat \<times> bool) option"

text \<open>Both constructors; the input device looks for a character from the start.\<close>

definition SynchConsole_new :: condev where
  "SynchConsole_new = \<lparr>keyboard = [], closed = False, incoming = EOF_char, readInts = 1, charsRead = 0, inWaitFor = 0, inLock = None,
     display = [], putBusy = False, writeInts = 0, charsWritten = 0, outWaitFor = 0, outLock = None\<rparr>"

definition PollFile :: "condev \<Rightarrow> bool" where
  "PollFile c \<longleftrightarrow> keyboard c \<noteq> [] \<or> closed c"

definition SynchConsoleInput_CallBack :: "condev \<Rightarrow> condev" where
  "SynchConsoleInput_CallBack c = c\<lparr>inWaitFor := inWaitFor c + 1\<rparr>"

definition SynchConsoleOutput_CallBack :: "condev \<Rightarrow> condev" where
  "SynchConsoleOutput_CallBack c = c\<lparr>outWaitFor := outWaitFor c + 1\<rparr>"

text \<open>The read interrupt: at the end of the keyboard the read gives no character and no further interrupt is scheduled.\<close>

definition ConsoleInput_CallBack :: "condev \<Rightarrow> condev run" where
  "ConsoleInput_CallBack c0 =
     (let c = c0\<lparr>readInts := readInts c0 - 1\<rparr> in
      ASSERT (incoming c = EOF_char)
       (if \<not> PollFile c then Inr (c\<lparr>readInts := readInts c + 1\<rparr>)
        else Inr (SynchConsoleInput_CallBack (case keyboard c of [] \<Rightarrow> c
          | ch # rest \<Rightarrow> c\<lparr>keyboard := rest, incoming := ch, charsRead := charsRead c + 1\<rparr>))))"

definition ConsoleInput_GetChar :: "condev \<Rightarrow> 8 word \<times> condev" where
  "ConsoleInput_GetChar c =
     (incoming c, (if incoming c \<noteq> EOF_char then c\<lparr>readInts := readInts c + 1\<rparr> else c)\<lparr>incoming := EOF_char\<rparr>)"

definition ConsoleOutput_CallBack :: "condev \<Rightarrow> condev" where
  "ConsoleOutput_CallBack c = SynchConsoleOutput_CallBack (c\<lparr>writeInts := writeInts c - 1, putBusy := False, charsWritten := charsWritten c + 1\<rparr>)"

definition ConsoleOutput_PutChar :: "8 word \<Rightarrow> condev \<Rightarrow> condev run" where
  "ConsoleOutput_PutChar ch c = ASSERT (\<not> putBusy c) (Inr (c\<lparr>display := display c @ [ch], putBusy := True, writeInts := writeInts c + 1\<rparr>))"

section \<open>The synchronised console\<close>

text \<open>\<open>GetChar\<close>: take the lock, \<open>P\<close>, read the character and release.\<close>

definition GetChar_lock :: "nat \<Rightarrow> condev \<Rightarrow> condev" where
  "GetChar_lock t c = c\<lparr>inLock := Some (t, False)\<rparr>"

definition GetChar_P :: "nat \<Rightarrow> condev \<Rightarrow> condev" where
  "GetChar_P t c = c\<lparr>inWaitFor := inWaitFor c - 1, inLock := Some (t, True)\<rparr>"

definition GetChar_end :: "condev \<Rightarrow> 8 word \<times> condev" where
  "GetChar_end c = (let (ch, c) = ConsoleInput_GetChar c in (ch, c\<lparr>inLock := None\<rparr>))"

text \<open>\<open>PutChar\<close>: take the lock, start the output; \<open>P\<close> and release.\<close>

definition PutChar_begin :: "nat \<Rightarrow> 8 word \<Rightarrow> condev \<Rightarrow> condev run" where
  "PutChar_begin t ch c = ConsoleOutput_PutChar ch (c\<lparr>outLock := Some (t, False)\<rparr>)"

definition PutChar_end :: "condev \<Rightarrow> condev" where
  "PutChar_end c = c\<lparr>outWaitFor := outWaitFor c - 1, outLock := None\<rparr>"

section \<open>Executions\<close>

record conlog =
  typed :: "8 word list"
  got :: "8 word list"
  eofs :: nat
  put :: "8 word list"

text \<open>The user types characters, and can end the input; threads read and write; interrupts come when they are pending.\<close>

inductive cstep :: "condev \<times> conlog \<Rightarrow> (condev \<times> conlog) run \<Rightarrow> bool" where
  press: "\<not> closed c \<Longrightarrow> cstep (c, l) (Inr (c\<lparr>keyboard := keyboard c @ [ch]\<rparr>, l\<lparr>typed := typed l @ [ch]\<rparr>))"
| close: "cstep (c, l) (Inr (c\<lparr>closed := True\<rparr>, l))"
| readInt: "0 < readInts c \<Longrightarrow> cstep (c, l) (bind_run (ConsoleInput_CallBack c) (\<lambda>c. Inr (c, l)))"
| writeInt: "0 < writeInts c \<Longrightarrow> cstep (c, l) (Inr (ConsoleOutput_CallBack c, l))"
| getLock: "inLock c = None \<Longrightarrow> cstep (c, l) (Inr (GetChar_lock t c, l))"
| getP: "inLock c = Some (t, False) \<Longrightarrow> 0 < inWaitFor c \<Longrightarrow> cstep (c, l) (Inr (GetChar_P t c, l))"
| getEnd: "inLock c = Some (t, True) \<Longrightarrow> GetChar_end c = (ch, c') \<Longrightarrow>
    cstep (c, l) (Inr (c', if ch = EOF_char then l\<lparr>eofs := eofs l + 1\<rparr> else l\<lparr>got := got l @ [ch]\<rparr>))"
| putBegin: "outLock c = None \<Longrightarrow> cstep (c, l) (bind_run (PutChar_begin t ch c) (\<lambda>c. Inr (c, l\<lparr>put := put l @ [ch]\<rparr>)))"
| putEnd: "outLock c = Some (t, False) \<Longrightarrow> 0 < outWaitFor c \<Longrightarrow> cstep (c, l) (Inr (PutChar_end c, l))"

definition no_conlog :: conlog where
  "no_conlog = \<lparr>typed = [], got = [], eofs = 0, put = []\<rparr>"

inductive creach :: "condev \<times> conlog \<Rightarrow> bool" where
  start: "creach (SynchConsole_new, no_conlog)"
| step: "creach s \<Longrightarrow> cstep s (Inr s') \<Longrightarrow> creach s'"

section \<open>The invariant\<close>

definition in_flight :: "condev \<Rightarrow> 8 word list" where
  "in_flight c = (if incoming c \<noteq> EOF_char then [incoming c] else []) @ keyboard c"

definition passed :: "(nat \<times> bool) option \<Rightarrow> int" where
  "passed lk = (case lk of Some (_, True) \<Rightarrow> 1 | _ \<Rightarrow> 0)"

text \<open>
  The input has exactly one token: a pending interrupt, an announced character, a thread that has been told of it, or the end of the
  input, which is announced once.  The output has one while a thread is in \<open>PutChar\<close>.
\<close>

definition told :: "condev \<Rightarrow> int" where
  "told c = inWaitFor c + passed (inLock c)"

definition tokens_ok :: "condev \<times> conlog \<Rightarrow> bool" where
  "tokens_ok s \<longleftrightarrow> 0 \<le> inWaitFor (fst s) \<and> told (fst s) + int (readInts (fst s)) + int (eofs (snd s)) = 1 \<and>
     (incoming (fst s) \<noteq> EOF_char \<longrightarrow> told (fst s) = 1)"

definition order_ok :: "condev \<times> conlog \<Rightarrow> bool" where
  "order_ok s \<longleftrightarrow> typed (snd s) = got (snd s) @ in_flight (fst s) \<and>
     (told (fst s) + int (eofs (snd s)) = 1 \<and> incoming (fst s) = EOF_char \<longrightarrow> closed (fst s) \<and> keyboard (fst s) = [])"

definition out_ok :: "condev \<times> conlog \<Rightarrow> bool" where
  "out_ok s \<longleftrightarrow>
     0 \<le> outWaitFor (fst s) \<and> int (writeInts (fst s)) + outWaitFor (fst s) = (if outLock (fst s) = None then 0 else 1) \<and>
     (putBusy (fst s) \<longleftrightarrow> 0 < writeInts (fst s)) \<and> display (fst s) = put (snd s)"

lemmas con_defs = told_def in_flight_def ConsoleInput_CallBack_def ConsoleInput_GetChar_def SynchConsoleInput_CallBack_def
  SynchConsoleOutput_CallBack_def ConsoleOutput_CallBack_def ConsoleOutput_PutChar_def PutChar_begin_def PutChar_end_def GetChar_lock_def
  GetChar_P_def GetChar_end_def PollFile_def

lemma passed_simps [simp]: "passed None = 0" "passed (Some (t, True)) = 1" "passed (Some (t, False)) = 0"
  by (simp_all add: passed_def)

lemma passed_nonneg: "0 \<le> passed lk" "passed lk \<le> 1"
  by (auto simp: passed_def split: option.splits prod.splits bool.splits)

lemma token_idle: "tokens_ok (c, l) \<Longrightarrow> 0 < readInts c \<Longrightarrow> told c = 0 \<and> eofs l = 0 \<and> readInts c = 1 \<and> incoming c = EOF_char"
  using passed_nonneg[of "inLock c"] unfolding tokens_ok_def told_def by auto

lemma runs_step: "cstep s r \<Longrightarrow> tokens_ok s \<Longrightarrow> out_ok s \<Longrightarrow> \<exists>s'. r = Inr s'"
proof (induction rule: cstep.induct)
  case (readInt c l)
  then show ?case using token_idle[OF readInt(2,1)] by (simp add: ConsoleInput_CallBack_def Let_def)
next
  case (putBegin c l t ch)
  then show ?case by (simp add: out_ok_def PutChar_begin_def ConsoleOutput_PutChar_def)
qed simp_all

lemma tokens_step: "cstep s (Inr s') \<Longrightarrow> tokens_ok s \<Longrightarrow> tokens_ok s'"
proof (induction s "Inr s' :: (condev \<times> conlog) run" rule: cstep.induct)
  case (readInt c l)
  have i: "told c = 0" "eofs l = 0" "readInts c = 1" "incoming c = EOF_char" using token_idle[OF readInt(3,1)] by simp_all
  then show ?case using readInt by (cases "keyboard c") (auto simp: tokens_ok_def con_defs Let_def split: if_splits)
qed (auto simp: tokens_ok_def con_defs run_simps ASSERT_def split: if_splits)

lemma out_step: "cstep s (Inr s') \<Longrightarrow> out_ok s \<Longrightarrow> out_ok s'"
  by (induction s "Inr s' :: (condev \<times> conlog) run" rule: cstep.induct)
    (auto simp: out_ok_def con_defs Let_def ASSERT_def split: if_splits list.splits)

lemma typed_step: "cstep s (Inr s') \<Longrightarrow> set (typed (snd s)) \<subseteq> set (typed (snd s'))"
  by (induction s "Inr s' :: (condev \<times> conlog) run" rule: cstep.induct) (auto simp: run_simps split: if_splits)

lemma order_step:
  "cstep s (Inr s') \<Longrightarrow> tokens_ok s \<Longrightarrow> order_ok s \<Longrightarrow> EOF_char \<notin> set (typed (snd s')) \<Longrightarrow> order_ok s'"
proof (induction s "Inr s' :: (condev \<times> conlog) run" rule: cstep.induct)
  case (readInt c l)
  have i: "told c = 0" "eofs l = 0" "readInts c = 1" "incoming c = EOF_char" using token_idle[OF readInt(3,1)] by simp_all
  have s': "snd s' = l" using readInt(2) by (auto simp: run_simps)
  then have "EOF_char \<notin> set (keyboard c)" using readInt(4,5) i by (auto simp: order_ok_def in_flight_def)
  then show ?case using readInt i by (cases "keyboard c") (auto simp: order_ok_def con_defs Let_def split: if_splits)
next
  case (getP c t l)
  then show ?case by (auto simp: order_ok_def con_defs)
qed (auto simp: order_ok_def tokens_ok_def con_defs run_simps Let_def split: if_splits)

lemma creach_ok: "creach s \<Longrightarrow> tokens_ok s \<and> out_ok s \<and> (EOF_char \<notin> set (typed (snd s)) \<longrightarrow> order_ok s)"
proof (induction rule: creach.induct)
  case start
  then show ?case by (simp add: tokens_ok_def out_ok_def order_ok_def con_defs SynchConsole_new_def no_conlog_def)
next
  case (step s s')
  then show ?case using tokens_step[OF step(2)] out_step[OF step(2)] order_step[OF step(2)] typed_step[OF step(2)] by blast
qed

lemma stopped_step:
  "cstep s (Inr s') \<Longrightarrow> tokens_ok s \<Longrightarrow> 0 < eofs (snd s) \<Longrightarrow> got (snd s') = got (snd s) \<and> eofs (snd s') = eofs (snd s)"
proof (induction s "Inr s' :: (condev \<times> conlog) run" rule: cstep.induct)
  case (getEnd c t ch c' l)
  then show ?case by (auto simp: tokens_ok_def con_defs)
qed (auto simp: run_simps)

section \<open>Properties\<close>

text \<open>
  C16: The synchronised console gives its threads two streams of characters, whatever the interleaving of threads, interrupts and keys.  No assertion of
  the devices fails.  The display shows the characters in the order of the calls of \<open>PutChar\<close>, each once.  As long as the
  byte 255 is not typed, the characters typed are those that calls of \<open>GetChar\<close> returned, in this order, then the one in the device,
  then those at the keyboard; and while a character has not been returned the input goes on: an interrupt that will read it is pending,
  or it has been announced to the next reader.
\<close>

theorem console_streams:
  assumes "creach (c, l)"
  shows "(\<forall>r. cstep (c, l) r \<longrightarrow> (\<exists>s'. r = Inr s')) \<and> display c = put l \<and>
    (EOF_char \<notin> set (typed l) \<longrightarrow> typed l = got l @ in_flight c \<and>
       (in_flight c \<noteq> [] \<longrightarrow> 0 < readInts c \<or> 0 < inWaitFor c \<or> (\<exists>t. inLock c = Some (t, True))))"
proof -
  have ok: "tokens_ok (c, l)" "out_ok (c, l)" "EOF_char \<notin> set (typed l) \<longrightarrow> order_ok (c, l)" using creach_ok[OF assms] by simp_all
  have a: "\<forall>r. cstep (c, l) r \<longrightarrow> (\<exists>s'. r = Inr s')" using runs_step ok(1,2) by blast
  have "0 < readInts c \<or> 0 < inWaitFor c \<or> (\<exists>t. inLock c = Some (t, True))" if "order_ok (c, l)" "in_flight c \<noteq> []"
  proof (cases "eofs l = 0")
    case True
    then have "told c + int (readInts c) = 1" using ok(1) by (simp add: tokens_ok_def)
    then show ?thesis by (auto simp: told_def passed_def split: option.splits prod.splits bool.splits)
  next
    case False
    then have "told c = 0" "eofs l = 1" using ok(1) passed_nonneg[of "inLock c"] by (auto simp: tokens_ok_def told_def)
    then have "incoming c = EOF_char" "keyboard c = []" using ok(1) that(1) by (auto simp: tokens_ok_def order_ok_def)
    then show ?thesis using that(2) by (simp add: in_flight_def)
  qed
  then show ?thesis using a ok by (auto simp: out_ok_def order_ok_def)
qed

text \<open>
  C40: \<open>EOF\<close> is returned once.  After a call of \<open>GetChar\<close> has returned \<open>EOF\<close>, at the end of the input or because the byte 255 was
  typed, which the device does not tell from its mark for an empty buffer, no later call ever returns, however many characters are typed.
\<close>

theorem input_stops_after_EOF:
  assumes "creach (c, l)" "0 < eofs l" "(\<lambda>s s'. cstep s (Inr s'))\<^sup>*\<^sup>* (c, l) (c', l')"
  shows "got l' = got l \<and> eofs l' = eofs l"
proof -
  have "got (snd s) = got l \<and> eofs (snd s) = eofs l \<and> creach s" if "(\<lambda>s s'. cstep s (Inr s'))\<^sup>*\<^sup>* (c, l) s" for s
    using that
  proof (induction rule: rtranclp_induct)
    case base
    then show ?case using assms(1) by simp
  next
    case (step s s')
    then show ?case using stopped_step[OF step(2)] creach_ok[of s] assms(2) creach.step[OF _ step(2)] by auto
  qed
  from this[OF assms(3)] show ?thesis by simp
qed

text \<open>An execution: the user types \<open>ch\<close> and \<open>A\<close>, and thread 1 reads a character.\<close>

definition typed_two :: "8 word \<Rightarrow> condev" where
  "typed_two ch = SynchConsole_new\<lparr>keyboard := [ch, 65]\<rparr>"

definition two_log :: "8 word \<Rightarrow> conlog" where
  "two_log ch = no_conlog\<lparr>typed := [ch, 65]\<rparr>"

definition read_one :: "8 word \<Rightarrow> condev" where
  "read_one ch = snd (GetChar_end (GetChar_P 1 (GetChar_lock 1 (SynchConsole_new\<lparr>keyboard := [65], readInts := 0, incoming := ch, charsRead := 1, inWaitFor := 1\<rparr>))))"

lemma read_one_reach: "creach (read_one ch, if ch = EOF_char then two_log ch\<lparr>eofs := 1\<rparr> else two_log ch\<lparr>got := [ch]\<rparr>)"
proof -
  let ?c = "SynchConsole_new\<lparr>keyboard := [65], readInts := 0, incoming := ch, charsRead := 1, inWaitFor := 1\<rparr>"
  have "creach (SynchConsole_new\<lparr>keyboard := [ch]\<rparr>, no_conlog\<lparr>typed := [ch]\<rparr>)"
    using creach.step[OF creach.start cstep.press[of SynchConsole_new no_conlog ch]] by (simp add: SynchConsole_new_def no_conlog_def)
  from creach.step[OF this cstep.press[of _ _ 65]] have "creach (typed_two ch, two_log ch)"
    by (simp add: typed_two_def two_log_def SynchConsole_new_def no_conlog_def)
  from creach.step[OF this] cstep.readInt[of "typed_two ch" "two_log ch"] have "creach (?c, two_log ch)"
    by (simp add: typed_two_def ConsoleInput_CallBack_def SynchConsoleInput_CallBack_def PollFile_def SynchConsole_new_def Let_def)
  from creach.step[OF this cstep.getLock] have "creach (GetChar_lock 1 ?c, two_log ch)" by (simp add: SynchConsole_new_def)
  from creach.step[OF this cstep.getP[of _ 1]] have r: "creach (GetChar_P 1 (GetChar_lock 1 ?c), two_log ch)" by (simp add: GetChar_lock_def)
  have e: "GetChar_end (GetChar_P 1 (GetChar_lock 1 ?c)) = (ch, read_one ch)"
    by (simp add: read_one_def GetChar_end_def ConsoleInput_GetChar_def GetChar_P_def GetChar_lock_def)
  from creach.step[OF r cstep.getEnd[OF _ e, of 1]] show ?thesis
    by (simp add: GetChar_P_def two_log_def no_conlog_def split: if_splits)
qed

theorem console_streams_witness:
  "creach (read_one 7, two_log 7\<lparr>got := [7]\<rparr>) \<and> in_flight (read_one 7) = [65] \<and>
   (0 < readInts (read_one 7) \<or> 0 < inWaitFor (read_one 7) \<or> (\<exists>t. inLock (read_one 7) = Some (t, True)))"
proof -
  have r: "creach (read_one 7, two_log 7\<lparr>got := [7]\<rparr>)" using read_one_reach[of 7] by (simp add: EOF_char_def)
  have "EOF_char \<notin> set (typed (two_log 7\<lparr>got := [7]\<rparr>))" by (simp add: two_log_def EOF_char_def)
  then have f: "typed (two_log 7\<lparr>got := [7]\<rparr>) = [7] @ in_flight (read_one 7)"
    and g: "in_flight (read_one 7) \<noteq> [] \<longrightarrow> 0 < readInts (read_one 7) \<or> 0 < inWaitFor (read_one 7) \<or> (\<exists>t. inLock (read_one 7) = Some (t, True))"
    using console_streams[OF r] by simp_all
  have f: "in_flight (read_one 7) = [65]" using f by (simp add: two_log_def)
  with g have "0 < readInts (read_one 7) \<or> 0 < inWaitFor (read_one 7) \<or> (\<exists>t. inLock (read_one 7) = Some (t, True))" by simp
  with r f show ?thesis by blast
qed

theorem input_stops_after_EOF_witness:
  "creach (read_one EOF_char, two_log EOF_char\<lparr>eofs := 1\<rparr>) \<and> \<not> closed (read_one EOF_char) \<and> keyboard (read_one EOF_char) = [65] \<and>
   (\<exists>c' l'. (\<lambda>s s'. cstep s (Inr s'))\<^sup>*\<^sup>* (read_one EOF_char, two_log EOF_char\<lparr>eofs := 1\<rparr>) (c', l') \<and> typed l' = [EOF_char, 65, 66] \<and> got l' = [])"
proof -
  let ?c = "read_one EOF_char" and ?l = "two_log EOF_char\<lparr>eofs := 1\<rparr>"
  have r: "creach (?c, ?l)" using read_one_reach[of EOF_char] by simp
  have c: "\<not> closed ?c" "keyboard ?c = [65]"
    by (simp_all add: read_one_def GetChar_end_def ConsoleInput_GetChar_def GetChar_P_def GetChar_lock_def SynchConsole_new_def)
  have s: "(\<lambda>s s'. cstep s (Inr s'))\<^sup>*\<^sup>* (?c, ?l) (?c\<lparr>keyboard := keyboard ?c @ [66]\<rparr>, ?l\<lparr>typed := typed ?l @ [66]\<rparr>)"
    using cstep.press[OF c(1), of ?l 66] by (rule r_into_rtranclp)
  have "got (?l\<lparr>typed := typed ?l @ [66]\<rparr>) = []" using input_stops_after_EOF[OF r _ s] by (simp add: two_log_def no_conlog_def)
  then show ?thesis using r c s by (fastforce simp: two_log_def)
qed

end
