(* ===== verification/PostOffice.thy ===== *)
theory PostOffice
  imports DiskFiles
begin

text \<open>
  The network device (\<^verbatim>\<open>machine/network.cc\<close>) and the post office (\<^verbatim>\<open>network/post.cc\<close>).

  Several machines run the same code.  A socket of the host system is the queue of the packets that were sent to it and not yet
  read; a packet to a machine that is not there is lost, and a packet is also lost when \<open>RandomNumber\<close> says so (argument \<open>works\<close>).  The interrupt that says that
  a packet has been sent is pending after \<open>Send\<close>; the one that looks for a packet is always pending.  A mailbox is a
  synchronised list, whose operations are atomic by the theory of monitors.  \<open>junk\<close> is what \<open>new\<close> leaves in a buffer.
\<close>

section \<open>Packets and messages\<close>

record PacketHeader =
  pto :: "32 word"
  pfrom :: "32 word"
  plength :: "32 word"

record MailHeader =
  mto :: "32 word"
  mfrom :: "32 word"
  mlength :: "32 word"

record Mail =
  pktHdr :: PacketHeader
  mailHdr :: MailHeader
  mdata :: bytes

definition MaxWireSize :: nat where "MaxWireSize = 64"
definition MaxPacketSize :: nat where "MaxPacketSize = MaxWireSize - 12"
definition MaxMailSize :: nat where "MaxMailSize = MaxPacketSize - 12"

definition pkt_bytes :: "PacketHeader \<Rightarrow> bytes" where
  "pkt_bytes h = words_bytes [pto h, pfrom h, plength h]"

definition bytes_pkt :: "bytes \<Rightarrow> PacketHeader" where
  "bytes_pkt bs = (let ws = bytes_words 3 bs in \<lparr>pto = ws ! 0, pfrom = ws ! 1, plength = ws ! 2\<rparr>)"

definition mail_bytes :: "MailHeader \<Rightarrow> bytes" where
  "mail_bytes h = words_bytes [mto h, mfrom h, mlength h]"

definition bytes_mail :: "bytes \<Rightarrow> MailHeader" where
  "bytes_mail bs = (let ws = bytes_words 3 bs in \<lparr>mto = ws ! 0, mfrom = ws ! 1, mlength = ws ! 2\<rparr>)"

text \<open>\<open>bcopy\<close> of \<open>n\<close> bytes.\<close>

definition bcopy :: "bytes \<Rightarrow> nat \<Rightarrow> bytes run" where
  "bcopy src n = (if n \<le> length src then Inr (take n src) else Inl OutOfBounds)"

definition Mail_new :: "PacketHeader \<Rightarrow> MailHeader \<Rightarrow> bytes \<Rightarrow> Mail run" where
  "Mail_new pktH mailH msgData =
     ASSERT (unat (mlength mailH) \<le> MaxMailSize)
      (bind_run (bcopy msgData (unat (mlength mailH))) (\<lambda>bs. Inr \<lparr>pktHdr = pktH, mailHdr = mailH, mdata = bs\<rparr>))"

text \<open>The message in a packet or in a buffer.\<close>

definition payload :: "PacketHeader \<Rightarrow> bytes \<Rightarrow> Mail" where
  "payload pkt bs = \<lparr>pktHdr = pkt, mailHdr = bytes_mail bs, mdata = take (unat (mlength (bytes_mail bs))) (drop 12 bs)\<rparr>"

section \<open>The machines\<close>

record netdev =
  inHdr :: PacketHeader
  inbox :: bytes
  sendBusy :: bool
  sendInts :: nat
  messageAvailable :: int
  workerBuffer :: bytes
  boxes :: "Mail list list"
  messageSent :: int
  sendLock :: bool
  packetsSent :: int
  packetsRecvd :: int

record network =
  hosts :: "32 word \<Rightarrow> netdev option"
  wires :: "32 word \<Rightarrow> bytes list"

definition SendToSocket :: "bytes \<Rightarrow> 32 word \<Rightarrow> network \<Rightarrow> network" where
  "SendToSocket buffer to n = (if hosts n to = None then n else n\<lparr>wires := (wires n)(to := wires n to @ [buffer])\<rparr>)"

definition set_dev :: "32 word \<Rightarrow> netdev \<Rightarrow> network \<Rightarrow> network" where
  "set_dev h d n = n\<lparr>hosts := (hosts n)(h \<mapsto> d)\<rparr>"

definition NetworkInput_CallBack :: "32 word \<Rightarrow> netdev \<Rightarrow> network \<Rightarrow> network run" where
  "NetworkInput_CallBack hostName d n =
     (if plength (inHdr d) \<noteq> 0 then Inr n
      else case wires n hostName of [] \<Rightarrow> Inr n
      | buffer # rest \<Rightarrow>
          ASSERT (length buffer = MaxWireSize)
           (let pkt = bytes_pkt buffer in
            ASSERT (pto pkt = hostName \<and> unat (plength pkt) \<le> MaxPacketSize)
             (bind_run (bcopy (drop 12 buffer) (unat (plength pkt))) (\<lambda>bs.
              Inr (set_dev hostName (d\<lparr>inHdr := pkt, inbox := overwrite (inbox d) 0 bs, packetsRecvd := packetsRecvd d + 1, messageAvailable := messageAvailable d + 1\<rparr>)
                (n\<lparr>wires := (wires n)(hostName := rest)\<rparr>))))))"

definition NetworkInput_Receive :: "netdev \<Rightarrow> bytes \<Rightarrow> (PacketHeader \<times> bytes \<times> netdev) run" where
  "NetworkInput_Receive d data =
     (let pkt = inHdr d; d = d\<lparr>inHdr := (inHdr d)\<lparr>plength := 0\<rparr>\<rparr> in
      if plength pkt \<noteq> 0 then bind_run (bcopy (inbox d) (unat (plength pkt))) (\<lambda>bs. Inr (pkt, overwrite data 0 bs, d))
      else Inr (pkt, data, d))"

definition NetworkOutput_Send :: "bool \<Rightarrow> (nat \<Rightarrow> 8 word) \<Rightarrow> 32 word \<Rightarrow> netdev \<Rightarrow> PacketHeader \<Rightarrow> bytes \<Rightarrow> network \<Rightarrow> network run" where
  "NetworkOutput_Send works junk hostName d pkt data n =
     ASSERT (\<not> sendBusy d \<and> 0 < unat (plength pkt) \<and> unat (plength pkt) \<le> MaxPacketSize \<and> pfrom pkt = hostName)
      (let n = set_dev hostName (d\<lparr>sendInts := sendInts d + 1\<rparr>) n in
       if \<not> works then Inr n
       else bind_run (bcopy data (unat (plength pkt))) (\<lambda>bs.
         Inr (SendToSocket (overwrite (map junk [0..<MaxWireSize]) 0 (pkt_bytes pkt @ bs)) (pto pkt) n)))"

definition NetworkOutput_CallBack :: "netdev \<Rightarrow> netdev" where
  "NetworkOutput_CallBack d = d\<lparr>sendInts := sendInts d - 1, sendBusy := False, packetsSent := packetsSent d + 1, messageSent := messageSent d + 1\<rparr>"

section \<open>The post office\<close>

definition PostOffice_new :: "bytes \<Rightarrow> bytes \<Rightarrow> nat \<Rightarrow> netdev" where
  "PostOffice_new junk_in junk_buf nBoxes = \<lparr>inHdr = \<lparr>pto = 0, pfrom = 0, plength = 0\<rparr>, inbox = junk_in, sendBusy = False, sendInts = 0,
     messageAvailable = 0, workerBuffer = junk_buf, boxes = replicate nBoxes [], messageSent = 0, sendLock = False, packetsSent = 0, packetsRecvd = 0\<rparr>"

definition MailBox_Put :: "nat \<Rightarrow> PacketHeader \<Rightarrow> MailHeader \<Rightarrow> bytes \<Rightarrow> netdev \<Rightarrow> netdev run" where
  "MailBox_Put b pktH mailH data d =
     bind_run (Mail_new pktH mailH data) (\<lambda>mail. bind_run (get_at (boxes d) (int b)) (\<lambda>ms. Inr (d\<lparr>boxes := (boxes d)[b := ms @ [mail]]\<rparr>)))"

text \<open>One round of the postal worker, after \<open>P\<close> on \<open>messageAvailable\<close>.\<close>

definition PostalDelivery :: "netdev \<Rightarrow> netdev run" where
  "PostalDelivery d =
     bind_run (NetworkInput_Receive (d\<lparr>messageAvailable := messageAvailable d - 1\<rparr>) (workerBuffer d)) (\<lambda>(pktH, buffer, d).
     let mailH = bytes_mail buffer; d = d\<lparr>workerBuffer := buffer\<rparr> in
     ASSERT (0 \<le> sint (mto mailH) \<and> sint (mto mailH) < int (length (boxes d)))
      (ASSERT (unat (mlength mailH) \<le> MaxMailSize)
        (MailBox_Put (nat (sint (mto mailH))) pktH mailH (drop 12 buffer) d)))"

text \<open>\<open>Get\<close> takes the first message of a box; while the box is empty the caller waits, which is the value \<open>Diverges\<close>.\<close>

definition MailBox_Get :: "nat \<Rightarrow> netdev \<Rightarrow> (Mail \<times> netdev) run" where
  "MailBox_Get b d = bind_run (get_at (boxes d) (int b)) (\<lambda>ms.
     case ms of [] \<Rightarrow> Inl Diverges
     | mail # rest \<Rightarrow> bind_run (bcopy (mdata mail) (unat (mlength (mailHdr mail)))) (\<lambda>data. Inr (mail\<lparr>mdata := data\<rparr>, d\<lparr>boxes := (boxes d)[b := rest]\<rparr>)))"

definition PostOfficeInput_Receive :: "int \<Rightarrow> netdev \<Rightarrow> (Mail \<times> netdev) run" where
  "PostOfficeInput_Receive box d =
     ASSERT (0 \<le> box \<and> box < int (length (boxes d)))
      (bind_run (MailBox_Get (nat box) d) (\<lambda>(mail, d). ASSERT (unat (mlength (mailHdr mail)) \<le> MaxMailSize) (Inr (mail, d))))"

text \<open>\<open>Send\<close> up to the \<open>P\<close> on \<open>messageSent\<close>; the lock is free.\<close>

definition PostOfficeOutput_Send :: "bool \<Rightarrow> (nat \<Rightarrow> 8 word) \<Rightarrow> 32 word \<Rightarrow> netdev \<Rightarrow> PacketHeader \<Rightarrow> MailHeader \<Rightarrow> bytes \<Rightarrow> network \<Rightarrow> network run" where
  "PostOfficeOutput_Send works junk hostName d pktH mailH data n =
     ASSERT (unat (mlength mailH) \<le> MaxMailSize) (ASSERT (0 \<le> sint (mto mailH))
      (let pktH = pktH\<lparr>pfrom := hostName, plength := mlength mailH + 12\<rparr> in
       bind_run (bcopy data (unat (mlength mailH))) (\<lambda>bs.
       let buffer = overwrite (map junk [0..<MaxPacketSize]) 0 (mail_bytes mailH @ bs) in
       NetworkOutput_Send works junk hostName (d\<lparr>sendLock := True\<rparr>) pktH buffer n)))"

definition PostOfficeOutput_Sent :: "netdev \<Rightarrow> netdev" where
  "PostOfficeOutput_Sent d = d\<lparr>messageSent := messageSent d - 1, sendLock := False\<rparr>"

section \<open>Executions\<close>

text \<open>
  The machines take steps in any order.  The log says which messages were put on the wire to a machine, which of them the postal worker has sorted, and
  which were received from a box.
\<close>

record mlog =
  gSent :: "32 word \<Rightarrow> Mail list"
  gSorted :: "32 word \<Rightarrow> Mail list"
  gTaken :: "32 word \<Rightarrow> int \<Rightarrow> Mail list"

definition the_mail :: "32 word \<Rightarrow> PacketHeader \<Rightarrow> MailHeader \<Rightarrow> bytes \<Rightarrow> Mail" where
  "the_mail hostName pktH mailH data =
     \<lparr>pktHdr = pktH\<lparr>pfrom := hostName, plength := mlength mailH + 12\<rparr>, mailHdr = mailH, mdata = take (unat (mlength mailH)) data\<rparr>"

text \<open>What a client of \<open>Send\<close> must do: a message that is not too long, for a box that the receiver has.\<close>

definition request_ok :: "network \<Rightarrow> PacketHeader \<Rightarrow> MailHeader \<Rightarrow> bytes \<Rightarrow> bool" where
  "request_ok n pktH mailH data \<longleftrightarrow> unat (mlength mailH) \<le> MaxMailSize \<and> unat (mlength mailH) \<le> length data \<and> 0 \<le> sint (mto mailH) \<and>
     (\<forall>d. hosts n (pto pktH) = Some d \<longrightarrow> sint (mto mailH) < int (length (boxes d)))"

inductive nstep :: "network \<times> mlog \<Rightarrow> (network \<times> mlog) run \<Rightarrow> bool" where
  send: "hosts n h = Some d \<Longrightarrow> \<not> sendLock d \<Longrightarrow> request_ok n pktH mailH data \<Longrightarrow>
    l' = (if works \<and> hosts n (pto pktH) \<noteq> None then l\<lparr>gSent := (gSent l)(pto pktH := gSent l (pto pktH) @ [the_mail h pktH mailH data])\<rparr> else l) \<Longrightarrow>
    nstep (n, l) (bind_run (PostOfficeOutput_Send works junk h d pktH mailH data n) (\<lambda>n. Inr (n, l')))"
| sendInt: "hosts n h = Some d \<Longrightarrow> 0 < sendInts d \<Longrightarrow> nstep (n, l) (Inr (set_dev h (NetworkOutput_CallBack d) n, l))"
| sent: "hosts n h = Some d \<Longrightarrow> sendLock d \<Longrightarrow> 0 < messageSent d \<Longrightarrow> nstep (n, l) (Inr (set_dev h (PostOfficeOutput_Sent d) n, l))"
| recvInt: "hosts n h = Some d \<Longrightarrow> nstep (n, l) (bind_run (NetworkInput_CallBack h d n) (\<lambda>n. Inr (n, l)))"
| deliver: "hosts n h = Some d \<Longrightarrow> 0 < messageAvailable d \<Longrightarrow>
    nstep (n, l) (bind_run (PostalDelivery d) (\<lambda>d'. Inr (set_dev h d' n,
      l\<lparr>gSorted := (gSorted l)(h := gSorted l h @ [payload (inHdr d) (workerBuffer d')])\<rparr>)))"
| receive: "hosts n h = Some d \<Longrightarrow> 0 \<le> b \<Longrightarrow> b < int (length (boxes d)) \<Longrightarrow> boxes d ! nat b \<noteq> [] \<Longrightarrow>
    nstep (n, l) (bind_run (PostOfficeInput_Receive b d) (\<lambda>(mail, d'). Inr (set_dev h d' n, l\<lparr>gTaken := (gTaken l)(h := (gTaken l h)(b := gTaken l h b @ [mail]))\<rparr>)))"

definition no_log :: mlog where
  "no_log = \<lparr>gSent = (\<lambda>_. []), gSorted = (\<lambda>_. []), gTaken = (\<lambda>_ _. [])\<rparr>"

definition started :: "network \<Rightarrow> bool" where
  "started n \<longleftrightarrow> wires n = (\<lambda>_. []) \<and> (\<forall>h d. hosts n h = Some d \<longrightarrow>
     (\<exists>ji jb nBoxes. d = PostOffice_new ji jb nBoxes \<and> length ji = MaxPacketSize \<and> length jb = MaxPacketSize))"

inductive nreach :: "network \<times> mlog \<Rightarrow> bool" where
  start: "started n \<Longrightarrow> nreach (n, no_log)"
| step: "nreach s \<Longrightarrow> nstep s (Inr s') \<Longrightarrow> nreach s'"

section \<open>Bytes of a message\<close>

lemmas post_consts = MaxWireSize_def MaxPacketSize_def MaxMailSize_def

lemma words3: "bytes_words 3 (words_bytes [a, b, c] @ bs) = [a, b, c]"
proof (rule nth_equalityI)
  fix i assume "i < length (bytes_words 3 (words_bytes [a, b, c] @ bs))"
  then have i: "i < 3" by (simp add: bytes_words_def)
  have l: "length (words_bytes [a, b, c]) = 12" by simp
  have "take 4 (drop (4 * i) (words_bytes [a, b, c] @ bs)) = take 4 (drop (4 * i) (words_bytes [a, b, c]))"
    using i l by simp
  also have "\<dots> = int_bytes ([a, b, c] ! i)" using i by (intro take_words_bytes) simp
  finally show "bytes_words 3 (words_bytes [a, b, c] @ bs) ! i = [a, b, c] ! i" using i by (simp add: bytes_words_def)
qed (simp add: bytes_words_def)

lemma bytes_pkt_bytes: "bytes_pkt (pkt_bytes h @ bs) = h" "length (pkt_bytes h) = 12"
  by (simp_all add: bytes_pkt_def pkt_bytes_def words3 del: length_words_bytes) simp

lemma bytes_mail_bytes: "bytes_mail (mail_bytes h @ bs) = h" "length (mail_bytes h) = 12"
  by (simp_all add: bytes_mail_def mail_bytes_def words3 del: length_words_bytes) simp

lemma overwrite_front: "length bs \<le> length c \<Longrightarrow> overwrite c 0 bs = bs @ drop (length bs) c"
  by (simp add: overwrite_def)

definition payload_ok :: "nat \<Rightarrow> 32 word \<Rightarrow> PacketHeader \<Rightarrow> bytes \<Rightarrow> bool" where
  "payload_ok nb h pkt bs \<longleftrightarrow> pto pkt = h \<and> length bs = MaxPacketSize \<and> 0 \<le> sint (mto (bytes_mail bs)) \<and> sint (mto (bytes_mail bs)) < int nb \<and>
     unat (mlength (bytes_mail bs)) \<le> MaxMailSize \<and> unat (plength pkt) = unat (mlength (bytes_mail bs)) + 12"

lemma unat_length: "unat w \<le> MaxMailSize \<Longrightarrow> unat (w + 12 :: 32 word) = unat w + 12"
  by (simp add: post_consts unat_word_ariths unat_arith_simps)

text \<open>Only the bytes that the header counts matter.\<close>

lemma take_in_prefix: "a + m \<le> k \<Longrightarrow> k \<le> length bs \<Longrightarrow> take m (drop a (take k bs @ xs)) = take m (drop a bs)"
  by (rule nth_equalityI) (auto simp: nth_append)

lemma mail_prefix:
  assumes "12 \<le> k" "k \<le> length bs"
  shows "bytes_mail (take k bs @ xs) = bytes_mail bs"
proof -
  have "bytes_words 3 (take k bs @ xs) = bytes_words 3 bs"
  proof (rule nth_equalityI)
    fix i assume "i < length (bytes_words 3 (take k bs @ xs))"
    then have i: "i < 3" by (simp add: bytes_words_def)
    then have "4 * i + 4 \<le> k" using assms(1) by linarith
    then have "take 4 (drop (4 * i) (take k bs @ xs)) = take 4 (drop (4 * i) bs)" using assms(2) by (rule take_in_prefix)
    then show "bytes_words 3 (take k bs @ xs) ! i = bytes_words 3 bs ! i" using i by (simp add: bytes_words_def)
  qed (simp add: bytes_words_def)
  then show ?thesis by (simp add: bytes_mail_def)
qed

lemma payload_prefix:
  assumes "12 \<le> k" "k \<le> length bs" "unat (mlength (bytes_mail bs)) + 12 \<le> k"
  shows "bytes_mail (take k bs @ xs) = bytes_mail bs"
    "take (unat (mlength (bytes_mail bs))) (drop 12 (take k bs @ xs)) = take (unat (mlength (bytes_mail bs))) (drop 12 bs)"
  using mail_prefix[OF assms(1,2)] assms take_in_prefix[of 12 "unat (mlength (bytes_mail bs))" k bs xs] by simp_all

section \<open>The invariant\<close>

definition good_wire :: "nat \<Rightarrow> 32 word \<Rightarrow> bytes \<Rightarrow> bool" where
  "good_wire nb h b \<longleftrightarrow> length b = MaxWireSize \<and> payload_ok nb h (bytes_pkt b) (drop 12 b)"

definition in_inbox :: "netdev \<Rightarrow> Mail list" where
  "in_inbox d = (if plength (inHdr d) \<noteq> 0 then [payload (inHdr d) (inbox d)] else [])"

definition dev_ok :: "network \<Rightarrow> mlog \<Rightarrow> 32 word \<Rightarrow> netdev \<Rightarrow> bool" where
  "dev_ok n l h d \<longleftrightarrow> length (inbox d) = MaxPacketSize \<and> length (workerBuffer d) = MaxPacketSize \<and> \<not> sendBusy d \<and>
     int (sendInts d) + messageSent d = (if sendLock d then 1 else 0) \<and> 0 \<le> messageSent d \<and>
     messageAvailable d = (if plength (inHdr d) \<noteq> 0 then 1 else 0) \<and>
     (plength (inHdr d) \<noteq> 0 \<longrightarrow> payload_ok (length (boxes d)) h (inHdr d) (inbox d)) \<and>
     (\<forall>b \<in> set (wires n h). good_wire (length (boxes d)) h b) \<and>
     gSent l h = gSorted l h @ in_inbox d @ map (\<lambda>b. payload (bytes_pkt b) (drop 12 b)) (wires n h) \<and>
     (\<forall>m \<in> set (gSorted l h). unat (mlength (mailHdr m)) \<le> MaxMailSize \<and> length (mdata m) = unat (mlength (mailHdr m))) \<and>
     (\<forall>b. 0 \<le> b \<and> b < int (length (boxes d)) \<longrightarrow> filter (\<lambda>m. sint (mto (mailHdr m)) = b) (gSorted l h) = gTaken l h b @ boxes d ! nat b)"

definition ninv :: "network \<times> mlog \<Rightarrow> bool" where
  [inv_defs]: "ninv s \<longleftrightarrow> (\<forall>h d. hosts (fst s) h = Some d \<longrightarrow> dev_ok (fst s) (snd s) h d)"

lemma ninv_start: "started n \<Longrightarrow> ninv (n, no_log)"
  by (fastforce simp: ninv_def started_def dev_ok_def PostOffice_new_def no_log_def in_inbox_def)

lemma dev_ok_frame:
  assumes "wires n' h = wires n h" "gSent l' h = gSent l h" "gSorted l' h = gSorted l h" "gTaken l' h = gTaken l h"
  shows "dev_ok n' l' h d = dev_ok n l h d"
  using assms by (simp add: dev_ok_def)

lemma ninv_step:
  assumes "ninv (n, l)" "dev_ok n' l' h d'" "hosts n' = (hosts n)(h \<mapsto> d')"
    "\<And>g. g \<noteq> h \<Longrightarrow> wires n' g = wires n g \<and> gSent l' g = gSent l g \<and> gSorted l' g = gSorted l g \<and> gTaken l' g = gTaken l g"
  shows "ninv (n', l')"
  unfolding ninv_def fst_conv snd_conv
proof (intro allI impI)
  fix g d assume g: "hosts n' g = Some d"
  show "dev_ok n' l' g d"
  proof (cases "g = h")
    case True
    then show ?thesis using g assms(2,3) by simp
  next
    case False
    then have "dev_ok n l g d" using g assms(1,3) by (simp add: ninv_def)
    then show ?thesis using dev_ok_frame[of n' g n l' l d] assms(4)[OF False] by simp
  qed
qed

section \<open>Sending\<close>

definition wire_of :: "(nat \<Rightarrow> 8 word) \<Rightarrow> Mail \<Rightarrow> bytes" where
  "wire_of junk m = pkt_bytes (pktHdr m) @ mail_bytes (mailHdr m) @ mdata m @ drop (24 + length (mdata m)) (map junk [0..<MaxWireSize])"

lemma Send_eq:
  assumes "request_ok n pktH mailH data" "\<not> sendBusy d"
  shows "PostOfficeOutput_Send works junk h d pktH mailH data n =
    Inr (let n1 = set_dev h (d\<lparr>sendLock := True, sendInts := sendInts d + 1\<rparr>) n in
      if works then SendToSocket (wire_of junk (the_mail h pktH mailH data)) (pto pktH) n1 else n1)"
proof -
  let ?k = "unat (mlength mailH)" and ?p = "pktH\<lparr>pfrom := h, plength := mlength mailH + 12\<rparr>" and ?bs = "take (unat (mlength mailH)) data"
  have k: "?k \<le> MaxMailSize" "?k \<le> length data" "0 \<le> sint (mto mailH)" using assms(1) by (auto simp: request_ok_def)
  have pl: "unat (plength ?p) = ?k + 12" using unat_length[OF k(1)] by simp
  have lb: "length ?bs = ?k" using k(2) by simp
  let ?b = "overwrite (map junk [0..<MaxPacketSize]) 0 (mail_bytes mailH @ ?bs)"
  have b: "?b = mail_bytes mailH @ ?bs @ drop (12 + ?k) (map junk [0..<MaxPacketSize])"
    using k(1) lb by (subst overwrite_front) (simp_all add: bytes_mail_bytes post_consts)
  have tb: "bcopy ?b (?k + 12) = Inr (mail_bytes mailH @ ?bs)"
    using k(1) lb unfolding b bcopy_def by (simp add: bytes_mail_bytes post_consts)
  have w: "overwrite (map junk [0..<MaxWireSize]) 0 (pkt_bytes ?p @ mail_bytes mailH @ ?bs) = wire_of junk (the_mail h pktH mailH data)"
    using k(1) lb by (subst overwrite_front) (simp_all add: bytes_mail_bytes bytes_pkt_bytes post_consts wire_of_def the_mail_def)
  have c: "bcopy data ?k = Inr ?bs" using k(2) by (simp add: bcopy_def)
  have g: "\<not> sendBusy (d\<lparr>sendLock := True\<rparr>) \<and> 0 < unat (plength ?p) \<and> unat (plength ?p) \<le> MaxPacketSize \<and> pfrom ?p = h"
    unfolding pl using assms(2) k(1) by (simp add: post_consts)
  show ?thesis unfolding PostOfficeOutput_Send_def Let_def NetworkOutput_Send_def
    using k g by (simp only: ASSERT_True c bind_run_Inr pl tb w simp_thms) (simp add: k c tb w)
qed

lemma wire_facts:
  fixes h :: "32 word"
  assumes "request_ok n pktH mailH data" "hosts n (pto pktH) = Some d"
  defines "m \<equiv> the_mail h pktH mailH data"
  shows "good_wire (length (boxes d)) (pto pktH) (wire_of junk m)" "payload (bytes_pkt (wire_of junk m)) (drop 12 (wire_of junk m)) = m"
proof -
  let ?k = "unat (mlength mailH)"
  have k: "?k \<le> MaxMailSize" "?k \<le> length data" "0 \<le> sint (mto mailH)" "sint (mto mailH) < int (length (boxes d))"
    using assms(1,2) by (auto simp: request_ok_def)
  have e: "bytes_pkt (wire_of junk m) = pktHdr m" "drop 12 (wire_of junk m) = mail_bytes mailH @ take ?k data @ drop (24 + ?k) (map junk [0..<MaxWireSize])"
    using k(2) by (simp_all add: wire_of_def bytes_pkt_bytes m_def the_mail_def)
  have b: "bytes_mail (drop 12 (wire_of junk m)) = mailH" unfolding e(2) by (rule bytes_mail_bytes)
  have t: "take ?k (drop 12 (drop 12 (wire_of junk m))) = take ?k data" unfolding e(2) using k(2) by (simp add: bytes_mail_bytes)
  have l: "length (wire_of junk m) = MaxWireSize" using k(1,2) by (simp add: wire_of_def bytes_pkt_bytes bytes_mail_bytes m_def the_mail_def post_consts)
  show "good_wire (length (boxes d)) (pto pktH) (wire_of junk m)"
    unfolding good_wire_def payload_ok_def b e(1) using l k unat_length[OF k(1)] by (simp add: m_def the_mail_def post_consts)
  show "payload (bytes_pkt (wire_of junk m)) (drop 12 (wire_of junk m)) = m"
    unfolding payload_def b e(1) t by (simp add: m_def the_mail_def)
qed

lemma dev_ok_send:
  assumes "dev_ok n l h d" "\<not> sendLock d"
  shows "dev_ok n l h (d\<lparr>sendLock := True, sendInts := sendInts d + 1\<rparr>)"
  using assms by (simp add: dev_ok_def in_inbox_def)

lemma step_send:
  assumes "ninv (n, l)" "hosts n h = Some d" "\<not> sendLock d" "request_ok n pktH mailH data"
    "l' = (if works \<and> hosts n (pto pktH) \<noteq> None then l\<lparr>gSent := (gSent l)(pto pktH := gSent l (pto pktH) @ [the_mail h pktH mailH data])\<rparr> else l)"
  shows "\<exists>n'. PostOfficeOutput_Send works junk h d pktH mailH data n = Inr n' \<and> ninv (n', l')"
proof -
  let ?d = "d\<lparr>sendLock := True, sendInts := sendInts d + 1\<rparr>" and ?w = "wire_of junk (the_mail h pktH mailH data)" and ?t = "pto pktH"
  define n1 where "n1 = set_dev h ?d n"
  have ok: "dev_ok n l h d" using assms(1,2) by (simp add: ninv_def)
  have i1: "ninv (n1, l)" by (rule ninv_step[OF assms(1), of n1 l h ?d]) (use dev_ok_send[OF ok assms(3)] in \<open>simp_all add: n1_def set_dev_def dev_ok_def\<close>)
  have "\<not> sendBusy d" using ok by (simp add: dev_ok_def)
  note eq = Send_eq[OF assms(4) this, of works junk h]
  show ?thesis
  proof (cases "works \<and> hosts n ?t \<noteq> None")
    case False
    then have "PostOfficeOutput_Send works junk h d pktH mailH data n = Inr n1"
      using eq assms(2) by (auto simp: Let_def SendToSocket_def n1_def set_dev_def split: if_splits)
    then show ?thesis using i1 assms(5) False by auto
  next
    case True
    then obtain dt where dt: "hosts n ?t = Some dt" by auto
    then obtain dt' where dt': "hosts n1 ?t = Some dt'" "length (boxes dt') = length (boxes dt)" using assms(2) by (cases "?t = h") (auto simp: n1_def set_dev_def)
    let ?n = "n1\<lparr>wires := (wires n1)(?t := wires n1 ?t @ [?w])\<rparr>"
    have e: "PostOfficeOutput_Send works junk h d pktH mailH data n = Inr ?n" using eq True dt'(1) by (simp add: Let_def SendToSocket_def n1_def)
    have dk: "dev_ok n1 l ?t dt'" using i1 dt'(1) by (simp add: ninv_def)
    note wf = wire_facts[OF assms(4) dt, of junk h]
    have "dev_ok ?n l' ?t dt'" using dk wf dt'(2) assms(5) True by (auto simp: dev_ok_def)
    moreover have "hosts ?n = (hosts n1)(?t \<mapsto> dt')" using dt'(1) by (auto simp: fun_eq_iff)
    ultimately have "ninv (?n, l')" using assms(5) True by (intro ninv_step[OF i1]) auto
    then show ?thesis using e by blast
  qed
qed

lemma step_recvInt:
  assumes "ninv (n, l)" "hosts n h = Some d"
  shows "\<exists>n'. NetworkInput_CallBack h d n = Inr n' \<and> ninv (n', l)"
proof (cases "plength (inHdr d) \<noteq> 0 \<or> wires n h = []")
  case True
  then show ?thesis using assms(1) by (auto simp: NetworkInput_CallBack_def)
next
  case False
  then obtain b rest where w: "wires n h = b # rest" by (cases "wires n h") auto
  have ok: "dev_ok n l h d" using assms by (simp add: ninv_def)
  have g: "length b = MaxWireSize" "payload_ok (length (boxes d)) h (bytes_pkt b) (drop 12 b)" using ok w by (auto simp: dev_ok_def good_wire_def)
  let ?k = "unat (plength (bytes_pkt b))" and ?db = "drop 12 b"
  have p: "pto (bytes_pkt b) = h" "unat (mlength (bytes_mail ?db)) \<le> MaxMailSize" "?k = unat (mlength (bytes_mail ?db)) + 12" using g(2) by (simp_all add: payload_ok_def)
  have k: "?k \<le> length ?db" "?k \<le> MaxPacketSize" using p(2,3) g(1) by (simp_all add: post_consts)
  have li: "length (inbox d) = MaxPacketSize" using ok by (simp add: dev_ok_def)
  let ?i = "overwrite (inbox d) 0 (take ?k ?db)"
  have i: "?i = take ?k ?db @ drop ?k (inbox d)" using k li by (subst overwrite_front) (simp_all add: min_def)
  have pr: "bytes_mail ?i = bytes_mail ?db" "take (unat (mlength (bytes_mail ?db))) (drop 12 ?i) = take (unat (mlength (bytes_mail ?db))) (drop 12 ?db)"
    unfolding i using payload_prefix[of ?k ?db "drop ?k (inbox d)"] k(1) p(3) by auto
  have ll: "length ?i = MaxPacketSize" unfolding i using k li by simp
  let ?d = "d\<lparr>inHdr := bytes_pkt b, inbox := ?i, packetsRecvd := packetsRecvd d + 1, messageAvailable := messageAvailable d + 1\<rparr>"
  let ?n = "set_dev h ?d (n\<lparr>wires := (wires n)(h := rest)\<rparr>)"
  have e: "NetworkInput_CallBack h d n = Inr ?n" using False w g(1) p(1) k by (simp add: NetworkInput_CallBack_def bcopy_def Let_def)
  have nz: "plength (bytes_pkt b) \<noteq> 0" using p(3) by auto
  have po: "payload_ok (length (boxes d)) h (bytes_pkt b) ?i" "payload (bytes_pkt b) ?i = payload (bytes_pkt b) ?db"
    using g(2) ll unfolding payload_ok_def payload_def pr by simp_all
  have "dev_ok ?n l h ?d" using ok False w nz po ll by (simp add: dev_ok_def in_inbox_def set_dev_def)
  then have "ninv (?n, l)" by (rule ninv_step[OF assms(1)]) (auto simp: set_dev_def)
  then show ?thesis using e by blast
qed

lemma step_sendInt:
  assumes "ninv (n, l)" "hosts n h = Some d" "0 < sendInts d"
  shows "ninv (set_dev h (NetworkOutput_CallBack d) n, l)"
proof (rule ninv_step[OF assms(1), of _ l h "NetworkOutput_CallBack d"])
  have "dev_ok n l h d" using assms by (simp add: ninv_def)
  then show "dev_ok (set_dev h (NetworkOutput_CallBack d) n) l h (NetworkOutput_CallBack d)"
    using assms(3) by (simp add: dev_ok_def NetworkOutput_CallBack_def set_dev_def in_inbox_def of_nat_diff)
qed (simp_all add: set_dev_def)

lemma step_sent:
  assumes "ninv (n, l)" "hosts n h = Some d" "sendLock d" "0 < messageSent d"
  shows "ninv (set_dev h (PostOfficeOutput_Sent d) n, l)"
proof (rule ninv_step[OF assms(1), of _ l h "PostOfficeOutput_Sent d"])
  have "dev_ok n l h d" using assms by (simp add: ninv_def)
  then show "dev_ok (set_dev h (PostOfficeOutput_Sent d) n) l h (PostOfficeOutput_Sent d)"
    using assms(3,4) by (simp add: dev_ok_def PostOfficeOutput_Sent_def set_dev_def in_inbox_def)
qed (simp_all add: set_dev_def)

section \<open>Sorting and receiving\<close>

text \<open>The worker's buffer keeps bytes of older messages behind the new one, which do not matter.\<close>

lemma PostalDelivery_eq:
  assumes "dev_ok n l h d" "0 < messageAvailable d"
  obtains buf where "payload (inHdr d) buf = payload (inHdr d) (inbox d)" "length buf = MaxPacketSize"
    "PostalDelivery d = Inr (let m = payload (inHdr d) (inbox d); b = nat (sint (mto (mailHdr m))) in
       d\<lparr>messageAvailable := messageAvailable d - 1, inHdr := (inHdr d)\<lparr>plength := 0\<rparr>, workerBuffer := buf, boxes := (boxes d)[b := boxes d ! b @ [m]]\<rparr>)"
proof -
  let ?k = "unat (plength (inHdr d))" and ?m = "bytes_mail (inbox d)"
  let ?buf = "overwrite (workerBuffer d) 0 (take ?k (inbox d))"
  have nz: "plength (inHdr d) \<noteq> 0" using assms by (auto simp: dev_ok_def split: if_splits)
  have po: "payload_ok (length (boxes d)) h (inHdr d) (inbox d)" using assms(1) nz by (simp add: dev_ok_def)
  have li: "length (inbox d) = MaxPacketSize" "length (workerBuffer d) = MaxPacketSize" using assms(1) by (simp_all add: dev_ok_def)
  have p: "0 \<le> sint (mto ?m)" "sint (mto ?m) < int (length (boxes d))" "unat (mlength ?m) \<le> MaxMailSize" "?k = unat (mlength ?m) + 12"
    using po by (simp_all add: payload_ok_def)
  have k: "?k \<le> MaxPacketSize" using p(3,4) by (simp add: post_consts)
  have b: "?buf = take ?k (inbox d) @ drop ?k (workerBuffer d)" using k li by (subst overwrite_front) (simp_all add: min_def)
  have pr: "bytes_mail ?buf = ?m" "take (unat (mlength ?m)) (drop 12 ?buf) = take (unat (mlength ?m)) (drop 12 (inbox d))"
    unfolding b using payload_prefix[of ?k "inbox d" "drop ?k (workerBuffer d)"] k li p(4) by auto
  have lb: "length ?buf = MaxPacketSize" unfolding b using k li by simp
  have ld: "unat (mlength ?m) \<le> length ?buf - 12" using lb p(3) by (simp add: post_consts)
  have "payload (inHdr d) ?buf = payload (inHdr d) (inbox d)" unfolding payload_def pr ..
  then show thesis using lb
  proof (rule that)
    show "PostalDelivery d = Inr (let m = payload (inHdr d) (inbox d); b = nat (sint (mto (mailHdr m))) in
       d\<lparr>messageAvailable := messageAvailable d - 1, inHdr := (inHdr d)\<lparr>plength := 0\<rparr>, workerBuffer := ?buf, boxes := (boxes d)[b := boxes d ! b @ [m]]\<rparr>)"
      using nz k li p(1-3) ld
      by (simp add: PostalDelivery_def NetworkInput_Receive_def MailBox_Put_def Mail_new_def bcopy_def Let_def pr payload_def)
  qed
qed

lemma step_deliver:
  assumes "ninv (n, l)" "hosts n h = Some d" "0 < messageAvailable d"
  shows "\<exists>d'. PostalDelivery d = Inr d' \<and> ninv (set_dev h d' n, l\<lparr>gSorted := (gSorted l)(h := gSorted l h @ [payload (inHdr d) (workerBuffer d')])\<rparr>)"
proof -
  have ok: "dev_ok n l h d" using assms by (simp add: ninv_def)
  obtain buf where buf: "payload (inHdr d) buf = payload (inHdr d) (inbox d)" "length buf = MaxPacketSize"
    "PostalDelivery d = Inr (let m = payload (inHdr d) (inbox d); b = nat (sint (mto (mailHdr m))) in
       d\<lparr>messageAvailable := messageAvailable d - 1, inHdr := (inHdr d)\<lparr>plength := 0\<rparr>, workerBuffer := buf, boxes := (boxes d)[b := boxes d ! b @ [m]]\<rparr>)"
    using PostalDelivery_eq[OF ok assms(3)] by blast
  define m where "m = payload (inHdr d) (inbox d)"
  define b where "b = nat (sint (mto (mailHdr m)))"
  define d' where "d' = d\<lparr>messageAvailable := messageAvailable d - 1, inHdr := (inHdr d)\<lparr>plength := 0\<rparr>, workerBuffer := buf, boxes := (boxes d)[b := boxes d ! b @ [m]]\<rparr>"
  have nz: "plength (inHdr d) \<noteq> 0" using ok assms(3) by (auto simp: dev_ok_def split: if_splits)
  have po: "payload_ok (length (boxes d)) h (inHdr d) (inbox d)" using ok nz by (simp add: dev_ok_def)
  have mm: "0 \<le> sint (mto (mailHdr m))" "b < length (boxes d)" "unat (mlength (mailHdr m)) \<le> MaxMailSize" "length (mdata m) = unat (mlength (mailHdr m))"
    using po by (auto simp: payload_ok_def m_def b_def payload_def post_consts)
  have bs: "\<And>c. 0 \<le> c \<Longrightarrow> sint (mto (mailHdr m)) = c \<longleftrightarrow> nat c = b" using mm(1) unfolding b_def by auto
  let ?l = "l\<lparr>gSorted := (gSorted l)(h := gSorted l h @ [m])\<rparr>"
  have "dev_ok (set_dev h d' n) ?l h d'"
    using ok nz mm buf(2) bs by (auto simp: dev_ok_def set_dev_def d'_def in_inbox_def m_def[symmetric] nth_list_update)
  then have "ninv (set_dev h d' n, ?l)" by (rule ninv_step[OF assms(1)]) (auto simp: set_dev_def)
  moreover have "PostalDelivery d = Inr d'" using buf(3) by (simp add: Let_def d'_def b_def m_def)
  ultimately show ?thesis using buf(1) by (auto simp: d'_def m_def)
qed

lemma step_receive:
  assumes "ninv (n, l)" "hosts n h = Some d" "0 \<le> b" "b < int (length (boxes d))" "boxes d ! nat b \<noteq> []"
  shows "\<exists>m d'. PostOfficeInput_Receive b d = Inr (m, d') \<and> ninv (set_dev h d' n, l\<lparr>gTaken := (gTaken l)(h := (gTaken l h)(b := gTaken l h b @ [m]))\<rparr>)"
proof -
  obtain m rest where mr: "boxes d ! nat b = m # rest" using assms(5) by (cases "boxes d ! nat b") auto
  have ok: "dev_ok n l h d" using assms by (simp add: ninv_def)
  have f: "filter (\<lambda>m. sint (mto (mailHdr m)) = b) (gSorted l h) = gTaken l h b @ m # rest" using ok assms(3,4) mr by (simp add: dev_ok_def)
  have "m \<in> set (filter (\<lambda>m. sint (mto (mailHdr m)) = b) (gSorted l h))" unfolding f by simp
  then have m: "unat (mlength (mailHdr m)) \<le> MaxMailSize" "length (mdata m) = unat (mlength (mailHdr m))" using ok by (auto simp: dev_ok_def)
  let ?d = "d\<lparr>boxes := (boxes d)[nat b := rest]\<rparr>"
  let ?l = "l\<lparr>gTaken := (gTaken l)(h := (gTaken l h)(b := gTaken l h b @ [m]))\<rparr>"
  have e: "PostOfficeInput_Receive b d = Inr (m, ?d)" using assms(3,4) mr m by (simp add: PostOfficeInput_Receive_def MailBox_Get_def bcopy_def)
  have "filter (\<lambda>m. sint (mto (mailHdr m)) = c) (gSorted l h) = gTaken ?l h c @ boxes ?d ! nat c" if "0 \<le> c" "c < int (length (boxes d))" for c
  proof (cases "c = b")
    case True
    then show ?thesis using f that by simp
  next
    case False
    then have "nat c \<noteq> nat b" using that assms(3) by auto
    then show ?thesis using ok that False by (simp add: dev_ok_def)
  qed
  then have "dev_ok (set_dev h ?d n) ?l h ?d" using ok by (simp add: dev_ok_def set_dev_def in_inbox_def)
  then have "ninv (set_dev h ?d n, ?l)" by (rule ninv_step[OF assms(1)]) (auto simp: set_dev_def)
  then show ?thesis using e by blast
qed

lemma nstep_ninv: "nstep s r \<Longrightarrow> ninv s \<Longrightarrow> \<exists>s'. r = Inr s' \<and> ninv s'"
proof (induction rule: nstep.induct)
  case (send n h d pktH mailH data l' works l junk)
  then obtain n' where "PostOfficeOutput_Send works junk h d pktH mailH data n = Inr n'" "ninv (n', l')"
    using step_send[OF send.prems send.hyps] by blast
  then show ?case by simp
next
  case (sendInt n h d l)
  then show ?case using step_sendInt by blast
next
  case (sent n h d l)
  then show ?case using step_sent by blast
next
  case (recvInt n h d l)
  then show ?case using step_recvInt[OF recvInt.prems recvInt.hyps] by auto
next
  case (deliver n h d l)
  then show ?case using step_deliver[OF deliver.prems deliver.hyps] by auto
next
  case (receive n h d b l)
  then show ?case using step_receive[OF receive.prems receive.hyps] by auto
qed

lemma nreach_ninv: "nreach s \<Longrightarrow> ninv s"
  by (induction rule: nreach.induct) (use ninv_start nstep_ninv in force)+

text \<open>
  A box number that the receiver does not have passes the check in \<open>Send\<close>, which only asks for \<open>0 \<le> to\<close>, and stops the receiver.
\<close>

lemma unknown_box_aborts_receiver:
  assumes "length (inbox d) = MaxPacketSize" "length (workerBuffer d) = MaxPacketSize"
    "12 \<le> unat (plength (inHdr d))" "unat (plength (inHdr d)) \<le> MaxPacketSize"
    "int (length (boxes d)) \<le> sint (mto (bytes_mail (inbox d)))"
  shows "PostalDelivery d = Inl AssertFail"
proof -
  let ?k = "unat (plength (inHdr d))"
  have nz: "plength (inHdr d) \<noteq> 0" using assms(3) by auto
  have b: "overwrite (workerBuffer d) 0 (take ?k (inbox d)) = take ?k (inbox d) @ drop ?k (workerBuffer d)"
    using assms by (subst overwrite_front) (simp_all add: min_def)
  have "bytes_mail (take ?k (inbox d) @ drop ?k (workerBuffer d)) = bytes_mail (inbox d)"
    using assms by (intro mail_prefix) simp_all
  then show ?thesis using nz assms by (simp add: PostalDelivery_def NetworkInput_Receive_def bcopy_def Let_def b)
qed

section \<open>Properties\<close>

text \<open>
  C15: Machines that send messages of legal size to boxes that exist never stop each other: in every state that a network of post offices reaches, by
  sends, interrupts, the postal workers and receives in any order, no operation fails an assertion or leaves a buffer.  For every
  machine and box, the messages that were put on the wire for that box are, in the order of their sending and with their data
  intact, those already received from the box, then those that wait in it, then those in the inbox of the device and on the wire.
\<close>

theorem post_office_fifo:
  assumes "nreach (n, l)"
  shows "(\<forall>r. nstep (n, l) r \<longrightarrow> (\<exists>s'. r = Inr s')) \<and>
    (\<forall>h d b. hosts n h = Some d \<and> 0 \<le> b \<and> b < int (length (boxes d)) \<longrightarrow>
      filter (\<lambda>m. sint (mto (mailHdr m)) = b) (gSent l h) =
        gTaken l h b @ boxes d ! nat b @
        filter (\<lambda>m. sint (mto (mailHdr m)) = b) (in_inbox d @ map (\<lambda>w. payload (bytes_pkt w) (drop 12 w)) (wires n h)))"
proof -
  have i: "ninv (n, l)" using assms by (rule nreach_ninv)
  then have "\<forall>r. nstep (n, l) r \<longrightarrow> (\<exists>s'. r = Inr s')" using nstep_ninv by blast
  then show ?thesis using i by (auto simp: ninv_def dev_ok_def)
qed

definition demo_net :: network where
  "demo_net = \<lparr>hosts = [5 \<mapsto> PostOffice_new (replicate 52 0) (replicate 52 0) 2], wires = (\<lambda>_. [])\<rparr>"

lemma demo_sent:
  "\<exists>n l. nreach (n, l) \<and> hosts n 5 = Some ((PostOffice_new (replicate 52 0) (replicate 52 0) 2)\<lparr>sendLock := True, sendInts := 1\<rparr>) \<and>
     gSent l 5 = [the_mail 5 \<lparr>pto = 5, pfrom = 0, plength = 0\<rparr> \<lparr>mto = 1, mfrom = 0, mlength = 2\<rparr> [7, 8]]"
proof -
  let ?p = "\<lparr>pto = 5, pfrom = 0, plength = 0\<rparr> :: PacketHeader" and ?m = "\<lparr>mto = 1, mfrom = 0, mlength = 2\<rparr> :: MailHeader"
  let ?d = "PostOffice_new (replicate 52 0) (replicate 52 0) 2"
  have d: "hosts demo_net 5 = Some ?d" "\<not> sendLock ?d" "\<not> sendBusy ?d" "sendInts ?d = 0" by (simp_all add: demo_net_def PostOffice_new_def)
  have "length (replicate 52 (0::8 word)) = MaxPacketSize" by (simp add: post_consts)
  then have "\<exists>ji jb nBoxes. ?d = PostOffice_new ji jb nBoxes \<and> length ji = MaxPacketSize \<and> length jb = MaxPacketSize" by blast
  then have "started demo_net" unfolding started_def demo_net_def by (simp split: if_splits)
  then have s: "nreach (demo_net, no_log)" by (rule nreach.start)
  have rq: "request_ok demo_net ?p ?m [7, 8]" by (simp add: request_ok_def demo_net_def PostOffice_new_def post_consts)
  note st = nstep.send[where l = no_log and works = True and junk = "\<lambda>_. 0", OF d(1,2) rq refl]
  show ?thesis using nreach.step[OF s] st d(1) unfolding Send_eq[OF rq d(3)]
    by (fastforce simp: Let_def SendToSocket_def set_dev_def no_log_def d(4))
qed

theorem post_office_fifo_witness:
  "\<exists>n l d. nreach (n, l) \<and> hosts n 5 = Some d \<and> length (gSent l 5) = 1 \<and>
     filter (\<lambda>m. sint (mto (mailHdr m)) = 1) (gSent l 5) =
        gTaken l 5 1 @ boxes d ! 1 @
        filter (\<lambda>m. sint (mto (mailHdr m)) = 1) (in_inbox d @ map (\<lambda>w. payload (bytes_pkt w) (drop 12 w)) (wires n 5))"
proof -
  let ?d = "(PostOffice_new (replicate 52 0) (replicate 52 0) 2)\<lparr>sendLock := True, sendInts := 1\<rparr>"
  obtain n l where nl: "nreach (n, l)" "hosts n 5 = Some ?d" "length (gSent l 5) = 1" using demo_sent by auto
  have "(0::int) \<le> 1 \<and> 1 < int (length (boxes ?d))" by (simp add: PostOffice_new_def)
  then have "filter (\<lambda>m. sint (mto (mailHdr m)) = 1) (gSent l 5) =
        gTaken l 5 1 @ boxes ?d ! nat 1 @
        filter (\<lambda>m. sint (mto (mailHdr m)) = 1) (in_inbox ?d @ map (\<lambda>w. payload (bytes_pkt w) (drop 12 w)) (wires n 5))"
    using post_office_fifo[OF nl(1)] nl(2) by blast
  then show ?thesis using nl by (intro exI[of _ n] exI[of _ l] exI[of _ ?d]) simp
qed

end
