(* ===== verification/Boot.thy ===== *)
theory Boot
  imports SyscallFiles JoinExit DiskLife ConsoleDev PostOffice
begin

text \<open>
  Starting the kernel: the command line in \<open>main\<close> (\<^verbatim>\<open>threads/main.cc\<close>) and in \<open>Kernel::Kernel\<close>, \<open>Kernel::Initialize\<close>
  (\<^verbatim>\<open>threads/kernel.cc\<close>), and the start of the first user program.

  The options are those of the program as it is built, with the stub file system.  \<open>atof\<close> of the reliability and the seed of the random numbers are kept as the text of the
  argument.  The self tests that the options \<^verbatim>\<open>-K\<close>, \<^verbatim>\<open>-C\<close> and \<^verbatim>\<open>-N\<close> ask for come before the user program and are not part of
  \<open>main_boot\<close>.  The components are those of the other theories, each with its own part of the state.
\<close>

section \<open>The command line\<close>

record options =
  debugArg :: string
  userProgName :: "string option"
  threadTestFlag :: bool
  consoleTestFlag :: bool
  networkTestFlag :: bool

definition no_options :: options where
  "no_options = \<lparr>debugArg = [], userProgName = None, threadTestFlag = False, consoleTestFlag = False, networkTestFlag = False\<rparr>"

fun main_args :: "string list \<Rightarrow> options \<Rightarrow> options run" where
  "main_args [] opt = Inr opt"
| "main_args (a # xs) opt =
     (if a = ''-d'' then (case xs of [] \<Rightarrow> Inl AssertFail | x # ys \<Rightarrow> main_args ys (opt\<lparr>debugArg := x\<rparr>))
      else if a = ''-x'' then (case xs of [] \<Rightarrow> Inl AssertFail | x # ys \<Rightarrow> main_args ys (opt\<lparr>userProgName := Some x\<rparr>))
      else if a = ''-K'' then main_args xs (opt\<lparr>threadTestFlag := True\<rparr>)
      else if a = ''-C'' then main_args xs (opt\<lparr>consoleTestFlag := True\<rparr>)
      else if a = ''-N'' then main_args xs (opt\<lparr>networkTestFlag := True\<rparr>)
      else main_args xs opt)"

record Params =
  randomSlice :: bool
  randomSeed :: "string option"
  debugUserProg :: bool
  consoleIn :: "string option"
  consoleOut :: "string option"
  reliability :: "string option"
  hostName :: "32 word"

definition default_params :: Params where
  "default_params = \<lparr>randomSlice = False, randomSeed = None, debugUserProg = False, consoleIn = None, consoleOut = None, reliability = None, hostName = 0\<rparr>"

text \<open>\<open>atoi\<close>: white space, a sign, and digits up to the first other character.\<close>

definition digit_of :: "char \<Rightarrow> int" where
  "digit_of c = int (of_char c) - 48"

definition atoi :: "string \<Rightarrow> 32 word" where
  "atoi str =
     (let t = dropWhile (\<lambda>c. of_char c = (32 :: nat) \<or> of_char c \<in> {9 .. (13 :: nat)}) str;
          neg = (t \<noteq> [] \<and> hd t = CHR ''-'');
          t = (if t \<noteq> [] \<and> (hd t = CHR ''-'' \<or> hd t = CHR ''+'') then tl t else t);
          v = foldl (\<lambda>v c. 10 * v + digit_of c) 0 (takeWhile (\<lambda>c. 0 \<le> digit_of c \<and> digit_of c \<le> 9) t) in
      word_of_int (if neg then - v else v))"

fun Kernel_args :: "string list \<Rightarrow> Params \<Rightarrow> Params run" where
  "Kernel_args [] p = Inr p"
| "Kernel_args (a # xs) p =
     (if a = ''-rs'' then (case xs of [] \<Rightarrow> Inl AssertFail | x # ys \<Rightarrow> Kernel_args ys (p\<lparr>randomSeed := Some x, randomSlice := True\<rparr>))
      else if a = ''-s'' then Kernel_args xs (p\<lparr>debugUserProg := True\<rparr>)
      else if a = ''-ci'' then (case xs of [] \<Rightarrow> Inl AssertFail | x # ys \<Rightarrow> Kernel_args ys (p\<lparr>consoleIn := Some x\<rparr>))
      else if a = ''-co'' then (case xs of [] \<Rightarrow> Inl AssertFail | x # ys \<Rightarrow> Kernel_args ys (p\<lparr>consoleOut := Some x\<rparr>))
      else if a = ''-n'' then (case xs of [] \<Rightarrow> Inl AssertFail | x # ys \<Rightarrow> Kernel_args ys (p\<lparr>reliability := Some x\<rparr>))
      else if a = ''-m'' then (case xs of [] \<Rightarrow> Inl AssertFail | x # ys \<Rightarrow> Kernel_args ys (p\<lparr>hostName := atoi x\<rparr>))
      else Kernel_args xs p)"

section \<open>Initialize\<close>

record system =
  bKernel :: kernel
  bTimer :: tsim
  bVm :: vm
  bConsole :: condev
  bDisk :: dsim
  bPages :: Bitmap
  bProcs :: procs
  bFiles :: FileSystem
  bPost :: netdev

text \<open>
  What the surroundings give: the files of the host, random numbers, the unset page table size of a new machine, which programs a process can start, the
  contents of new buffers, and the name of the disk.
\<close>

record surroundings =
  e_host :: host
  e_rand :: "nat \<Rightarrow> 32 word"
  e_size :: "32 word"
  e_progs :: "bytes \<Rightarrow> bool"
  e_inbox :: bytes
  e_buffer :: bytes
  e_diskname :: bytes

definition Kernel_Initialize :: "Params \<Rightarrow> surroundings \<Rightarrow> system run" where
  "Kernel_Initialize p e =
     bind_run (SetLevel Timer_CallBack Inr IntOn (Interrupts.sim_new (randomSlice p) (e_rand e))) (\<lambda>(_, t).
     bind_run (Timer_new (randomSlice p) (e_rand e) t) (\<lambda>t.
     bind_run (SynchDisk_new (e_diskname e) DiskDev.sim_new) (\<lambda>d.
     bind_run (Bitmap_new 256) (\<lambda>frames.
     bind_run (Bitmap_new 10) (\<lambda>pages.
     bind_run (procs_new (e_progs e)) (\<lambda>ps.
     bind_run (FileSystem_new (e_host e)) (\<lambda>(fs, h).
     bind_run (SetLevel Timer_CallBack Inr IntOn t) (\<lambda>(_, t).
     Inr \<lparr>bKernel = kernel_new, bTimer = t, bVm = \<lparr>vmMachine = Machine_new (debugUserProg p) (e_size e), gPhysPageBitMap = frames, addrLock = 1, vmHost = h\<rparr>,
       bConsole = SynchConsole_new, bDisk = d, bPages = pages, bProcs = ps, bFiles = fs, bPost = PostOffice_new (e_inbox e) (e_buffer e) 10\<rparr>))))))))"

section \<open>The first user program\<close>

text \<open>\<open>None\<close>: the program could not be loaded, and the machine halts.\<close>

definition start_program :: "bytes \<Rightarrow> vm \<Rightarrow> (Machine option \<times> vm) run" where
  "start_program name v =
     (let (sp, v) = AddrSpace_new v in
      bind_run (Load sp name v) (\<lambda>(ok, sp, v).
      if ok then bind_run (Execute sp (vmMachine v)) (\<lambda>m. Inr (Some m, v\<lparr>vmMachine := m\<rparr>)) else Inr (None, v)))"

definition main_boot :: "string list \<Rightarrow> surroundings \<Rightarrow> (Machine option \<times> system) run" where
  "main_boot argv e =
     bind_run (main_args (tl argv) no_options) (\<lambda>opt.
     bind_run (Kernel_args (tl argv) default_params) (\<lambda>p.
     bind_run (Kernel_Initialize p e) (\<lambda>s.
     case userProgName opt of None \<Rightarrow> Inr (None, s)
     | Some name \<Rightarrow> bind_run (start_program (cstr name) (bVm s)) (\<lambda>(m, v). Inr (m, s\<lparr>bVm := v\<rparr>)))))"

section \<open>The state after Initialize\<close>

lemma FileSystem_new_keeps:
  assumes "dir h (cstr ''stdin'') = None" "dir h (cstr ''stdout'') = None" "0 \<le> nextFd h" "dir h name = Some i" "i < nextInode h"
  shows "\<exists>fs h'. FileSystem_new h = Inr (fs, h') \<and> dir h' name = Some i \<and> inode h' i = inode h i \<and> 0 \<le> nextFd h'"
proof -
  have ne: "cstr ''stdin'' \<noteq> cstr ''stdout''" by code_simp
  have n: "name \<noteq> cstr ''stdin''" "name \<noteq> cstr ''stdout''" using assms by auto
  have cr: "FS_Create nm g = Inr (True, g\<lparr>dir := (dir g)(nm \<mapsto> nextInode g), inode := (inode g)(nextInode g := []), nextInode := Suc (nextInode g), fds := (fds g)(nextFd g := None), nextFd := nextFd g + 1\<rparr>)"
    if "dir g nm = None" "0 \<le> nextFd g" for nm and g :: host
    using that by (simp add: FS_Create_def OpenForWrite_def host_creat_def new_fd_def Close_def host_close_def Let_def)
  show ?thesis using assms ne n by (simp add: FileSystem_new_def cr FS_Open_eq set_at_def numeral_eq_Suc)
qed

lemma timer_boots:
  "\<exists>t t1 t2. SetLevel Timer_CallBack Inr IntOn (Interrupts.sim_new b r) = Inr (IntOff, t) \<and> Timer_new b r t = Inr t1 \<and>
     SetLevel Timer_CallBack Inr IntOn t1 = Inr (IntOn, t2) \<and> armed t2 \<and> intr_ok (intr t2) \<and> level (intr t2) = IntOn"
proof -
  let ?s = "(Interrupts.sim_new b r)\<lparr>intr := Interrupt_new\<lparr>level := IntOn\<rparr>, stats := Statistics_new\<lparr>totalTicks := SystemTick, systemTicks := SystemTick\<rparr>\<rparr>"
  have s: "SetLevel Timer_CallBack Inr IntOn (Interrupts.sim_new b r) = Inr (IntOff, ?s)"
    by (simp add: SetLevel_def Interrupts.sim_new_def Interrupt_new_def OneTick_def CheckIfDue_def Let_def ChangeLevel_def upd_intr_def Statistics_new_def)
  let ?d = "?s\<lparr>dev := \<lparr>randomize = b, disable = False, rand = r, randPos = 0\<rparr>\<rparr>"
  have "intr_ok (intr ?d)" by (simp add: Interrupt_new_def intr_ok_def)
  then obtain t where t: "Timer_SetInterrupt ?d = Inr t" "intr_ok (intr t)" "armed t" "level (intr t) = IntOn" "\<not> inHandler (intr t)"
    using SetInterrupt_ok[of ?d] by (auto simp: Interrupt_new_def)
  have "SetLevel Timer_CallBack Inr IntOn t = Inr (IntOn, t)" using t(4,5) by (simp add: SetLevel_def ChangeLevel_def upd_intr_def)
  then show ?thesis using s t by (auto simp: Timer_new_def)
qed

text \<open>A program as the linker lays it out, under a name of the host that is not one of the console's.\<close>

definition program_file :: "host \<Rightarrow> bytes \<Rightarrow> bytes \<Rightarrow> nat \<Rightarrow> nat \<Rightarrow> bool" where
  "program_file h name file delta n \<longleftrightarrow> dir h (cstr ''stdin'') = None \<and> dir h (cstr ''stdout'') = None \<and> 0 \<le> nextFd h \<and>
     (\<exists>i < nextInode h. dir h name = Some i \<and> inode h i = file) \<and>
     52 \<le> length file \<and> le32 file 0 = NOFFMAGIC \<and> laid_out file (AddrSpaces.header_at file) delta n \<and>
     int n = divRoundUp (uint (program_size (AddrSpaces.header_at file))) PageSize \<and> n \<le> 128"

lemma Initialize_ok:
  assumes "program_file (e_host e) name file delta n"
  shows "\<exists>s i. Kernel_Initialize p e = Inr s \<and> bKernel s = kernel_new \<and> armed (bTimer s) \<and> level (intr (bTimer s)) = IntOn \<and> disk_idle (bDisk s) \<and>
     preach (bProcs s) \<and> bConsole s = SynchConsole_new \<and> vmMachine (bVm s) = Machine_new (debugUserProg p) (e_size e) \<and> addrLock (bVm s) = 1 \<and>
     bitmap_inv (gPhysPageBitMap (bVm s)) \<and> free_bits (gPhysPageBitMap (bVm s)) = {0..<256} \<and>
     dir (vmHost (bVm s)) name = Some i \<and> inode (vmHost (bVm s)) i = file \<and> 0 \<le> nextFd (vmHost (bVm s))"
proof -
  obtain t t1 t2 where t: "SetLevel Timer_CallBack Inr IntOn (Interrupts.sim_new (randomSlice p) (e_rand e)) = Inr (IntOff, t)"
    "Timer_new (randomSlice p) (e_rand e) t = Inr t1" "SetLevel Timer_CallBack Inr IntOn t1 = Inr (IntOn, t2)" "armed t2" "level (intr t2) = IntOn"
    using timer_boots by blast
  obtain d where d: "SynchDisk_new (e_diskname e) DiskDev.sim_new = Inr d" "disk_idle d" using SynchDisk_new_idle by blast
  obtain b where b: "Bitmap_new 256 = Inr b" "bitmap_inv b" "free_bits b = {0..<256}" using tiny_bitmap by blast
  obtain b' where b': "Bitmap_new 10 = Inr b'" using Bitmap_new_ok[of 10] by auto
  obtain ps where ps: "procs_new (e_progs e) = Inr ps" using procs_new_eq[of "e_progs e"] by blast
  then have pr: "preach ps" by (rule preach_start)
  obtain i where i: "i < nextInode (e_host e)" "dir (e_host e) name = Some i" "inode (e_host e) i = file" using assms by (auto simp: program_file_def)
  obtain fs h where f: "FileSystem_new (e_host e) = Inr (fs, h)" "dir h name = Some i" "inode h i = file" "0 \<le> nextFd h"
    using FileSystem_new_keeps[OF _ _ _ i(2,1)] assms i(3) by (auto simp: program_file_def)
  show ?thesis using t d b b' ps pr f by (simp add: Kernel_Initialize_def)
qed

text \<open>Loading a program leaves the translation buffer alone.\<close>

lemma for_each_keeps:
  assumes "\<And>i s s'. body i s = Inr s' \<Longrightarrow> f s' = f s"
  shows "for_each body xs s = Inr s' \<Longrightarrow> f s' = f s"
  by (induction xs arbitrary: s) (auto simp: bind_run_eq_Inr_iff dest!: assms)

lemma put_bytes_tlb: "put_bytes a bs m = Inr m' \<Longrightarrow> tlb m' = tlb m"
  by (auto simp: put_bytes_def split: if_splits)

lemma load_segment_tlb: "load_segment f pt n sg v = Inr v' \<Longrightarrow> tlb (vmMachine v') = tlb (vmMachine v)"
  unfolding load_segment_def
  by (auto simp: load_page_def run_simps split: if_splits dest!: put_bytes_tlb elim!: for_each_keeps[rotated])

lemma Load_tlb: "Load sp name v = Inr (b, sp', v') \<Longrightarrow> tlb (vmMachine v') = tlb (vmMachine v)"
proof -
  have np: "tlb (vmMachine (snd s')) = tlb (vmMachine (snd s))" if "for_each new_page xs s = Inr s'" for xs s s'
    using that by (rule for_each_keeps[where f = "\<lambda>s. tlb (vmMachine (snd s))", rotated]) (auto simp: new_page_def run_simps dest!: put_bytes_tlb)
  assume "Load sp name v = Inr (b, sp', v')"
  then show ?thesis
    by (auto simp: Load_def load_pages_def run_simps Let_def addrLock_P_def addrLock_V_def split: option.splits if_splits dest!: load_segment_tlb np)
qed

lemma start_program_ok:
  assumes "dir (vmHost v) name = Some i" "inode (vmHost v) i = file" "0 \<le> nextFd (vmHost v)" "program_file h name file delta n"
    "bitmap_inv (gPhysPageBitMap v)" "free_bits (gPhysPageBitMap v) = {0..<256}" "addrLock v = 1" "tlb (vmMachine v) = None"
  shows "\<exists>m v' pt. start_program name v = Inr (Some m, v') \<and> paged m pt \<and> length pt = n \<and>
     (\<forall>r < NumTotalRegs. registers m r = (if r = NextPCReg then 4 else if r = StackReg then word_of_int (int n * 128 - 16) else 0)) \<and>
     (\<forall>k < n * 128. \<exists>pa. vm_translate pt (word_of_int (int k)) 1 True = Inr pa \<and> mainMemory m (nat pa) = file_image file delta k)"
proof -
  obtain sp w where sw: "AddrSpace_new v = (sp, w)" by (cases "AddrSpace_new v") auto
  then have w: "vmHost w = vmHost v" "gPhysPageBitMap w = gPhysPageBitMap v" "addrLock w = addrLock v" "tlb (vmMachine w) = None"
    using assms(8) by (auto simp: AddrSpace_new_def)
  have pf: "52 \<le> length file" "le32 file 0 = NOFFMAGIC" "laid_out file (AddrSpaces.header_at file) delta n"
    "int n = divRoundUp (uint (program_size (AddrSpaces.header_at file))) PageSize" "n \<le> 128" using assms(4) by (auto simp: program_file_def)
  obtain pt v' where l: "Load sp name w = Inr (True, sp\<lparr>asPageTable := Some pt, asNumPages := Some (word_of_int (int n))\<rparr>, v')" "length pt = n"
    "\<forall>k < n * 128. \<exists>pa. vm_translate pt (word_of_int (int k)) 1 True = Inr pa \<and> mainMemory (vmMachine v') (nat pa) = file_image file delta k"
    using Load_image[of w name i "file" delta n 0 256 sp] assms w pf by auto
  let ?sp = "sp\<lparr>asPageTable := Some pt, asNumPages := Some (word_of_int (int n))\<rparr>"
  have tlb: "tlb (vmMachine v') = None" using Load_tlb[OF l(1)] w(4) by simp
  obtain m where m: "Execute ?sp (vmMachine v') = Inr m" "paged m pt" "mainMemory m = mainMemory (vmMachine v')"
    "\<forall>r < NumTotalRegs. registers m r = (if r = NextPCReg then 4 else if r = StackReg then word_of_int (int n * 128 - 16) else 0)"
    using Execute_paged[of ?sp pt "vmMachine v'"] l(2) pf(5) tlb by auto
  have "start_program name v = Inr (Some m, v'\<lparr>vmMachine := m\<rparr>)" using sw l(1) m(1) by (simp add: start_program_def)
  then show ?thesis using l(2,3) m(2,4) unfolding m(3)[symmetric] by blast
qed

section \<open>Properties\<close>


definition tiny_surroundings :: surroundings where
  "tiny_surroundings = \<lparr>e_host = tiny_host, e_rand = (\<lambda>_. 7), e_size = 0, e_progs = (\<lambda>_. True), e_inbox = [], e_buffer = [], e_diskname = cstr ''DISK_0''\<rparr>"


end
