(* ===== verification/Spec2Isabelle.thy ===== *)
theory Spec2Isabelle
  imports BitmapLib ListLib HashLib Mips SemTable Monitors CopyPrint Boot
begin

text \<open>
  A verification of Nachos 4.0 as extended in this repository: a kernel and a simulation of the machine it runs on, in C++ under \<^verbatim>\<open>src/code\<close>.

  \<^bold>\<open>The program.\<close>  The machine (\<^verbatim>\<open>machine/\<close>) executes MIPS instructions of user programs through a page table, keeps a clock
  and a queue of pending interrupts, and has a timer, a console, a disk and a network device.  The kernel (\<^verbatim>\<open>threads/\<close>, \<^verbatim>\<open>userprog/\<close>, \<^verbatim>\<open>filesys/\<close>,
  \<^verbatim>\<open>network/\<close>) has threads that give up the processor in \<open>P\<close>, \<open>Yield\<close> and \<open>Finish\<close>, semaphores, locks and conditions,
  address spaces, a table of processes with \<open>Exec\<close>, \<open>Join\<close> and \<open>Exit\<close>, a table of named semaphores, system calls, two file systems and a post office.  Both use
  the containers in \<^verbatim>\<open>lib/\<close>.  The build is for a 32-bit little-endian host with \<^verbatim>\<open>FILESYS_STUB\<close>, \<^verbatim>\<open>RDATA\<close> and \<^verbatim>\<open>SIM_FIX\<close>.

  \<^bold>\<open>How code is modelled.\<close>  A routine that can abort is a function into \<open>'a run\<close>: a value, or one of the faults of theory \<open>Prelude\<close>
  (a failed assertion, an access outside an array, a bad pointer, an uninitialised field, a wait that does not end, a trap of the host).  The state a routine
  changes is passed along explicitly, as a record with the fields of the class.  Integers of the simulated machine and of formats on disk and wire are 32-bit words; other
  \<open>int\<close> variables are integers where no overflow can occur.  Code that threads run concurrently is a step relation.  What memory holds after \<open>new\<close>, random numbers,
  the time of day and lost packets are arguments.  The host's files follow POSIX (theory \<open>FileStub\<close>).

  \<^bold>\<open>The theories,\<close> in the order in which they build on each other.
  \<^item> \<open>Prelude\<close>: results and faults, bounded loops, the macros of \<^verbatim>\<open>lib/utility.h\<close>, and the lemma collections \<open>run_simps\<close> and \<open>inv_defs\<close>.
  \<^item> \<open>BitmapLib\<close> (\<^verbatim>\<open>lib/bitmap\<close>): the bits of an array of words implement a set; \<open>FindAndSet\<close> gives the lowest free item.  Locale \<open>slot_allocator\<close>.
  \<^item> \<open>ListLib\<close> (\<^verbatim>\<open>lib/list\<close>): lists on an explicit heap, with iterators and sorted insertion, implement sequences.  Locales \<open>item_queue\<close> and \<open>comparison\<close>.
  \<^item> \<open>HashLib\<close> (\<^verbatim>\<open>lib/hash\<close>): the self-expanding hash table implements a finite map for every hash function.  Locale \<open>keyed_table\<close>.
  \<^item> \<open>MachineMem\<close> (\<^verbatim>\<open>machine/machine\<close>, \<^verbatim>\<open>translate\<close>): registers, memory and address translation; what translation grants, and that page tables with
    disjoint frames protect memory from each other.
  \<^item> \<open>Mips\<close> (\<^verbatim>\<open>machine/mipssim\<close>): decoding and every instruction; no program can make the simulator fail or touch a frame its page table does not
    give it, arithmetic overflow is exact, and multiplication is the 64-bit product.
  \<^item> \<open>Interrupts\<close> (\<^verbatim>\<open>machine/interrupt\<close>, \<^verbatim>\<open>timer\<close>, \<^verbatim>\<open>threads/alarm\<close>): due handlers run, in order, and the loop ends; a machine with an armed timer never halts
    in \<open>Idle\<close>.  Locale \<open>interrupt_handlers\<close>, the contract of the devices.
  \<^item> \<open>Threads\<close> (\<^verbatim>\<open>threads/thread\<close>, \<^verbatim>\<open>scheduler\<close>, \<open>Semaphore\<close> of \<^verbatim>\<open>synch\<close>): threads, the ready list, context switches and semaphores as a step relation; every step of every
    reachable state runs, each thread is in exactly one place, no wake-up is lost, and registers survive a switch.
  \<^item> \<open>Processes\<close>, \<open>ProcessTable\<close>, \<open>ProcessSteps\<close>, \<open>ProcessStart\<close>, \<open>JoinExit\<close>, \<open>SemTable\<close> (\<^verbatim>\<open>threads/ptable\<close>, \<^verbatim>\<open>pcb\<close>, \<^verbatim>\<open>stable\<close>, \<^verbatim>\<open>sem\<close>): processes as programs of commands,
    interleaved at every \<open>P\<close> and \<open>V\<close>; a parent that joins finds its child's control block alive, every process has a slot of its own, and the
    semaphore table is a map from names.  Locale \<open>counting_semaphore\<close>, which the thread system, the process layer and the monitors implement.
  \<^item> \<open>Monitors\<close> (\<open>Lock\<close>, \<open>Condition\<close>, \<^verbatim>\<open>threads/synchlist\<close>): mutual exclusion and no lost wake-up under every interleaving of any number of threads.
  \<^item> \<open>FileStub\<close> (\<^verbatim>\<open>lib/sysdep\<close>, \<^verbatim>\<open>filesys\<close> as built): files of the host, open files and the table of open files.
  \<^item> \<open>AddrSpaces\<close> (\<^verbatim>\<open>userprog/addrspace\<close>): loading takes free frames only and places the program; where the frame map is larger than memory it writes behind it.
  \<^item> \<open>Syscalls\<close>, \<open>SyscallFiles\<close> (\<^verbatim>\<open>userprog/ksyscall.h\<close>, \<^verbatim>\<open>exception\<close>): all system calls and the handler; numbers and strings make the round trip, the program counter and the
    table of open files stay right on every call.
  \<^item> \<open>ConsoleDev\<close> (\<^verbatim>\<open>machine/console\<close>, \<^verbatim>\<open>userprog/synchconsole\<close>): threads see the console as two streams of characters, up to the first \<open>EOF\<close>.
  \<^item> \<open>DiskDev\<close> (\<^verbatim>\<open>machine/disk\<close>, \<^verbatim>\<open>filesys/synchdisk\<close>): requests return after the time the device needs, and sectors keep what is written.  Locale \<open>sector_store\<close>.
  \<^item> \<open>DiskFiles\<close>, \<open>DiskArray\<close>, \<open>DiskAlloc\<close>, \<open>DiskDir\<close>, \<open>DiskFS\<close>, \<open>DiskCreate\<close>, \<open>DiskLife\<close> (\<^verbatim>\<open>filesys/\<close> without the stub): headers, open files, free map, directory and file system
    on the disk; a file is an array of bytes, a directory a map (locale \<open>name_map\<close>), and \<open>Create\<close> and \<open>Remove\<close> keep the disk consistent and touch no other file.
  \<^item> \<open>CopyPrint\<close> (\<open>Copy\<close> and \<open>Print\<close> of \<^verbatim>\<open>threads/main.cc\<close>): what is copied to the disk is printed back.
  \<^item> \<open>PostOffice\<close> (\<^verbatim>\<open>machine/network\<close>, \<^verbatim>\<open>network/post\<close>): several machines; messages that are not lost arrive in order, once and intact, and no legal message stops a machine.
  \<^item> \<open>Boot\<close> (\<^verbatim>\<open>threads/main.cc\<close>, \<^verbatim>\<open>kernel.cc\<close>): the command line, the construction of all components in states from which their invariants hold, and the start of the first program.
  \<^item> This theory: programs loaded one after the other never change each other's memory, which joins loading, translation and execution.

  \<^bold>\<open>Bounds.\<close>  Loops over arrays and lists are structural.  Pointer walks on the heap of \<open>ListLib\<close> have one round more than the heap has cells as fuel; the loop of
  \<open>CheckIfDue\<close> has one round per pending interrupt, and the loop in which \<open>SynchDisk\<close> waits one more; the refinement and termination lemmas show that this is enough,
  so that \<open>Diverges\<close> does not occur there.  \<open>Copy\<close> and \<open>Print\<close> take the number of rounds as an argument and return for every number above the length of the file.
  \<open>run_user\<close> executes a given number of instructions, and its property holds for all of them.

  \<^bold>\<open>Hypotheses.\<close>  Properties of reachable states start from the state the constructors make.  Properties of single operations assume the component's invariant, which
  the operations keep.  Programs are laid out as \<^verbatim>\<open>coff2noff\<close> writes them (\<open>laid_out\<close>).  A disk is formatted: the code that formats it is commented out in
  \<^verbatim>\<open>filesys.cc\<close>, and \<open>DiskLife\<close> gives such a disk.  The theories keep the states of their components apart: the stub's files and the disk's file are on hosts of their own, and a
  thread that waits for the disk is alone on the machine.

  \<^bold>\<open>Not modelled.\<close>  Output for debugging (\<open>Print\<close>, \<open>DumpState\<close>, the debugger, \<^verbatim>\<open>lib/debug.cc\<close>), which changes no state.  Destructors that only free memory, and \<open>Halt\<close>,
  which runs them and exits.  \<^verbatim>\<open>switch.S\<close>, assembly whose effect the thread system has as a change of continuation, and with it the stacks of threads.
  The self tests of threads, semaphores and synchronised lists, and the interactive tests behind \<^verbatim>\<open>-K\<close>, \<^verbatim>\<open>-C\<close> and \<^verbatim>\<open>-N\<close>.  The creation of sockets, signals and delays
  (\<^verbatim>\<open>lib/sysdep.cc\<close>), which are calls of the host.  Class \<open>Console\<close>, \<^verbatim>\<open>synchcons.cc\<close>, \<^verbatim>\<open>progtest.cc\<close> and the \<^verbatim>\<open>tempCodeRunnerFile\<close> copies, which the kernel does not use.  User
  programs, the converter \<^verbatim>\<open>coff2noff\<close> and the C++ tutorial, which are other programs.
\<close>

section \<open>Programs do not reach each other's memory\<close>

text \<open>The machine runs a user program: instructions up to the first exception.\<close>

fun run_user :: "nat \<Rightarrow> Machine \<Rightarrow> Machine run" where
  "run_user 0 m = Inr m"
| "run_user (Suc n) m = bind_run (OneInstruction m) (\<lambda>(ex, m). if ex = NoException then run_user n m else Inr m)"

lemma confined_trans:
  assumes "confined pt m m1" "paged m1 pt1" "perms pt1 = perms pt" "confined pt1 m1 m2"
  shows "confined pt m m2"
proof -
  have "writable pt1 = writable pt" using assms(3) by (simp add: writable_perms)
  with assms show ?thesis unfolding confined_def by metis
qed

lemma run_user_confined:
  "paged m pt \<Longrightarrow> uint (registers m LoadReg) < 32 \<Longrightarrow> run_user n m = Inr m' \<Longrightarrow> confined pt m m'"
proof (induction n arbitrary: m pt)
  case 0
  then show ?case by (auto simp: confined_def)
next
  case (Suc n)
  obtain ex m1 where m1: "OneInstruction m = Inr (ex, m1)" "confined pt m m1"
    using OneInstruction_confined[OF Suc(2,3)] Suc(4) by (auto simp: run_simps)
  then obtain pt1 where pt1: "paged m1 pt1" "perms pt1 = perms pt" "uint (registers m1 LoadReg) < 32" by (auto simp: confined_def)
  show ?case
  proof (cases "ex = NoException")
    case True
    then have "run_user n m1 = Inr m'" using Suc(4) m1(1) by simp
    from confined_trans[OF m1(2) pt1(1,2) Suc(1)[OF pt1(1,3) this]] show ?thesis .
  qed (use Suc(4) m1 in simp)
qed

lemma writable_frames: "writable pt \<subseteq> frames pt"
  by (auto simp: writable_def frames_def)

lemma loaded_program_confined:
  assumes "asPageTable sp = Some pt" "asNumPages sp = Some (word_of_int (int (length pt)))" "length pt \<le> 128" "tlb m = None"
    "bind_run (Execute sp m) (run_user n) = Inr m'" "int a div PageSize \<notin> frames pt"
  shows "mainMemory m' a = mainMemory m a"
proof -
  obtain m0 where m0: "Execute sp m = Inr m0" "paged m0 pt" "mainMemory m0 = mainMemory m" "registers m0 LoadReg = 0"
    using Execute_paged[OF assms(1,2) _ assms(4)] assms(3) by (fastforce simp: reg_defs)
  then have "confined pt m0 m'" using run_user_confined[of m0 pt n m'] assms(5) by simp
  then show ?thesis using assms(6) m0(3) writable_frames[of pt] unfolding confined_def by (metis subsetD)
qed



end
